(* ===== verification/Xv_Prelude.thy ===== *)
theory Xv_Prelude
  imports Main "HOL-Library.Word"
begin

text \<open>
  Shared vocabulary of the development.

  \<^item> Machine integers: the kernel's \<open>uint8\<close>, \<open>uint16\<close>, \<open>uint32\<close> and \<open>uint64\<close>
    (\<open>include/types.h\<close>) are words of that width.
  \<^item> Byte blocks: a C array of bytes is a list of bytes; \<open>slice\<close> reads a run of bytes,
    \<open>splice\<close> overwrites one, \<open>get32\<close> and \<open>put32\<close> read and write a little-endian
    32-bit field, as a C struct overlaid on the block does on x86.
  \<^item> Outcomes: kernel code is a function from a state to an \<open>outcome\<close>. It returns,
    or it calls \<open>panic\<close>, or it goes to sleep on a channel, or it leaves the defined
    behaviour of C (a null or out-of-range pointer).
  \<^item> A weakest-precondition calculus \<open>wp\<close> for total correctness: \<open>wp m Q s\<close> says that
    \<open>m\<close> started in \<open>s\<close> returns, in a state and with a result that satisfy \<open>Q\<close>.
\<close>

unbundle bit_operations_syntax

section \<open>Machine integers\<close>

type_synonym u8 = "8 word"
type_synonym u16 = "16 word"
type_synonym u32 = "32 word"
type_synonym u64 = "64 word"

text \<open>\<open>include/memlayout.h\<close>: the first kernel virtual address.\<close>

abbreviation KERNBASE :: u64 where "KERNBASE \<equiv> 0xFFFFFFFF80000000"

named_theorems bytes_simps \<open>reading and writing fields of byte blocks\<close>
named_theorems wp_intros \<open>weakest preconditions of the kernel's primitives\<close>

section \<open>Sleep channels\<close>

text \<open>
  \<open>sleep\<close> and \<open>wakeup\<close> of \<open>kernel/proc.c\<close> take the address of a kernel object as
  the channel. Distinct objects have distinct addresses, so a channel is modelled by the
  object it names.
\<close>

datatype chan =
    ChBuf nat            \<comment> \<open>a \<open>struct buf\<close> of the buffer cache\<close>
  | ChLog                \<comment> \<open>\<open>struct log log\<close>\<close>
  | ChInode bool nat     \<comment> \<open>an in-memory inode: which cache, which slot\<close>
  | ChProc nat           \<comment> \<open>a \<open>struct proc\<close>\<close>
  | ChTicks              \<comment> \<open>the tick counter\<close>
  | ChPipeRead u64       \<comment> \<open>\<open>\&p->nread\<close> of the pipe at that address\<close>
  | ChPipeWrite u64      \<comment> \<open>\<open>\&p->nwrite\<close> of the pipe at that address\<close>

section \<open>Outcomes of kernel code\<close>

datatype ('a, 's) outcome =
    Ret 'a 's            \<comment> \<open>normal return\<close>
  | Panic string         \<comment> \<open>\<open>panic(msg)\<close>: the machine stops\<close>
  | Sleep chan 's        \<comment> \<open>the caller is asleep on the channel\<close>
  | Fault string         \<comment> \<open>undefined behaviour of C\<close>

type_synonym ('s, 'a) kmon = "'s \<Rightarrow> ('a, 's) outcome"

definition kreturn :: "'a \<Rightarrow> ('s, 'a) kmon" where
  "kreturn a = (\<lambda>s. Ret a s)"

definition kbind :: "('s, 'a) kmon \<Rightarrow> ('a \<Rightarrow> ('s, 'b) kmon) \<Rightarrow> ('s, 'b) kmon" where
  "kbind m f = (\<lambda>s. case m s of
       Ret a s' \<Rightarrow> f a s'
     | Panic e \<Rightarrow> Panic e
     | Sleep c s' \<Rightarrow> Sleep c s'
     | Fault e \<Rightarrow> Fault e)"

abbreviation kthen :: "('s, 'a) kmon \<Rightarrow> ('s, 'b) kmon \<Rightarrow> ('s, 'b) kmon" where
  "kthen m n \<equiv> kbind m (\<lambda>_. n)"

definition kget :: "('s \<Rightarrow> 'a) \<Rightarrow> ('s, 'a) kmon" where
  "kget f = (\<lambda>s. Ret (f s) s)"

definition kmodify :: "('s \<Rightarrow> 's) \<Rightarrow> ('s, unit) kmon" where
  "kmodify f = (\<lambda>s. Ret () (f s))"

definition kpanic :: "string \<Rightarrow> ('s, 'a) kmon" where
  "kpanic e = (\<lambda>s. Panic e)"

definition kfault :: "string \<Rightarrow> ('s, 'a) kmon" where
  "kfault e = (\<lambda>s. Fault e)"

text \<open>\<open>if (c) panic(msg);\<close>\<close>

definition kpanic_if :: "('s \<Rightarrow> bool) \<Rightarrow> string \<Rightarrow> ('s, unit) kmon" where
  "kpanic_if c e = (\<lambda>s. if c s then Panic e else Ret () s)"

subsection \<open>Weakest preconditions\<close>

definition wp :: "('s, 'a) kmon \<Rightarrow> ('a \<Rightarrow> 's \<Rightarrow> bool) \<Rightarrow> 's \<Rightarrow> bool" where
  "wp m Q s = (case m s of Ret a s' \<Rightarrow> Q a s' | _ \<Rightarrow> False)"

section \<open>Byte blocks\<close>

definition slice :: "nat \<Rightarrow> nat \<Rightarrow> 'a list \<Rightarrow> 'a list" where
  "slice off n bs = take n (drop off bs)"

definition splice :: "nat \<Rightarrow> 'a list \<Rightarrow> 'a list \<Rightarrow> 'a list" where
  "splice off xs bs = take off bs @ xs @ drop (off + length xs) bs"

definition bytes32 :: "u32 \<Rightarrow> u8 list" where
  "bytes32 w = [ucast w, ucast (drop_bit 8 w), ucast (drop_bit 16 w), ucast (drop_bit 24 w)]"

definition word32 :: "u8 list \<Rightarrow> u32" where
  "word32 bs = ucast (bs ! 0) OR push_bit 8 (ucast (bs ! 1)) OR
     push_bit 16 (ucast (bs ! 2)) OR push_bit 24 (ucast (bs ! 3))"

definition bytes16 :: "u16 \<Rightarrow> u8 list" where
  "bytes16 w = [ucast w, ucast (drop_bit 8 w)]"

definition word16 :: "u8 list \<Rightarrow> u16" where
  "word16 bs = ucast (bs ! 0) OR push_bit 8 (ucast (bs ! 1))"

definition get32 :: "nat \<Rightarrow> u8 list \<Rightarrow> u32" where
  "get32 off bs = word32 (slice off 4 bs)"

definition put32 :: "nat \<Rightarrow> u32 \<Rightarrow> u8 list \<Rightarrow> u8 list" where
  "put32 off w bs = splice off (bytes32 w) bs"

definition get16 :: "nat \<Rightarrow> u8 list \<Rightarrow> u16" where
  "get16 off bs = word16 (slice off 2 bs)"

definition put16 :: "nat \<Rightarrow> u16 \<Rightarrow> u8 list \<Rightarrow> u8 list" where
  "put16 off w bs = splice off (bytes16 w) bs"

section \<open>Lemmas on machine integers\<close>

lemma u64_bound: "unat (a :: u64) < 18446744073709551616"
  using unsigned_less [where 'a = nat, of a] by simp

lemma u32_bound: "unat (a :: u32) < 4294967296"
  using unsigned_less [where 'a = nat, of a] by simp

lemma unat_mod_word: "unat (a mod b) = unat a mod unat b"
  by (simp add: unat_mod_distrib)

lemma u64_of_nat_small: "k < 18446744073709551616 \<Longrightarrow> unat (of_nat k :: u64) = k"
  by (simp add: unat_of_nat)

lemma u32_of_nat_small: "k < 4294967296 \<Longrightarrow> unat (of_nat k :: u32) = k"
  by (simp add: unat_of_nat)

lemma u32_unat_plus:
  "unat a + unat b < 4294967296 \<Longrightarrow> unat (a + b :: u32) = unat a + unat b"
  by (simp add: unat_word_ariths)

lemma u64_unat_plus:
  "unat a + unat b < 18446744073709551616 \<Longrightarrow> unat (a + b :: u64) = unat a + unat b"
  by (simp add: unat_word_ariths)

section \<open>Lemmas on outcomes\<close>

lemma wp_iff: "wp m Q s \<longleftrightarrow> (\<exists>a s'. m s = Ret a s' \<and> Q a s')"
  by (auto simp: wp_def split: outcome.splits)

lemma wp_retI: "m s = Ret a s' \<Longrightarrow> Q a s' \<Longrightarrow> wp m Q s"
  by (simp add: wp_def)

lemma wp_return [simp]: "wp (kreturn a) Q s = Q a s"
  by (simp add: wp_def kreturn_def)

lemma wp_bind [simp]: "wp (kbind m f) Q s = wp m (\<lambda>a. wp (f a) Q) s"
  by (simp add: wp_def kbind_def split: outcome.splits)

lemma wp_get [simp]: "wp (kget f) Q s = Q (f s) s"
  by (simp add: wp_def kget_def)

lemma wp_modify [simp]: "wp (kmodify f) Q s = Q () (f s)"
  by (simp add: wp_def kmodify_def)

lemma wp_panic [simp]: "wp (kpanic e) Q s = False"
  by (simp add: wp_def kpanic_def)

lemma wp_fault [simp]: "wp (kfault e) Q s = False"
  by (simp add: wp_def kfault_def)

lemma wp_panic_if [simp]: "wp (kpanic_if c e) Q s = (\<not> c s \<and> Q () s)"
  by (simp add: wp_def kpanic_if_def)

lemma wp_if [simp]: "wp (if b then m else n) Q s = (if b then wp m Q s else wp n Q s)"
  by simp

lemma wp_mono: "wp m P s \<Longrightarrow> (\<And>a s'. P a s' \<Longrightarrow> Q a s') \<Longrightarrow> wp m Q s"
  by (auto simp: wp_iff)

lemma wp_conj: "wp m P s \<Longrightarrow> wp m Q s \<Longrightarrow> wp m (\<lambda>a s'. P a s' \<and> Q a s') s"
  by (auto simp: wp_iff)

lemma kbind_Ret: "m s = Ret a s' \<Longrightarrow> kbind m f s = f a s'"
  by (simp add: kbind_def)

lemma kbind_Panic: "m s = Panic e \<Longrightarrow> kbind m f s = Panic e"
  by (simp add: kbind_def)

lemma kbind_assoc: "kbind (kbind m f) g = kbind m (\<lambda>a. kbind (f a) g)"
  by (auto simp: kbind_def fun_eq_iff split: outcome.splits)

lemma kbind_Ret_iff:
  "kbind m f s = Ret b s'' \<longleftrightarrow> (\<exists>a s'. m s = Ret a s' \<and> f a s' = Ret b s'')"
  by (auto simp: kbind_def split: outcome.splits)

lemmas kmon_defs = kreturn_def kbind_def kget_def kmodify_def kpanic_def kfault_def kpanic_if_def

section \<open>Lemmas on byte blocks\<close>

lemma length_slice [simp]: "length (slice off n bs) = min n (length bs - off)"
  by (simp add: slice_def)

lemma length_splice [simp]:
  "off + length xs \<le> length bs \<Longrightarrow> length (splice off xs bs) = length bs"
  by (simp add: splice_def)

lemma nth_slice: "off + n \<le> length bs \<Longrightarrow> i < n \<Longrightarrow> slice off n bs ! i = bs ! (off + i)"
  by (simp add: slice_def)

lemma nth_splice:
  "off + length xs \<le> length bs \<Longrightarrow> i < length bs \<Longrightarrow>
   splice off xs bs ! i = (if off \<le> i \<and> i < off + length xs then xs ! (i - off) else bs ! i)"
  by (auto simp: splice_def nth_append min_def)

lemma slice_splice_same [simp, bytes_simps]:
  "off + length xs \<le> length bs \<Longrightarrow> n = length xs \<Longrightarrow> slice off n (splice off xs bs) = xs"
  by (simp add: slice_def splice_def)

lemma slice_splice_other [bytes_simps]:
  assumes "off + length xs \<le> length bs" and "o2 + n \<le> length bs"
    and "o2 + n \<le> off \<or> off + length xs \<le> o2"
  shows "slice o2 n (splice off xs bs) = slice o2 n bs"
  using assms by (intro nth_equalityI) (auto simp: nth_slice nth_splice)

lemma slice_all: "length bs = n \<Longrightarrow> slice 0 n bs = bs"
  by (simp add: slice_def)

lemma splice_all: "length xs = length bs \<Longrightarrow> splice 0 xs bs = xs"
  by (simp add: splice_def)

lemma splice_self: "off + n \<le> length bs \<Longrightarrow> splice off (slice off n bs) bs = bs"
  by (intro nth_equalityI) (auto simp: nth_slice nth_splice)

lemma length_bytes32 [simp]: "length (bytes32 w) = 4"
  by (simp add: bytes32_def)

lemma length_bytes16 [simp]: "length (bytes16 w) = 2"
  by (simp add: bytes16_def)

lemma word32_bytes32 [simp]: "word32 (bytes32 w) = w"
proof (rule bit_word_eqI)
  fix n assume "n < LENGTH(32)"
  then consider "n < 8" | "8 \<le> n" "n < 16" | "16 \<le> n" "n < 24" | "24 \<le> n" "n < 32"
    by fastforce
  then show "bit (word32 (bytes32 w)) n = bit w n"
    by cases (auto simp: word32_def bytes32_def bit_simps)
qed

lemma word16_bytes16 [simp]: "word16 (bytes16 w) = w"
proof (rule bit_word_eqI)
  fix n assume "n < LENGTH(16)"
  then consider "n < 8" | "8 \<le> n" "n < 16"
    by fastforce
  then show "bit (word16 (bytes16 w)) n = bit w n"
    by cases (auto simp: word16_def bytes16_def bit_simps)
qed

lemma length_put32 [simp]: "off + 4 \<le> length bs \<Longrightarrow> length (put32 off w bs) = length bs"
  by (simp add: put32_def)

lemma length_put16 [simp]: "off + 2 \<le> length bs \<Longrightarrow> length (put16 off w bs) = length bs"
  by (simp add: put16_def)

lemma get32_put32 [simp]: "off + 4 \<le> length bs \<Longrightarrow> get32 off (put32 off w bs) = w"
  by (simp add: get32_def put32_def)

lemma get32_put32_other [bytes_simps]:
  "off + 4 \<le> length bs \<Longrightarrow> o2 + 4 \<le> length bs \<Longrightarrow> o2 + 4 \<le> off \<or> off + 4 \<le> o2 \<Longrightarrow>
   get32 o2 (put32 off w bs) = get32 o2 bs"
  by (simp add: get32_def put32_def slice_splice_other)

lemma get16_put16 [simp]: "off + 2 \<le> length bs \<Longrightarrow> get16 off (put16 off w bs) = w"
  by (simp add: get16_def put16_def)

end
