(* ===== verification/Kstring.thy ===== *)
theory Kstring
  imports Xv_Prelude
begin

text \<open>
  The kernel's string routines, \<open>kernel/sysstring.c\<close> (the names \<open>memmove\<close>, \<open>strncmp\<close>, \dots{}
  of the kernel are macros for them, \<open>include/kernel/string.h\<close>). They work on raw memory,
  a function from 64-bit addresses to bytes, because what \<open>memmove\<close> does depends on whether
  its source and its destination overlap. A C \<open>int\<close> or \<open>uint\<close> length is a number, a loop
  over it is a recursion on it.

  The lemmas say that \<open>memmove\<close> copies whatever the overlap, that the word-wise \<open>memset\<close>
  is the byte-wise one, that \<open>strncmp\<close> and \<open>memcmp\<close> decide equality of the bytes they
  look at, and what \<open>strncpy\<close> and \<open>safestrcpy\<close> leave in their destination.
\<close>

unbundle bit_operations_syntax

type_synonym memory = "u64 \<Rightarrow> u8"

section \<open>Definitions\<close>

text \<open>\<open>stosb\<close> and \<open>stosl\<close> of \<open>include/x86.h\<close>: the string-store instructions.\<close>

fun stosb :: "u64 \<Rightarrow> u8 \<Rightarrow> nat \<Rightarrow> memory \<Rightarrow> memory" where
  "stosb d c 0 m = m"
| "stosb d c (Suc n) m = stosb (d + 1) c n (m(d := c))"

fun stosl :: "u64 \<Rightarrow> u32 \<Rightarrow> nat \<Rightarrow> memory \<Rightarrow> memory" where
  "stosl d w 0 m = m"
| "stosl d w (Suc n) m = stosl (d + 4) w n
     (m(d := ucast w, d + 1 := ucast (drop_bit 8 w), d + 2 := ucast (drop_bit 16 w),
        d + 3 := ucast (drop_bit 24 w)))"

definition sys_memset :: "u64 \<Rightarrow> u32 \<Rightarrow> u32 \<Rightarrow> memory \<Rightarrow> memory" where
  "sys_memset dst c n m =
     (if dst mod 4 = 0 \<and> n mod 4 = 0 then
        (let c = c AND 0xFF in
         stosl dst (push_bit 24 c OR push_bit 16 c OR push_bit 8 c OR c) (unat (n div 4)) m)
      else stosb dst (ucast c) (unat n) m)"

fun copy_up :: "u64 \<Rightarrow> u64 \<Rightarrow> nat \<Rightarrow> memory \<Rightarrow> memory" where
  "copy_up d s 0 m = m"
| "copy_up d s (Suc n) m = copy_up (d + 1) (s + 1) n (m(d := m s))"

fun copy_down :: "u64 \<Rightarrow> u64 \<Rightarrow> nat \<Rightarrow> memory \<Rightarrow> memory" where
  "copy_down d s 0 m = m"
| "copy_down d s (Suc n) m = copy_down (d - 1) (s - 1) n (m(d - 1 := m (s - 1)))"

definition sys_memmove :: "u64 \<Rightarrow> u64 \<Rightarrow> u32 \<Rightarrow> memory \<Rightarrow> memory" where
  "sys_memmove dst src n m =
     (if src < dst \<and> src + ucast n > dst
      then copy_down (dst + ucast n) (src + ucast n) (unat n) m
      else copy_up dst src (unat n) m)"

text \<open>The copying loop \<open>while (--n > 0 \&\& (*s++ = *t++) != 0)\<close>; the result is the memory and \<open>s\<close>.\<close>

fun safestrcpy_loop :: "u64 \<Rightarrow> u64 \<Rightarrow> nat \<Rightarrow> memory \<Rightarrow> memory \<times> u64" where
  "safestrcpy_loop s t 0 m = (m, s)"
| "safestrcpy_loop s t (Suc n) m =
     (let m' = m(s := m t) in
      if m t \<noteq> 0 then safestrcpy_loop (s + 1) (t + 1) n m' else (m', s + 1))"

definition sys_safestrcpy :: "u64 \<Rightarrow> u64 \<Rightarrow> int \<Rightarrow> memory \<Rightarrow> memory" where
  "sys_safestrcpy s t n m =
     (if n \<le> 0 then m
      else (let (m', s') = safestrcpy_loop s t (nat (n - 1)) m in m'(s' := 0)))"

text \<open>\<open>for (n = 0; s[n]; n++);\<close> does not end on a memory without a zero byte.\<close>

partial_function (option) strlen_loop :: "u64 \<Rightarrow> nat \<Rightarrow> memory \<Rightarrow> nat option" where
  "strlen_loop s n m = (if m (s + of_nat n) = 0 then Some n else strlen_loop s (Suc n) m)"

definition sys_strlen :: "u64 \<Rightarrow> memory \<Rightarrow> nat option" where
  "sys_strlen s m = strlen_loop s 0 m"

fun strncmp_loop :: "u64 \<Rightarrow> u64 \<Rightarrow> nat \<Rightarrow> memory \<Rightarrow> int" where
  "strncmp_loop p q 0 m = 0"
| "strncmp_loop p q (Suc n) m =
     (if m p \<noteq> 0 \<and> m p = m q then strncmp_loop (p + 1) (q + 1) n m
      else int (unat (m p)) - int (unat (m q)))"

definition sys_strncmp :: "u64 \<Rightarrow> u64 \<Rightarrow> u32 \<Rightarrow> memory \<Rightarrow> int" where
  "sys_strncmp p q n m = strncmp_loop p q (unat n) m"

fun strncpy_loop :: "u64 \<Rightarrow> u64 \<Rightarrow> nat \<Rightarrow> memory \<Rightarrow> memory" where
  "strncpy_loop s t 0 m = m"
| "strncpy_loop s t (Suc n) m =
     (let m' = m(s := m t) in
      if m t \<noteq> 0 then strncpy_loop (s + 1) (t + 1) n m' else stosb (s + 1) 0 n m')"

definition sys_strncpy :: "u64 \<Rightarrow> u64 \<Rightarrow> int \<Rightarrow> memory \<Rightarrow> memory" where
  "sys_strncpy s t n m = strncpy_loop s t (nat n) m"

fun memcmp_loop :: "u64 \<Rightarrow> u64 \<Rightarrow> nat \<Rightarrow> memory \<Rightarrow> int" where
  "memcmp_loop p q 0 m = 0"
| "memcmp_loop p q (Suc n) m =
     (if m p \<noteq> m q then int (unat (m p)) - int (unat (m q))
      else memcmp_loop (p + 1) (q + 1) n m)"

definition sys_memcmp :: "u64 \<Rightarrow> u64 \<Rightarrow> u32 \<Rightarrow> memory \<Rightarrow> int" where
  "sys_memcmp p q n m = memcmp_loop p q (unat n) m"

subsection \<open>What the routines are about\<close>

text \<open>The \<open>n\<close> bytes at an address, and the C string of at most \<open>n\<close> bytes at an address.\<close>

definition bytes_at :: "memory \<Rightarrow> u64 \<Rightarrow> nat \<Rightarrow> u8 list" where
  "bytes_at m p n = map (\<lambda>i. m (p + of_nat i)) [0..<n]"

definition cstrn :: "memory \<Rightarrow> u64 \<Rightarrow> nat \<Rightarrow> u8 list" where
  "cstrn m p n = takeWhile (\<lambda>c. c \<noteq> 0) (bytes_at m p n)"

text \<open>No byte of the \<open>n\<close> bytes at \<open>p\<close> is a byte of the \<open>k\<close> bytes at \<open>q\<close>.\<close>

definition disjoint_ranges :: "u64 \<Rightarrow> nat \<Rightarrow> u64 \<Rightarrow> nat \<Rightarrow> bool" where
  "disjoint_ranges p n q k = (\<forall>i<n. \<forall>j<k. p + of_nat i \<noteq> q + of_nat j)"

section \<open>Addresses\<close>

lemma of_nat_u64_eq_iff:
  assumes "i < 2 ^ 64" and "j < 2 ^ 64"
  shows "(of_nat i :: u64) = of_nat j \<longleftrightarrow> i = j"
proof -
  have "unat (of_nat i :: u64) = i" and "unat (of_nat j :: u64) = j"
    using assms by (simp_all add: unat_of_nat)
  then show ?thesis by metis
qed

lemma addr_eq_iff [simp]:
  "i < 2 ^ 64 \<Longrightarrow> j < 2 ^ 64 \<Longrightarrow> (p :: u64) + of_nat i = p + of_nat j \<longleftrightarrow> i = j"
  by (simp add: of_nat_u64_eq_iff)

lemma bytes_at_0 [simp]: "bytes_at m p 0 = []"
  by (simp add: bytes_at_def)

lemma length_bytes_at [simp]: "length (bytes_at m p n) = n"
  by (simp add: bytes_at_def)

lemma bytes_at_Suc: "bytes_at m p (Suc n) = m p # bytes_at m (p + 1) n"
  by (intro nth_equalityI) (auto simp: bytes_at_def nth_Cons algebra_simps simp del: upt_Suc split: nat.splits)

lemma bytes_at_cong:
  "(\<And>i. i < n \<Longrightarrow> m (p + of_nat i) = m' (q + of_nat i)) \<Longrightarrow> bytes_at m p n = bytes_at m' q n"
  by (simp add: bytes_at_def)

section \<open>memset\<close>

lemma ex_less_Suc_addr:
  "(\<exists>k<Suc n. a = (d :: u64) + of_nat k) \<longleftrightarrow> a = d \<or> (\<exists>k<n. a = d + 1 + of_nat k)"
  by (auto simp: less_Suc_eq_0_disj algebra_simps)

lemma stosb_apply: "stosb d c n m a = (if \<exists>k<n. a = d + of_nat k then c else m a)"
proof (induction n arbitrary: d m)
  case 0
  then show ?case by simp
next
  case (Suc n)
  then show ?case by (simp only: stosb.simps ex_less_Suc_addr) auto
qed

lemma stosl_stosb:
  assumes "\<And>i. i < 4 \<Longrightarrow> ucast (drop_bit (8 * i) w) = c"
  shows "stosl d w n m = stosb d c (4 * n) m"
proof (induction n arbitrary: d m)
  case 0
  then show ?case by simp
next
  case (Suc n)
  have bytes: "ucast w = c" "ucast (drop_bit 8 w) = c" "ucast (drop_bit 16 w) = c"
      "ucast (drop_bit 24 w) = c"
    using assms [of 0] assms [of 1] assms [of 2] assms [of 3] by simp_all
  have four: "4 * Suc n = Suc (Suc (Suc (Suc (4 * n))))" by simp
  have "d + 1 + 1 = d + 2" "d + 2 + 1 = d + 3" "d + 3 + 1 = d + 4" by simp_all
  then show ?case by (simp only: four stosb.simps stosl.simps bytes Suc.IH)
qed

lemma and_0xFF: "(c :: u32) AND 0xFF = take_bit 8 c"
  by (simp add: take_bit_eq_mask mask_eq_exp_minus_1)

lemma spread_byte:
  fixes c :: u32
  assumes "i < 4"
  defines "b \<equiv> take_bit 8 c"
  shows "ucast (drop_bit (8 * i) (push_bit 24 b OR push_bit 16 b OR push_bit 8 b OR b)) = (ucast c :: u8)"
proof (rule bit_word_eqI)
  fix n assume n: "n < LENGTH(8)"
  from assms(1) consider "i = 0" | "i = 1" | "i = 2" | "i = 3" by linarith
  then show "bit (ucast (drop_bit (8 * i) (push_bit 24 b OR push_bit 16 b OR push_bit 8 b OR b)) :: u8) n
      = bit (ucast c :: u8) n"
    using n by cases (auto simp: b_def bit_simps)
qed

lemma sys_memset_stosb: "sys_memset dst c n m = stosb dst (ucast c) (unat n) m"
proof (cases "dst mod 4 = 0 \<and> n mod 4 = 0")
  case True
  have "unat (n mod 4) = unat n mod 4" "unat (n div 4) = unat n div 4"
    by (simp_all add: unat_mod_distrib unat_div_distrib)
  moreover from True have "unat (n mod 4) = 0" by simp
  ultimately have n: "4 * unat (n div 4) = unat n" by presburger
  from True show ?thesis
    unfolding sys_memset_def Let_def and_0xFF by (simp only: if_True simp_thms stosl_stosb [OF spread_byte] n)
next
  case False
  then show ?thesis unfolding sys_memset_def by (simp only: if_False)
qed

section \<open>memmove\<close>

lemma copy_up_other: "(\<And>k. k < n \<Longrightarrow> a \<noteq> d + of_nat k) \<Longrightarrow> copy_up d s n m a = m a"
proof (induction n arbitrary: d s m)
  case (Suc n)
  have "a \<noteq> d" using Suc.prems [of 0] by simp
  moreover have "a \<noteq> d + 1 + of_nat k" if "k < n" for k
    using Suc.prems [of "Suc k"] that by (simp add: algebra_simps)
  ultimately show ?case by (simp only: copy_up.simps Suc.IH fun_upd_other not_False_eq_True)
qed simp

lemma copy_up_same:
  assumes "\<And>i j. j < i \<Longrightarrow> i < n \<Longrightarrow> s + of_nat i \<noteq> d + of_nat j" and "n \<le> 2 ^ 64" and "k < n"
  shows "copy_up d s n m (d + of_nat k) = m (s + of_nat k)"
  using assms
proof (induction n arbitrary: d s m k)
  case (Suc n)
  have pres: "s + 1 + of_nat i \<noteq> d + 1 + of_nat j" if "j < i" "i < n" for i j
    using Suc.prems(1) [of "Suc j" "Suc i"] that by (simp add: algebra_simps)
  show ?case
  proof (cases k)
    case 0
    have "d \<noteq> d + 1 + of_nat i" if "i < n" for i
    proof -
      have "d + of_nat 0 \<noteq> d + of_nat (Suc i)"
        using that Suc.prems(2) by (subst addr_eq_iff) auto
      then show ?thesis by (simp add: algebra_simps)
    qed
    then show ?thesis using 0 by (simp add: copy_up_other fun_upd_same del: fun_upd_apply)
  next
    case (Suc i)
    then have "i < n" using Suc.prems by simp
    have "s + of_nat (Suc i) \<noteq> d + of_nat 0"
      by (rule Suc.prems(1)) (use \<open>i < n\<close> in auto)
    then have ne: "s + 1 + of_nat i \<noteq> d" by (simp add: algebra_simps)
    have "copy_up (d + 1) (s + 1) n (m(d := m s)) (d + 1 + of_nat i) = (m(d := m s)) (s + 1 + of_nat i)"
      by (rule Suc.IH) (use pres Suc.prems(2) \<open>i < n\<close> in auto)
    with ne Suc show ?thesis by (simp add: algebra_simps)
  qed
qed simp

lemma copy_down_other:
  "(\<And>k. k < n \<Longrightarrow> a \<noteq> d - 1 - of_nat k) \<Longrightarrow> copy_down d s n m a = m a"
proof (induction n arbitrary: d s m)
  case (Suc n)
  have "a \<noteq> d - 1" using Suc.prems [of 0] by simp
  moreover have "a \<noteq> d - 1 - 1 - of_nat k" if "k < n" for k
    using Suc.prems [of "Suc k"] that by (simp add: algebra_simps)
  ultimately show ?case by (simp only: copy_down.simps Suc.IH fun_upd_other not_False_eq_True)
qed simp

text \<open>The copy from the top down is right when no source byte lies below an earlier destination byte.\<close>

lemma copy_down_same:
  assumes "\<And>i j. j < i \<Longrightarrow> i < n \<Longrightarrow> s - 1 - of_nat i \<noteq> d - 1 - of_nat j" and "n \<le> 2 ^ 64" and "k < n"
  shows "copy_down d s n m (d - 1 - of_nat k) = m (s - 1 - of_nat k)"
  using assms
proof (induction n arbitrary: d s m k)
  case (Suc n)
  have pres: "s - 1 - 1 - of_nat i \<noteq> d - 1 - 1 - of_nat j" if "j < i" "i < n" for i j
    using Suc.prems(1) [of "Suc j" "Suc i"] that by (simp add: algebra_simps)
  show ?case
  proof (cases k)
    case 0
    have "d - 1 \<noteq> d - 1 - 1 - of_nat i" if "i < n" for i
    proof -
      have "(0 :: u64) + of_nat 0 \<noteq> 0 + of_nat (Suc i)"
        using that Suc.prems(2) by (subst addr_eq_iff) auto
      then show ?thesis by (simp add: algebra_simps)
    qed
    then show ?thesis using 0 by (simp add: copy_down_other fun_upd_same del: fun_upd_apply)
  next
    case (Suc i)
    then have "i < n" using Suc.prems by simp
    have "s - 1 - of_nat (Suc i) \<noteq> d - 1 - of_nat 0"
      by (rule Suc.prems(1)) (use \<open>i < n\<close> in auto)
    then have ne: "s - 1 - 1 - of_nat i \<noteq> d - 1" by (simp add: algebra_simps)
    have "copy_down (d - 1) (s - 1) n (m(d - 1 := m (s - 1))) (d - 1 - 1 - of_nat i)
        = (m(d - 1 := m (s - 1))) (s - 1 - 1 - of_nat i)"
      by (rule Suc.IH) (use pres Suc.prems(2) \<open>i < n\<close> in auto)
    with ne Suc show ?thesis by (simp add: algebra_simps)
  qed
qed simp

lemma unat_addr: "unat (p :: u64) + k < 2 ^ 64 \<Longrightarrow> unat (p + of_nat k) = unat p + k"
  by (simp add: unat_word_ariths unat_of_nat)

lemma addr_neqI:
  assumes "unat (p :: u64) + i < 2 ^ 64" and "unat q + j < 2 ^ 64" and "unat p + i \<noteq> unat q + j"
  shows "p + of_nat i \<noteq> q + of_nat j"
  using assms unat_addr [of p i] unat_addr [of q j] by metis

lemma sys_memmove_same:
  assumes src: "unat src + unat n < 2 ^ 64" and dst: "unat dst + unat n \<le> 2 ^ 64" and k: "k < unat n"
  shows "sys_memmove dst src n m (dst + of_nat k) = m (src + of_nat k)"
proof (cases "src < dst \<and> src + ucast n > dst")
  case True
  have ends: "src + of_nat (unat n) - 1 - of_nat i \<noteq> dst + of_nat (unat n) - 1 - of_nat j"
    if "j < i" "i < unat n" for i j
  proof -
    have "src + of_nat j \<noteq> dst + of_nat i"
      using that True src dst by (intro addr_neqI) (auto simp: word_less_nat_alt)
    then show ?thesis by (metis (no_types, opaque_lifting) add.commute add_diff_eq diff_diff_eq diff_eq_eq)
  qed
  define j where "j = unat n - 1 - k"
  have j: "j < unat n" "of_nat (unat n) - 1 - of_nat j = (of_nat k :: u64)"
    using k by (simp_all add: j_def)
  have "copy_down (dst + of_nat (unat n)) (src + of_nat (unat n)) (unat n) m
      (dst + of_nat (unat n) - 1 - of_nat j) = m (src + of_nat (unat n) - 1 - of_nat j)"
    by (rule copy_down_same) (use ends j dst in auto)
  moreover have "dst + of_nat (unat n) - 1 - of_nat j = dst + of_nat k"
      "src + of_nat (unat n) - 1 - of_nat j = src + of_nat k"
    using j(2) by (simp_all add: algebra_simps)
  ultimately have "copy_down (dst + of_nat (unat n)) (src + of_nat (unat n)) (unat n) m
      (dst + of_nat k) = m (src + of_nat k)"
    by (simp only:)
  with True show ?thesis by (simp add: sys_memmove_def)
next
  case False
  have "copy_up dst src (unat n) m (dst + of_nat k) = m (src + of_nat k)"
  proof (rule copy_up_same)
    fix i j assume ij: "j < i" "i < unat n"
    have "unat (src + ucast n) = unat src + unat n"
      using unat_addr [OF src] by simp
    with False have "unat dst \<le> unat src \<or> unat src + unat n \<le> unat dst"
      by (auto simp: word_less_nat_alt)
    then show "src + of_nat i \<noteq> dst + of_nat j"
      using ij src dst by (intro addr_neqI) auto
  qed (use k dst in auto)
  with False show ?thesis by (auto simp: sys_memmove_def)
qed

lemma sys_memmove_other:
  assumes "\<And>k. k < unat n \<Longrightarrow> a \<noteq> dst + of_nat k"
  shows "sys_memmove dst src n m a = m a"
proof -
  have "a \<noteq> dst + ucast n - 1 - of_nat k" if "k < unat n" for k
  proof -
    have "dst + ucast n - 1 - of_nat k = dst + of_nat (unat n - 1 - k)"
      using that by (simp add: algebra_simps)
    moreover have "a \<noteq> dst + of_nat (unat n - 1 - k)"
      by (rule assms) (use that in simp)
    ultimately show ?thesis by (simp only: not_False_eq_True)
  qed
  then show ?thesis by (simp add: sys_memmove_def copy_up_other copy_down_other assms)
qed

section \<open>Comparing\<close>

lemma cstrn_0 [simp]: "cstrn m p 0 = []"
  by (simp add: cstrn_def)

lemma cstrn_Suc: "cstrn m p (Suc n) = (if m p \<noteq> 0 then m p # cstrn m (p + 1) n else [])"
  by (simp add: cstrn_def bytes_at_Suc)

lemma length_cstrn: "length (cstrn m p n) \<le> n"
  unfolding cstrn_def by (metis length_bytes_at length_takeWhile_le)

lemma cstrn_cong:
  "(\<And>i. i < n \<Longrightarrow> m (p + of_nat i) = m' (q + of_nat i)) \<Longrightarrow> cstrn m p n = cstrn m' q n"
  unfolding cstrn_def by (metis bytes_at_cong)

lemma uint_u8_eq_iff: "uint (a :: u8) = uint b \<longleftrightarrow> a = b"
  by (metis word_uint_eqI)

lemma strncmp_loop_0_iff: "strncmp_loop p q n m = 0 \<longleftrightarrow> cstrn m p n = cstrn m q n"
proof (induction n arbitrary: p q)
  case (Suc n)
  then show ?case by (auto simp: cstrn_Suc uint_0_iff uint_u8_eq_iff)
qed simp

lemma memcmp_loop_0_iff: "memcmp_loop p q n m = 0 \<longleftrightarrow> bytes_at m p n = bytes_at m q n"
proof (induction n arbitrary: p q)
  case (Suc n)
  then show ?case by (auto simp: bytes_at_Suc uint_u8_eq_iff)
qed simp

lemma strncmp_loop_swap: "strncmp_loop p q n m + strncmp_loop q p n m = 0"
  by (induction n arbitrary: p q) auto

lemma strlen_loop_eq:
  assumes "m (s + of_nat k) = 0" and "\<And>i. j \<le> i \<Longrightarrow> i < k \<Longrightarrow> m (s + of_nat i) \<noteq> 0" and "j \<le> k"
  shows "strlen_loop s j m = Some k"
  using assms
proof (induction "k - j" arbitrary: j)
  case 0
  then show ?case by (subst strlen_loop.simps) simp
next
  case (Suc d)
  then have "strlen_loop s (Suc j) m = Some k" by (intro Suc.hyps(1)) auto
  with Suc show ?case by (subst strlen_loop.simps) simp
qed

section \<open>Copying strings\<close>

lemma stosb_other: "(\<And>k. k < n \<Longrightarrow> a \<noteq> d + of_nat k) \<Longrightarrow> stosb d c n m a = m a"
  by (auto simp: stosb_apply)

lemma bytes_at_stosb: "bytes_at (stosb d c n m) d n = replicate n c"
  by (intro nth_equalityI) (auto simp: bytes_at_def stosb_apply)

lemma addr_shift:
  assumes "\<And>k. k < Suc n \<Longrightarrow> a \<noteq> (d :: u64) + of_nat k"
  shows "a \<noteq> d" and "\<And>k. k < n \<Longrightarrow> a \<noteq> d + 1 + of_nat k"
proof -
  show "a \<noteq> d" using assms [of 0] by simp
  show "\<And>k. k < n \<Longrightarrow> a \<noteq> d + 1 + of_nat k"
    using assms [of "Suc k" for k] by (auto simp: algebra_simps)
qed

lemma addr_not_later: "n < 2 ^ 64 \<Longrightarrow> k < n \<Longrightarrow> (d :: u64) \<noteq> d + 1 + of_nat k"
  using addr_eq_iff [of 0 "Suc k" d] by (auto simp: algebra_simps)

lemma disjoint_rangesD:
  assumes "disjoint_ranges s (Suc n) t k"
  shows "\<And>i. i < k \<Longrightarrow> t + of_nat i \<noteq> s" and "disjoint_ranges (s + 1) n t k"
proof -
  have *: "s + of_nat i \<noteq> t + of_nat j" if "i < Suc n" "j < k" for i j
    using assms that by (auto simp: disjoint_ranges_def)
  show "\<And>i. i < k \<Longrightarrow> t + of_nat i \<noteq> s" using * [of 0] by force
  show "disjoint_ranges (s + 1) n t k"
    unfolding disjoint_ranges_def
  proof (intro allI impI)
    fix i j assume "i < n" "j < k"
    with * [of "Suc i" j] show "s + 1 + of_nat i \<noteq> t + of_nat j" by (simp add: algebra_simps)
  qed
qed

lemma disjoint_ranges_tail:
  assumes "disjoint_ranges s n t (Suc k)" shows "disjoint_ranges s n (t + 1) k"
  unfolding disjoint_ranges_def
proof (intro allI impI)
  fix i j assume "i < n" "j < k"
  with assms have "s + of_nat i \<noteq> t + of_nat (Suc j)" unfolding disjoint_ranges_def by blast
  then show "s + of_nat i \<noteq> t + 1 + of_nat j" by (simp add: algebra_simps)
qed

lemma strncpy_loop_other:
  "(\<And>k. k < n \<Longrightarrow> a \<noteq> s + of_nat k) \<Longrightarrow> strncpy_loop s t n m a = m a"
proof (induction n arbitrary: s t m)
  case (Suc n)
  note sh = addr_shift [OF Suc.prems]
  show ?case using sh by (simp add: Let_def Suc.IH stosb_other)
qed simp

lemma strncpy_loop_bytes:
  assumes "disjoint_ranges s n t n" and "n < 2 ^ 64"
  shows "bytes_at (strncpy_loop s t n m) s n
    = cstrn m t n @ replicate (n - length (cstrn m t n)) 0"
  using assms
proof (induction n arbitrary: s t m)
  case (Suc n)
  define m' where "m' = m(s := m t)"
  note src = disjoint_rangesD [OF Suc.prems(1)]
  have later: "k < n \<Longrightarrow> s \<noteq> s + 1 + of_nat k" for k
    using Suc.prems(2) addr_not_later [of n] by auto
  have same: "cstrn m' (t + 1) n = cstrn m (t + 1) n"
  proof (rule cstrn_cong)
    fix i assume "i < n"
    with src(1) [of "Suc i"] show "m' (t + 1 + of_nat i) = m (t + 1 + of_nat i)"
      by (simp add: m'_def algebra_simps)
  qed
  show ?case
  proof (cases "m t = 0")
    case True
    then show ?thesis
      using stosb_other [of n s "s + 1" 0 m'] later
      by (simp add: bytes_at_Suc cstrn_Suc bytes_at_stosb m'_def)
  next
    case False
    have "bytes_at (strncpy_loop (s + 1) (t + 1) n m') (s + 1) n
        = cstrn m' (t + 1) n @ replicate (n - length (cstrn m' (t + 1) n)) 0"
      by (rule Suc.IH) (use disjoint_ranges_tail [OF src(2)] Suc.prems(2) in auto)
    with False show ?thesis
      using strncpy_loop_other [of n s "s + 1" "t + 1" m'] later
      by (simp add: bytes_at_Suc cstrn_Suc same Let_def flip: m'_def) (simp add: m'_def)
  qed
qed simp

text \<open>The loop of \<open>safestrcpy\<close> followed by its final store.\<close>

definition safestrcpy_run :: "u64 \<Rightarrow> u64 \<Rightarrow> nat \<Rightarrow> memory \<Rightarrow> memory" where
  "safestrcpy_run s t n m = (let (m', s') = safestrcpy_loop s t n m in m'(s' := 0))"

lemma safestrcpy_run_0: "safestrcpy_run s t 0 m = m(s := 0)"
  by (simp add: safestrcpy_run_def)

lemma safestrcpy_run_Suc:
  "safestrcpy_run s t (Suc n) m =
    (if m t \<noteq> 0 then safestrcpy_run (s + 1) (t + 1) n (m(s := m t)) else m(s := 0, s + 1 := 0))"
  by (simp add: safestrcpy_run_def Let_def)

lemma safestrcpy_run_other:
  "(\<And>k. k < Suc n \<Longrightarrow> a \<noteq> s + of_nat k) \<Longrightarrow> safestrcpy_run s t n m a = m a"
proof (induction n arbitrary: s t m)
  case 0
  then show ?case by (simp add: safestrcpy_run_0)
next
  case (Suc n)
  note sh = addr_shift [OF Suc.prems]
  have "a \<noteq> s + 1" using sh(2) [where k = 0] by simp
  with sh show ?case by (simp add: safestrcpy_run_Suc Suc.IH)
qed

lemma safestrcpy_run_cstrn:
  assumes "disjoint_ranges s (Suc n) t n" and "n < 2 ^ 64 - 1"
  shows "cstrn (safestrcpy_run s t n m) s (Suc n) = cstrn m t n"
  using assms
proof (induction n arbitrary: s t m)
  case 0
  then show ?case by (simp add: safestrcpy_run_0 cstrn_Suc)
next
  case (Suc n)
  define m' where "m' = m(s := m t)"
  note src = disjoint_rangesD [OF Suc.prems(1)]
  have later: "k < Suc n \<Longrightarrow> s \<noteq> s + 1 + of_nat k" for k
    using Suc.prems(2) addr_not_later [of "Suc n"] by auto
  have same: "cstrn m' (t + 1) n = cstrn m (t + 1) n"
  proof (rule cstrn_cong)
    fix i assume "i < n"
    with src(1) [of "Suc i"] show "m' (t + 1 + of_nat i) = m (t + 1 + of_nat i)"
      by (simp add: m'_def algebra_simps)
  qed
  show ?case
  proof (cases "m t = 0")
    case True
    then show ?thesis using later [of 0] by (simp add: safestrcpy_run_Suc cstrn_Suc)
  next
    case False
    have "cstrn (safestrcpy_run (s + 1) (t + 1) n m') (s + 1) (Suc n) = cstrn m' (t + 1) n"
      by (rule Suc.IH) (use disjoint_ranges_tail [OF src(2)] Suc.prems(2) in auto)
    moreover have "safestrcpy_run (s + 1) (t + 1) n m' s = m t"
      using safestrcpy_run_other [of n s "s + 1" "t + 1" m'] later by (simp add: m'_def)
    ultimately show ?thesis
      using False same by (simp add: safestrcpy_run_Suc cstrn_Suc [of _ s] cstrn_Suc [of _ t] flip: m'_def)
  qed
qed

section \<open>Properties\<close>

text \<open>
  C20: \<open>memmove\<close> copies. Whatever the overlap of the two ranges, the destination holds
  afterwards the bytes the source held before, and no byte outside the destination changes.
  The ranges must not run past the end of the address space.
\<close>

theorem memmove_copies:
  assumes "unat src + unat n < 2 ^ 64" and "unat dst + unat n \<le> 2 ^ 64"
  shows "bytes_at (sys_memmove dst src n m) dst (unat n) = bytes_at m src (unat n)
    \<and> (\<forall>a. (\<forall>k<unat n. a \<noteq> dst + of_nat k) \<longrightarrow> sys_memmove dst src n m a = m a)"
  using assms by (auto simp: sys_memmove_same sys_memmove_other intro!: bytes_at_cong)

text \<open>The witness moves an overlapping range up by one byte.\<close>

theorem memmove_copies_witness:
  "bytes_at (sys_memmove 0x1001 0x1000 3 (\<lambda>a. ucast a)) 0x1001 3 = [0, 1, 2]"
proof -
  have "bytes_at (sys_memmove 0x1001 0x1000 3 (\<lambda>a. ucast a)) 0x1001 3 = bytes_at (\<lambda>a. ucast a) 0x1000 3"
    using memmove_copies [of "0x1000" 3 "0x1001" "\<lambda>a. ucast a"] by simp
  also have "\<dots> = [0, 1, 2]"
    by (simp add: bytes_at_def numeral_3_eq_3)
  finally show ?thesis .
qed

text \<open>
  \<open>memset\<close> fills. The word-wise store taken for an aligned address and a length divisible
  by four leaves the same memory as the byte-wise store: exactly the \<open>n\<close> bytes from \<open>dst\<close> on
  hold the low byte of \<open>c\<close>, and every other byte is unchanged.
\<close>

theorem memset_fills:
  "sys_memset dst c n m = (\<lambda>a. if \<exists>k<unat n. a = dst + of_nat k then ucast c else m a)"
  by (simp add: fun_eq_iff sys_memset_stosb stosb_apply)

text \<open>
  \<open>strncmp\<close> decides equality of the C strings. Its result is zero exactly when the two
  strings, cut off after \<open>n\<close> bytes, are equal, and swapping the arguments negates it.
\<close>

theorem strncmp_decides:
  "(sys_strncmp p q n m = 0 \<longleftrightarrow> cstrn m p (unat n) = cstrn m q (unat n))
    \<and> sys_strncmp q p n m = - sys_strncmp p q n m"
  using strncmp_loop_swap [of p q "unat n" m]
  by (simp add: sys_strncmp_def strncmp_loop_0_iff)

text \<open>
  \<open>strncpy\<close> and \<open>safestrcpy\<close> on ranges that do not overlap. \<open>strncpy\<close> leaves in its
  destination the source string cut off after \<open>n\<close> bytes and padded with zeros to \<open>n\<close> bytes (so
  a source of \<open>n\<close> or more bytes is not terminated). \<open>safestrcpy\<close> with a positive \<open>n\<close> leaves the
  source string cut off after \<open>n - 1\<close> bytes, and the terminating zero is among the \<open>n\<close> bytes.
\<close>

theorem string_copies:
  assumes "0 < n" and "n < 2 ^ 31" and "disjoint_ranges s (nat n) t (nat n)"
  shows "bytes_at (sys_strncpy s t n m) s (nat n)
      = cstrn m t (nat n) @ replicate (nat n - length (cstrn m t (nat n))) 0
    \<and> cstrn (sys_safestrcpy s t n m) s (nat n) = cstrn m t (nat n - 1)
    \<and> length (cstrn (sys_safestrcpy s t n m) s (nat n)) < nat n"
proof -
  have n: "nat n = Suc (nat (n - 1))" using assms(1) by simp
  have d: "disjoint_ranges s (Suc (nat (n - 1))) t (nat (n - 1))"
    using assms(3) n by (simp add: disjoint_ranges_def)
  have "sys_safestrcpy s t n m = safestrcpy_run s t (nat (n - 1)) m"
    using assms(1) by (simp add: sys_safestrcpy_def safestrcpy_run_def)
  then have safe: "cstrn (sys_safestrcpy s t n m) s (nat n) = cstrn m t (nat n - 1)"
    using safestrcpy_run_cstrn [OF d] assms(2) n by simp
  then have "length (cstrn (sys_safestrcpy s t n m) s (nat n)) < nat n"
    using length_cstrn [of m t "nat n - 1"] n by simp
  moreover have "bytes_at (sys_strncpy s t n m) s (nat n)
      = cstrn m t (nat n) @ replicate (nat n - length (cstrn m t (nat n))) 0"
    unfolding sys_strncpy_def by (rule strncpy_loop_bytes) (use assms in auto)
  ultimately show ?thesis using safe by simp
qed

text \<open>The witness copies into a buffer of two bytes from another address.\<close>

theorem string_copies_witness:
  "cstrn (sys_safestrcpy 0 0x10 2 (\<lambda>a. 65)) 0 (nat 2) = [65]
    \<and> bytes_at (sys_strncpy 0 0x10 2 (\<lambda>a. 65)) 0 (nat 2) = [65, 65]"
proof -
  have "disjoint_ranges 0 (Suc (Suc 0)) 0x10 (Suc (Suc 0))"
    by (auto simp: disjoint_ranges_def less_Suc_eq)
  moreover have two: "nat 2 = Suc (Suc 0)" by simp
  ultimately have d: "disjoint_ranges 0 (nat 2) 0x10 (nat 2)"
    by (simp only:)
  have "cstrn (\<lambda>a. 65) 0x10 (Suc (Suc 0)) = [65, 65]" "cstrn (\<lambda>a. 65) 0x10 (Suc 0) = [65]"
    by (simp_all add: cstrn_Suc)
  then show ?thesis
    using string_copies [OF _ _ d, of "\<lambda>a. 65"] unfolding two by simp
qed

end
