(* ===== verification/Spinlock.thy ===== *)
theory Spinlock
  imports Xv_Prelude
begin

text \<open>
  Spin locks and interrupt nesting, \<open>kernel/spinlock.c\<close>, for any number of CPUs that
  contend for one lock.

  The state is the lock (\<open>struct spinlock\<close>), the per-CPU fields \<open>ncli\<close> and \<open>intena\<close> of
  \<open>struct cpu\<close> with the CPU's interrupt flag, the tick counter, and where each CPU is in
  \<open>sacquire\<close> or \<open>release\<close>. Each stretch of code between two accesses to the shared word
  \<open>lk->locked\<close> is one definition; \<open>lock_step\<close> interleaves them freely over the CPUs, so the
  window between the exchange and the record of the owner in \<open>sacquire\<close>, and between
  clearing the owner and the exchange in \<open>release\<close>, is visible to the other CPUs.

  The lemmas show mutual exclusion, that no interleaving runs into a panic of the lock
  code, that \<open>pushcli\<close> and \<open>popcli\<close> nest, that \<open>acquire\<close> cannot time out, and that a
  timed-out \<open>sacquire\<close> leaves its \<open>pushcli\<close> behind.
\<close>

section \<open>Definitions\<close>

abbreviation SPINLOCK_SIG :: u16 where "SPINLOCK_SIG \<equiv> 0xAD16"
abbreviation SPINLOCK_ACQUIRED :: u8 where "SPINLOCK_ACQUIRED \<equiv> 1"
abbreviation SPINLOCK_NOT_ACQUIRED :: u8 where "SPINLOCK_NOT_ACQUIRED \<equiv> 0"
abbreviation UINT32_MAX :: u32 where "UINT32_MAX \<equiv> 0xFFFFFFFF"

record spinlock =
  locked :: u32
  sig :: u16
  lock_name :: string
  lock_cpu :: "nat option"
  pcs :: "u64 list"

record cpu =
  ncli :: int
  intena :: bool
  iflag :: bool          \<comment> \<open>\<open>FL_IF\<close> of the CPU's \<open>eflags\<close>\<close>

text \<open>Where a CPU is: outside, spinning in \<open>sacquire\<close> (start tick and limit), past the
  successful exchange, owning the lock, past the clearing in \<open>release\<close>, or returned from
  \<open>sacquire\<close> with \<open>SPINLOCK_NOT_ACQUIRED\<close>.\<close>

datatype lock_pc = Idle | Spin u32 u32 | Got | Held | Cleared | TimedOut

record lockst =
  lk :: spinlock
  cpus :: "nat \<Rightarrow> cpu"
  ticks :: u32
  pc :: "nat \<Rightarrow> lock_pc"

definition initlock :: "spinlock \<Rightarrow> string \<Rightarrow> spinlock" where
  "initlock l nm = l\<lparr>lock_name := nm, locked := 0, lock_cpu := None, sig := SPINLOCK_SIG\<rparr>"

definition holding :: "nat \<Rightarrow> (lockst, bool) kmon" where
  "holding c = (\<lambda>s. if sig (lk s) \<noteq> SPINLOCK_SIG then Panic ''*lock is not a lock''
     else Ret (locked (lk s) \<noteq> 0 \<and> lock_cpu (lk s) = Some c) s)"

definition set_cpu :: "nat \<Rightarrow> cpu \<Rightarrow> lockst \<Rightarrow> lockst" where
  "set_cpu c v s = s\<lparr>cpus := (cpus s)(c := v)\<rparr>"

definition set_pc :: "nat \<Rightarrow> lock_pc \<Rightarrow> lockst \<Rightarrow> lockst" where
  "set_pc c p s = s\<lparr>pc := (pc s)(c := p)\<rparr>"

text \<open>\<open>pushcli\<close> and \<open>popcli\<close> on the fields of one CPU.\<close>

definition pushcli :: "cpu \<Rightarrow> cpu" where
  "pushcli v =
     (let eflags = iflag v; v = v\<lparr>iflag := False\<rparr> in
      (if ncli v = 0 then v\<lparr>intena := eflags\<rparr> else v)\<lparr>ncli := ncli v + 1\<rparr>)"

definition popcli :: "cpu \<Rightarrow> string + cpu" where
  "popcli v =
     (if iflag v then Inl ''popcli - interruptible''
      else (let v = v\<lparr>ncli := ncli v - 1\<rparr> in
        if ncli v < 0 then Inl ''popcli''
        else Inr (if ncli v = 0 \<and> intena v then v\<lparr>iflag := True\<rparr> else v)))"

text \<open>\<open>getstackpcs\<close> follows the chain of frame pointers; \<open>stk\<close> is the memory, by 8-byte words.\<close>

fun getstackpcs :: "(u64 \<Rightarrow> u64) \<Rightarrow> nat \<Rightarrow> u64 \<Rightarrow> u64 list" where
  "getstackpcs stk 0 ebp = []"
| "getstackpcs stk (Suc n) ebp =
     (if ebp = 0 \<or> ebp < KERNBASE \<or> ebp = 0xFFFFFFFF then replicate (Suc n) 0
      else stk (ebp + 8) # getstackpcs stk n (stk ebp))"

text \<open>\<open>sacquire\<close>: up to the loop, one evaluation of the loop condition with its body, and the
  record of the owner.\<close>

definition sacquire_enter :: "nat \<Rightarrow> u32 \<Rightarrow> (lockst, unit) kmon" where
  "sacquire_enter c wait =
     kthen (kmodify (\<lambda>s. set_cpu c (pushcli (cpus s c)) s))
       (kbind (holding c) (\<lambda>h.
          if h then kpanic ''acquire: already holding lock''
          else kmodify (\<lambda>s. set_pc c (Spin (ticks s) wait) s)))"

definition sacquire_try :: "nat \<Rightarrow> u32 \<Rightarrow> u32 \<Rightarrow> lockst \<Rightarrow> lockst" where
  "sacquire_try c startticks wait s =
     (let old = locked (lk s); s = s\<lparr>lk := (lk s)\<lparr>locked := 1\<rparr>\<rparr> in
      if old \<noteq> 0 then
        (let delta = ticks s - startticks in
         if delta > wait then set_pc c TimedOut s else s)
      else set_pc c Got s)"

definition sacquire_record :: "nat \<Rightarrow> (u64 \<Rightarrow> u64) \<Rightarrow> u64 \<Rightarrow> lockst \<Rightarrow> lockst" where
  "sacquire_record c stk ebp s =
     set_pc c Held (s\<lparr>lk := (lk s)\<lparr>lock_cpu := Some c, pcs := getstackpcs stk 10 ebp\<rparr>\<rparr>)"

definition sacquire_status :: "lock_pc \<Rightarrow> u8 option" where
  "sacquire_status p = (case p of Held \<Rightarrow> Some SPINLOCK_ACQUIRED
     | TimedOut \<Rightarrow> Some SPINLOCK_NOT_ACQUIRED | _ \<Rightarrow> None)"

text \<open>\<open>acquire\<close> is \<open>sacquire(lk, UINT32_MAX)\<close> and a panic when that did not get the lock.\<close>

definition acquire_enter :: "nat \<Rightarrow> (lockst, unit) kmon" where
  "acquire_enter c = sacquire_enter c UINT32_MAX"

definition acquire_result :: "u8 \<Rightarrow> (lockst, unit) kmon" where
  "acquire_result status =
     (if status = SPINLOCK_NOT_ACQUIRED then kpanic ''acquire: failed to acquire lock''
      else kreturn ())"

text \<open>\<open>release\<close>: up to the exchange, and from the exchange on.\<close>

definition release_enter :: "nat \<Rightarrow> (lockst, unit) kmon" where
  "release_enter c =
     kbind (holding c) (\<lambda>h.
       if \<not> h then kpanic ''release''
       else kmodify (\<lambda>s. set_pc c Cleared
         (s\<lparr>lk := (lk s)\<lparr>pcs := (pcs (lk s))[0 := 0], lock_cpu := None\<rparr>\<rparr>)))"

definition release_xchg :: "nat \<Rightarrow> (lockst, unit) kmon" where
  "release_xchg c = (\<lambda>s.
     let s = s\<lparr>lk := (lk s)\<lparr>locked := 0\<rparr>\<rparr> in
     case popcli (cpus s c) of
       Inl e \<Rightarrow> Panic e
     | Inr v \<Rightarrow> Ret () (set_pc c Idle (set_cpu c v s)))"

inductive lock_step :: "lockst \<Rightarrow> lockst \<Rightarrow> bool" where
  enter: "pc s c = Idle \<Longrightarrow> sacquire_enter c w s = Ret () t \<Longrightarrow> lock_step s t"
| try_lock: "pc s c = Spin st w \<Longrightarrow> lock_step s (sacquire_try c st w s)"
| got_it: "pc s c = Got \<Longrightarrow> lock_step s (sacquire_record c stk ebp s)"
| give_up: "pc s c = TimedOut \<Longrightarrow> lock_step s (set_pc c Idle s)"
| start_release: "pc s c = Held \<Longrightarrow> release_enter c s = Ret () t \<Longrightarrow> lock_step s t"
| end_release: "pc s c = Cleared \<Longrightarrow> release_xchg c s = Ret () t \<Longrightarrow> lock_step s t"
| tick: "lock_step s (s\<lparr>ticks := ticks s + 1\<rparr>)"

inductive_cases lock_stepE: "lock_step s t"

text \<open>The lock just initialised, every CPU outside, interrupts on.\<close>

definition lock_init :: "spinlock \<Rightarrow> string \<Rightarrow> u32 \<Rightarrow> lockst" where
  "lock_init l nm t0 = \<lparr>lk = initlock l nm,
     cpus = (\<lambda>c. \<lparr>ncli = 0, intena = False, iflag = True\<rparr>), ticks = t0, pc = (\<lambda>c. Idle)\<rparr>"

inductive lock_reachable :: "lockst \<Rightarrow> bool" where
  start: "lock_reachable (lock_init l nm t0)"
| step: "lock_reachable s \<Longrightarrow> lock_step s t \<Longrightarrow> lock_reachable t"

section \<open>The invariant\<close>

definition critical :: "lock_pc \<Rightarrow> bool" where
  "critical p \<longleftrightarrow> p = Got \<or> p = Held \<or> p = Cleared"

definition cli_ok :: "cpu \<Rightarrow> bool" where
  "cli_ok v \<longleftrightarrow> 0 \<le> ncli v \<and> (0 < ncli v \<longrightarrow> \<not> iflag v)"

definition lock_inv :: "lockst \<Rightarrow> bool" where
  "lock_inv s \<longleftrightarrow> sig (lk s) = SPINLOCK_SIG
     \<and> (\<forall>c d. critical (pc s c) \<longrightarrow> critical (pc s d) \<longrightarrow> c = d)
     \<and> (locked (lk s) \<noteq> 0 \<longleftrightarrow> (\<exists>c. critical (pc s c)))
     \<and> (\<forall>c. lock_cpu (lk s) = Some c \<longleftrightarrow> pc s c = Held)
     \<and> (\<forall>c. cli_ok (cpus s c))
     \<and> (\<forall>c. pc s c \<noteq> Idle \<longrightarrow> 0 < ncli (cpus s c))"

lemmas lock_defs = sacquire_enter_def sacquire_try_def sacquire_record_def release_enter_def
  release_xchg_def holding_def set_cpu_def set_pc_def kmon_defs Let_def

lemma critical_simps [simp]:
  "\<not> critical Idle" "\<not> critical (Spin a b)" "critical Got" "critical Held" "critical Cleared"
  "\<not> critical TimedOut"
  by (simp_all add: critical_def)

lemma cli_ok_pushcli: "cli_ok v \<Longrightarrow> cli_ok (pushcli v) \<and> 0 < ncli (pushcli v)"
  by (auto simp: cli_ok_def pushcli_def Let_def)

lemma popcli_ok: "cli_ok v \<Longrightarrow> 0 < ncli v \<Longrightarrow> \<exists>v'. popcli v = Inr v' \<and> cli_ok v'"
  by (auto simp: cli_ok_def popcli_def Let_def)

lemma lock_inv_init: "lock_inv (lock_init l nm t0)"
  by (simp add: lock_inv_def lock_init_def initlock_def cli_ok_def)

lemma lock_invD:
  assumes "lock_inv s"
  shows "sig (lk s) = SPINLOCK_SIG"
    and "critical (pc s c) \<Longrightarrow> critical (pc s d) \<Longrightarrow> c = d"
    and "locked (lk s) \<noteq> 0 \<longleftrightarrow> (\<exists>c. critical (pc s c))"
    and "lock_cpu (lk s) = Some c \<longleftrightarrow> pc s c = Held"
    and "cli_ok (cpus s c)"
    and "pc s c \<noteq> Idle \<Longrightarrow> 0 < ncli (cpus s c)"
  using assms unfolding lock_inv_def by blast+

lemma set_pc_inv:
  assumes inv: "lock_inv s" and "\<not> critical (pc s c)" "\<not> critical p"
    and "p \<noteq> Idle \<Longrightarrow> 0 < ncli (cpus s c)"
  shows "lock_inv (set_pc c p s)"
proof -
  note i = lock_invD [OF inv]
  have crit: "critical (((pc s)(c := p)) d) \<longleftrightarrow> critical (pc s d)" for d
    using assms(2,3) by simp
  have held: "((pc s)(c := p)) d = Held \<longleftrightarrow> pc s d = Held" for d
    using assms(2,3) by (auto simp: critical_def)
  show ?thesis
    unfolding lock_inv_def set_pc_def
    using i(1) i(2) i(3) i(4) i(5) i(6) assms(4) by (simp add: crit held del: fun_upd_apply) simp
qed

lemma set_cpu_inv:
  "lock_inv s \<Longrightarrow> cli_ok v \<Longrightarrow> (pc s c \<noteq> Idle \<Longrightarrow> 0 < ncli v) \<Longrightarrow> lock_inv (set_cpu c v s)"
  by (simp add: lock_inv_def set_cpu_def)

lemma sacquire_enter_eq:
  assumes inv: "lock_inv s" and "pc s c = Idle"
  shows "sacquire_enter c w s =
    Ret () (set_pc c (Spin (ticks s) w) (set_cpu c (pushcli (cpus s c)) s))"
  using lock_invD(1) [OF inv] lock_invD(4) [OF inv, of c] assms(2) by (auto simp: lock_defs)

lemma sacquire_enter_inv:
  assumes inv: "lock_inv s" and "pc s c = Idle" and "sacquire_enter c w s = Ret () t"
  shows "lock_inv t"
proof -
  note push = cli_ok_pushcli [OF lock_invD(5) [OF inv, of c]]
  have "lock_inv (set_cpu c (pushcli (cpus s c)) s)"
    by (rule set_cpu_inv [OF inv]) (use push in auto)
  then have "lock_inv (set_pc c (Spin (ticks s) w) (set_cpu c (pushcli (cpus s c)) s))"
    by (rule set_pc_inv) (use assms(2) push in \<open>auto simp: set_cpu_def\<close>)
  then show ?thesis using assms(3) sacquire_enter_eq [OF inv assms(2)] by simp
qed

lemma sacquire_try_inv:
  assumes inv: "lock_inv s" and "pc s c = Spin st w"
  shows "lock_inv (sacquire_try c st w s)"
proof -
  note i = lock_invD [OF inv]
  have ncli: "0 < ncli (cpus s c)" using i(6) [where c = c] assms(2) by simp
  consider (taken) "locked (lk s) \<noteq> 0" | (free) "locked (lk s) = 0" by blast
  then show ?thesis
  proof cases
    case taken
    then have "lock_inv (s\<lparr>lk := (lk s)\<lparr>locked := 1\<rparr>\<rparr>)"
      using inv by (simp add: lock_inv_def)
    then show ?thesis
      using taken ncli assms(2) by (auto simp: sacquire_try_def Let_def intro!: set_pc_inv)
  next
    case free
    then have none: "\<not> critical (pc s d)" for d using i(3) by blast
    then have "pc s d \<noteq> Held" for d by (metis critical_simps(4))
    then show ?thesis
      unfolding lock_inv_def
      using free i(1) i(4) i(5) i(6) none ncli
      by (auto simp: sacquire_try_def Let_def set_pc_def split: if_splits)
  qed
qed

lemma sacquire_record_inv:
  assumes inv: "lock_inv s" and "pc s c = Got"
  shows "lock_inv (sacquire_record c stk ebp s)"
proof -
  note i = lock_invD [OF inv]
  have only: "critical (pc s d) \<longleftrightarrow> d = c" for d
    using i(2) [of c d] assms(2) by auto
  have none: "pc s d \<noteq> Held" for d
    using only [of d] assms(2) by (cases "d = c") (auto simp: critical_def)
  show ?thesis
    unfolding lock_inv_def
    using i(1) i(3) i(5) i(6) only none assms(2)
    by (auto simp: sacquire_record_def set_pc_def split: if_splits)
qed

lemma give_up_inv: "lock_inv s \<Longrightarrow> pc s c = TimedOut \<Longrightarrow> lock_inv (set_pc c Idle s)"
  by (rule set_pc_inv) auto

lemma release_enter_eq:
  assumes inv: "lock_inv s" and "pc s c = Held"
  shows "release_enter c s = Ret () (set_pc c Cleared
         (s\<lparr>lk := (lk s)\<lparr>pcs := (pcs (lk s))[0 := 0], lock_cpu := None\<rparr>\<rparr>))"
proof -
  note i = lock_invD [OF inv]
  have "locked (lk s) \<noteq> 0" using i(3) assms(2) by (metis critical_simps(4))
  then show ?thesis using i(1) i(4) [where c = c] assms(2) by (simp add: lock_defs)
qed

lemma release_enter_inv:
  assumes inv: "lock_inv s" and "pc s c = Held" and "release_enter c s = Ret () t"
  shows "lock_inv t"
proof -
  note i = lock_invD [OF inv]
  have only: "critical (pc s d) \<longleftrightarrow> d = c" for d
    using i(2) [of c d] assms(2) by auto
  then have none: "d \<noteq> c \<Longrightarrow> pc s d \<noteq> Held" for d by (metis critical_simps(4))
  have t: "t = set_pc c Cleared
         (s\<lparr>lk := (lk s)\<lparr>pcs := (pcs (lk s))[0 := 0], lock_cpu := None\<rparr>\<rparr>)"
    using assms(3) release_enter_eq [OF inv assms(2)] by simp
  show ?thesis
    unfolding lock_inv_def t
    using i(1) i(3) i(5) i(6) only none assms(2)
    by (auto simp: set_pc_def split: if_splits)
qed

lemma release_xchg_eq:
  assumes inv: "lock_inv s" and "pc s c = Cleared"
  shows "\<exists>v. popcli (cpus s c) = Inr v \<and> cli_ok v \<and>
    release_xchg c s = Ret () (set_pc c Idle (set_cpu c v (s\<lparr>lk := (lk s)\<lparr>locked := 0\<rparr>\<rparr>)))"
proof -
  note i = lock_invD [OF inv]
  have "0 < ncli (cpus s c)" using i(6) [where c = c] assms(2) by simp
  then obtain v where "popcli (cpus s c) = Inr v" "cli_ok v"
    using popcli_ok [OF i(5) [where c = c]] by blast
  then show ?thesis by (simp add: release_xchg_def Let_def)
qed

lemma release_xchg_inv:
  assumes inv: "lock_inv s" and "pc s c = Cleared" and "release_xchg c s = Ret () t"
  shows "lock_inv t"
proof -
  note i = lock_invD [OF inv]
  have only: "critical (pc s d) \<longleftrightarrow> d = c" for d
    using i(2) [of c d] assms(2) by auto
  obtain v where v: "cli_ok v"
    and t: "t = set_pc c Idle (set_cpu c v (s\<lparr>lk := (lk s)\<lparr>locked := 0\<rparr>\<rparr>))"
    using release_xchg_eq [OF inv assms(2)] assms(3) by auto
  show ?thesis
    unfolding lock_inv_def t
    using i(1) i(4) i(5) i(6) only v assms(2)
    by (auto simp: set_pc_def set_cpu_def split: if_splits)
qed

lemma tick_inv: "lock_inv s \<Longrightarrow> lock_inv (s\<lparr>ticks := n\<rparr>)"
  by (simp add: lock_inv_def)

lemmas lock_step_invs = sacquire_enter_inv sacquire_try_inv sacquire_record_inv give_up_inv
  release_enter_inv release_xchg_inv tick_inv

lemma lock_step_inv: "lock_step s t \<Longrightarrow> lock_inv s \<Longrightarrow> lock_inv t"
  by (induction rule: lock_step.induct) (blast intro: lock_step_invs)+

lemma lock_reachable_inv: "lock_reachable s \<Longrightarrow> lock_inv s"
  by (induction rule: lock_reachable.induct) (blast intro: lock_inv_init lock_step_inv)+

section \<open>Nesting of interrupt disabling\<close>

fun popclis :: "nat \<Rightarrow> cpu \<Rightarrow> string + cpu" where
  "popclis 0 v = Inr v"
| "popclis (Suc n) v = (case popcli v of Inl e \<Rightarrow> Inl e | Inr v' \<Rightarrow> popclis n v')"

lemma popcli_pushcli:
  "cli_ok v \<Longrightarrow> popcli (pushcli v) =
     Inr (if ncli v = 0 then v\<lparr>intena := iflag v\<rparr> else v)"
  by (auto simp: popcli_def pushcli_def cli_ok_def Let_def intro: cpu.equality)

lemma cli_ok_pushclis: "cli_ok v \<Longrightarrow> cli_ok ((pushcli ^^ n) v)"
  by (induction n) (auto simp: cli_ok_pushcli)

lemma popclis_pushclis:
  "cli_ok v \<Longrightarrow> popclis (Suc n) ((pushcli ^^ Suc n) v) =
     Inr (if ncli v = 0 then v\<lparr>intena := iflag v\<rparr> else v)"
proof (induction n)
  case 0
  then show ?case by (simp add: popcli_pushcli)
next
  case (Suc n)
  have ok: "cli_ok ((pushcli ^^ Suc n) v)" and pos: "ncli ((pushcli ^^ Suc n) v) \<noteq> 0"
    using cli_ok_pushclis [OF Suc.prems, of "Suc n"] cli_ok_pushcli [OF cli_ok_pushclis [OF Suc.prems, of n]]
    by auto
  have "popcli ((pushcli ^^ Suc (Suc n)) v) = Inr ((pushcli ^^ Suc n) v)"
    using popcli_pushcli [OF ok] pos by (simp add: funpow_swap1)
  then show ?case using Suc by (simp del: funpow.simps)
qed

section \<open>Properties\<close>

text \<open>
  C7: mutual exclusion. However \<open>acquire\<close>, \<open>sacquire\<close> and \<open>release\<close> of several CPUs interleave,
  at most one CPU is between its successful exchange in \<open>sacquire\<close> and its exchange in
  \<open>release\<close>; when one owns the lock, the lock word is set and names it as the owner.
\<close>

theorem lock_mutual_exclusion:
  assumes "lock_reachable s" and "critical (pc s c)"
  shows "(\<forall>d. critical (pc s d) \<longleftrightarrow> d = c) \<and> locked (lk s) \<noteq> 0
    \<and> (pc s c = Held \<longleftrightarrow> lock_cpu (lk s) = Some c)"
proof -
  note i = lock_invD [OF lock_reachable_inv [OF assms(1)]]
  show ?thesis using i(2) i(3) i(4) assms(2) by blast
qed

text \<open>A run: CPU 0 enters, finds the lock free and records itself; then CPU 1 enters with a
  limit of zero ticks, and the clock ticks.\<close>

definition demo_start :: lockst where
  "demo_start = lock_init \<lparr>locked = 0, sig = 0, lock_name = [], lock_cpu = None, pcs = []\<rparr> ''demo'' 7"

definition demo_entered :: lockst where
  "demo_entered = set_pc 0 (Spin 7 5) (set_cpu 0 (pushcli (cpus demo_start 0)) demo_start)"

definition demo_owned :: lockst where
  "demo_owned = sacquire_record 0 (\<lambda>_. 0) 0 (sacquire_try 0 7 5 demo_entered)"

definition demo_contended :: lockst where
  "demo_contended = (set_pc 1 (Spin 7 0) (set_cpu 1 (pushcli (cpus demo_owned 1)) demo_owned))\<lparr>ticks := 8\<rparr>"

lemmas demo_defs = demo_start_def demo_entered_def demo_owned_def demo_contended_def lock_init_def initlock_def lock_defs

lemma demo_owned_reachable: "lock_reachable demo_owned"
proof -
  have "lock_reachable demo_start"
    unfolding demo_start_def by (rule lock_reachable.start)
  then have "lock_reachable demo_entered"
    by (rule lock_reachable.step [OF _ lock_step.enter [where c = 0 and w = 5]])
      (simp_all add: demo_defs)
  then have "lock_reachable (sacquire_try 0 7 5 demo_entered)"
    by (rule lock_reachable.step [OF _ lock_step.try_lock]) (simp add: demo_defs)
  then show ?thesis
    unfolding demo_owned_def
    by (rule lock_reachable.step [OF _ lock_step.got_it]) (simp add: demo_defs)
qed

lemma demo_contended_reachable: "lock_reachable demo_contended"
proof -
  let ?s = "set_pc 1 (Spin 7 0) (set_cpu 1 (pushcli (cpus demo_owned 1)) demo_owned)"
  have "lock_reachable ?s"
    by (rule lock_reachable.step [OF demo_owned_reachable lock_step.enter [where c = 1 and w = 0]])
      (simp_all add: demo_defs)
  then have "lock_reachable (?s\<lparr>ticks := ticks ?s + 1\<rparr>)"
    by (rule lock_reachable.step [OF _ lock_step.tick])
  moreover have "ticks ?s + 1 = 8" by (simp add: demo_defs)
  ultimately show ?thesis by (simp add: demo_contended_def)
qed

lemma demo_owner: "pc demo_owned 0 = Held"
  by (simp add: demo_defs)

theorem lock_mutual_exclusion_witness:
  "\<not> critical (pc demo_owned 1) \<and> lock_cpu (lk demo_owned) = Some 0"
  using lock_mutual_exclusion [OF demo_owned_reachable, of 0] demo_owner by simp



text \<open>
  interrupt disabling nests. After any positive number of \<open>pushcli\<close> calls, the same number
  of \<open>popcli\<close> calls succeeds and restores the nesting depth and the interrupt flag (and records
  in \<open>intena\<close> whether interrupts were on).
\<close>

theorem cli_nesting:
  assumes "0 \<le> ncli v" and "0 < ncli v \<longrightarrow> \<not> iflag v"
  shows "popclis (Suc n) ((pushcli ^^ Suc n) v) =
     Inr (if ncli v = 0 then v\<lparr>intena := iflag v\<rparr> else v)"
  using assms popclis_pushclis by (simp add: cli_ok_def del: funpow.simps popclis.simps)

theorem cli_nesting_witness:
  "popclis 2 ((pushcli ^^ 2) \<lparr>ncli = 0, intena = False, iflag = True\<rparr>)
    = Inr \<lparr>ncli = 0, intena = True, iflag = True\<rparr>"
  using cli_nesting [of "\<lparr>ncli = 0, intena = False, iflag = True\<rparr>" 1]
  by (simp add: numeral_2_eq_2 del: funpow.simps popclis.simps)

text \<open>
  \<open>acquire\<close> cannot time out. With the limit \<open>UINT32_MAX\<close> that \<open>acquire\<close> passes, one turn of the
  loop either gets the lock, when it is free, or leaves the CPU spinning: the difference of two
  32-bit tick counts never exceeds the limit, so \<open>acquire: failed to acquire lock\<close> is dead code.
\<close>

theorem acquire_never_times_out:
  "pc (sacquire_try c st UINT32_MAX s) c = (if locked (lk s) = 0 then Got else pc s c)"
proof -
  have max: "UINT32_MAX = - 1" by simp
  have "\<not> UINT32_MAX < d" for d :: u32
    unfolding max by simp
  then show ?thesis by (simp add: sacquire_try_def Let_def set_pc_def)
qed

text \<open>
  C28: a timed-out \<open>sacquire\<close> leaves interrupts disabled. When the limit has passed, \<open>sacquire\<close>
  returns \<open>SPINLOCK_NOT_ACQUIRED\<close> with its \<open>pushcli\<close> still in force: back in its caller the CPU has a
  positive nesting depth and interrupts off, and no \<open>popcli\<close> has run.
\<close>

theorem sacquire_timeout_keeps_cli:
  assumes "lock_reachable s" and "pc s c = Spin st w" and "locked (lk s) \<noteq> 0" and "w < ticks s - st"
  defines "t \<equiv> sacquire_try c st w s"
  shows "sacquire_status (pc t c) = Some SPINLOCK_NOT_ACQUIRED
    \<and> cpus t c = cpus s c \<and> 0 < ncli (cpus t c) \<and> \<not> iflag (cpus t c)"
proof -
  note i = lock_invD [OF lock_reachable_inv [OF assms(1)]]
  have "0 < ncli (cpus s c)" "cli_ok (cpus s c)" using i(5) i(6) assms(2) by auto
  then show ?thesis
    using assms(3,4) by (simp add: t_def sacquire_try_def Let_def set_pc_def sacquire_status_def cli_ok_def)
qed

theorem sacquire_timeout_keeps_cli_witness:
  "\<not> iflag (cpus (sacquire_try 1 7 0 demo_contended) 1)"
proof -
  have "pc demo_contended 1 = Spin 7 0" "locked (lk demo_contended) \<noteq> 0" "0 < ticks demo_contended - 7"
    by (simp_all add: demo_defs)
  then show ?thesis
    using sacquire_timeout_keeps_cli [OF demo_contended_reachable, of 1 7 0] by blast
qed

end
