(* ===== verification/Kalloc.thy ===== *)
theory Kalloc
  imports Kstring "HOL-Library.Multiset"
begin

text \<open>
  The physical page allocator, \<open>kernel/kalloc.c\<close>.

  The free list is threaded through the free pages themselves: the first eight bytes of a free
  page hold the address of the next one. The model keeps this: \<open>kmem\<close> has the kernel memory as
  a field, \<open>kfree\<close> fills the page with junk and stores the link in it, \<open>kalloc\<close> reads the link.
  The linker symbol \<open>end\<close> (first address after the kernel image) is the field \<open>kend\<close>. Taking and
  dropping \<open>kmem.lock\<close> has no effect on this state; the critical sections are atomic here (theory
  \<open>Spinlock\<close> has the lock itself).

  The locale \<open>page_pool\<close> is what the rest of the kernel relies on: \<open>alloc\<close> takes a page from the
  pool, \<open>free\<close> gives one back, neither touches the contents of a page that is in use, and a store
  into a page in use does not touch the pool. Its client lemma is about all sequences of requests.
\<close>

unbundle bit_operations_syntax

section \<open>Definitions\<close>

abbreviation PGSIZE :: u64 where "PGSIZE \<equiv> 4096"
abbreviation PHYSTOP :: u64 where "PHYSTOP \<equiv> 0xE000000"
abbreviation KALLOC_START :: u64 where "KALLOC_START \<equiv> 0x3200000"

definition v2p :: "u64 \<Rightarrow> u64" where
  "v2p a = a - KERNBASE"

definition p2v :: "u64 \<Rightarrow> u64" where
  "p2v a = a + KERNBASE"

definition PGROUNDUP :: "u64 \<Rightarrow> u64" where
  "PGROUNDUP sz = (sz + (PGSIZE - 1)) AND NOT (PGSIZE - 1)"

definition PGROUNDDOWN :: "u64 \<Rightarrow> u64" where
  "PGROUNDDOWN a = a AND NOT (PGSIZE - 1)"

text \<open>The field \<open>r->next\<close> of a \<open>struct run\<close>: eight bytes, little endian.\<close>

fun ld64_upto :: "nat \<Rightarrow> memory \<Rightarrow> u64 \<Rightarrow> u64" where
  "ld64_upto 0 m a = 0"
| "ld64_upto (Suc k) m a = ld64_upto k m a OR push_bit (8 * k) (ucast (m (a + of_nat k)))"

definition ld64 :: "memory \<Rightarrow> u64 \<Rightarrow> u64" where
  "ld64 m a = ld64_upto 8 m a"

definition st64 :: "u64 \<Rightarrow> u64 \<Rightarrow> memory \<Rightarrow> memory" where
  "st64 a w m = (\<lambda>b. if b - a < 8 then ucast (drop_bit (8 * unat (b - a)) w) else m b)"

record kmem =
  kmem_mem :: memory          \<comment> \<open>the kernel's memory\<close>
  kend :: u64                 \<comment> \<open>\<open>end[]\<close>\<close>
  freelist :: u64
  use_lock :: bool
  kalloc_fullysetup :: bool

definition kfree :: "u64 \<Rightarrow> ('a kmem_scheme, unit) kmon" where
  "kfree v s =
     (if v mod PGSIZE \<noteq> 0 \<or> v < kend s \<or> v2p v \<ge> PHYSTOP then Panic ''kfree''
      else let m = sys_memset v 1 (ucast PGSIZE) (kmem_mem s) in
        Ret () (s\<lparr>kmem_mem := st64 v (freelist s) m, freelist := v\<rparr>))"

definition kalloc :: "('a kmem_scheme, u64) kmon" where
  "kalloc s =
     (let r = freelist s in
      Ret r (if r \<noteq> 0 then s\<lparr>freelist := ld64 (kmem_mem s) r\<rparr> else s))"

text \<open>The loop of \<open>kmalloc\<close>: its counter is a \<open>uint8\<close>, its limit a \<open>uint16\<close>.\<close>

partial_function (option) kmalloc_loop ::
  "u8 \<Rightarrow> u16 \<Rightarrow> u64 \<Rightarrow> 'a kmem_scheme \<Rightarrow> (unit, 'a kmem_scheme) outcome option" where
  "kmalloc_loop i pages n s =
     (if ucast i \<noteq> pages then
        if n = 0 then Some (Fault ''n->next'')
        else kmalloc_loop (i + 1) pages (ld64 (kmem_mem s) n) (s\<lparr>freelist := n\<rparr>)
      else Some (Ret () s))"

definition kmalloc :: "u16 \<Rightarrow> 'a kmem_scheme \<Rightarrow> (u64, 'a kmem_scheme) outcome option" where
  "kmalloc pages s =
     (if \<not> kalloc_fullysetup s then Some (Panic ''kalloc not fully setup'')
      else let r = freelist s in
        if r \<noteq> 0 then
          map_option (\<lambda>out. kbind (\<lambda>_. out) (\<lambda>_. kreturn r) s)
            (kmalloc_loop 0 pages (ld64 (kmem_mem s) r) s)
        else Some (Ret r s))"

function freerange_loop :: "u64 \<Rightarrow> u64 \<Rightarrow> ('a kmem_scheme, unit) kmon" where
  "freerange_loop p vend s =
     (if p + PGSIZE \<le> vend then
        (case kfree p s of
           Ret _ s' \<Rightarrow> freerange_loop (p + PGSIZE) vend s'
         | Panic e \<Rightarrow> Panic e | Sleep c s' \<Rightarrow> Sleep c s' | Fault e \<Rightarrow> Fault e)
      else Ret () s)"
  by pat_completeness auto

lemma kfree_Ret_below: "kfree p s = Ret u t \<Longrightarrow> v2p p < PHYSTOP"
  by (auto simp: kfree_def Let_def split: if_splits)

lemma v2p_step:
  assumes "v2p p < PHYSTOP"
  shows "unat (v2p (p + PGSIZE)) = unat (v2p p) + 4096"
proof -
  have "v2p (p + PGSIZE) = v2p p + PGSIZE" by (simp add: v2p_def)
  moreover have "unat (v2p p) < 0xE000000"
    using assms by (simp add: word_less_nat_alt)
  ultimately show ?thesis by (simp add: unat_word_ariths)
qed

termination freerange_loop
proof (relation "measure (\<lambda>(p, vend, s). 0xE000000 + 4096 - unat (v2p p))")
  fix p vend :: u64 and s :: "'a kmem_scheme" and u :: unit and t
  assume "kfree p s = Ret u t"
  then have "v2p p < PHYSTOP" by (rule kfree_Ret_below)
  moreover from this have "unat (v2p p) < 0xE000000" by (simp add: word_less_nat_alt)
  ultimately show "((p + PGSIZE, vend, t), p, vend, s)
      \<in> measure (\<lambda>(p, vend, s). 0xE000000 + 4096 - unat (v2p p))"
    using v2p_step by fastforce
qed simp

declare freerange_loop.simps [simp del]

definition freerange :: "u64 \<Rightarrow> u64 \<Rightarrow> ('a kmem_scheme, unit) kmon" where
  "freerange vstart vend = freerange_loop (PGROUNDUP vstart) vend"

definition kinit1 :: "u64 \<Rightarrow> u64 \<Rightarrow> ('a kmem_scheme, unit) kmon" where
  "kinit1 vstart vend = kthen (kmodify (use_lock_update (\<lambda>_. False))) (freerange vstart vend)"

definition kinit2 :: "u64 \<Rightarrow> u64 \<Rightarrow> ('a kmem_scheme, unit) kmon" where
  "kinit2 vstart vend = kthen (freerange vstart vend)
     (kmodify (\<lambda>s. s\<lparr>use_lock := True, kalloc_fullysetup := True\<rparr>))"

section \<open>Pages\<close>

lemma PGROUNDDOWN_div: "PGROUNDDOWN a = a div 4096 * 4096"
proof -
  have m: "(PGSIZE - 1) = mask 12" by (simp add: mask_eq_exp_minus_1)
  have "PGROUNDDOWN a = push_bit 12 (drop_bit 12 a)"
    unfolding PGROUNDDOWN_def m
    by (rule bit_word_eqI) (auto simp: bit_simps)
  then show ?thesis by (simp add: push_bit_eq_mult drop_bit_eq_div)
qed

lemma unat_PGROUNDDOWN: "unat (PGROUNDDOWN a) = unat a div 4096 * 4096"
proof -
  have "unat a div 4096 * 4096 \<le> unat a" by simp
  then have "unat a div 4096 * 4096 < 18446744073709551616" using u64_bound [of a] by linarith
  then show ?thesis
    by (simp add: PGROUNDDOWN_div unat_word_ariths unat_div)
qed

lemma aligned_iff: "p mod PGSIZE = 0 \<longleftrightarrow> unat p mod 4096 = 0"
proof -
  have "unat (p mod PGSIZE) = unat p mod 4096" by (simp add: unat_mod_word)
  then show ?thesis by (metis unat_0 unat_eq_zero)
qed

lemma unat_in_page:
  assumes "p mod PGSIZE = 0" and "k < 4096"
  shows "unat (p + of_nat k) = unat p + k"
proof -
  have k: "unat (of_nat k :: u64) = k" using assms(2) by (simp add: u64_of_nat_small)
  obtain q where q: "unat p = 4096 * q"
    using assms(1) unfolding aligned_iff by (auto simp: mod_eq_0_iff_dvd)
  then have "q < 4503599627370496" using u64_bound [of p] by simp
  then have "unat p + k < 18446744073709551616" using q assms(2) by simp
  then show ?thesis using u64_unat_plus [of p "of_nat k"] k by simp
qed

lemma PGROUNDDOWN_in_page:
  assumes "p mod PGSIZE = 0" and "k < 4096"
  shows "PGROUNDDOWN (p + of_nat k) = p"
proof -
  obtain q where "unat p = 4096 * q"
    using assms(1) unfolding aligned_iff by (auto simp: mod_eq_0_iff_dvd)
  then have "unat (PGROUNDDOWN (p + of_nat k)) = unat p"
    using assms(2) by (simp add: unat_PGROUNDDOWN unat_in_page [OF assms])
  then show ?thesis by (simp add: word_unat_eq_iff)
qed

section \<open>The link word\<close>

lemma bit_ld64_upto:
  "bit (ld64_upto k m a) n \<longleftrightarrow> n < 8 * k \<and> n < 64 \<and> bit (m (a + of_nat (n div 8))) (n mod 8)"
proof (induction k)
  case (Suc k)
  show ?case
  proof (cases "8 * k \<le> n \<and> n < 8 * Suc k")
    case True
    then have "n div 8 = k" and "n mod 8 = n - 8 * k" by (auto simp: div_nat_eqI modulo_nat_def)
    then show ?thesis using True by (auto simp: Suc.IH bit_simps)
  next
    case False
    then have "\<not> bit (push_bit (8 * k) (ucast (m (a + of_nat k))) :: u64) n"
      by (auto simp: bit_simps dest: bit_imp_le_length)
    then show ?thesis using False by (auto simp: Suc.IH bit_or_iff)
  qed
qed simp

lemma st64_byte: "i < 8 \<Longrightarrow> st64 a w m (a + of_nat i) = ucast (drop_bit (8 * i) w)"
  by (simp add: st64_def u64_of_nat_small word_less_nat_alt)

lemma ld64_st64 [simp]: "ld64 (st64 a w m) a = w"
proof (rule bit_word_eqI)
  fix n assume n: "n < LENGTH(64)"
  then have "n div 8 < 8" by auto
  then have "bit (ld64 (st64 a w m) a) n \<longleftrightarrow> bit (ucast (drop_bit (8 * (n div 8)) w) :: u8) (n mod 8)"
    using n by (simp add: ld64_def bit_ld64_upto st64_byte)
  then show "bit (ld64 (st64 a w m) a) n = bit w n" by (simp add: bit_simps)
qed

lemma ld64_cong:
  assumes "\<And>i. i < 8 \<Longrightarrow> m (a + of_nat i) = m' (a + of_nat i)"
  shows "ld64 m a = ld64 m' a"
  using assms by (intro bit_word_eqI) (auto simp: ld64_def bit_ld64_upto)

lemma st64_other: "\<not> b - a < 8 \<Longrightarrow> st64 a w m b = m b"
  by (simp add: st64_def)

text \<open>Stores into one page are not seen in another.\<close>

lemma st64_other_page:
  assumes "a mod PGSIZE = 0" and "PGROUNDDOWN b \<noteq> a"
  shows "st64 a w m b = m b"
proof (rule st64_other, rule notI)
  assume "b - a < 8"
  then have "unat (b - a) < 8" by (simp add: word_less_nat_alt)
  moreover have "b = a + of_nat (unat (b - a))" by simp
  ultimately show False using PGROUNDDOWN_in_page [OF assms(1), of "unat (b - a)"] assms(2) by simp
qed

lemma sys_memset_other_page:
  assumes "a mod PGSIZE = 0" and "PGROUNDDOWN b \<noteq> a"
  shows "sys_memset a c (ucast PGSIZE) m b = m b"
proof -
  have "unat (ucast PGSIZE :: u32) = 4096" by simp
  then show ?thesis
    using assms PGROUNDDOWN_in_page [OF assms(1)]
    by (auto simp: sys_memset_stosb stosb_apply)
qed

section \<open>The free list\<close>

fun flist :: "memory \<Rightarrow> u64 \<Rightarrow> u64 list \<Rightarrow> bool" where
  "flist m p [] \<longleftrightarrow> p = 0"
| "flist m p (x # xs) \<longleftrightarrow> p = x \<and> flist m (ld64 m x) xs"

definition page_ok :: "'a kmem_scheme \<Rightarrow> u64 \<Rightarrow> bool" where
  "page_ok s v \<longleftrightarrow> v mod PGSIZE = 0 \<and> kend s \<le> v \<and> v2p v < PHYSTOP"

definition pool :: "'a kmem_scheme \<Rightarrow> u64 list \<Rightarrow> bool" where
  "pool s xs \<longleftrightarrow> 0 < kend s \<and> flist (kmem_mem s) (freelist s) xs \<and> distinct xs \<and> list_all (page_ok s) xs"

lemma flist_cong:
  assumes "\<And>x i. x \<in> set xs \<Longrightarrow> i < 8 \<Longrightarrow> m (x + of_nat i) = m' (x + of_nat i)"
  shows "flist m p xs = flist m' p xs"
  using assms
proof (induction xs arbitrary: p)
  case (Cons x xs)
  have "ld64 m x = ld64 m' x" by (rule ld64_cong) (simp add: Cons.prems)
  then show ?case using Cons.IH Cons.prems by simp
qed simp

text \<open>The list is determined by the pages it runs through.\<close>

lemma flist_other_page:
  assumes "\<And>b. PGROUNDDOWN b \<noteq> v \<Longrightarrow> m' b = m b"
    and "\<forall>x\<in>set xs. x mod PGSIZE = 0 \<and> x \<noteq> v"
  shows "flist m' p xs = flist m p xs"
proof (rule flist_cong)
  fix x and i :: nat assume "x \<in> set xs" "i < 8"
  then show "m' (x + of_nat i) = m (x + of_nat i)"
    using assms PGROUNDDOWN_in_page [of x i] by simp
qed

lemma page_ok_nonzero: "pool s xs \<Longrightarrow> page_ok s v \<Longrightarrow> v \<noteq> 0"
  by (auto simp: pool_def page_ok_def)

lemma pool_Nil: "pool s [] \<Longrightarrow> kalloc s = Ret 0 s"
  by (simp add: pool_def kalloc_def)

lemma pool_Cons:
  assumes "pool s (p # ps)"
  shows "kalloc s = Ret p (s\<lparr>freelist := ld64 (kmem_mem s) p\<rparr>)"
    and "pool (s\<lparr>freelist := ld64 (kmem_mem s) p\<rparr>) ps"
proof -
  have "page_ok s p" and f: "freelist s = p" using assms by (auto simp: pool_def)
  then have "p \<noteq> 0" using page_ok_nonzero [OF assms] by simp
  with f show "kalloc s = Ret p (s\<lparr>freelist := ld64 (kmem_mem s) p\<rparr>)" by (simp add: kalloc_def)
  show "pool (s\<lparr>freelist := ld64 (kmem_mem s) p\<rparr>) ps"
    using assms by (simp add: pool_def page_ok_def list_all_iff)
qed

lemma kfree_eq:
  "kfree v s = (if page_ok s v then
     Ret () (s\<lparr>kmem_mem := st64 v (freelist s) (sys_memset v 1 (ucast PGSIZE) (kmem_mem s)), freelist := v\<rparr>)
     else Panic ''kfree'')"
  unfolding kfree_def page_ok_def Let_def by (metis not_le)

lemma kfree_mem_other:
  assumes "kfree v s = Ret () t" and "PGROUNDDOWN b \<noteq> v"
  shows "kmem_mem t b = kmem_mem s b"
proof -
  have "v mod PGSIZE = 0"
    using assms(1) unfolding kfree_eq page_ok_def by (metis outcome.distinct(1))
  then have "st64 v (freelist s) (sys_memset v 1 (ucast PGSIZE) (kmem_mem s)) b = kmem_mem s b"
    using st64_other_page sys_memset_other_page assms(2) by metis
  moreover have "t = s\<lparr>kmem_mem := st64 v (freelist s) (sys_memset v 1 (ucast PGSIZE) (kmem_mem s)), freelist := v\<rparr>"
    using assms(1) by (simp add: kfree_eq split: if_splits)
  ultimately show ?thesis by simp
qed

lemma kfree_fields:
  "kfree v s = Ret () t \<Longrightarrow> kend t = kend s \<and> freelist t = v \<and> ld64 (kmem_mem t) v = freelist s
     \<and> use_lock t = use_lock s \<and> kalloc_fullysetup t = kalloc_fullysetup s"
  by (auto simp: kfree_eq split: if_splits)

lemma kfree_pool:
  assumes "pool s ps" and "page_ok s v" and "v \<notin> set ps"
  shows "\<exists>t. kfree v s = Ret () t \<and> pool t (v # ps)"
proof -
  obtain t where t: "kfree v s = Ret () t"
    using assms(2) by (simp add: kfree_eq)
  note fields = kfree_fields [OF t]
  have "flist (kmem_mem t) (freelist s) ps = flist (kmem_mem s) (freelist s) ps"
    using assms kfree_mem_other [OF t]
    by (intro flist_other_page) (auto simp: pool_def page_ok_def list_all_iff)
  then have "pool t (v # ps)"
    using assms fields by (simp add: pool_def page_ok_def list_all_iff)
  with t show ?thesis by blast
qed

lemma kfree_refuses: "\<not> page_ok s v \<Longrightarrow> kfree v s = Panic ''kfree''"
  by (simp add: kfree_eq)

section \<open>The interface of the allocator\<close>

text \<open>
  Requests of the kernel to the allocator: get a page, give back the page in a slot of the list
  of pages it owns, store a byte at an offset of such a page. A page number out of range is no
  request.
\<close>

datatype page_req = Get | Put nat | Store nat nat u8

fun page_trace :: "('s, u64) kmon \<Rightarrow> (u64 \<Rightarrow> ('s, unit) kmon) \<Rightarrow> (u64 \<Rightarrow> u8 \<Rightarrow> 's \<Rightarrow> 's)
    \<Rightarrow> page_req list \<Rightarrow> u64 list \<Rightarrow> ('s, u64 list) kmon" where
  "page_trace al fr st [] own = kreturn own"
| "page_trace al fr st (Get # rs) own =
     kbind al (\<lambda>p. page_trace al fr st rs (if p = 0 then own else p # own))"
| "page_trace al fr st (Put i # rs) own =
     (if i < length own
      then kthen (fr (own ! i)) (page_trace al fr st rs (take i own @ drop (Suc i) own))
      else page_trace al fr st rs own)"
| "page_trace al fr st (Store i k b # rs) own =
     (if i < length own \<and> k < 4096
      then kthen (kmodify (st (own ! i + of_nat k) b)) (page_trace al fr st rs own)
      else page_trace al fr st rs own)"

definition store_byte :: "u64 \<Rightarrow> u8 \<Rightarrow> 'a kmem_scheme \<Rightarrow> 'a kmem_scheme" where
  "store_byte a b s = s\<lparr>kmem_mem := (kmem_mem s)(a := b)\<rparr>"

locale page_pool =
  fixes alloc :: "('s, u64) kmon" and free :: "u64 \<Rightarrow> ('s, unit) kmon"
    and store :: "u64 \<Rightarrow> u8 \<Rightarrow> 's \<Rightarrow> 's"
    and avail :: "'s \<Rightarrow> u64 list \<Rightarrow> bool" and ok :: "'s \<Rightarrow> u64 \<Rightarrow> bool"
  assumes alloc_empty: "avail s [] \<Longrightarrow> alloc s = Ret 0 s"
    and alloc_page: "avail s (p # ps) \<Longrightarrow> \<exists>t. alloc s = Ret p t \<and> avail t ps \<and> ok t = ok s"
    and free_page: "avail s ps \<Longrightarrow> ok s p \<Longrightarrow> p \<notin> set ps \<Longrightarrow>
      \<exists>t. free p s = Ret () t \<and> avail t (p # ps) \<and> ok t = ok s"
    and store_page: "avail s ps \<Longrightarrow> ok s p \<Longrightarrow> p \<notin> set ps \<Longrightarrow> k < 4096 \<Longrightarrow>
      avail (store (p + of_nat k) b s) ps \<and> ok (store (p + of_nat k) b s) = ok s"
    and avail_ok: "avail s ps \<Longrightarrow> distinct ps \<and> (\<forall>p\<in>set ps. ok s p \<and> p \<noteq> 0)"
begin

definition fine :: "'s \<Rightarrow> u64 list \<Rightarrow> u64 list \<Rightarrow> bool" where
  "fine s own ps \<longleftrightarrow> avail s ps \<and> distinct (own @ ps) \<and> (\<forall>p\<in>set own. ok s p)"

lemma fine_own: "fine s own ps \<Longrightarrow> i < length own \<Longrightarrow> avail s ps \<and> ok s (own ! i) \<and> own ! i \<notin> set ps"
  unfolding fine_def using nth_mem [of i own] by (auto simp del: nth_mem)

lemma fine_get: "fine s own (p # ps) \<Longrightarrow> \<exists>t. alloc s = Ret p t \<and> p \<noteq> 0 \<and> fine t (p # own) ps"
  using alloc_page [of s p ps] avail_ok [of s "p # ps"] by (auto simp: fine_def)

lemma fine_put:
  assumes "fine s own ps" and "i < length own"
  shows "\<exists>t. free (own ! i) s = Ret () t \<and> fine t (take i own @ drop (Suc i) own) (own ! i # ps)"
proof -
  have own: "own = take i own @ own ! i # drop (Suc i) own"
    using assms(2) by (rule id_take_nth_drop)
  have "ok s (own ! i)" "own ! i \<notin> set ps"
    using fine_own assms by simp_all
  then obtain t where t: "free (own ! i) s = Ret () t" "avail t (own ! i # ps)" "ok t = ok s"
    using free_page [of s ps "own ! i"] assms(1) by (auto simp: fine_def)
  have "mset (own @ ps) = mset ((take i own @ drop (Suc i) own) @ own ! i # ps)"
    by (subst own) simp
  then have "distinct ((take i own @ drop (Suc i) own) @ own ! i # ps)"
    using assms(1) unfolding fine_def by (metis mset_eq_imp_distinct_iff)
  moreover have "\<forall>p\<in>set (take i own @ drop (Suc i) own). ok t p"
    using assms(1) t(3) by (auto simp: fine_def dest: in_set_takeD in_set_dropD)
  ultimately have "fine t (take i own @ drop (Suc i) own) (own ! i # ps)"
    using t(2) unfolding fine_def by blast
  with t(1) show ?thesis by blast
qed

lemma fine_store:
  "fine s own ps \<Longrightarrow> i < length own \<Longrightarrow> k < 4096 \<Longrightarrow> fine (store (own ! i + of_nat k) b s) own ps"
  using store_page [of s ps "own ! i" k b] fine_own [of s own ps i] by (auto simp: fine_def)

lemma trace_fine:
  "fine s own ps \<Longrightarrow> \<exists>own' ps' t. page_trace alloc free store rs own s = Ret own' t \<and> fine t own' ps'
     \<and> mset (own' @ ps') = mset (own @ ps)"
proof (induction rs arbitrary: s own ps)
  case Nil
  then show ?case by (auto simp: kreturn_def)
next
  case (Cons r rs)
  show ?case
  proof (cases r)
    case Get
    show ?thesis
    proof (cases ps)
      case Nil
      then have "alloc s = Ret 0 s" using Cons.prems alloc_empty by (simp add: fine_def)
      then show ?thesis using Cons.IH [OF Cons.prems] Get by (simp add: kbind_Ret)
    next
      case (Cons p ps')
      then obtain t where "alloc s = Ret p t" "p \<noteq> 0" "fine t (p # own) ps'"
        using fine_get Cons.prems by blast
      then show ?thesis using Cons.IH [of t "p # own" ps'] Get Cons by (simp add: kbind_Ret)
    qed
  next
    case (Put i)
    show ?thesis
    proof (cases "i < length own")
      case True
      then obtain t where t: "free (own ! i) s = Ret () t"
        "fine t (take i own @ drop (Suc i) own) (own ! i # ps)"
        using fine_put Cons.prems by blast
      have "mset own = mset (take i own @ drop (Suc i) own) + {#own ! i#}"
        by (subst id_take_nth_drop [OF True]) simp
      then show ?thesis using Cons.IH [OF t(2)] Put True t(1) by (simp add: kbind_Ret ac_simps)
    next
      case False
      then show ?thesis using Cons.IH [OF Cons.prems] Put by simp
    qed
  next
    case (Store i k b)
    show ?thesis
    proof (cases "i < length own \<and> k < 4096")
      case True
      then show ?thesis
        using Cons.IH [OF fine_store [OF Cons.prems]] Store by (simp add: kbind_def kmodify_def)
    next
      case False
      then have "page_trace alloc free store (r # rs) own s = page_trace alloc free store rs own s"
        using Store by auto
      then show ?thesis using Cons.IH [OF Cons.prems] by simp
    qed
  qed
qed

end

lemma store_byte_pool:
  assumes "pool s ps" and "page_ok s p" and "p \<notin> set ps" and "k < 4096"
  shows "pool (store_byte (p + of_nat k) b s) ps"
proof -
  have page: "PGROUNDDOWN (p + of_nat k) = p"
    using assms(4) page_ok_def [THEN iffD1, OF assms(2)] by (elim conjE) (rule PGROUNDDOWN_in_page)
  have "flist ((kmem_mem s)(p + of_nat k := b)) (freelist s) ps = flist (kmem_mem s) (freelist s) ps"
    using assms(1,3) page
    by (intro flist_other_page [where v = p]) (auto simp: pool_def page_ok_def list_all_iff)
  then show ?thesis
    using assms(1) by (simp add: pool_def store_byte_def page_ok_def list_all_iff)
qed

lemma page_ok_store_byte: "page_ok (store_byte a b s) = page_ok s"
  by (simp add: store_byte_def page_ok_def fun_eq_iff)

interpretation kp: page_pool kalloc kfree store_byte pool page_ok
proof unfold_locales
  fix s :: "'a kmem_scheme" and p :: u64 and ps
  assume "pool s (p # ps)"
  then show "\<exists>t. kalloc s = Ret p t \<and> pool t ps \<and> page_ok t = page_ok s"
    using pool_Cons by (fastforce simp: page_ok_def fun_eq_iff)
next
  fix s :: "'a kmem_scheme" and p :: u64 and ps
  assume "pool s ps" "page_ok s p" "p \<notin> set ps"
  then obtain t where "kfree p s = Ret () t" "pool t (p # ps)" using kfree_pool by blast
  then show "\<exists>t. kfree p s = Ret () t \<and> pool t (p # ps) \<and> page_ok t = page_ok s"
    using kfree_fields [of p s t] by (auto simp: page_ok_def fun_eq_iff)
next
  fix s :: "'a kmem_scheme" and p :: u64 and ps k b
  assume "pool s ps" "page_ok s p" "p \<notin> set ps" "k < (4096::nat)"
  then show "pool (store_byte (p + of_nat k) b s) ps
      \<and> page_ok (store_byte (p + of_nat k) b s) = page_ok s"
    using store_byte_pool by (simp add: page_ok_store_byte)
next
  fix s :: "'a kmem_scheme" and ps
  assume "pool s ps"
  then show "distinct ps \<and> (\<forall>p\<in>set ps. page_ok s p \<and> p \<noteq> 0)"
    using page_ok_nonzero [of s ps] by (auto simp: pool_def list_all_iff)
qed (rule pool_Nil)

section \<open>Freeing a range\<close>

definition page_list :: "u64 \<Rightarrow> nat \<Rightarrow> u64 list" where
  "page_list p n = map (\<lambda>i. p + of_nat i * PGSIZE) [0..<n]"

lemma page_list_Suc: "page_list p (Suc n) = p # page_list (p + PGSIZE) n"
  unfolding page_list_def map_upt_Suc by (simp add: algebra_simps)

lemma unat_page_list:
  assumes "unat p + n * 4096 < 18446744073709551616"
  shows "unat (p + of_nat n * PGSIZE) = unat p + n * 4096"
proof -
  have "unat (of_nat n * PGSIZE :: u64) = n * 4096"
    using assms by (simp add: unat_word_ariths unat_of_nat)
  then show ?thesis using assms u64_unat_plus [of p "of_nat n * PGSIZE"] by simp
qed

lemma freerange_pool:
  assumes "pool s ps" and "\<forall>v\<in>set (page_list p n). page_ok s v \<and> v \<notin> set ps"
    and "unat p + n * 4096 \<le> unat vend" and "unat vend < unat p + n * 4096 + 4096"
    and "unat vend + 4096 < 18446744073709551616"
  shows "\<exists>t. freerange_loop p vend s = Ret () t \<and> pool t (rev (page_list p n) @ ps)
    \<and> kend t = kend s"
  using assms
proof (induction n arbitrary: p s ps)
  case 0
  then have "unat (p + PGSIZE) = unat p + 4096" by (simp add: unat_word_ariths)
  then have "\<not> p + PGSIZE \<le> vend" using 0 by (simp add: word_le_nat_alt)
  then show ?case using 0 by (simp add: freerange_loop.simps [of p] page_list_def)
next
  case (Suc n)
  have step: "unat (p + PGSIZE) = unat p + 4096"
    using Suc.prems by (simp add: unat_word_ariths)
  then have le: "p + PGSIZE \<le> vend" using Suc.prems by (simp add: word_le_nat_alt)
  have "page_ok s p" "p \<notin> set ps" using Suc.prems by (auto simp: page_list_Suc)
  then obtain s' where s': "kfree p s = Ret () s'" "pool s' (p # ps)"
    using kfree_pool Suc.prems(1) by blast
  have ok: "page_ok s' = page_ok s" "kend s' = kend s"
    using kfree_fields [OF s'(1)] by (auto simp: page_ok_def fun_eq_iff)
  have "p \<notin> set (page_list (p + PGSIZE) n)"
  proof
    assume "p \<in> set (page_list (p + PGSIZE) n)"
    then obtain i where "i < n" and p: "p = (p + PGSIZE) + of_nat i * PGSIZE"
      by (auto simp: page_list_def)
    then have "unat ((p + PGSIZE) + of_nat i * PGSIZE) = unat p + 4096 + i * 4096"
      using Suc.prems step by (subst unat_page_list) auto
    then show False using p by simp
  qed
  then have "\<exists>t. freerange_loop (p + PGSIZE) vend s' = Ret () t
      \<and> pool t (rev (page_list (p + PGSIZE) n) @ p # ps) \<and> kend t = kend s'"
    using Suc.prems s'(2) step ok by (intro Suc.IH) (auto simp: page_list_Suc)
  then show ?case
    using le s'(1) ok by (simp add: freerange_loop.simps [of p] page_list_Suc)
qed

lemma PGROUNDUP_aligned: "p mod PGSIZE = 0 \<Longrightarrow> PGROUNDUP p = p"
  using PGROUNDDOWN_in_page [of p 4095] by (simp add: PGROUNDUP_def PGROUNDDOWN_def)

lemma unat_p2v_page:
  assumes "unat a + i * 4096 \<le> 0xE000000"
  shows "unat (p2v a + of_nat i * PGSIZE) = 0xFFFFFFFF80000000 + unat a + i * 4096"
proof -
  have "unat (p2v a) = 0xFFFFFFFF80000000 + unat a"
    using assms by (simp add: p2v_def unat_word_ariths)
  then show ?thesis using assms by (simp add: unat_page_list)
qed

lemma page_list_ok:
  assumes "kend s \<le> p2v a" and "unat a mod 4096 = 0" and "unat a + n * 4096 \<le> 0xE000000"
    and "v \<in> set (page_list (p2v a) n)"
  shows "page_ok s v"
proof -
  obtain i where i: "i < n" and v: "v = p2v a + of_nat i * PGSIZE"
    using assms(4) by (auto simp: page_list_def)
  then have u: "unat v = 0xFFFFFFFF80000000 + unat a + i * 4096" and lim: "unat a + i * 4096 < 0xE000000"
    using unat_p2v_page [of a i] assms(3) by auto
  have "v mod PGSIZE = 0"
  proof -
    obtain q where "unat a = 4096 * q" using assms(2) by (auto simp: mod_eq_0_iff_dvd)
    then have "unat v = 4096 * (0xFFFFFFFF80000 + q + i)" using u by simp
    then show ?thesis unfolding aligned_iff by simp
  qed
  moreover have "kend s \<le> v"
    using assms(1,3) u unat_p2v_page [of a 0] i by (simp add: word_le_nat_alt)
  moreover have "v2p v < PHYSTOP"
    using lim u by (simp add: v2p_def word_less_nat_alt unat_sub_if')
  ultimately show ?thesis by (simp add: page_ok_def)
qed

text \<open>\<open>freerange\<close> on a legal range of whole pages that lies above the pages already free.\<close>

lemma freerange_range:
  assumes "pool s ps" and "kend s \<le> p2v a" and "unat a mod 4096 = 0"
    and "unat a + n * 4096 \<le> 0xE000000" and "\<forall>v\<in>set ps. v < p2v a"
  shows "\<exists>t. freerange (p2v a) (p2v (a + of_nat n * PGSIZE)) s = Ret () t
    \<and> pool t (rev (page_list (p2v a) n) @ ps) \<and> kend t = kend s"
proof -
  have e: "unat (a + of_nat n * PGSIZE) = unat a + n * 4096"
    using assms(4) by (simp add: unat_page_list)
  have u: "unat (p2v a) = 0xFFFFFFFF80000000 + unat a"
      "unat (p2v (a + of_nat n * PGSIZE)) = 0xFFFFFFFF80000000 + unat a + n * 4096"
    using unat_p2v_page [of a 0] unat_p2v_page [of "a + of_nat n * PGSIZE" 0] e assms(4) by simp_all
  have "p2v a mod PGSIZE = 0"
  proof -
    obtain q where "unat a = 4096 * q" using assms(3) by (auto simp: mod_eq_0_iff_dvd)
    then have "unat (p2v a) = 4096 * (0xFFFFFFFF80000 + q)" using u by simp
    then show ?thesis unfolding aligned_iff by simp
  qed
  moreover have "\<forall>v\<in>set (page_list (p2v a) n). page_ok s v \<and> v \<notin> set ps"
  proof
    fix v assume v: "v \<in> set (page_list (p2v a) n)"
    then obtain i where "i < n" "v = p2v a + of_nat i * PGSIZE" by (auto simp: page_list_def)
    then have "p2v a \<le> v" using unat_p2v_page [of a i] assms(4) u by (simp add: word_le_nat_alt)
    then show "page_ok s v \<and> v \<notin> set ps" using page_list_ok [OF assms(2-4) v] assms(5) by force
  qed
  ultimately show ?thesis
    using freerange_pool [OF assms(1), of "p2v a" n] u assms(4)
    by (simp add: freerange_def PGROUNDUP_aligned)
qed

section \<open>Several pages\<close>

lemma unat_ucast_u8_u16: "unat (ucast (i :: u8) :: u16) = unat i"
proof -
  have "unat i < 2 ^ 8" using unsigned_less [where 'a = nat, of i] by simp
  then show ?thesis by (simp add: unsigned_ucast_eq take_bit_nat_eq_self)
qed

lemma kmalloc_loop_takes:
  assumes "flist (kmem_mem s) n xs" and "0 \<notin> set xs" and "unat i + j = unat pages" and "unat pages < 256"
    and "j \<le> length xs"
  shows "kmalloc_loop i pages n s = Some (Ret () (if j = 0 then s else s\<lparr>freelist := xs ! (j - 1)\<rparr>))"
  using assms
proof (induction j arbitrary: i n s xs)
  case 0
  then have "ucast i = pages" by (simp add: word_unat_eq_iff unat_ucast_u8_u16)
  then show ?case by (simp add: kmalloc_loop.simps)
next
  case (Suc j)
  then obtain x xs' where xs: "xs = x # xs'" by (cases xs) auto
  have ne: "ucast i \<noteq> pages" using Suc.prems by (auto simp: word_unat_eq_iff unat_ucast_u8_u16)
  have i: "unat (i + 1) + j = unat pages"
    using Suc.prems by (simp add: unat_word_ariths)
  have "kmalloc_loop i pages n s = kmalloc_loop (i + 1) pages (ld64 (kmem_mem s) n) (s\<lparr>freelist := n\<rparr>)"
    using ne Suc.prems(1,2) xs by (subst kmalloc_loop.simps) auto
  also have "\<dots> = Some (Ret () (if j = 0 then s\<lparr>freelist := n\<rparr> else s\<lparr>freelist := xs' ! (j - 1)\<rparr>))"
    using Suc.prems i xs by (subst Suc.IH [where xs = xs']) auto
  finally show ?case using Suc.prems(1) xs by (simp add: nth_Cons split: nat.split)
qed

lemma kmalloc_loop_runs_out:
  assumes "flist (kmem_mem s) n xs" and "0 \<notin> set xs" and "\<forall>k\<le>length xs. ucast (i + of_nat k) \<noteq> pages"
  shows "kmalloc_loop i pages n s = Some (Fault ''n->next'')"
  using assms
proof (induction xs arbitrary: i n s)
  case Nil
  then show ?case by (simp add: kmalloc_loop.simps)
next
  case (Cons x xs)
  have "\<forall>k\<le>length xs. ucast (i + 1 + of_nat k) \<noteq> pages"
    using Cons.prems(3) by (auto simp: algebra_simps dest: spec [where x = "Suc _"])
  moreover have "ucast i \<noteq> pages" using Cons.prems(3) by force
  ultimately show ?case
    using Cons.prems Cons.IH [of "s\<lparr>freelist := n\<rparr>" "ld64 (kmem_mem s) n" "i + 1"]
    by (subst kmalloc_loop.simps) auto
qed

lemma flist_drop: "flist m p xs \<Longrightarrow> k < length xs \<Longrightarrow> flist m (xs ! k) (drop k xs)"
proof (induction k arbitrary: p xs)
  case 0
  then show ?case by (cases xs) auto
next
  case (Suc k)
  then show ?case by (cases xs) auto
qed

lemma pool_drop:
  assumes "pool s xs" and "k < length xs"
  shows "pool (s\<lparr>freelist := xs ! k\<rparr>) (drop k xs)"
  using assms flist_drop [of "kmem_mem s" "freelist s" xs k]
  by (auto simp: pool_def list_all_iff page_ok_def dest: in_set_dropD)

section \<open>Properties\<close>

text \<open>
  C6: no page is handed out twice and none is lost. Start from a free list of distinct legal pages
  and let the kernel issue any sequence of requests: \<open>kalloc\<close>, \<open>kfree\<close> of a page it owns, and
  stores anywhere into the pages it owns. No request panics, the pages it owns and the free pages
  stay distinct from each other, and together they are the pages there were at the start.
\<close>

theorem kalloc_no_double_use:
  assumes "pool s ps"
  shows "\<exists>own ps' t. page_trace kalloc kfree store_byte rs [] s = Ret own t
    \<and> pool t ps' \<and> distinct (own @ ps') \<and> mset (own @ ps') = mset ps"
proof -
  have "kp.fine s [] ps"
    using assms kp.avail_ok by (auto simp: kp.fine_def)
  from kp.trace_fine [OF this, of rs] show ?thesis
    unfolding kp.fine_def by fastforce
qed

definition kmem_two :: kmem where
  "kmem_two = \<lparr>kmem_mem = st64 0xFFFFFFFF83201000 0xFFFFFFFF83200000 (\<lambda>_. 0),
     kend = 0xFFFFFFFF80200000, freelist = 0xFFFFFFFF83201000, use_lock = True, kalloc_fullysetup = True\<rparr>"

lemma pool_two: "pool kmem_two [0xFFFFFFFF83201000, 0xFFFFFFFF83200000]"
proof -
  have "ld64 (st64 0xFFFFFFFF83201000 0xFFFFFFFF83200000 (\<lambda>_. 0)) 0xFFFFFFFF83200000 = ld64 (\<lambda>_. 0) 0xFFFFFFFF83200000"
  proof (rule ld64_cong)
    fix i :: nat assume "i < 8"
    then show "st64 0xFFFFFFFF83201000 0xFFFFFFFF83200000 (\<lambda>_. 0) (0xFFFFFFFF83200000 + of_nat i) = (0 :: u8)"
      using PGROUNDDOWN_in_page [of "0xFFFFFFFF83200000" i] by (subst st64_other_page) simp_all
  qed
  also have "ld64 (\<lambda>_. 0) 0xFFFFFFFF83200000 = 0"
    by (rule bit_word_eqI) (simp add: ld64_def bit_ld64_upto)
  finally show ?thesis by (simp add: pool_def kmem_two_def page_ok_def v2p_def)
qed

theorem kalloc_no_double_use_witness:
  "\<exists>own ps' t. page_trace kalloc kfree store_byte [Get, Get, Store 1 5 7, Get, Put 0, Get] [] kmem_two = Ret own t
    \<and> pool t ps' \<and> distinct (own @ ps') \<and> mset (own @ ps') = mset [0xFFFFFFFF83201000, 0xFFFFFFFF83200000]"
  using kalloc_no_double_use [OF pool_two] by blast

text \<open>
  C21: \<open>kfree\<close> and \<open>kalloc\<close> are inverse. A legal page that is not free goes to the front of the free
  list and is what the next \<open>kalloc\<close> returns, which leaves the free list as it was and every byte
  outside the page untouched. An address that is not page-aligned, below \<open>end\<close> or at or above
  \<open>PHYSTOP\<close> makes \<open>kfree\<close> panic.
\<close>

theorem kfree_kalloc:
  assumes "pool s ps"
  shows "(page_ok s v \<and> v \<notin> set ps \<longrightarrow>
      (\<exists>t u. kfree v s = Ret () t \<and> pool t (v # ps) \<and> kalloc t = Ret v u \<and> pool u ps
        \<and> freelist u = freelist s \<and> (\<forall>b. PGROUNDDOWN b \<noteq> v \<longrightarrow> kmem_mem u b = kmem_mem s b)))
    \<and> (\<not> page_ok s v \<longrightarrow> kfree v s = Panic ''kfree'')"
proof (intro conjI impI)
  assume v: "page_ok s v \<and> v \<notin> set ps"
  then obtain t where t: "kfree v s = Ret () t" "pool t (v # ps)"
    using kfree_pool [OF assms] by blast
  then show "\<exists>t u. kfree v s = Ret () t \<and> pool t (v # ps) \<and> kalloc t = Ret v u \<and> pool u ps
        \<and> freelist u = freelist s \<and> (\<forall>b. PGROUNDDOWN b \<noteq> v \<longrightarrow> kmem_mem u b = kmem_mem s b)"
    using pool_Cons [OF t(2)] kfree_fields [OF t(1)] kfree_mem_other [OF t(1)] by auto
qed (rule kfree_refuses)

theorem kfree_kalloc_witness:
  "\<exists>t u. kfree 0xFFFFFFFF83202000 kmem_two = Ret () t \<and> kalloc t = Ret 0xFFFFFFFF83202000 u"
proof -
  have "page_ok kmem_two 0xFFFFFFFF83202000"
    by (simp add: page_ok_def kmem_two_def v2p_def)
  then show ?thesis
    using kfree_kalloc [OF pool_two, of "0xFFFFFFFF83202000"] by auto
qed

text \<open>
  the boot sequence frees all of the memory set aside for pages. \<open>main\<close> runs \<open>kinit1\<close> on the
  first 4 MB from \<open>KALLOC_START\<close> on and later \<open>kinit2\<close> on the rest up to \<open>PHYSTOP\<close>. Nothing
  panics, and the free list then holds each of the 44544 pages between them once, in descending
  order, with locking on.
\<close>

theorem kinit_pool:
  assumes "freelist s = 0" and "0 < kend s" and "kend s \<le> p2v KALLOC_START"
  shows "\<exists>t. kthen (kinit1 (p2v KALLOC_START) (p2v (KALLOC_START + 4 * 1024 * 1024)))
        (kinit2 (p2v (KALLOC_START + 4 * 1024 * 1024)) (p2v PHYSTOP)) s = Ret () t
    \<and> pool t (rev (page_list (p2v (KALLOC_START + 4 * 1024 * 1024)) 43520)
        @ rev (page_list (p2v KALLOC_START) 1024))
    \<and> use_lock t \<and> kalloc_fullysetup t"
proof -
  let ?ps = "rev (page_list (p2v KALLOC_START) 1024)"
  let ?s = "s\<lparr>use_lock := False\<rparr>"
  have "pool ?s []" using assms by (simp add: pool_def)
  then obtain t where t: "freerange (p2v KALLOC_START) (p2v (KALLOC_START + 4 * 1024 * 1024)) ?s = Ret () t"
      "pool t ?ps" "kend t = kend s"
    using freerange_range [of ?s "[]" KALLOC_START 1024] assms by auto
  have below: "\<forall>v\<in>set ?ps. v < p2v (KALLOC_START + 4 * 1024 * 1024)"
  proof
    fix v assume "v \<in> set ?ps"
    then obtain i where "i < 1024" "v = p2v KALLOC_START + of_nat i * PGSIZE" by (auto simp: page_list_def)
    then show "v < p2v (KALLOC_START + 4 * 1024 * 1024)"
      using unat_p2v_page [of KALLOC_START i] by (simp add: p2v_def word_less_nat_alt)
  qed
  have "kend t \<le> p2v (KALLOC_START + 4 * 1024 * 1024)"
    using assms(3) t(3) by (simp add: p2v_def word_le_nat_alt)
  then obtain t' where "freerange (p2v (KALLOC_START + 4 * 1024 * 1024)) (p2v PHYSTOP) t = Ret () t'"
      "pool t' (rev (page_list (p2v (KALLOC_START + 4 * 1024 * 1024)) 43520) @ ?ps)"
    using freerange_range [OF t(2), of "KALLOC_START + 4 * 1024 * 1024" 43520] below by auto
  moreover from this(2) have "pool (t'\<lparr>use_lock := True, kalloc_fullysetup := True\<rparr>)
      (rev (page_list (p2v (KALLOC_START + 4 * 1024 * 1024)) 43520) @ ?ps)"
    by (simp add: pool_def page_ok_def list_all_iff)
  ultimately show ?thesis
    using t(1) by (simp add: kinit1_def kinit2_def kbind_def kmodify_def)
qed

theorem kinit_pool_witness:
  "\<exists>t. kthen (kinit1 (p2v KALLOC_START) (p2v (KALLOC_START + 4 * 1024 * 1024)))
        (kinit2 (p2v (KALLOC_START + 4 * 1024 * 1024)) (p2v PHYSTOP)) (kmem_two\<lparr>freelist := 0\<rparr>) = Ret () t
    \<and> use_lock t"
proof -
  have "0 < kend kmem_two" "kend kmem_two \<le> p2v KALLOC_START"
    by (simp_all add: kmem_two_def p2v_def)
  then show ?thesis
    using kinit_pool [of "kmem_two\<lparr>freelist := 0\<rparr>"] by auto
qed

text \<open>
  C27: \<open>kmalloc\<close>. Between 1 and 255 pages, and fewer than there are free, it returns the first free
  page and takes that many pages off the list. Its loop reads the link of the page after the last
  one it takes, so a request for all free pages dereferences a null pointer; and because the
  counter is a \<open>uint8\<close> and the limit a \<open>uint16\<close>, so does every request for more than 255 pages,
  however many are free.
\<close>

theorem kmalloc_pages:
  assumes "pool s xs" and "xs \<noteq> []" and "kalloc_fullysetup s"
  shows "(0 < unat pages \<and> unat pages < 256 \<and> unat pages < length xs \<longrightarrow>
      (\<exists>t. kmalloc pages s = Some (Ret (hd xs) t) \<and> pool t (drop (unat pages) xs)))
    \<and> (256 \<le> unat pages \<or> length xs \<le> unat pages \<longrightarrow> kmalloc pages s = Some (Fault ''n->next''))"
proof -
  obtain x ys where xs: "xs = x # ys" using assms(2) by (cases xs) auto
  have nz: "0 \<notin> set xs" using kp.avail_ok [OF assms(1)] by blast
  have x: "freelist s = x" "x \<noteq> 0" and ys: "flist (kmem_mem s) (ld64 (kmem_mem s) x) ys" "0 \<notin> set ys"
    using assms(1) nz xs by (auto simp: pool_def)
  have km: "kmalloc pages s = map_option (\<lambda>out. kbind (\<lambda>_. out) (\<lambda>_. kreturn x) s)
      (kmalloc_loop 0 pages (ld64 (kmem_mem s) x) s)"
    using x assms(3) by (simp add: kmalloc_def)
  have "kmalloc pages s = Some (Ret x (s\<lparr>freelist := xs ! unat pages\<rparr>))"
    if "0 < unat pages" "unat pages < 256" "unat pages < length xs"
    using kmalloc_loop_takes [OF ys, of 0 "unat pages" pages] that xs
    by (simp add: km kbind_def kreturn_def)
  moreover have "kmalloc pages s = Some (Fault ''n->next'')"
    if "256 \<le> unat pages \<or> length xs \<le> unat pages"
  proof -
    have "ucast (0 + of_nat k :: u8) \<noteq> pages" if k: "k \<le> length ys" for k
    proof
      assume "ucast (0 + of_nat k :: u8) = pages"
      then have p: "unat pages = k mod 256"
        using unat_ucast_u8_u16 [of "of_nat k"] by (simp add: unat_of_nat)
      moreover have "k mod 256 < 256" by simp
      moreover have "k mod 256 \<le> k" by simp
      ultimately show False using \<open>256 \<le> unat pages \<or> length xs \<le> unat pages\<close> k xs by simp linarith
    qed
    then show ?thesis using kmalloc_loop_runs_out [OF ys, of 0 pages] by (simp add: km kbind_def)
  qed
  ultimately show ?thesis using pool_drop [OF assms(1), of "unat pages"] xs by auto
qed

theorem kmalloc_pages_witness:
  "(\<exists>t. kmalloc 1 kmem_two = Some (Ret 0xFFFFFFFF83201000 t)) \<and> kmalloc 2 kmem_two = Some (Fault ''n->next'')"
proof -
  have "kalloc_fullysetup kmem_two" by (simp add: kmem_two_def)
  then show ?thesis
    using kmalloc_pages [OF pool_two, of 1] kmalloc_pages [OF pool_two, of 2] by auto
qed

end
