(* ===== verification/Proc.thy ===== *)
theory Proc
  imports Kalloc
begin

text \<open>
  The process table, \<open>kernel/proc.c\<close> with \<open>include/proc.h\<close>: growth of the table, allocation of a
  process, sleep and wakeup, kill, the scheduler's choice, priorities and blessings.

  The table is a linked list of nodes carved out of pages; the model is the list of its processes
  in link order, and a \<open>struct proc *\<close> is an index into it (\<open>None\<close> is the null pointer). The macro
  \<open>EACH_PTABLE_NODE\<close> stops at the node whose link is null without visiting it, so every scan runs
  over all processes but the last one, and it dereferences the null pointer on an empty table. The
  current process of the CPU that runs the code (\<open>proc\<close> in the source) is \<open>curproc\<close>.

  \<open>sleep\<close> ends in the outcome \<open>Sleep\<close>: the process is marked and gives up the CPU; when it runs
  again it executes \<open>sleep_tidy\<close> and goes back to testing the condition it waited for. Sections under
  \<open>ptable.lock\<close> are atomic.
\<close>

unbundle bit_operations_syntax

section \<open>Definitions\<close>

datatype procstate = UNUSED | EMBRYO | SLEEPING | RUNNABLE | RUNNING | ZOMBIE

abbreviation (input) PROC_BLESSED :: u8 where "PROC_BLESSED \<equiv> 1"
abbreviation (input) PROC_DAMNED :: u8 where "PROC_DAMNED \<equiv> 0"
abbreviation (input) CPU_RESERVED_BLESS :: u64 where "CPU_RESERVED_BLESS \<equiv> 0x01"
abbreviation (input) CPU_DISABLED :: u64 where "CPU_DISABLED \<equiv> 0x02"
abbreviation (input) PROC_NO_BOOST_PRIORITY :: u8 where "PROC_NO_BOOST_PRIORITY \<equiv> 0x0A"
abbreviation (input) PROC_DEFAULT_PRIORITY :: u8 where "PROC_DEFAULT_PRIORITY \<equiv> 0x80"
abbreviation (input) PROC_MAX_PRIORITY :: u8 where "PROC_MAX_PRIORITY \<equiv> 0xFF"
abbreviation (input) KSTACKSIZE :: u64 where "KSTACKSIZE \<equiv> 4096"
abbreviation (input) NOFILE :: nat where "NOFILE \<equiv> 16"

record proc =
  psz :: u64
  pgdir :: u64
  kstack :: u64
  state :: procstate
  pid :: int
  parent :: "nat option"
  tf :: u64
  pcontext :: u64
  chan :: "chan option"
  killed :: bool
  ofile :: "nat option list"
  cwd :: "(bool \<times> nat) option"   \<comment> \<open>an in-memory inode: which cache, which slot\<close>
  pname :: "u8 list"
  lastsyscall :: int
  blessed :: u8
  priority :: u8
  skipped :: u32
  rpipe :: "nat option"
  wpipe :: "nat option"

text \<open>A node of a freshly cleared page: all bytes zero.\<close>

definition zero_proc :: proc where
  "zero_proc = \<lparr>psz = 0, pgdir = 0, kstack = 0, state = UNUSED, pid = 0, parent = None, tf = 0,
     pcontext = 0, chan = None, killed = False, ofile = replicate NOFILE None, cwd = None,
     pname = replicate 16 0, lastsyscall = 0, blessed = PROC_DAMNED, priority = 0, skipped = 0,
     rpipe = None, wpipe = None\<rparr>"

record ptab = kmem +
  ptable :: "proc list"
  nextpid :: int
  curproc :: "nat option"
  initproc :: "nat option"
  capabilities :: u64          \<comment> \<open>of the CPU that runs the code\<close>

definition set_proc :: "nat \<Rightarrow> (proc \<Rightarrow> proc) \<Rightarrow> 'a ptab_scheme \<Rightarrow> 'a ptab_scheme" where
  "set_proc i f s = s\<lparr>ptable := (ptable s)[i := f (ptable s ! i)]\<rparr>"

text \<open>\<open>for(EACH_PTABLE_NODE)\<close>: the visited part of the table, or the null dereference.\<close>

definition each_ptable_node :: "('a ptab_scheme, proc list) kmon" where
  "each_ptable_node s = (if ptable s = [] then Fault ''ptable.head'' else Ret (butlast (ptable s)) s)"

text \<open>The index of the first element that satisfies a test; the loops with an early exit.\<close>

fun find_first :: "('b \<Rightarrow> bool) \<Rightarrow> 'b list \<Rightarrow> nat option" where
  "find_first P [] = None"
| "find_first P (x # xs) = (if P x then Some 0 else map_option Suc (find_first P xs))"

definition find_pid :: "int \<Rightarrow> ('a ptab_scheme, nat option) kmon" where
  "find_pid p = kbind each_ptable_node (\<lambda>ps. kreturn (find_first (\<lambda>q. pid q = p) ps))"

subsection \<open>Growth and allocation\<close>

text \<open>\<open>sizeof(struct ptable_node)\<close> is 264, so a page holds 15 nodes. The first page becomes the
  table; a later one is linked behind the last node.\<close>

definition nodes_per_page :: nat where
  "nodes_per_page = 4096 div 264"

definition growptable :: "('a ptab_scheme, int) kmon" where
  "growptable = kbind kalloc (\<lambda>ptr.
     if ptr = 0 then kreturn 0
     else kthen (kmodify (\<lambda>s. s\<lparr>kmem_mem := sys_memset ptr 0 4096 (kmem_mem s),
         ptable := ptable s @ replicate nodes_per_page zero_proc\<rparr>))
       (kreturn 1))"

definition pinit :: "('a ptab_scheme, unit) kmon" where
  "pinit = kthen growptable (kreturn ())"

text \<open>The kernel stack of a new process: a trap frame of 176 bytes at the top, below it the return
  address \<open>trapret\<close>, below it a saved context of 64 bytes, zero but for the entry point \<open>forkret\<close>.
  Both addresses come from the linker and are arguments.\<close>

definition setup_kstack :: "u64 \<Rightarrow> u64 \<Rightarrow> nat \<Rightarrow> u64 \<Rightarrow> 'a ptab_scheme \<Rightarrow> 'a ptab_scheme" where
  "setup_kstack trapret forkret i stk s =
     (let sp1 = stk + KSTACKSIZE - 176; sp2 = sp1 - 8; sp3 = sp2 - 64;
          m1 = st64 sp2 trapret (kmem_mem s);
          m2 = sys_memset sp3 0 64 m1;
          m3 = st64 (sp3 + 56) forkret m2
      in set_proc i (\<lambda>p. p\<lparr>tf := sp1, pcontext := sp3\<rparr>) (s\<lparr>kmem_mem := m3\<rparr>))"

text \<open>\<open>allocproc\<close> after \<open>found:\<close>.\<close>

definition allocproc_found :: "u64 \<Rightarrow> u64 \<Rightarrow> nat \<Rightarrow> ('a ptab_scheme, nat option) kmon" where
  "allocproc_found trapret forkret i =
     kthen (kmodify (\<lambda>s. (set_proc i (\<lambda>p. p\<lparr>state := EMBRYO, pid := nextpid s,
         priority := PROC_DEFAULT_PRIORITY\<rparr>) s)\<lparr>nextpid := nextpid s + 1\<rparr>))
     (kbind kalloc (\<lambda>stk.
       kthen (kmodify (set_proc i (\<lambda>p. p\<lparr>kstack := stk\<rparr>)))
       (if stk = 0 then kthen (kmodify (set_proc i (\<lambda>p. p\<lparr>state := UNUSED\<rparr>))) (kreturn None)
        else kthen (kmodify (setup_kstack trapret forkret i stk)) (kreturn (Some i)))))"

definition find_unused :: "'a ptab_scheme \<Rightarrow> nat option" where
  "find_unused s = find_first (\<lambda>p. state p = UNUSED) (butlast (ptable s))"

lemma find_first_None: "find_first P xs = None \<longleftrightarrow> (\<forall>x\<in>set xs. \<not> P x)"
  by (induction xs) auto

lemma find_first_Some: "find_first P xs = Some i \<Longrightarrow> i < length xs \<and> P (xs ! i) \<and> (\<forall>j<i. \<not> P (xs ! j))"
  by (induction xs arbitrary: i) (auto split: if_splits simp: nth_Cons split: nat.splits)

lemma nodes_per_page [simp]: "nodes_per_page = 15"
  by (simp add: nodes_per_page_def)

lemma growptable_cases:
  "growptable s = (case kalloc s of Ret p t \<Rightarrow>
     if p = 0 then Ret 0 t else
       Ret 1 (t\<lparr>kmem_mem := sys_memset p 0 4096 (kmem_mem t), ptable := ptable t @ replicate 15 zero_proc\<rparr>)
     | Panic e \<Rightarrow> Panic e | Sleep c t \<Rightarrow> Sleep c t | Fault e \<Rightarrow> Fault e)"
  by (simp add: growptable_def kmon_defs split: outcome.splits)

lemma growptable_table:
  "growptable s = Ret r t \<Longrightarrow> 0 < r \<Longrightarrow> ptable t = ptable s @ replicate 15 zero_proc"
  by (auto simp: growptable_cases kalloc_def Let_def split: if_splits)

lemma growptable_unused:
  assumes "growptable s = Ret r t" and "0 < r"
  shows "find_unused t \<noteq> None"
proof -
  have "zero_proc \<in> set (butlast (ptable t))"
    using growptable_table [OF assms] by (simp add: butlast_append numeral_eq_Suc)
  then show ?thesis
    unfolding find_unused_def find_first_None zero_proc_def by force
qed

function allocproc :: "u64 \<Rightarrow> u64 \<Rightarrow> ('a ptab_scheme, nat option) kmon" where
  "allocproc trapret forkret s =
     (if ptable s = [] then Fault ''ptable.head'' else
      case find_unused s of
        Some i \<Rightarrow> allocproc_found trapret forkret i s
      | None \<Rightarrow>
         (case growptable s of
            Ret r t \<Rightarrow> if r > 0 then allocproc trapret forkret t else Ret None t
          | Panic e \<Rightarrow> Panic e | Sleep c t \<Rightarrow> Sleep c t | Fault e \<Rightarrow> Fault e))"
  by pat_completeness auto

termination allocproc
  by (relation "measure (\<lambda>(a, b, s). if find_unused s = None then 1 else 0)")
    (auto dest: growptable_unused)

declare allocproc.simps [simp del]

subsection \<open>Sleep, wakeup, kill\<close>

definition wakeup1_proc :: "chan option \<Rightarrow> proc \<Rightarrow> proc" where
  "wakeup1_proc c p = (if state p = SLEEPING \<and> chan p = c then p\<lparr>state := RUNNABLE\<rparr> else p)"

definition wakeup1 :: "chan option \<Rightarrow> ('a ptab_scheme, unit) kmon" where
  "wakeup1 c = kbind each_ptable_node (\<lambda>ps.
     kmodify (\<lambda>s. s\<lparr>ptable := map (wakeup1_proc c) ps @ [last (ptable s)]\<rparr>))"

definition wakeup :: "chan \<Rightarrow> ('a ptab_scheme, unit) kmon" where
  "wakeup c = wakeup1 (Some c)"

text \<open>The locks a sleeper may hold, and \<open>sched\<close> on the process table.\<close>

datatype lockref = PtableLock | OtherLock string

definition sched :: "nat \<Rightarrow> chan \<Rightarrow> ('a ptab_scheme, unit) kmon" where
  "sched i c s = (if state (ptable s ! i) = RUNNING then Panic ''sched running'' else Sleep c s)"

definition sleep :: "chan \<Rightarrow> lockref option \<Rightarrow> ('a ptab_scheme, unit) kmon" where
  "sleep c lk s = (case curproc s of
       None \<Rightarrow> Panic ''sleep''
     | Some i \<Rightarrow> if lk = None then Panic ''sleep without lk''
         else sched i c (set_proc i (\<lambda>p. p\<lparr>chan := Some c, state := SLEEPING\<rparr>) s))"

definition sleep_tidy :: "nat \<Rightarrow> 'a ptab_scheme \<Rightarrow> 'a ptab_scheme" where
  "sleep_tidy i = set_proc i (\<lambda>p. p\<lparr>chan := None\<rparr>)"

definition kill :: "int \<Rightarrow> ('a ptab_scheme, int) kmon" where
  "kill p = kbind (find_pid p) (\<lambda>r. case r of
       Some i \<Rightarrow> kthen (kmodify (set_proc i (\<lambda>q. q\<lparr>killed := True,
           state := (if state q = SLEEPING then RUNNABLE else state q)\<rparr>))) (kreturn 0)
     | None \<Rightarrow> kreturn (- 1))"

subsection \<open>Queries and priorities\<close>

definition pstate :: "int \<Rightarrow> ('a ptab_scheme, procstate) kmon" where
  "pstate p = kbind (find_pid p) (\<lambda>r. case r of
     Some i \<Rightarrow> kget (\<lambda>s. state (ptable s ! i)) | None \<Rightarrow> kreturn UNUSED)"

definition isblessed :: "int \<Rightarrow> ('a ptab_scheme, int) kmon" where
  "isblessed p = kbind (find_pid p) (\<lambda>r. case r of
     Some i \<Rightarrow> kget (\<lambda>s. uint (blessed (ptable s ! i))) | None \<Rightarrow> kreturn 0)"

definition getpriority :: "int \<Rightarrow> ('a ptab_scheme, int) kmon" where
  "getpriority p = kbind (find_pid p) (\<lambda>r. case r of
     Some i \<Rightarrow> kget (\<lambda>s. uint (priority (ptable s ! i))) | None \<Rightarrow> kreturn (- 1))"

definition setpriority :: "int \<Rightarrow> int \<Rightarrow> ('a ptab_scheme, int) kmon" where
  "setpriority p prio = kbind (find_pid p) (\<lambda>r. case r of
     Some i \<Rightarrow> kthen (kmodify (set_proc i (\<lambda>q. q\<lparr>priority := word_of_int prio\<rparr>))) (kreturn 1)
   | None \<Rightarrow> kreturn (- 1))"

subsection \<open>The scheduler's choice\<close>

definition effective_priority :: "proc \<Rightarrow> u64" where
  "effective_priority p =
     (let e = (if priority p > PROC_NO_BOOST_PRIORITY then ucast (ucast (priority p) + skipped p :: u32)
               else ucast (priority p))
      in if e > ucast PROC_MAX_PRIORITY then ucast PROC_MAX_PRIORITY else e)"

definition eligible :: "u64 \<Rightarrow> proc \<Rightarrow> bool" where
  "eligible caps p \<longleftrightarrow> state p = RUNNABLE
     \<and> \<not> (caps AND CPU_RESERVED_BLESS = CPU_RESERVED_BLESS \<and> blessed p \<noteq> PROC_BLESSED)"

definition skip_proc :: "proc \<Rightarrow> proc" where
  "skip_proc p = p\<lparr>skipped := skipped p + 1\<rparr>"

text \<open>The scan at index \<open>i\<close>, with \<open>bestp\<close>, \<open>highestpriority\<close> and the table so far.\<close>

fun sched_scan :: "u64 \<Rightarrow> nat list \<Rightarrow> nat option \<Rightarrow> u8 \<Rightarrow> proc list \<Rightarrow> nat option \<times> proc list" where
  "sched_scan caps [] best high ps = (best, ps)"
| "sched_scan caps (i # is) best high ps =
     (if \<not> eligible caps (ps ! i) then sched_scan caps is best high ps
      else let e = effective_priority (ps ! i) in
        if e \<ge> ucast high then
          sched_scan caps is (Some i) (ucast e)
            (case best of Some b \<Rightarrow> ps[b := skip_proc (ps ! b)] | None \<Rightarrow> ps)
        else sched_scan caps is best high (ps[i := skip_proc (ps ! i)]))"

text \<open>One turn of the loop of \<open>scheduler\<close>, up to the switch to the chosen process; \<open>None\<close> when it
  chose none. A disabled CPU halts and chooses none.\<close>

definition scheduler :: "('a ptab_scheme, nat option) kmon" where
  "scheduler = kbind (kget capabilities) (\<lambda>caps.
     if caps AND CPU_DISABLED = CPU_DISABLED then kreturn None
     else kbind each_ptable_node (\<lambda>vis. kbind (kget ptable) (\<lambda>ps.
       (case sched_scan caps [0..<length vis] None 0 ps of
          (None, ps') \<Rightarrow> kthen (kmodify (\<lambda>s. s\<lparr>ptable := ps'\<rparr>)) (kreturn None)
        | (Some b, ps') \<Rightarrow> kthen (kmodify (\<lambda>s. s\<lparr>ptable := ps'[b := (ps' ! b)\<lparr>state := RUNNING, skipped := 0\<rparr>],
              curproc := Some b\<rparr>)) (kreturn (Some b))))))"

definition yield :: "('a ptab_scheme, unit) kmon" where
  "yield s = (case curproc s of
       None \<Rightarrow> Fault ''proc->state''
     | Some i \<Rightarrow> Ret () (set_proc i (\<lambda>p. p\<lparr>state := RUNNABLE\<rparr>) s))"

section \<open>Lemmas on the table\<close>

lemma set_proc_fields [simp]:
  "ptable (set_proc i f s) = (ptable s)[i := f (ptable s ! i)]" "nextpid (set_proc i f s) = nextpid s"
  "curproc (set_proc i f s) = curproc s" "initproc (set_proc i f s) = initproc s"
  "capabilities (set_proc i f s) = capabilities s" "kmem_mem (set_proc i f s) = kmem_mem s"
  "freelist (set_proc i f s) = freelist s" "kend (set_proc i f s) = kend s"
  by (simp_all add: set_proc_def)

lemma kalloc_table:
  "kalloc s = Ret r t \<Longrightarrow> ptable t = ptable s \<and> nextpid t = nextpid s \<and> curproc t = curproc s"
  by (auto simp: kalloc_def Let_def)

lemma find_pid_eq:
  "find_pid p s = (if ptable s = [] then Fault ''ptable.head''
     else Ret (find_first (\<lambda>q. pid q = p) (butlast (ptable s))) s)"
  by (simp add: find_pid_def each_ptable_node_def kmon_defs)

lemma find_firstI:
  "i < length xs \<Longrightarrow> P (xs ! i) \<Longrightarrow> (\<And>j. j < i \<Longrightarrow> \<not> P (xs ! j)) \<Longrightarrow> find_first P xs = Some i"
proof (induction xs arbitrary: i)
  case (Cons x xs)
  show ?case
  proof (cases i)
    case 0
    then show ?thesis using Cons.prems by simp
  next
    case (Suc k)
    then have "find_first P xs = Some k" using Cons.prems Cons.IH [of k] by force
    then show ?thesis using Suc Cons.prems(3) [of 0] by simp
  qed
qed simp

lemma find_first_butlast:
  "find_first P (butlast xs) = Some i \<Longrightarrow> i < length xs - 1 \<and> P (xs ! i)"
  using find_first_Some [of P "butlast xs" i] by (auto simp: nth_butlast)

subsection \<open>Well-formed tables\<close>

text \<open>Live processes have distinct positive identifiers below \<open>nextpid\<close>, the node that the scans do
  not reach is unused, a sleeper has a channel.\<close>

definition ptab_ok :: "int \<Rightarrow> proc list \<Rightarrow> bool" where
  "ptab_ok np ps \<longleftrightarrow> ps \<noteq> [] \<and> state (last ps) = UNUSED \<and> 0 < np
     \<and> (\<forall>p\<in>set ps. state p \<noteq> UNUSED \<longrightarrow> 0 < pid p \<and> pid p < np)
     \<and> (\<forall>i<length ps. \<forall>j<length ps. i \<noteq> j \<longrightarrow> state (ps ! i) \<noteq> UNUSED \<longrightarrow> state (ps ! j) \<noteq> UNUSED
          \<longrightarrow> pid (ps ! i) \<noteq> pid (ps ! j))
     \<and> (\<forall>p\<in>set ps. state p = SLEEPING \<longrightarrow> chan p \<noteq> None)"

text \<open>What all operations but the allocating ones do to a process.\<close>

definition same_life :: "proc \<Rightarrow> proc \<Rightarrow> bool" where
  "same_life p q \<longleftrightarrow> pid q = pid p \<and> (state q = UNUSED \<longleftrightarrow> state p = UNUSED)
     \<and> (state q = SLEEPING \<longrightarrow> chan q \<noteq> None)"

lemma ptab_ok_same_life:
  assumes "ptab_ok np ps" and "list_all2 same_life ps qs"
  shows "ptab_ok np qs"
proof -
  have len: "length qs = length ps" using assms(2) by (simp add: list_all2_lengthD)
  have each: "same_life (ps ! i) (qs ! i)" if "i < length ps" for i
    using assms(2) that by (simp add: list_all2_nthD)
  have ne: "ps \<noteq> []" "qs \<noteq> []" using assms(1) len by (auto simp: ptab_ok_def)
  then have last: "state (last qs) = UNUSED"
    using assms(1) len each [of "length ps - 1"]
    by (simp add: ptab_ok_def last_conv_nth same_life_def)
  have old: "\<exists>p\<in>set ps. same_life p q" if "q \<in> set qs" for q
    using each len that by (metis in_set_conv_nth)
  have "state p \<noteq> UNUSED \<longrightarrow> 0 < pid p \<and> pid p < np" "state p = SLEEPING \<longrightarrow> chan p \<noteq> None"
    if "p \<in> set qs" for p
    using old [OF that] assms(1) by (auto simp: ptab_ok_def same_life_def)
  moreover have "pid (qs ! i) \<noteq> pid (qs ! j)"
    if "i < length qs" "j < length qs" "i \<noteq> j" "state (qs ! i) \<noteq> UNUSED" "state (qs ! j) \<noteq> UNUSED" for i j
    using that each [of i] each [of j] len assms(1) by (simp add: ptab_ok_def same_life_def)
  moreover have "0 < np" using assms(1) by (simp add: ptab_ok_def)
  ultimately show ?thesis using ne last unfolding ptab_ok_def by blast
qed

lemma same_life_refl:
  "ptab_ok np ps \<Longrightarrow> list_all2 same_life ps ps"
  by (auto simp: ptab_ok_def same_life_def list_all2_same)

lemma ptab_ok_update:
  assumes "ptab_ok np ps" and "i < length ps \<Longrightarrow> same_life (ps ! i) p"
  shows "ptab_ok np (ps[i := p])"
proof (cases "i < length ps")
  case True
  then have "list_all2 same_life ps (ps[i := p])"
    using assms same_life_refl [OF assms(1)]
    by (auto simp: list_all2_conv_all_nth nth_list_update)
  then show ?thesis using ptab_ok_same_life assms(1) by blast
next
  case False
  then show ?thesis using assms(1) by (simp add: list_update_beyond)
qed

lemma ptab_ok_sleeping: "ptab_ok np ps \<Longrightarrow> i < length ps \<Longrightarrow> state (ps ! i) = SLEEPING \<Longrightarrow> chan (ps ! i) \<noteq> None"
  by (auto simp: ptab_ok_def)

subsection \<open>Wakeup\<close>

lemma wakeup1_eq:
  assumes "ptable s \<noteq> []"
  shows "wakeup1 c s = Ret () (s\<lparr>ptable := map (wakeup1_proc c) (butlast (ptable s)) @ [last (ptable s)]\<rparr>)"
  using assms by (simp add: wakeup1_def each_ptable_node_def kmon_defs)

lemma wakeup_eq:
  assumes "ptable s \<noteq> []"
  shows "wakeup c s = Ret () (s\<lparr>ptable := map (wakeup1_proc (Some c)) (butlast (ptable s)) @ [last (ptable s)]\<rparr>)"
  using assms by (simp add: wakeup_def wakeup1_eq)

lemma wakeup_nth:
  assumes "ps \<noteq> []" and "j < length ps"
  shows "(map f (butlast ps) @ [last ps]) ! j = (if j < length ps - 1 then f (ps ! j) else ps ! j)"
proof (cases "j < length ps - 1")
  case False
  then have "j = length ps - 1" using assms(2) by simp
  then show ?thesis using assms(1) by (simp add: nth_append last_conv_nth)
qed (simp add: nth_append nth_butlast)

lemma same_life_wakeup1_proc: "(state p = SLEEPING \<Longrightarrow> chan p \<noteq> None) \<Longrightarrow> same_life p (wakeup1_proc c p)"
  by (auto simp: same_life_def wakeup1_proc_def)

lemma wakeup_ok:
  assumes "ptab_ok np (ptable s)"
  shows "ptab_ok np (map (wakeup1_proc c) (butlast (ptable s)) @ [last (ptable s)])"
proof (rule ptab_ok_same_life [OF assms])
  have "ptable s \<noteq> []" using assms by (simp add: ptab_ok_def)
  then show "list_all2 same_life (ptable s) (map (wakeup1_proc c) (butlast (ptable s)) @ [last (ptable s)])"
    using same_life_refl [OF assms] ptab_ok_sleeping [OF assms]
    by (auto simp: list_all2_conv_all_nth wakeup_nth intro!: same_life_wakeup1_proc)
qed

subsection \<open>Allocation\<close>

lemma setup_kstack_table:
  "ptable (setup_kstack tr fr i stk s) = (ptable s)[i := (ptable s ! i)\<lparr>tf := stk + KSTACKSIZE - 176,
      pcontext := stk + KSTACKSIZE - 248\<rparr>]
   \<and> nextpid (setup_kstack tr fr i stk s) = nextpid s \<and> curproc (setup_kstack tr fr i stk s) = curproc s"
  by (simp add: setup_kstack_def Let_def)

text \<open>The process found: what its fields are afterwards, when there is a page for its stack and when
  there is none.\<close>

lemma allocproc_found_eq:
  assumes "i < length (ptable s)"
  shows "\<exists>r t. allocproc_found tr fr i s = Ret r t \<and> nextpid t = nextpid s + 1 \<and> curproc t = curproc s
    \<and> (if freelist s = 0 then r = None
         \<and> ptable t = (ptable s)[i := (ptable s ! i)\<lparr>pid := nextpid s,
              priority := PROC_DEFAULT_PRIORITY, kstack := 0, state := UNUSED\<rparr>]
       else r = Some i
         \<and> ptable t = (ptable s)[i := (ptable s ! i)\<lparr>state := EMBRYO, pid := nextpid s,
              priority := PROC_DEFAULT_PRIORITY, kstack := freelist s, tf := freelist s + KSTACKSIZE - 176,
              pcontext := freelist s + KSTACKSIZE - 248\<rparr>])"
  using assms
  by (auto simp: allocproc_found_def kmon_defs kalloc_def Let_def setup_kstack_table)

lemma find_unused_Some:
  assumes "find_unused s = Some i"
  shows "i < length (ptable s) - 1 \<and> state (ptable s ! i) = UNUSED"
  using find_first_butlast [OF assms [unfolded find_unused_def]] by simp

lemma ptab_ok_alloc:
  assumes "ptab_ok np ps" and "i < length ps - 1" and "state (ps ! i) = UNUSED"
    and "pid p = np" and "state p = UNUSED \<or> state p = EMBRYO"
  shows "ptab_ok (np + 1) (ps[i := p])"
proof -
  have i: "i < length ps" using assms(2) by simp
  have "ps[i := p] \<noteq> []" and "state (last (ps[i := p])) = UNUSED"
    using assms(1,2) by (auto simp: ptab_ok_def last_conv_nth nth_list_update)
  moreover have "state q \<noteq> UNUSED \<longrightarrow> 0 < pid q \<and> pid q < np + 1" "state q = SLEEPING \<longrightarrow> chan q \<noteq> None"
    if "q \<in> set (ps[i := p])" for q
  proof -
    have "q = p \<or> q \<in> set ps" using that set_update_subset_insert [of ps i p] by blast
    then show "state q \<noteq> UNUSED \<longrightarrow> 0 < pid q \<and> pid q < np + 1" "state q = SLEEPING \<longrightarrow> chan q \<noteq> None"
      using assms by (auto simp: ptab_ok_def)
  qed
  moreover have "pid (ps[i := p] ! j) \<noteq> pid (ps[i := p] ! k)"
    if "j < length ps" "k < length ps" "j \<noteq> k" "state (ps[i := p] ! j) \<noteq> UNUSED" "state (ps[i := p] ! k) \<noteq> UNUSED"
    for j k
  proof -
    have "pid (ps ! l) < np" if "l < length ps" "state (ps ! l) \<noteq> UNUSED" for l
      using assms(1) that by (auto simp: ptab_ok_def)
    then show ?thesis
      using that assms(1,4) i by (cases "j = i"; cases "k = i") (force simp: ptab_ok_def)+
  qed
  moreover have "0 < np + 1" using assms(1) by (simp add: ptab_ok_def)
  ultimately show ?thesis unfolding ptab_ok_def by simp
qed

lemma ptab_ok_grow:
  assumes "ptab_ok np ps"
  shows "ptab_ok np (ps @ replicate 15 zero_proc)"
proof -
  have z: "state zero_proc = UNUSED" by (simp add: zero_proc_def)
  have l: "last (ps @ replicate 15 zero_proc) = zero_proc" by simp
  have "pid ((ps @ replicate 15 zero_proc) ! i) \<noteq> pid ((ps @ replicate 15 zero_proc) ! j)"
    if "i < length ps + 15" "j < length ps + 15" "i \<noteq> j"
      "state ((ps @ replicate 15 zero_proc) ! i) \<noteq> UNUSED" "state ((ps @ replicate 15 zero_proc) ! j) \<noteq> UNUSED" for i j
    using that assms z by (auto simp: ptab_ok_def nth_append split: if_splits)
  then show ?thesis
    using assms z l unfolding ptab_ok_def by auto
qed

lemma allocproc_ok:
  assumes "ptab_ok (nextpid s) (ptable s)" and "allocproc tr fr s = Ret r t"
  shows "ptab_ok (nextpid t) (ptable t) \<and> curproc t = curproc s
    \<and> (\<forall>i. r = Some i \<longrightarrow> i < length (ptable t) - 1 \<and> state (ptable t ! i) = EMBRYO
         \<and> pid (ptable t ! i) = nextpid s \<and> nextpid t = nextpid s + 1)"
  using assms
proof (induction tr fr s arbitrary: r t rule: allocproc.induct)
  case (1 tr fr s)
  have ne: "ptable s \<noteq> []" using 1(2) by (simp add: ptab_ok_def)
  show ?case
  proof (cases "find_unused s")
    case (Some i)
    note i = find_unused_Some [OF Some]
    then have "i < length (ptable s)" by linarith
    then obtain r' t' where a: "allocproc_found tr fr i s = Ret r' t'" "nextpid t' = nextpid s + 1"
        "curproc t' = curproc s"
      and p: "\<exists>p. ptable t' = (ptable s)[i := p] \<and> pid p = nextpid s \<and> (state p = UNUSED \<or> state p = EMBRYO)
        \<and> (\<forall>j. r' = Some j \<longrightarrow> j = i \<and> state p = EMBRYO)"
      using allocproc_found_eq [of i s tr fr] by (cases "freelist s = 0") fastforce+
    have "r = r'" "t = t'" using 1(3) Some ne a(1) by (simp_all add: allocproc.simps)
    with p a ptab_ok_alloc [OF 1(2)] i show ?thesis by auto
  next
    case None
    obtain k u where g: "growptable s = Ret k u"
      using 1(3) None ne by (auto simp: allocproc.simps split: outcome.splits)
    have u: "curproc u = curproc s \<and> nextpid u = nextpid s"
      using g by (auto simp: growptable_cases kalloc_def Let_def split: if_splits)
    show ?thesis
    proof (cases "0 < k")
      case True
      have "ptable u = ptable s @ replicate 15 zero_proc" using growptable_table [OF g True] .
      then have "ptab_ok (nextpid u) (ptable u)" using ptab_ok_grow [OF 1(2)] u by simp
      moreover have "allocproc tr fr u = Ret r t"
        using 1(3) None ne g True by (simp add: allocproc.simps [of tr fr s])
      ultimately show ?thesis using 1(1) [OF ne None g True] u by simp
    next
      case False
      then have "k = 0" "ptable u = ptable s"
        using g by (auto simp: growptable_cases kalloc_def Let_def split: if_splits)
      moreover have "r = None" "t = u" using 1(3) None ne g False by (simp_all add: allocproc.simps)
      ultimately show ?thesis using 1(2) u by simp
    qed
  qed
qed

subsection \<open>The scheduler's choice\<close>

lemma effective_priority_le: "unat (effective_priority p) \<le> 255"
  by (auto simp: effective_priority_def Let_def word_less_nat_alt word_le_nat_alt)

lemma effective_priority_u8: "ucast (ucast (effective_priority p) :: u8) = effective_priority p"
proof -
  have "take_bit 8 (unat (effective_priority p)) = unat (effective_priority p)"
    using effective_priority_le [of p] by (simp add: take_bit_nat_eq_self)
  then show ?thesis
    by (simp add: word_unat_eq_iff unsigned_ucast_eq unsigned_take_bit_eq)
qed

text \<open>The scan has seen the processes before \<open>k\<close>.\<close>

definition scan_ok :: "u64 \<Rightarrow> proc list \<Rightarrow> nat \<Rightarrow> nat option \<Rightarrow> u8 \<Rightarrow> proc list \<Rightarrow> bool" where
  "scan_ok caps qs k best high ps \<longleftrightarrow> length ps = length qs
     \<and> (case best of
          None \<Rightarrow> high = 0 \<and> ps = qs \<and> (\<forall>j<k. \<not> eligible caps (qs ! j))
        | Some b \<Rightarrow> b < k \<and> eligible caps (qs ! b) \<and> ucast high = effective_priority (qs ! b)
            \<and> (\<forall>j<k. eligible caps (qs ! j) \<longrightarrow> effective_priority (qs ! j) \<le> effective_priority (qs ! b))
            \<and> (\<forall>j<k. b < j \<longrightarrow> eligible caps (qs ! j) \<longrightarrow> effective_priority (qs ! j) < effective_priority (qs ! b))
            \<and> (\<forall>j<length qs. ps ! j =
                 (if j < k \<and> j \<noteq> b \<and> eligible caps (qs ! j) then skip_proc (qs ! j) else qs ! j)))"

lemma scan_ok_nth: "scan_ok caps qs k best high ps \<Longrightarrow> k < length qs \<Longrightarrow> ps ! k = qs ! k"
  by (auto simp: scan_ok_def split: option.splits)

lemma scan_ok_ineligible:
  "scan_ok caps qs k best high ps \<Longrightarrow> \<not> eligible caps (qs ! k) \<Longrightarrow> scan_ok caps qs (Suc k) best high ps"
  by (auto simp: scan_ok_def less_Suc_eq split: option.splits)

lemma scan_ok_better:
  assumes "scan_ok caps qs k best high ps" and "k < length qs" and "eligible caps (qs ! k)"
    and "ucast high \<le> effective_priority (qs ! k)"
  shows "scan_ok caps qs (Suc k) (Some k) (ucast (effective_priority (qs ! k)))
    (case best of Some b \<Rightarrow> ps[b := skip_proc (ps ! b)] | None \<Rightarrow> ps)"
proof (cases best)
  case None
  then show ?thesis
    using assms by (auto simp: scan_ok_def effective_priority_u8 less_Suc_eq)
next
  case (Some b)
  then show ?thesis
    using assms
    by (auto simp: scan_ok_def effective_priority_u8 less_Suc_eq nth_list_update intro: order_trans)
qed

lemma scan_ok_worse:
  assumes "scan_ok caps qs k best high ps" and "k < length qs" and "eligible caps (qs ! k)"
    and "\<not> ucast high \<le> effective_priority (qs ! k)"
  shows "scan_ok caps qs (Suc k) best high (ps[k := skip_proc (ps ! k)])"
proof (cases best)
  case None
  then show ?thesis using assms by (auto simp: scan_ok_def)
next
  case (Some b)
  then show ?thesis
    using assms by (auto simp: scan_ok_def less_Suc_eq nth_list_update not_le)
qed

lemma sched_scan_ok:
  assumes "scan_ok caps qs k best high ps" and "k \<le> n" and "n \<le> length qs"
  shows "\<exists>high'. case sched_scan caps [k..<n] best high ps of (best', ps') \<Rightarrow> scan_ok caps qs n best' high' ps'"
  using assms
proof (induction "n - k" arbitrary: k best high ps)
  case 0
  then show ?case by auto
next
  case (Suc d)
  then have k: "k < n" "k < length qs" and up: "[k..<n] = k # [Suc k..<n]" and d: "d = n - Suc k"
    by (auto simp: upt_conv_Cons)
  note nth = scan_ok_nth [OF Suc.prems(1) k(2)]
  show ?case
  proof (cases "eligible caps (qs ! k)")
    case False
    then show ?thesis
      using Suc.hyps(1) [OF d scan_ok_ineligible [OF Suc.prems(1) False]] k Suc.prems(3) nth up by simp
  next
    case True
    show ?thesis
    proof (cases "ucast high \<le> effective_priority (qs ! k)")
      case le: True
      then show ?thesis
        using Suc.hyps(1) [OF d scan_ok_better [OF Suc.prems(1) k(2) True le]] k Suc.prems(3) nth True up
        by (simp add: Let_def)
    next
      case le: False
      then show ?thesis
        using Suc.hyps(1) [OF d scan_ok_worse [OF Suc.prems(1) k(2) True le]] k Suc.prems(3) nth True up
        by (simp add: Let_def)
    qed
  qed
qed

lemma sched_scan_result:
  assumes "sched_scan caps [0..<n] None 0 ps = (best, ps')" and "n \<le> length ps"
  shows "\<exists>high. scan_ok caps ps n best high ps'"
  using sched_scan_ok [of caps ps 0 None 0 ps n] assms by (simp add: scan_ok_def)

lemma scheduler_eq:
  assumes "ptable s \<noteq> []" and "capabilities s AND CPU_DISABLED \<noteq> CPU_DISABLED"
  shows "scheduler s = (case sched_scan (capabilities s) [0..<length (ptable s) - 1] None 0 (ptable s) of
      (None, ps) \<Rightarrow> Ret None (s\<lparr>ptable := ps\<rparr>)
    | (Some b, ps) \<Rightarrow> Ret (Some b) (s\<lparr>ptable := ps[b := (ps ! b)\<lparr>state := RUNNING, skipped := 0\<rparr>], curproc := Some b\<rparr>))"
  using assms
  by (auto simp: scheduler_def each_ptable_node_def kmon_defs split: prod.split option.split)

text \<open>What the scheduler did: \<open>sched_result\<close> relates the table before to the choice and the table after.\<close>

definition sched_cand :: "'a ptab_scheme \<Rightarrow> nat \<Rightarrow> bool" where
  "sched_cand s j \<longleftrightarrow> j < length (ptable s) - 1 \<and> eligible (capabilities s) (ptable s ! j)"

lemma scheduler_result:
  assumes "ptable s \<noteq> []" and "capabilities s AND CPU_DISABLED \<noteq> CPU_DISABLED"
  obtains (idle) "scheduler s = Ret None s" and "\<forall>j. \<not> sched_cand s j"
  | (run) b ps where "scheduler s = Ret (Some b) (s\<lparr>ptable := ps, curproc := Some b\<rparr>)" and "sched_cand s b"
      and "\<forall>j. sched_cand s j \<longrightarrow> effective_priority (ptable s ! j) \<le> effective_priority (ptable s ! b)"
      and "\<forall>j>b. sched_cand s j \<longrightarrow> effective_priority (ptable s ! j) < effective_priority (ptable s ! b)"
      and "length ps = length (ptable s)"
      and "\<forall>j<length (ptable s). ps ! j = (if j = b then (ptable s ! b)\<lparr>state := RUNNING, skipped := 0\<rparr>
         else if sched_cand s j then skip_proc (ptable s ! j) else ptable s ! j)"
proof -
  let ?n = "length (ptable s) - 1"
  obtain best ps where scan: "sched_scan (capabilities s) [0..<?n] None 0 (ptable s) = (best, ps)"
    by fastforce
  obtain high where ok: "scan_ok (capabilities s) (ptable s) ?n best high ps"
    using sched_scan_result [OF scan] by auto
  show ?thesis
  proof (cases best)
    case None
    then have "ps = ptable s" "\<forall>j. \<not> sched_cand s j" using ok by (auto simp: scan_ok_def sched_cand_def)
    moreover from this have "scheduler s = Ret None s" using scan None by (simp add: scheduler_eq [OF assms])
    ultimately show ?thesis using idle by blast
  next
    case (Some b)
    have len: "length ps = length (ptable s)" and b: "b < ?n" "b < length (ptable s)" and "ps ! b = ptable s ! b"
      using ok Some by (auto simp: scan_ok_def)
    then have "\<forall>j<length (ptable s). ps[b := (ps ! b)\<lparr>state := RUNNING, skipped := 0\<rparr>] ! j =
        (if j = b then (ptable s ! b)\<lparr>state := RUNNING, skipped := 0\<rparr>
         else if sched_cand s j then skip_proc (ptable s ! j) else ptable s ! j)"
      using ok Some by (auto simp: scan_ok_def sched_cand_def nth_list_update)
    moreover have "scheduler s = Ret (Some b)
        (s\<lparr>ptable := ps[b := (ps ! b)\<lparr>state := RUNNING, skipped := 0\<rparr>], curproc := Some b\<rparr>)"
      using scan Some by (simp add: scheduler_eq [OF assms])
    moreover have "sched_cand s b"
        "\<forall>j. sched_cand s j \<longrightarrow> effective_priority (ptable s ! j) \<le> effective_priority (ptable s ! b)"
        "\<forall>j>b. sched_cand s j \<longrightarrow> effective_priority (ptable s ! j) < effective_priority (ptable s ! b)"
      using ok Some by (auto simp: scan_ok_def sched_cand_def)
    ultimately show ?thesis using run len by simp
  qed
qed

subsection \<open>Every operation keeps the table well-formed\<close>

lemma sleep_ok:
  assumes "ptab_ok (nextpid s) (ptable s)" and "curproc s = Some i" and "state (ptable s ! i) = RUNNING"
    and "sleep c lk s = Sleep c' t"
  shows "ptab_ok (nextpid t) (ptable t)"
proof -
  have t: "t = set_proc i (\<lambda>p. p\<lparr>chan := Some c, state := SLEEPING\<rparr>) s"
    using assms(2,4) by (auto simp: sleep_def sched_def split: if_splits)
  show ?thesis
    using assms(1,3) unfolding t
    by (simp, intro ptab_ok_update) (simp_all add: same_life_def)
qed

lemma kill_ok:
  assumes "ptab_ok (nextpid s) (ptable s)" and "kill p s = Ret r t"
  shows "ptab_ok (nextpid t) (ptable t)"
proof -
  have t: "t = s \<or> (\<exists>i. t = set_proc i (\<lambda>q. q\<lparr>killed := True,
      state := (if state q = SLEEPING then RUNNABLE else state q)\<rparr>) s)"
    using assms(2) by (auto simp: kill_def find_pid_eq kmon_defs split: if_splits option.splits)
  have "ptab_ok (nextpid s) ((ptable s)[i := (ptable s ! i)\<lparr>killed := True,
      state := (if state (ptable s ! i) = SLEEPING then RUNNABLE else state (ptable s ! i))\<rparr>])" for i
    using assms(1) by (intro ptab_ok_update) (auto simp: same_life_def)
  then show ?thesis using t assms(1) by auto
qed

lemma setpriority_ok:
  assumes "ptab_ok (nextpid s) (ptable s)" and "setpriority p prio s = Ret r t"
  shows "ptab_ok (nextpid t) (ptable t)"
proof -
  have t: "t = s \<or> (\<exists>i. t = set_proc i (\<lambda>q. q\<lparr>priority := word_of_int prio\<rparr>) s)"
    using assms(2) by (auto simp: setpriority_def find_pid_eq kmon_defs split: if_splits option.splits)
  have "ptab_ok (nextpid s) ((ptable s)[i := (ptable s ! i)\<lparr>priority := word_of_int prio\<rparr>])" for i
    using assms(1) ptab_ok_sleeping [OF assms(1)]
    by (intro ptab_ok_update) (auto simp: same_life_def)
  then show ?thesis using t assms(1) by auto
qed

lemma scheduler_ok:
  assumes "ptab_ok (nextpid s) (ptable s)" and "scheduler s = Ret r t"
  shows "ptab_ok (nextpid t) (ptable t)"
proof (cases "capabilities s AND CPU_DISABLED = CPU_DISABLED")
  case True
  then show ?thesis using assms by (simp add: scheduler_def kmon_defs)
next
  case False
  have ne: "ptable s \<noteq> []" using assms(1) by (simp add: ptab_ok_def)
  show ?thesis using ne False
  proof (cases rule: scheduler_result)
    case idle
    then show ?thesis using assms by simp
  next
    case (run b ps)
    have "list_all2 same_life (ptable s) ps"
      unfolding list_all2_conv_all_nth
    proof (intro conjI allI impI)
      fix j assume "j < length (ptable s)"
      then show "same_life (ptable s ! j) (ps ! j)"
        using run(2,6) ptab_ok_sleeping [OF assms(1), of j]
        by (auto simp: same_life_def skip_proc_def sched_cand_def eligible_def)
    qed (use run in simp)
    then show ?thesis using ptab_ok_same_life [OF assms(1)] run(1) assms(2) by simp
  qed
qed

lemma yield_ok:
  assumes "ptab_ok (nextpid s) (ptable s)" and "curproc s = Some i" and "state (ptable s ! i) = RUNNING"
    and "yield s = Ret u t"
  shows "ptab_ok (nextpid t) (ptable t)"
  using assms ptab_ok_update [OF assms(1), of i "(ptable s ! i)\<lparr>state := RUNNABLE\<rparr>"]
  by (simp add: yield_def same_life_def) force

lemma sleep_tidy_ok:
  assumes "ptab_ok (nextpid s) (ptable s)" and "state (ptable s ! i) = RUNNING"
  shows "ptab_ok (nextpid s) (ptable (sleep_tidy i s))"
  using assms(1) ptab_ok_update [OF assms(1), of i "(ptable s ! i)\<lparr>chan := None\<rparr>"] assms(2)
  by (simp add: sleep_tidy_def same_life_def)

section \<open>Runs of the process table\<close>

inductive ptab_step :: "ptab \<Rightarrow> ptab \<Rightarrow> bool" where
  alloc: "allocproc trapret forkret s = Ret r t \<Longrightarrow> ptab_step s t"
| wake: "wakeup c s = Ret u t \<Longrightarrow> ptab_step s t"
| kill: "kill p s = Ret r t \<Longrightarrow> ptab_step s t"
| prio: "setpriority p n s = Ret r t \<Longrightarrow> ptab_step s t"
| choose: "scheduler s = Ret r t \<Longrightarrow> ptab_step s t"
| sleep: "curproc s = Some i \<Longrightarrow> state (ptable s ! i) = RUNNING \<Longrightarrow> sleep c lk s = Sleep c' t \<Longrightarrow> ptab_step s t"
| tidy: "curproc s = Some i \<Longrightarrow> state (ptable s ! i) = RUNNING \<Longrightarrow> ptab_step s (sleep_tidy i s)"
| yield: "curproc s = Some i \<Longrightarrow> state (ptable s ! i) = RUNNING \<Longrightarrow> yield s = Ret u t \<Longrightarrow> ptab_step s t"

inductive ptab_reachable :: "ptab \<Rightarrow> bool" where
  start: "ptable s = [] \<Longrightarrow> nextpid s = 1 \<Longrightarrow> freelist s \<noteq> 0 \<Longrightarrow> pinit s = Ret u t \<Longrightarrow> ptab_reachable t"
| step: "ptab_reachable s \<Longrightarrow> ptab_step s t \<Longrightarrow> ptab_reachable t"

lemma pinit_ok:
  assumes "ptable s = []" and "nextpid s = 1" and "freelist s \<noteq> 0" and "pinit s = Ret u t"
  shows "ptab_ok (nextpid t) (ptable t)"
proof -
  have "ptable t = replicate 15 zero_proc" "nextpid t = 1"
    using assms by (auto simp: pinit_def kbind_def growptable_cases kalloc_def kreturn_def Let_def)
  then show ?thesis by (auto simp: ptab_ok_def zero_proc_def)
qed

lemma ptab_step_ok: "ptab_step s t \<Longrightarrow> ptab_ok (nextpid s) (ptable s) \<Longrightarrow> ptab_ok (nextpid t) (ptable t)"
proof (induction rule: ptab_step.induct)
  case (wake c s u t)
  then have "ptable s \<noteq> []" by (simp add: ptab_ok_def)
  then show ?case using wake wakeup_ok by (auto simp: wakeup_eq)
next
  case (tidy s i)
  then show ?case using sleep_tidy_ok [of s i] by (simp add: sleep_tidy_def)
qed (auto dest: allocproc_ok kill_ok setpriority_ok scheduler_ok sleep_ok yield_ok)

lemma ptab_reachable_ok: "ptab_reachable s \<Longrightarrow> ptab_ok (nextpid s) (ptable s)"
  by (induction rule: ptab_reachable.induct) (auto intro: pinit_ok ptab_step_ok)

section \<open>Properties\<close>

text \<open>A machine with two free pages: the state before \<open>pinit\<close>.\<close>

definition ptab_boot :: ptab where
  "ptab_boot = \<lparr>kmem_mem = st64 0xFFFFFFFF83201000 0xFFFFFFFF83200000 (\<lambda>_. 0),
     kend = 0xFFFFFFFF80200000, freelist = 0xFFFFFFFF83201000, use_lock = True,
     kalloc_fullysetup = True, ptable = [], nextpid = 1, curproc = None,
     initproc = None, capabilities = 0\<rparr>"

lemma ptab_boot_pinit:
  "\<exists>t. pinit ptab_boot = Ret () t \<and> ptable t = replicate 15 zero_proc \<and> nextpid t = 1
     \<and> freelist t = 0xFFFFFFFF83200000 \<and> curproc t = None \<and> capabilities t = 0"
  by (simp add: pinit_def kbind_def growptable_cases kalloc_def kreturn_def Let_def ptab_boot_def)

text \<open>After \<open>pinit\<close> and one \<open>allocproc\<close>.\<close>

lemma ptab_boot_alloc:
  "\<exists>t. ptab_reachable t \<and> length (ptable t) = 15 \<and> state (ptable t ! 0) = EMBRYO"
proof -
  obtain s where s: "pinit ptab_boot = Ret () s" "ptable s = replicate 15 zero_proc"
      "freelist s = 0xFFFFFFFF83200000"
    using ptab_boot_pinit by blast
  have reach: "ptab_reachable s"
    using s(1) by (rule ptab_reachable.start [rotated 3]) (simp_all add: ptab_boot_def)
  have "find_unused s = Some 0"
    using s(2) by (simp add: find_unused_def zero_proc_def numeral_eq_Suc)
  moreover have "\<exists>t. allocproc_found 0 0 0 s = Ret (Some 0) t \<and> length (ptable t) = 15
      \<and> state (ptable t ! 0) = EMBRYO"
    using allocproc_found_eq [of 0 s 0 0] s by auto
  ultimately obtain t where "allocproc 0 0 s = Ret (Some 0) t" "length (ptable t) = 15"
      "state (ptable t ! 0) = EMBRYO"
    using s(2) by (auto simp: allocproc.simps)
  then show ?thesis using ptab_reachable.step [OF reach ptab_step.alloc] by blast
qed



text \<open>
  C9: the scheduler runs an eligible process of greatest effective priority. On a CPU that is not
  disabled, either no visited process is eligible (runnable, and blessed if the CPU is reserved for
  blessed ones) and nothing changes, or the one chosen is eligible, no eligible one has a greater
  effective priority and no later one in the table the same. The chosen one is marked running with
  its skip count reset, every other eligible one has its skip count raised by one, and the rest of
  the table is unchanged.
\<close>

theorem scheduler_choice:
  assumes "ptable s \<noteq> []" and "capabilities s AND CPU_DISABLED \<noteq> CPU_DISABLED"
  shows "(scheduler s = Ret None s \<and> (\<forall>j. \<not> sched_cand s j))
    \<or> (\<exists>b t. scheduler s = Ret (Some b) t \<and> curproc t = Some b \<and> sched_cand s b
        \<and> (\<forall>j. sched_cand s j \<longrightarrow> effective_priority (ptable s ! j) \<le> effective_priority (ptable s ! b))
        \<and> (\<forall>j>b. sched_cand s j \<longrightarrow> effective_priority (ptable s ! j) < effective_priority (ptable s ! b))
        \<and> length (ptable t) = length (ptable s)
        \<and> (\<forall>j<length (ptable s). ptable t ! j =
             (if j = b then (ptable s ! b)\<lparr>state := RUNNING, skipped := 0\<rparr>
              else if sched_cand s j then (ptable s ! j)\<lparr>skipped := skipped (ptable s ! j) + 1\<rparr>
              else ptable s ! j)))"
  using assms
proof (cases rule: scheduler_result)
  case idle
  then show ?thesis by blast
next
  case (run b ps)
  then show ?thesis
    by (intro disjI2 exI [of _ b] exI [of _ "s\<lparr>ptable := ps, curproc := Some b\<rparr>"])
      (simp add: skip_proc_def)
qed

text \<open>Three runnable processes of priorities 128, 255 and 20 (and the unvisited last node).\<close>

definition ptab_three :: ptab where
  "ptab_three = ptab_boot\<lparr>nextpid := 4,
     ptable := [zero_proc\<lparr>state := RUNNABLE, pid := 1, priority := 128\<rparr>,
                zero_proc\<lparr>state := RUNNABLE, pid := 2, priority := 255\<rparr>,
                zero_proc\<lparr>state := SLEEPING, pid := 3, priority := 255, chan := Some ChLog\<rparr>, zero_proc]\<rparr>"

lemma ptab_three_simps [simp]:
  "ptable ptab_three = [zero_proc\<lparr>state := RUNNABLE, pid := 1, priority := 128\<rparr>,
     zero_proc\<lparr>state := RUNNABLE, pid := 2, priority := 255\<rparr>,
     zero_proc\<lparr>state := SLEEPING, pid := 3, priority := 255, chan := Some ChLog\<rparr>, zero_proc]"
  "capabilities ptab_three = 0" "nextpid ptab_three = 4" "curproc ptab_three = None"
  by (simp_all add: ptab_three_def ptab_boot_def)

lemma ptab_three_eligible:
  "sched_cand ptab_three 1"
  by (simp add: sched_cand_def eligible_def)

theorem scheduler_choice_witness:
  "\<exists>b t. scheduler ptab_three = Ret (Some b) t \<and> sched_cand ptab_three b"
  using scheduler_choice [of ptab_three] ptab_three_eligible by auto

text \<open>The choices of a number of rounds, the chosen process yielding each time.\<close>

fun sched_rounds :: "nat \<Rightarrow> 'a ptab_scheme \<Rightarrow> nat list" where
  "sched_rounds 0 s = []"
| "sched_rounds (Suc n) s = (case scheduler s of
     Ret (Some b) t \<Rightarrow> b # (case yield t of Ret _ u \<Rightarrow> sched_rounds n u | _ \<Rightarrow> [])
   | _ \<Rightarrow> [])"

lemma effective_priority_max:
  "priority p = PROC_MAX_PRIORITY \<Longrightarrow> skipped p = 0 \<Longrightarrow> effective_priority p = 255"
  by (simp add: effective_priority_def)

lemma eligible_skip [simp]: "eligible caps (skip_proc p) = eligible caps p"
  by (simp add: eligible_def skip_proc_def)

lemma starve_round:
  assumes "ptable s \<noteq> []" and "capabilities s AND CPU_DISABLED \<noteq> CPU_DISABLED" and "sched_cand s q"
    and "priority (ptable s ! q) = PROC_MAX_PRIORITY" and "skipped (ptable s ! q) = 0"
    and "\<forall>j>q. \<not> sched_cand s j"
  obtains t u where "scheduler s = Ret (Some q) t" and "yield t = Ret () u" and "ptable u \<noteq> []"
    and "capabilities u = capabilities s" and "sched_cand u = sched_cand s"
    and "priority (ptable u ! q) = PROC_MAX_PRIORITY" and "skipped (ptable u ! q) = 0"
  using assms(1,2)
proof (cases rule: scheduler_result)
  case idle
  then show ?thesis using assms(3) by blast
next
  case (run b ps)
  have "b = q"
  proof (rule ccontr)
    assume "b \<noteq> q"
    then have "b < q" using assms(6) run(2) by (metis linorder_neqE_nat)
    then have "effective_priority (ptable s ! q) < effective_priority (ptable s ! b)"
      using run(4) assms(3) by blast
    then show False
      using effective_priority_le [of "ptable s ! b"] effective_priority_max [OF assms(4,5)]
      by (simp add: word_less_nat_alt)
  qed
  have q: "q < length (ptable s) - 1" "q < length (ptable s)" "eligible (capabilities s) (ptable s ! q)"
    using assms(3) by (auto simp: sched_cand_def)
  define u where "u = set_proc q (\<lambda>p. p\<lparr>state := RUNNABLE\<rparr>) (s\<lparr>ptable := ps, curproc := Some q\<rparr>)"
  have "yield (s\<lparr>ptable := ps, curproc := Some q\<rparr>) = Ret () u" by (simp add: yield_def u_def)
  moreover have "sched_cand u j = sched_cand s j" for j
  proof (cases "j < length (ptable s) - 1")
    case True
    then have "j < length (ptable s)" by simp
    then have "ptable u ! j = (if j = q then (ptable s ! q)\<lparr>state := RUNNABLE, skipped := 0\<rparr>
        else if sched_cand s j then skip_proc (ptable s ! j) else ptable s ! j)"
      using run(5,6) \<open>b = q\<close> by (simp add: u_def nth_list_update)
    then show ?thesis
      using True q run(5) by (auto simp: sched_cand_def u_def eligible_def skip_proc_def split: if_splits)
  qed (simp add: sched_cand_def u_def run(5))
  moreover have "ptable u \<noteq> []" "capabilities u = capabilities s"
      "priority (ptable u ! q) = PROC_MAX_PRIORITY" "skipped (ptable u ! q) = 0"
    using run(5,6) \<open>b = q\<close> q(2) assms(4) by (auto simp: u_def)
  moreover have "scheduler s = Ret (Some q) (s\<lparr>ptable := ps, curproc := Some q\<rparr>)"
    using run(1) \<open>b = q\<close> by simp
  ultimately show ?thesis using that [of _ u] by blast
qed

text \<open>
  C23: a process can starve. The comment in the scheduler says that the boost given to skipped
  processes keeps every process with a priority above \<open>PROC_NO_BOOST_PRIORITY\<close> from starving. The
  boost is cut off at \<open>PROC_MAX_PRIORITY\<close> and ties go to the later process in the table. So a
  runnable process of priority \<open>PROC_MAX_PRIORITY\<close> behind which no eligible one stands is chosen in
  every one of any number of rounds in which it yields, whatever the other processes are.
\<close>

theorem scheduler_starves:
  assumes "ptable s \<noteq> []" and "capabilities s AND CPU_DISABLED \<noteq> CPU_DISABLED" and "sched_cand s q"
    and "priority (ptable s ! q) = PROC_MAX_PRIORITY" and "skipped (ptable s ! q) = 0"
    and "\<forall>j>q. \<not> sched_cand s j"
  shows "sched_rounds n s = replicate n q"
  using assms
proof (induction n arbitrary: s)
  case (Suc n)
  obtain t u where "scheduler s = Ret (Some q) t" "yield t = Ret () u" "ptable u \<noteq> []"
      "capabilities u = capabilities s" "sched_cand u = sched_cand s"
      "priority (ptable u ! q) = PROC_MAX_PRIORITY" "skipped (ptable u ! q) = 0"
    by (rule starve_round [OF Suc.prems])
  then show ?case using Suc.prems Suc.IH [of u] by simp
qed simp

theorem scheduler_starves_witness:
  "sched_rounds 1000 ptab_three = replicate 1000 1"
proof (rule scheduler_starves [OF _ _ ptab_three_eligible])
  show "\<forall>j>1. \<not> sched_cand ptab_three j"
  proof (intro allI impI)
    fix j :: nat assume "1 < j"
    then consider "j = 2" | "2 < j" by linarith
    then show "\<not> sched_cand ptab_three j"
      by cases (simp_all add: sched_cand_def eligible_def)
  qed
qed (simp_all add: zero_proc_def)



text \<open>
  C24: \<open>kill(0)\<close> poisons a free slot. Unused nodes have the identifier 0 and \<open>kill\<close> does not look at the
  state, so with identifier 0 it reports success and sets \<open>killed\<close> on the first such node;
  \<open>allocproc\<close> does not clear the flag, so the next process created there is born killed.
\<close>

theorem kill_zero_poisons:
  assumes "ptable s \<noteq> []" and "find_unused s = Some i" and "\<forall>j<i. pid (ptable s ! j) \<noteq> 0"
    and "pid (ptable s ! i) = 0" and "freelist s \<noteq> 0"
  shows "\<exists>t u. kill 0 s = Ret 0 t \<and> allocproc trapret forkret t = Ret (Some i) u
    \<and> state (ptable u ! i) = EMBRYO \<and> killed (ptable u ! i)"
proof -
  have i: "i < length (ptable s) - 1" "i < length (ptable s)" "state (ptable s ! i) = UNUSED"
    using find_unused_Some [OF assms(2)] by auto
  have used: "state (ptable s ! j) \<noteq> UNUSED" if "j < i" for j
    using find_first_Some [OF assms(2) [unfolded find_unused_def]] that i(1) by (simp add: nth_butlast)
  have "find_first (\<lambda>q. pid q = 0) (butlast (ptable s)) = Some i"
    using assms(3,4) i by (intro find_firstI) (simp_all add: nth_butlast)
  moreover define t where "t = set_proc i (\<lambda>q. q\<lparr>killed := True, state := UNUSED\<rparr>) s"
  ultimately have "kill 0 s = Ret 0 t"
    using assms(1) i by (simp add: kill_def find_pid_eq kmon_defs set_proc_def)
  moreover have "find_unused t = Some i"
    unfolding find_unused_def
    using i used by (intro find_firstI) (simp_all add: nth_butlast t_def)
  moreover have "freelist t = freelist s" "ptable t \<noteq> []" "length (ptable t) = length (ptable s)"
      "killed (ptable t ! i)"
    using assms(1) i by (simp_all add: t_def)
  ultimately show ?thesis
    using allocproc_found_eq [of i t trapret forkret] assms(5) i(2)
    by (auto simp: allocproc.simps [of _ _ t])
qed

theorem kill_zero_poisons_witness:
  "\<exists>t u. kill 0 (ptab_three\<lparr>ptable := [zero_proc, zero_proc]\<rparr>) = Ret 0 t
     \<and> allocproc 0 0 t = Ret (Some 0) u \<and> killed (ptable u ! 0)"
proof -
  have "find_unused (ptab_three\<lparr>ptable := [zero_proc, zero_proc]\<rparr>) = Some 0"
    by (simp add: find_unused_def zero_proc_def)
  moreover have "freelist ptab_three \<noteq> 0" by (simp add: ptab_three_def ptab_boot_def)
  ultimately show ?thesis
    using kill_zero_poisons [of "ptab_three\<lparr>ptable := [zero_proc, zero_proc]\<rparr>" 0 0 0]
    by (auto simp: zero_proc_def)
qed

end
