(* ===== verification/Bio.thy ===== *)
theory Bio
  imports Proc
begin

text \<open>
  The buffer cache, \<open>kernel/bio.c\<close> with \<open>include/buf.h\<close>, and the IDE driver below it,
  \<open>kernel/ide.c\<close>.

  A \<open>struct buf *\<close> is an index: \<open>bcache.buf[i]\<close> is \<open>i\<close>, \<open>bcache.head\<close> is \<open>NBUF\<close>. The bits of \<open>flags\<close> are
  three booleans. The links \<open>prev\<close> and \<open>next\<close> are kept and updated one assignment at a time; the
  disk queue, linked through \<open>qnext\<close>, is the list \<open>idequeue\<close>.

  The IDE disks are the field \<open>disk\<close>, indexed by what the driver programs into the controller: the
  drive (\<open>dev == 1\<close> selects the slave) and the 28 bits of the sector number that fit its registers. A
  write reaches the disk in \<open>idestart\<close>; \<open>hist\<close> is a history variable that records the writes in
  order, so that the disk contents at a crash are those after a prefix of it. A sector write is
  atomic. \<open>ide_err\<close> is the controller's error status. A process in \<open>iderw\<close> sleeps until its request is
  done; \<open>ide_wait\<close> runs the interrupt handler in that time. The SATA driver (\<open>kernel/ahci.c\<close>) enters
  through \<open>sata_rd\<close> and \<open>sata_wr\<close>, functions of the writes made so far, and carries no assumption.
\<close>

unbundle bit_operations_syntax

section \<open>Definitions\<close>

abbreviation (input) NBUF :: nat where "NBUF \<equiv> 30"
abbreviation (input) BSIZE :: nat where "BSIZE \<equiv> 512"

type_synonym block = "u8 list"

record buf =
  bbusy :: bool
  bvalid :: bool
  bdirty :: bool
  bdev :: u32
  bsector :: u32
  bprev :: nat
  bnext :: nat
  bdata :: block

record bio = ptab +
  bufs :: "nat \<Rightarrow> buf"
  idequeue :: "nat list"
  havedisk1 :: bool
  ide_err :: bool
  disk :: "bool \<times> nat \<Rightarrow> block"
  hist :: "((bool \<times> nat) \<times> block) list"
  sata_hist :: "(u32 \<times> u64 \<times> block) list"
  sata_rd :: "(u32 \<times> u64 \<times> block) list \<Rightarrow> u32 \<Rightarrow> u64 \<Rightarrow> nat \<times> block"
  sata_wr :: "(u32 \<times> u64 \<times> block) list \<Rightarrow> u32 \<Rightarrow> u64 \<Rightarrow> nat"

definition GETDEVTYPE :: "u32 \<Rightarrow> u32" where
  "GETDEVTYPE a = drop_bit 28 (a AND 0xF0000000)"

definition GETDEVNUM :: "u32 \<Rightarrow> u32" where
  "GETDEVNUM a = a AND 0x0FFFFFFF"

abbreviation (input) DEV_IDE :: u32 where "DEV_IDE \<equiv> 0"
abbreviation (input) DEV_SATA :: u32 where "DEV_SATA \<equiv> 1"
abbreviation (input) SATA_IO_SUCCESS :: nat where "SATA_IO_SUCCESS \<equiv> 0"

definition set_buf :: "nat \<Rightarrow> (buf \<Rightarrow> buf) \<Rightarrow> 'a bio_scheme \<Rightarrow> 'a bio_scheme" where
  "set_buf b f s = s\<lparr>bufs := (bufs s)(b := f (bufs s b))\<rparr>"

subsection \<open>The IDE driver\<close>

text \<open>The drive and sector that \<open>idestart\<close> writes to the controller's registers.\<close>

definition ide_loc :: "u32 \<Rightarrow> u32 \<Rightarrow> bool \<times> nat" where
  "ide_loc dev sector = (dev = 1,
     unat (sector AND 0xFF) + 2 ^ 8 * unat (drop_bit 8 sector AND 0xFF)
     + 2 ^ 16 * unat (drop_bit 16 sector AND 0xFF) + 2 ^ 24 * unat (drop_bit 24 sector AND 0x0F))"

definition idestart :: "nat \<Rightarrow> 'a bio_scheme \<Rightarrow> 'a bio_scheme" where
  "idestart b s =
     (let l = ide_loc (bdev (bufs s b)) (bsector (bufs s b)) in
      if bdirty (bufs s b)
      then s\<lparr>disk := (disk s)(l := bdata (bufs s b)), hist := hist s @ [(l, bdata (bufs s b))]\<rparr>
      else s)"

definition ideintr :: "('a bio_scheme, unit) kmon" where
  "ideintr = kbind (kget idequeue) (\<lambda>q. case q of
       [] \<Rightarrow> kreturn ()
     | b # q' \<Rightarrow>
        kthen (kmodify (\<lambda>s. s\<lparr>idequeue := q'\<rparr>))
        (kthen (kmodify (\<lambda>s. if \<not> bdirty (bufs s b) \<and> \<not> ide_err s
            then set_buf b (\<lambda>p. p\<lparr>bdata := disk s (ide_loc (bdev p) (bsector p))\<rparr>) s else s))
        (kthen (kmodify (set_buf b (\<lambda>p. p\<lparr>bvalid := True, bdirty := False\<rparr>)))
        (kthen (wakeup (ChBuf b))
          (kmodify (\<lambda>s. case idequeue s of [] \<Rightarrow> s | b' # _ \<Rightarrow> idestart b' s))))))"

text \<open>Waiting for the request of \<open>b\<close>: an interrupt is delivered as long as the request is not done.\<close>

fun ide_wait :: "nat \<Rightarrow> nat \<Rightarrow> ('a bio_scheme, unit) kmon" where
  "ide_wait 0 b = kfault ''iderw: no interrupt''"
| "ide_wait (Suc n) b = kbind (kget (\<lambda>s. bvalid (bufs s b) \<and> \<not> bdirty (bufs s b))) (\<lambda>done.
     if done then kreturn () else kthen ideintr (ide_wait n b))"

definition iderw :: "nat \<Rightarrow> ('a bio_scheme, unit) kmon" where
  "iderw b =
     kthen (kpanic_if (\<lambda>s. \<not> bbusy (bufs s b)) ''iderw: buf not busy'')
     (kthen (kpanic_if (\<lambda>s. bvalid (bufs s b) \<and> \<not> bdirty (bufs s b)) ''iderw: nothing to do'')
     (kthen (kpanic_if (\<lambda>s. bdev (bufs s b) \<noteq> 0 \<and> \<not> havedisk1 s) ''iderw: ide disk 1 not present'')
     (kthen (kmodify (\<lambda>s. s\<lparr>idequeue := idequeue s @ [b]\<rparr>))
     (kthen (kmodify (\<lambda>s. if hd (idequeue s) = b then idestart b s else s))
     (kbind (kget (\<lambda>s. length (idequeue s))) (\<lambda>n. ide_wait (Suc n) b))))))"

subsection \<open>The cache\<close>

text \<open>The four assignments that put a buffer behind the head, shared by \<open>binit\<close> and \<open>brelse\<close>, and the
  loop of \<open>binit\<close>.\<close>

definition bpush :: "nat \<Rightarrow> (nat \<Rightarrow> buf) \<Rightarrow> (nat \<Rightarrow> buf)" where
  "bpush b f =
     (let f1 = f(b := (f b)\<lparr>bnext := bnext (f NBUF)\<rparr>);
          f2 = f1(b := (f1 b)\<lparr>bprev := NBUF\<rparr>);
          h = bnext (f2 NBUF); f3 = f2(h := (f2 h)\<lparr>bprev := b\<rparr>)
      in f3(NBUF := (f3 NBUF)\<lparr>bnext := b\<rparr>))"

definition binit_step :: "(nat \<Rightarrow> buf) \<Rightarrow> nat \<Rightarrow> (nat \<Rightarrow> buf)" where
  "binit_step f b = bpush b (f(b := (f b)\<lparr>bdev := - 1\<rparr>))"

definition binit :: "('a bio_scheme, unit) kmon" where
  "binit = kmodify (\<lambda>s. let f = (bufs s)(NBUF := (bufs s NBUF)\<lparr>bprev := NBUF, bnext := NBUF\<rparr>)
     in s\<lparr>bufs := foldl binit_step f [0..<NBUF]\<rparr>)"

text \<open>The two scans of \<open>bget\<close>: follow a link from a buffer until a test holds or the head is met.\<close>

fun bscan :: "(buf \<Rightarrow> nat) \<Rightarrow> (buf \<Rightarrow> bool) \<Rightarrow> nat \<Rightarrow> nat \<Rightarrow> (nat \<Rightarrow> buf) \<Rightarrow> nat option option" where
  "bscan link P 0 b f = None"
| "bscan link P (Suc n) b f =
     (if b = NBUF then Some None else if P (f b) then Some (Some b)
      else bscan link P n (link (f b)) f)"

definition bget :: "u32 \<Rightarrow> u32 \<Rightarrow> ('a bio_scheme, nat) kmon" where
  "bget dev sector = kbind (kget bufs) (\<lambda>f.
     case bscan bnext (\<lambda>p. bdev p = dev \<and> bsector p = sector) (Suc NBUF) (bnext (f NBUF)) f of
       None \<Rightarrow> kfault ''bget: list''
     | Some (Some b) \<Rightarrow>
         if \<not> bbusy (f b) then kthen (kmodify (set_buf b (\<lambda>p. p\<lparr>bbusy := True\<rparr>))) (kreturn b)
         else kthen (sleep (ChBuf b) (Some (OtherLock ''bcache''))) (kfault ''goto loop'')
     | Some None \<Rightarrow>
        (case bscan bprev (\<lambda>p. \<not> bbusy p \<and> \<not> bdirty p) (Suc NBUF) (bprev (f NBUF)) f of
           None \<Rightarrow> kfault ''bget: list''
         | Some (Some b) \<Rightarrow> kthen (kmodify (set_buf b (\<lambda>p. p\<lparr>bdev := dev, bsector := sector,
               bbusy := True, bvalid := False, bdirty := False\<rparr>))) (kreturn b)
         | Some None \<Rightarrow> kpanic ''bget: no buffers''))"

definition sata_read :: "nat \<Rightarrow> ('a bio_scheme, nat) kmon" where
  "sata_read b s =
     (let p = bufs s b; (st, d) = sata_rd s (sata_hist s) (GETDEVNUM (bdev p)) (ucast (bsector p)) in
      Ret st (set_buf b (\<lambda>p. p\<lparr>bdata := d\<rparr>) s))"

definition sata_write :: "nat \<Rightarrow> ('a bio_scheme, nat) kmon" where
  "sata_write b s =
     (let p = bufs s b; n = GETDEVNUM (bdev p) in
      Ret (sata_wr s (sata_hist s) n (ucast (bsector p)))
        (s\<lparr>sata_hist := sata_hist s @ [(n, ucast (bsector p), bdata p)]\<rparr>))"

definition bread :: "u32 \<Rightarrow> u32 \<Rightarrow> ('a bio_scheme, nat) kmon" where
  "bread dev sector = kbind (bget dev sector) (\<lambda>b.
     kbind (kget (\<lambda>s. bvalid (bufs s b))) (\<lambda>v.
       if v then kreturn b
       else if GETDEVTYPE dev = DEV_IDE then kthen (iderw b) (kreturn b)
       else if GETDEVTYPE dev = DEV_SATA then
         kbind (sata_read b) (\<lambda>st.
           if st \<noteq> SATA_IO_SUCCESS then kpanic ''SATA I/O ERROR''
           else kthen (kmodify (set_buf b (\<lambda>p. p\<lparr>bvalid := True, bdirty := False\<rparr>)))
             (kthen (wakeup (ChBuf b)) (kreturn b)))
       else kpanic ''Unsupported device type''))"

definition bwrite :: "nat \<Rightarrow> ('a bio_scheme, unit) kmon" where
  "bwrite b =
     kthen (kpanic_if (\<lambda>s. \<not> bbusy (bufs s b)) ''bwrite'')
     (kthen (kmodify (set_buf b (\<lambda>p. p\<lparr>bdirty := True\<rparr>)))
     (kbind (kget (\<lambda>s. GETDEVTYPE (bdev (bufs s b)))) (\<lambda>t.
       if t = DEV_IDE then iderw b
       else kbind (sata_write b) (\<lambda>st.
         kthen (kmodify (set_buf b (\<lambda>p. p\<lparr>bvalid := True, bdirty := False\<rparr>)))
         (kthen (wakeup (ChBuf b))
           (if st \<noteq> SATA_IO_SUCCESS then kpanic ''SATA I/O ERROR'' else kreturn ()))))))"

text \<open>\<open>b->next->prev = b->prev; b->prev->next = b->next\<close>\<close>

definition bunlink :: "nat \<Rightarrow> (nat \<Rightarrow> buf) \<Rightarrow> (nat \<Rightarrow> buf)" where
  "bunlink b f =
     (let n = bnext (f b); f1 = f(n := (f n)\<lparr>bprev := bprev (f b)\<rparr>); p = bprev (f1 b)
      in f1(p := (f1 p)\<lparr>bnext := bnext (f1 b)\<rparr>))"

definition brelse :: "nat \<Rightarrow> ('a bio_scheme, unit) kmon" where
  "brelse b =
     kthen (kpanic_if (\<lambda>s. \<not> bbusy (bufs s b)) ''brelse'')
     (kthen (kmodify (\<lambda>s. s\<lparr>bufs := bpush b (bunlink b (bufs s))\<rparr>))
     (kthen (kmodify (set_buf b (\<lambda>p. p\<lparr>bbusy := False\<rparr>)))
       (wakeup (ChBuf b))))"

text \<open>A holder of the buffer stores into \<open>b->data\<close>.\<close>

definition bmodify :: "nat \<Rightarrow> (block \<Rightarrow> block) \<Rightarrow> ('a bio_scheme, unit) kmon" where
  "bmodify b f = kmodify (set_buf b (\<lambda>p. p\<lparr>bdata := f (bdata p)\<rparr>))"

text \<open>\<open>b->flags |= B_DIRTY\<close>, as the log does to pin a buffer.\<close>

definition bmark :: "nat \<Rightarrow> ('a bio_scheme, unit) kmon" where
  "bmark b = kmodify (set_buf b (\<lambda>p. p\<lparr>bdirty := True\<rparr>))"

definition bdata_of :: "nat \<Rightarrow> ('a bio_scheme, block) kmon" where
  "bdata_of b = kget (\<lambda>s. bdata (bufs s b))"

section \<open>The LRU list\<close>

text \<open>\<open>seg f a xs z\<close>: following \<open>next\<close> from \<open>a\<close> one meets \<open>xs\<close> and then \<open>z\<close>, and \<open>prev\<close> goes back the
  same way.\<close>

fun seg :: "(nat \<Rightarrow> buf) \<Rightarrow> nat \<Rightarrow> nat list \<Rightarrow> nat \<Rightarrow> bool" where
  "seg f a [] z \<longleftrightarrow> bnext (f a) = z \<and> bprev (f z) = a"
| "seg f a (x # xs) z \<longleftrightarrow> bnext (f a) = x \<and> bprev (f x) = a \<and> seg f x xs z"

definition lru :: "(nat \<Rightarrow> buf) \<Rightarrow> nat list \<Rightarrow> bool" where
  "lru f xs \<longleftrightarrow> seg f NBUF xs NBUF \<and> distinct xs \<and> set xs = {..<NBUF}"

lemma seg_append: "seg f a (xs @ y # ys) z \<longleftrightarrow> seg f a xs y \<and> seg f y ys z"
  by (induction xs arbitrary: a) auto

lemma seg_cong:
  assumes "\<And>x. x \<in> set (a # xs) \<Longrightarrow> bnext (f x) = bnext (g x)"
    and "\<And>x. x \<in> set (xs @ [z]) \<Longrightarrow> bprev (f x) = bprev (g x)"
  shows "seg f a xs z = seg g a xs z"
  using assms by (induction xs arbitrary: a) auto

lemma seg_first: "seg f a xs z \<Longrightarrow> bnext (f a) = hd (xs @ [z]) \<and> bprev (f (hd (xs @ [z]))) = a"
  by (cases xs) simp_all

lemma seg_last: "seg f a xs z \<Longrightarrow> bprev (f z) = last (a # xs) \<and> bnext (f (last (a # xs))) = z"
proof (induction xs arbitrary: a)
  case (Cons x xs)
  then have "bprev (f z) = last (x # xs) \<and> bnext (f (last (x # xs))) = z" by (meson seg.simps(2))
  then show ?case by (metis last_ConsR list.distinct(1))
qed simp

text \<open>Redirecting the end of a segment.\<close>

lemma seg_retarget:
  assumes "seg f a xs z" and "distinct (a # xs)" and "z' \<notin> set xs"
    and "\<And>x. x \<in> set (a # xs) \<Longrightarrow> x \<noteq> last (a # xs) \<Longrightarrow> bnext (g x) = bnext (f x)"
    and "\<And>x. x \<in> set xs \<Longrightarrow> bprev (g x) = bprev (f x)"
    and "bnext (g (last (a # xs))) = z'" and "bprev (g z') = last (a # xs)"
  shows "seg g a xs z'"
  using assms
proof (induction xs arbitrary: a)
  case (Cons x xs)
  have "last (x # xs) \<noteq> a" using Cons.prems(2) last_in_set [of "x # xs"] by (metis distinct.simps(2) list.distinct(1))
  moreover have "seg g x xs z'"
    using Cons.prems by (intro Cons.IH) auto
  ultimately show ?case using Cons.prems(1,4,5) by auto
qed simp

lemma seg_insert:
  assumes "seg f a xs z" and "b \<notin> set (a # xs)" and "b \<noteq> z" and "distinct (a # xs)" and "z \<notin> set xs"
    and "\<And>x. x \<in> set xs \<Longrightarrow> bnext (g x) = bnext (f x)"
    and "\<And>x. x \<in> set (xs @ [z]) \<Longrightarrow> x \<noteq> hd (xs @ [z]) \<Longrightarrow> bprev (g x) = bprev (f x)"
    and "bnext (g a) = b" and "bprev (g b) = a" and "bnext (g b) = bnext (f a)"
    and "bprev (g (hd (xs @ [z]))) = b"
  shows "seg g a (b # xs) z"
proof (cases xs)
  case Nil
  then show ?thesis using assms by simp
next
  case (Cons x ys)
  have "seg f x ys z" using assms(1) Cons by simp
  moreover have "seg g x ys z = seg f x ys z"
    using assms Cons by (intro seg_cong) auto
  ultimately show ?thesis using assms Cons by auto
qed

lemma bscan_next:
  assumes "seg f a xs NBUF" and "NBUF \<notin> set xs" and "length xs < n"
  shows "bscan bnext P n (bnext (f a)) f = Some (find (P \<circ> f) xs)"
  using assms
proof (induction xs arbitrary: a n)
  case Nil
  then show ?case by (cases n) auto
next
  case (Cons x xs)
  then obtain k where "n = Suc k" by (cases n) auto
  then show ?case using Cons by auto
qed

lemma bscan_prev:
  assumes "seg f NBUF xs z" and "NBUF \<notin> set xs" and "length xs < n"
  shows "bscan bprev P n (bprev (f z)) f = Some (find (P \<circ> f) (rev xs))"
  using assms
proof (induction xs arbitrary: z n rule: rev_induct)
  case Nil
  then show ?case by (cases n) auto
next
  case (snoc x xs)
  then obtain k where n: "n = Suc k" by (cases n) auto
  have "seg f NBUF xs x" and "bprev (f z) = x" using snoc.prems(1) by (auto simp: seg_append)
  then show ?case using snoc.IH [of x k] snoc.prems n by auto
qed

lemma bpush_seg:
  assumes "seg f NBUF xs NBUF" and "b \<notin> set xs" and "b \<noteq> NBUF" and "distinct xs" and "NBUF \<notin> set xs"
  shows "seg (bpush b f) NBUF (b # xs) NBUF"
proof (rule seg_insert [OF assms(1)])
  have h: "bnext (f NBUF) = hd (xs @ [NBUF])" using seg_first [OF assms(1)] by simp
  have hb: "hd (xs @ [NBUF]) \<noteq> b" using assms(2,3) by (cases xs) auto
  show "bnext (bpush b f x) = bnext (f x)" if "x \<in> set xs" for x
    using that assms(2,5) by (auto simp: bpush_def Let_def)
  show "bprev (bpush b f x) = bprev (f x)" if "x \<in> set (xs @ [NBUF])" "x \<noteq> hd (xs @ [NBUF])" for x
    using that assms(2,3) h by (auto simp: bpush_def Let_def)
  show "bprev (bpush b f (hd (xs @ [NBUF]))) = b"
    using h assms(3) by (auto simp: bpush_def Let_def)
  show "bprev (bpush b f b) = NBUF" "bnext (bpush b f b) = bnext (f NBUF)"
    using h hb assms(3) by (auto simp: bpush_def Let_def)
  show "bnext (bpush b f NBUF) = b" by (simp add: bpush_def Let_def)
qed (use assms in auto)

lemma bunlink_seg:
  assumes "seg f NBUF (l @ b # r) NBUF" and "distinct (l @ b # r)" and "NBUF \<notin> set (l @ b # r)"
  shows "seg (bunlink b f) NBUF (l @ r) NBUF"
proof -
  let ?n = "hd (r @ [NBUF])" and ?p = "last (NBUF # l)"
  have l: "seg f NBUF l b" and r: "seg f b r NBUF" using assms(1) by (simp_all add: seg_append)
  have n: "bnext (f b) = ?n" and p: "bprev (f b) = ?p" using seg_first [OF r] seg_last [OF l] by simp_all
  have nb: "?n \<noteq> b" using assms(2,3) by (cases r) auto
  have pb: "?p \<noteq> b" using assms(2,3) last_in_set [of "NBUF # l"] by auto
  have pr: "?p \<notin> set r" using assms(2,3) last_in_set [of "NBUF # l"] by auto
  have nxt: "bnext (bunlink b f x) = (if x = ?p then ?n else bnext (f x))"
   and prv: "bprev (bunlink b f x) = (if x = ?n then ?p else bprev (f x))" for x
    using n p nb pb unfolding bunlink_def Let_def by (simp_all split: if_split del: last.simps)
  have left: "seg (bunlink b f) NBUF l ?n"
  proof (rule seg_retarget [OF l])
    show "?n \<notin> set l" using assms(2,3) by (cases r) auto
    then show "bprev (bunlink b f x) = bprev (f x)" if "x \<in> set l" for x
      using that prv [of x] by metis
    show "distinct (NBUF # l)" using assms(2,3) by simp
  qed (simp_all add: nxt prv del: last.simps)
  show ?thesis
  proof (cases r)
    case Nil
    then show ?thesis using left by simp
  next
    case (Cons y ys)
    have "seg (bunlink b f) y ys NBUF = seg f y ys NBUF"
      using assms(2,3) Cons pr by (intro seg_cong) (auto simp: nxt prv simp del: last.simps)
    then show ?thesis using left r Cons by (simp add: seg_append)
  qed
qed

lemma bpush_fields [simp]:
  "bbusy (bpush b f i) = bbusy (f i)" "bvalid (bpush b f i) = bvalid (f i)" "bdirty (bpush b f i) = bdirty (f i)"
  "bdev (bpush b f i) = bdev (f i)" "bsector (bpush b f i) = bsector (f i)" "bdata (bpush b f i) = bdata (f i)"
  by (simp_all add: bpush_def Let_def)

lemma bunlink_fields [simp]:
  "bbusy (bunlink b f i) = bbusy (f i)" "bvalid (bunlink b f i) = bvalid (f i)" "bdirty (bunlink b f i) = bdirty (f i)"
  "bdev (bunlink b f i) = bdev (f i)" "bsector (bunlink b f i) = bsector (f i)" "bdata (bunlink b f i) = bdata (f i)"
  by (simp_all add: bunlink_def Let_def)

lemma lru_NBUF: "lru f xs \<Longrightarrow> NBUF \<notin> set xs"
  by (simp add: lru_def)

lemma lru_length: "lru f xs \<Longrightarrow> length xs = NBUF"
  by (metis card_lessThan distinct_card lru_def)

text \<open>\<open>brelse\<close> moves a buffer to the front of the list.\<close>

lemma lru_move_front:
  assumes "lru f xs" and "b < NBUF"
  shows "lru (bpush b (bunlink b f)) (b # remove1 b xs)"
proof -
  obtain l r where xs: "xs = l @ b # r"
    using assms split_list [of b xs] by (auto simp: lru_def)
  then have "remove1 b xs = l @ r" using assms(1) by (simp add: lru_def remove1_append)
  moreover have "seg (bunlink b f) NBUF (l @ r) NBUF"
    using assms(1) lru_NBUF [OF assms(1)] unfolding xs lru_def by (intro bunlink_seg) auto
  moreover have "set (l @ r) = {..<NBUF} - {b}" and "distinct (b # l @ r)"
    using assms(1) unfolding xs lru_def by auto
  moreover have "insert b ({..<NBUF} - {b}) = {..<NBUF}" using assms(2) by auto
  ultimately show ?thesis
    using bpush_seg [of "bunlink b f" "l @ r" b] assms(2) by (simp add: lru_def)
qed

lemma lru_cong:
  assumes "\<And>i. bnext (g i) = bnext (f i)" and "\<And>i. bprev (g i) = bprev (f i)"
  shows "lru g xs = lru f xs"
  unfolding lru_def using seg_cong [of NBUF xs g f NBUF] assms by simp

lemma lru_binit_fold:
  assumes "seg f NBUF (rev [0..<k]) NBUF" and "k \<le> n" and "n \<le> NBUF"
  shows "seg (foldl binit_step f [k..<n]) NBUF (rev [0..<n]) NBUF"
  using assms
proof (induction "n - k" arbitrary: k f)
  case (Suc d)
  then have up: "[k..<n] = k # [Suc k..<n]" by (auto simp: upt_conv_Cons)
  have "seg (f(k := (f k)\<lparr>bdev := - 1\<rparr>)) NBUF (rev [0..<k]) NBUF"
    using Suc.prems(1) seg_cong [of NBUF "rev [0..<k]" "f(k := (f k)\<lparr>bdev := - 1\<rparr>)" f NBUF] by simp
  then have "seg (binit_step f k) NBUF (k # rev [0..<k]) NBUF"
    unfolding binit_step_def using Suc by (intro bpush_seg) auto
  then have "seg (foldl binit_step (binit_step f k) [Suc k..<n]) NBUF (rev [0..<n]) NBUF"
    using Suc by (intro Suc.hyps) auto
  then show ?case by (simp add: up)
qed simp

section \<open>The IDE requests\<close>

definition woken :: "chan \<Rightarrow> 'a ptab_scheme \<Rightarrow> 'a ptab_scheme" where
  "woken c s = s\<lparr>ptable := map (wakeup1_proc (Some c)) (butlast (ptable s)) @ [last (ptable s)]\<rparr>"

lemma wakeup_woken: "ptable s \<noteq> [] \<Longrightarrow> wakeup c s = Ret () (woken c s)"
  by (simp add: wakeup_eq woken_def)

lemma woken_ptable [simp]: "ptable (woken c s) \<noteq> []"
  by (simp add: woken_def)

definition ide_key :: "u32 \<times> u32 \<Rightarrow> bool" where
  "ide_key k \<longleftrightarrow> (fst k = 0 \<or> fst k = 1) \<and> snd k < 0x10000000"

abbreviation key_loc :: "u32 \<times> u32 \<Rightarrow> bool \<times> nat" where
  "key_loc k \<equiv> ide_loc (fst k) (snd k)"

lemma and_mask_u32: "x AND 0xFF = (x mod 256 :: u32)" "x AND 0x0F = (x mod 16 :: u32)"
proof -
  have m: "(0xFF :: u32) = mask 8" "(0x0F :: u32) = mask 4" by (simp_all add: mask_eq_exp_minus_1)
  show "x AND 0xFF = x mod 256" "x AND 0x0F = x mod 16"
    unfolding m by (simp_all add: take_bit_eq_mod flip: take_bit_eq_mask)
qed

lemma ide_loc_small:
  assumes "n < (0x10000000 :: u32)"
  shows "ide_loc d n = (d = 1, unat n)"
proof -
  have n: "unat n < 2 ^ 28" using assms by (simp add: word_less_nat_alt)
  have d: "unat (drop_bit k n) = unat n div 2 ^ k" for k
    unfolding unsigned_drop_bit_eq using u32_bound [of n] by (simp add: drop_bit_eq_div take_bit_nat_eq_self)
  have "unat n div 2 ^ 24 < 16" using n by (simp add: less_mult_imp_div_less)
  moreover have "unat n = unat n mod 256 + 256 * (unat n div 256 mod 256)
      + 65536 * (unat n div 65536 mod 256) + 16777216 * (unat n div 16777216)"
  proof -
    have "unat n div 256 div 256 = unat n div 65536" "unat n div 65536 div 256 = unat n div 16777216"
      by (simp_all add: div_mult2_eq [symmetric])
    then show ?thesis
      using mod_mult_div_eq [of "unat n" 256] mod_mult_div_eq [of "unat n div 256" 256]
        mod_mult_div_eq [of "unat n div 65536" 256]
      by linarith
  qed
  ultimately show ?thesis
    unfolding ide_loc_def and_mask_u32 by (simp add: unat_mod_word d)
qed

lemma key_loc_inj: "ide_key k \<Longrightarrow> ide_key k' \<Longrightarrow> key_loc k = key_loc k' \<longleftrightarrow> k = k'"
  by (auto simp: ide_key_def ide_loc_small prod_eq_iff word_unat_eq_iff)

lemma ide_key_type: "ide_key (d, n) \<Longrightarrow> GETDEVTYPE d = DEV_IDE \<and> d \<noteq> - 1"
  by (auto simp: ide_key_def GETDEVTYPE_def)

text \<open>The two uses of \<open>iderw\<close>: reading into a buffer that is not valid, writing one that is dirty.\<close>

lemma iderw_read:
  assumes "idequeue s = []" and "ptable s \<noteq> []" and "bbusy (bufs s b)" and "\<not> bvalid (bufs s b)"
    and "\<not> bdirty (bufs s b)" and "havedisk1 s" and "\<not> ide_err s"
  shows "iderw b s = Ret () (woken (ChBuf b) (set_buf b (\<lambda>p. p\<lparr>bdata := disk s (ide_loc (bdev p) (bsector p)),
      bvalid := True, bdirty := False\<rparr>) s))"
  using assms
  by (simp add: iderw_def ideintr_def idestart_def kmon_defs set_buf_def wakeup_woken woken_def Let_def)

lemma iderw_write:
  assumes "idequeue s = []" and "ptable s \<noteq> []" and "bbusy (bufs s b)" and "bdirty (bufs s b)" and "havedisk1 s"
  shows "iderw b s = Ret () (woken (ChBuf b) (set_buf b (\<lambda>p. p\<lparr>bvalid := True, bdirty := False\<rparr>)
      (s\<lparr>disk := (disk s)(ide_loc (bdev (bufs s b)) (bsector (bufs s b)) := bdata (bufs s b)),
         hist := hist s @ [(ide_loc (bdev (bufs s b)) (bsector (bufs s b)), bdata (bufs s b))]\<rparr>)))"
  using assms
  by (simp add: iderw_def ideintr_def idestart_def kmon_defs set_buf_def wakeup_woken woken_def Let_def)

section \<open>The state of the cache\<close>

definition pkey :: "buf \<Rightarrow> u32 \<times> u32" where
  "pkey p = (bdev p, bsector p)"

text \<open>A buffer is free, or it holds the sector of its key, and the same bytes as the disk unless it is
  dirty or tainted.\<close>

definition buf_ok :: "(bool \<times> nat \<Rightarrow> block) \<Rightarrow> bool \<Rightarrow> buf \<Rightarrow> bool" where
  "buf_ok d tainted p \<longleftrightarrow>
     (if bdev p = - 1 then \<not> bbusy p \<and> \<not> bdirty p
      else ide_key (pkey p) \<and> bvalid p \<and> length (bdata p) = BSIZE
        \<and> (\<not> bdirty p \<longrightarrow> \<not> tainted \<longrightarrow> bdata p = d (key_loc (pkey p))))"

definition disk_ok :: "(bool \<times> nat \<Rightarrow> block) \<Rightarrow> bool" where
  "disk_ok d \<longleftrightarrow> (\<forall>l. length (d l) = BSIZE)"

text \<open>The invariant between operations. Each cached sector has one buffer, and a buffer that is
  clean holds what is on the disk, except for those in \<open>T\<close>: their holder has stored into them and
  has neither written them nor handed them to the log.\<close>

definition bio_inv :: "'a bio_scheme \<Rightarrow> nat set \<Rightarrow> bool" where
  "bio_inv s T \<longleftrightarrow> (\<exists>xs. lru (bufs s) xs) \<and> ptable s \<noteq> [] \<and> idequeue s = [] \<and> havedisk1 s \<and> \<not> ide_err s
     \<and> disk_ok (disk s)
     \<and> (\<forall>i<NBUF. buf_ok (disk s) (i \<in> T) (bufs s i))
     \<and> (\<forall>i<NBUF. \<forall>j<NBUF. pkey (bufs s i) = pkey (bufs s j) \<longrightarrow> bdev (bufs s i) \<noteq> - 1 \<longrightarrow> i = j)
     \<and> (\<forall>i\<in>T. i < NBUF \<and> bbusy (bufs s i))"

definition bcached :: "'a bio_scheme \<Rightarrow> u32 \<times> u32 \<Rightarrow> nat option" where
  "bcached s k = find (\<lambda>i. pkey (bufs s i) = k) [0..<NBUF]"

text \<open>What a reader of an IDE sector sees: the buffer if the sector is cached, else the disk.\<close>

definition bview :: "'a bio_scheme \<Rightarrow> u32 \<times> u32 \<Rightarrow> block" where
  "bview s k = (if \<not> ide_key k then []
     else case bcached s k of Some i \<Rightarrow> bdata (bufs s i) | None \<Rightarrow> disk s (key_loc k))"

definition busy_keys :: "'a bio_scheme \<Rightarrow> (u32 \<times> u32) set" where
  "busy_keys s = (\<lambda>i. pkey (bufs s i)) ` {i \<in> {..<NBUF}. bbusy (bufs s i)}"

definition dirty_keys :: "'a bio_scheme \<Rightarrow> (u32 \<times> u32) set" where
  "dirty_keys s = (\<lambda>i. pkey (bufs s i)) ` {i \<in> {..<NBUF}. bdirty (bufs s i)}"

text \<open>Cache operations change nothing but the buffers, the disk and who is awake.\<close>

definition bio_frame :: "'a bio_scheme \<Rightarrow> 'a bio_scheme \<Rightarrow> bool" where
  "bio_frame s t \<longleftrightarrow> (\<exists>ps f d h. t = s\<lparr>ptable := ps, bufs := f, disk := d, hist := h\<rparr>)"

lemma bio_frame_refl [simp]: "bio_frame s s"
proof -
  have "s = s\<lparr>ptable := ptable s, bufs := bufs s, disk := disk s, hist := hist s\<rparr>" by simp
  then show ?thesis unfolding bio_frame_def by blast
qed

lemma bio_frame_trans: "bio_frame s t \<Longrightarrow> bio_frame t u \<Longrightarrow> bio_frame s u"
  unfolding bio_frame_def by force

lemma bio_frame_set_buf [simp]: "bio_frame s (set_buf b f s)"
proof -
  have "set_buf b f s = s\<lparr>ptable := ptable s, bufs := (bufs s)(b := f (bufs s b)), disk := disk s, hist := hist s\<rparr>"
    by (simp add: set_buf_def)
  then show ?thesis unfolding bio_frame_def by blast
qed

lemma bio_frame_woken [simp]: "bio_frame s (woken c s)"
proof -
  have "woken c s = s\<lparr>ptable := ptable (woken c s), bufs := bufs s, disk := disk s, hist := hist s\<rparr>"
    by (simp add: woken_def)
  then show ?thesis unfolding bio_frame_def by blast
qed

lemma woken_fields [simp]:
  "bufs (woken c s) = bufs s" "disk (woken c s) = disk s" "hist (woken c s) = hist s"
  "idequeue (woken c s) = idequeue s" "havedisk1 (woken c s) = havedisk1 s" "ide_err (woken c s) = ide_err s"
  by (simp_all add: woken_def)

lemma set_buf_fields [simp]:
  "bufs (set_buf b f s) = (bufs s)(b := f (bufs s b))" "disk (set_buf b f s) = disk s"
  "hist (set_buf b f s) = hist s" "idequeue (set_buf b f s) = idequeue s" "ptable (set_buf b f s) = ptable s"
  "havedisk1 (set_buf b f s) = havedisk1 s" "ide_err (set_buf b f s) = ide_err s"
  by (simp_all add: set_buf_def)

lemma bview_cong: "bufs t = bufs s \<Longrightarrow> disk t = disk s \<Longrightarrow> bview t = bview s"
  by (rule ext) (simp add: bview_def bcached_def split: option.split)

lemma keys_cong: "bufs t = bufs s \<Longrightarrow> busy_keys t = busy_keys s \<and> dirty_keys t = dirty_keys s"
  by (simp add: busy_keys_def dirty_keys_def)

lemma bview_woken [simp]: "bview (woken c s) = bview s" "busy_keys (woken c s) = busy_keys s"
  "dirty_keys (woken c s) = dirty_keys s"
  using bview_cong [of "woken c s" s] keys_cong [of "woken c s" s] by simp_all

lemma bcached_woken [simp]: "bcached (woken c s) = bcached s"
  by (rule ext) (simp add: bcached_def)

lemma bio_inv_woken [simp]: "ptable s \<noteq> [] \<Longrightarrow> bio_inv (woken c s) T = bio_inv s T"
  by (simp add: bio_inv_def)

lemma bcached_SomeD: "bcached s k = Some i \<Longrightarrow> i < NBUF \<and> pkey (bufs s i) = k"
  by (auto simp: bcached_def find_Some_iff)

lemma bcached_same_keys: "(\<And>j. pkey (bufs t j) = pkey (bufs s j)) \<Longrightarrow> bcached t k = bcached s k"
  by (simp add: bcached_def)

lemma bcached_NoneD: "bcached s k = None \<Longrightarrow> i < NBUF \<Longrightarrow> pkey (bufs s i) \<noteq> k"
  by (auto simp: bcached_def find_None_iff)

lemma ide_key_dev: "ide_key (pkey p) \<Longrightarrow> bdev p \<noteq> - 1"
  using ide_key_type [of "bdev p" "bsector p"] by (simp add: pkey_def)

lemma bio_inv_unique:
  assumes "bio_inv s T" and "i < NBUF" and "j < NBUF" and "ide_key (pkey (bufs s i))"
    and "pkey (bufs s j) = pkey (bufs s i)"
  shows "j = i"
  using assms ide_key_dev [OF assms(4)] unfolding bio_inv_def by metis

lemma bcached_held:
  assumes "bio_inv s T" and "i < NBUF" and "ide_key (pkey (bufs s i))"
  shows "bcached s (pkey (bufs s i)) = Some i"
proof (cases "bcached s (pkey (bufs s i))")
  case None
  then show ?thesis using bcached_NoneD assms(2) by blast
next
  case (Some j)
  then show ?thesis using bcached_SomeD [OF Some] bio_inv_unique [OF assms(1,2) _ assms(3)] by metis
qed

lemma bview_held:
  "bio_inv s T \<Longrightarrow> i < NBUF \<Longrightarrow> ide_key (pkey (bufs s i)) \<Longrightarrow> bview s (pkey (bufs s i)) = bdata (bufs s i)"
  by (simp add: bview_def bcached_held)

lemma bio_inv_buf: "bio_inv s T \<Longrightarrow> i < NBUF \<Longrightarrow> buf_ok (disk s) (i \<in> T) (bufs s i)"
  by (simp add: bio_inv_def)

lemma busy_keysI: "i < NBUF \<Longrightarrow> bbusy (bufs s i) \<Longrightarrow> pkey (bufs s i) \<in> busy_keys s"
  by (simp add: busy_keys_def)

lemma bview_uncached: "bcached s k = None \<Longrightarrow> ide_key k \<Longrightarrow> bview s k = disk s (key_loc k)"
  by (simp add: bview_def)

lemma busy_dev: "bio_inv s T \<Longrightarrow> i < NBUF \<Longrightarrow> bbusy (bufs s i) \<or> bdirty (bufs s i) \<Longrightarrow> bdev (bufs s i) \<noteq> - 1"
  using bio_inv_buf [of s T i] by (auto simp: buf_ok_def)

lemma buf_ok_dev:
  "buf_ok d t p \<Longrightarrow> bdev p \<noteq> - 1 \<Longrightarrow> ide_key (pkey p) \<and> bvalid p \<and> length (bdata p) = BSIZE
     \<and> (\<not> bdirty p \<longrightarrow> \<not> t \<longrightarrow> bdata p = d (key_loc (pkey p)))"
  by (simp add: buf_ok_def)

lemma bview_length:
  assumes "bio_inv s T" and "ide_key k"
  shows "length (bview s k) = BSIZE"
proof (cases "bcached s k")
  case None
  then show ?thesis using assms by (simp add: bview_def bio_inv_def disk_ok_def del: split_paired_All)
next
  case (Some i)
  then have "i < NBUF" "pkey (bufs s i) = k" using bcached_SomeD [OF Some] by auto
  then show ?thesis
    using buf_ok_dev [OF bio_inv_buf [OF assms(1)]] assms(2) ide_key_dev [of "bufs s i"] Some
    by (simp add: bview_def)
qed

text \<open>Changing one buffer.\<close>

lemma bio_inv_set_buf:
  assumes inv: "bio_inv s T" and "i < NBUF"
    and links: "bnext (f (bufs s i)) = bnext (bufs s i)" "bprev (f (bufs s i)) = bprev (bufs s i)"
    and fresh: "\<And>j. j < NBUF \<Longrightarrow> j \<noteq> i \<Longrightarrow> pkey (bufs s j) \<noteq> pkey (f (bufs s i))"
    and ok: "buf_ok (disk s) (i \<in> T') (f (bufs s i))" and T': "\<And>j. j \<noteq> i \<Longrightarrow> j \<in> T' \<longleftrightarrow> j \<in> T"
    and busy: "i \<in> T' \<Longrightarrow> bbusy (f (bufs s i))"
  shows "bio_inv (set_buf i f s) T'"
proof -
  let ?g = "(bufs s)(i := f (bufs s i))"
  have "\<exists>xs. lru ?g xs"
    using inv links lru_cong [of ?g "bufs s"] by (auto simp: bio_inv_def)
  moreover have "buf_ok (disk s) (j \<in> T') (?g j)" if "j < NBUF" for j
    using inv ok T' [of j] that by (cases "j = i") (auto simp: bio_inv_def)
  moreover have "a = b" if "a < NBUF" "b < NBUF" "pkey (?g a) = pkey (?g b)" "bdev (?g a) \<noteq> - 1" for a b
    using that inv fresh [of b] fresh [of a]
    by (cases "a = i"; cases "b = i") (auto simp: bio_inv_def)
  moreover have "j < NBUF \<and> bbusy (?g j)" if "j \<in> T'" for j
    using that inv assms(2) T' [of j] busy by (cases "j = i") (auto simp: bio_inv_def)
  moreover have "ptable s \<noteq> []" "idequeue s = []" "havedisk1 s" "\<not> ide_err s" "disk_ok (disk s)"
    using inv unfolding bio_inv_def by blast+
  ultimately show ?thesis
    unfolding bio_inv_def set_buf_fields by blast
qed

lemma bview_set_buf:
  assumes "bio_inv s T" and "i < NBUF" and "ide_key (pkey (bufs s i))" and "pkey (f (bufs s i)) = pkey (bufs s i)"
  shows "bview (set_buf i f s) = (bview s)(pkey (bufs s i) := bdata (f (bufs s i)))"
proof
  fix k
  have "pkey (bufs (set_buf i f s) j) = pkey (bufs s j)" for j
    using assms(4) by simp
  then have "bcached (set_buf i f s) k = bcached s k" unfolding bcached_def by presburger
  then show "bview (set_buf i f s) k = ((bview s)(pkey (bufs s i) := bdata (f (bufs s i)))) k"
    using bcached_held [OF assms(1-3)] bcached_SomeD [of s k] assms(3)
    by (cases "bcached s k") (auto simp: bview_def)
qed

lemma set_buf_collect:
  "i < NBUF \<Longrightarrow> P (f (bufs s i)) \<Longrightarrow>
     {j \<in> {..<NBUF}. P (bufs (set_buf i f s) j)} = insert i {j \<in> {..<NBUF}. P (bufs s j)}"
  "\<not> P (f (bufs s i)) \<Longrightarrow>
     {j \<in> {..<NBUF}. P (bufs (set_buf i f s) j)} = {j \<in> {..<NBUF}. P (bufs s j)} - {i}"
  "P (f (bufs s i)) = P (bufs s i) \<Longrightarrow>
     {j \<in> {..<NBUF}. P (bufs (set_buf i f s) j)} = {j \<in> {..<NBUF}. P (bufs s j)}"
  by auto

lemma keys_set_buf:
  assumes "i < NBUF" and "pkey (f (bufs s i)) = pkey (bufs s i)"
  shows "bbusy (f (bufs s i)) \<Longrightarrow> busy_keys (set_buf i f s) = insert (pkey (bufs s i)) (busy_keys s)"
    and "bdirty (f (bufs s i)) \<Longrightarrow> dirty_keys (set_buf i f s) = insert (pkey (bufs s i)) (dirty_keys s)"
    and "bbusy (f (bufs s i)) = bbusy (bufs s i) \<Longrightarrow> busy_keys (set_buf i f s) = busy_keys s"
    and "bdirty (f (bufs s i)) = bdirty (bufs s i) \<Longrightarrow> dirty_keys (set_buf i f s) = dirty_keys s"
proof -
  have key: "pkey (bufs (set_buf i f s) j) = pkey (bufs s j)" for j using assms(2) by simp
  show "bbusy (f (bufs s i)) \<Longrightarrow> busy_keys (set_buf i f s) = insert (pkey (bufs s i)) (busy_keys s)"
    and "bdirty (f (bufs s i)) \<Longrightarrow> dirty_keys (set_buf i f s) = insert (pkey (bufs s i)) (dirty_keys s)"
    and "bbusy (f (bufs s i)) = bbusy (bufs s i) \<Longrightarrow> busy_keys (set_buf i f s) = busy_keys s"
    and "bdirty (f (bufs s i)) = bdirty (bufs s i) \<Longrightarrow> dirty_keys (set_buf i f s) = dirty_keys s"
    unfolding busy_keys_def dirty_keys_def key
    using set_buf_collect(1) [OF assms(1), where P = bbusy and f = f and s = s]
      set_buf_collect(1) [OF assms(1), where P = bdirty and f = f and s = s]
      set_buf_collect(3) [where P = bbusy and f = f and s = s and i = i]
      set_buf_collect(3) [where P = bdirty and f = f and s = s and i = i]
    by (simp_all only: image_insert)
qed

lemma image_remove:
  assumes "\<And>j. j \<in> A \<Longrightarrow> g j = g i \<Longrightarrow> j = i"
  shows "g ` (A - {i}) = g ` A - {g i}"
  by (auto dest: assms)

lemma keys_clear:
  assumes "bio_inv s T" and "i < NBUF" and "ide_key (pkey (bufs s i))" and "pkey (f (bufs s i)) = pkey (bufs s i)"
  shows "\<not> bbusy (f (bufs s i)) \<Longrightarrow> busy_keys (set_buf i f s) = busy_keys s - {pkey (bufs s i)}"
    and "\<not> bdirty (f (bufs s i)) \<Longrightarrow> dirty_keys (set_buf i f s) = dirty_keys s - {pkey (bufs s i)}"
proof -
  have key: "pkey (bufs (set_buf i f s) j) = pkey (bufs s j)" for j using assms(4) by simp
  have uniq: "j = i" if "j < NBUF" "pkey (bufs s j) = pkey (bufs s i)" for j
    using bio_inv_unique [OF assms(1,2) that(1) assms(3) that(2)] .
  show "busy_keys (set_buf i f s) = busy_keys s - {pkey (bufs s i)}" if "\<not> bbusy (f (bufs s i))"
    unfolding busy_keys_def key set_buf_collect(2) [where P = bbusy and f = f and s = s and i = i, OF that]
    by (rule image_remove) (use uniq in auto)
  show "dirty_keys (set_buf i f s) = dirty_keys s - {pkey (bufs s i)}" if "\<not> bdirty (f (bufs s i))"
    unfolding dirty_keys_def key set_buf_collect(2) [where P = bdirty and f = f and s = s and i = i, OF that]
    by (rule image_remove) (use uniq in auto)
qed

section \<open>The operations of the cache\<close>

definition bfree :: "buf \<Rightarrow> bool" where
  "bfree p \<longleftrightarrow> \<not> bbusy p \<and> \<not> bdirty p"

lemma bio_inv_lru: "bio_inv s T \<Longrightarrow> \<exists>xs. lru (bufs s) xs"
  by (simp add: bio_inv_def)

lemma bget_scans:
  assumes "lru f xs"
  shows "bscan bnext P 31 (bnext (f NBUF)) f = Some (find (P \<circ> f) xs)"
    and "bscan bprev P 31 (bprev (f NBUF)) f = Some (find (P \<circ> f) (rev xs))"
  using bscan_next [of f NBUF xs 31 P] bscan_prev [of f xs NBUF 31 P]
    assms lru_NBUF [OF assms] lru_length [OF assms] by (simp_all add: lru_def)

lemma find_lru_key:
  assumes "bio_inv s T" and "lru (bufs s) xs" and "ide_key (d, n)"
  shows "find ((\<lambda>p. bdev p = d \<and> bsector p = n) \<circ> bufs s) xs = bcached s (d, n)"
proof (cases "bcached s (d, n)")
  case None
  then have "\<forall>i\<in>set xs. \<not> (bdev (bufs s i) = d \<and> bsector (bufs s i) = n)"
    using assms(2) bcached_NoneD [OF None] by (auto simp: lru_def pkey_def)
  then show ?thesis using None by (simp add: find_None_iff)
next
  case (Some i)
  then have i: "i < NBUF" "pkey (bufs s i) = (d, n)" using bcached_SomeD [OF Some] by auto
  then have "i \<in> set xs" "bdev (bufs s i) = d \<and> bsector (bufs s i) = n"
    using assms(2) by (auto simp: lru_def pkey_def)
  then obtain j where j: "find ((\<lambda>p. bdev p = d \<and> bsector p = n) \<circ> bufs s) xs = Some j"
    by (fastforce simp: find_None_iff dest: not_None_eq [THEN iffD1])
  then have "j \<in> set xs" "pkey (bufs s j) = (d, n)" by (auto simp: find_Some_iff pkey_def)
  then have "j = i" using i assms bio_inv_unique [OF assms(1) i(1), of j] by (simp add: lru_def)
  then show ?thesis using j Some by simp
qed

text \<open>\<open>bread\<close> of a cached sector that nobody holds, and of one that is not cached.\<close>

lemma bread_cached:
  assumes "bio_inv s T" and "ide_key (d, n)" and "bcached s (d, n) = Some i" and "\<not> bbusy (bufs s i)"
  shows "bread d n s = Ret i (set_buf i (\<lambda>p. p\<lparr>bbusy := True\<rparr>) s)"
proof -
  obtain xs where xs: "lru (bufs s) xs" using bio_inv_lru [OF assms(1)] ..
  have i: "i < NBUF" "pkey (bufs s i) = (d, n)" using bcached_SomeD [OF assms(3)] by auto
  have "bvalid (bufs s i)"
    using buf_ok_dev [OF bio_inv_buf [OF assms(1) i(1)]] ide_key_dev [of "bufs s i"] i(2) assms(2) by simp
  then show ?thesis
    using assms(3,4) by (simp add: bread_def bget_def kmon_defs bget_scans [OF xs] find_lru_key [OF assms(1) xs assms(2)])
qed

definition recycled :: "u32 \<Rightarrow> u32 \<Rightarrow> block \<Rightarrow> buf \<Rightarrow> buf" where
  "recycled d n x p = p\<lparr>bdev := d, bsector := n, bbusy := True, bdata := x, bvalid := True, bdirty := False\<rparr>"

lemma bread_uncached:
  assumes "bio_inv s T" and "lru (bufs s) xs" and "ide_key (d, n)" and "bcached s (d, n) = None"
    and "find (bfree \<circ> bufs s) (rev xs) = Some b"
  shows "bread d n s = Ret b (woken (ChBuf b) (set_buf b (recycled d n (disk s (ide_loc d n))) s))"
proof -
  let ?s = "set_buf b (\<lambda>p. p\<lparr>bdev := d, bsector := n, bbusy := True, bvalid := False, bdirty := False\<rparr>) s"
  have "find ((\<lambda>p. \<not> bbusy p \<and> \<not> bdirty p) \<circ> bufs s) (rev xs) = Some b"
    using assms(5) by (simp add: bfree_def [abs_def])
  then have "bget d n s = Ret b ?s"
    using assms(4) by (simp add: bget_def kmon_defs bget_scans [OF assms(2)] find_lru_key [OF assms(1-3)])
  moreover have "iderw b ?s = Ret () (woken (ChBuf b) (set_buf b (recycled d n (disk s (ide_loc d n))) s))"
    using assms(1) by (subst iderw_read) (auto simp: bio_inv_def set_buf_def recycled_def)
  ultimately show ?thesis
    using ide_key_type [OF assms(3)] by (simp add: bread_def kmon_defs)
qed

text \<open>What every \<open>bread\<close> of a legal sector that nobody holds does, as long as some buffer can be
  recycled.\<close>

definition bread_post :: "'a bio_scheme \<Rightarrow> u32 \<times> u32 \<Rightarrow> nat \<Rightarrow> 'a bio_scheme \<Rightarrow> bool" where
  "bread_post s k b t \<longleftrightarrow> b < NBUF \<and> pkey (bufs t b) = k \<and> bbusy (bufs t b) \<and> bdata (bufs t b) = bview s k
     \<and> bview t = bview s \<and> disk t = disk s \<and> hist t = hist s
     \<and> busy_keys t = insert k (busy_keys s) \<and> dirty_keys t = dirty_keys s
     \<and> (\<forall>i<NBUF. bbusy (bufs s i) \<longrightarrow> i \<noteq> b \<and> bufs t i = bufs s i) \<and> bio_frame s t"

definition room :: "'a bio_scheme \<Rightarrow> bool" where
  "room s \<longleftrightarrow> (\<exists>i<NBUF. bfree (bufs s i))"

lemma bread_spec:
  assumes "bio_inv s T" and "ide_key (d, n)" and "(d, n) \<notin> busy_keys s"
    and "bcached s (d, n) \<noteq> None \<or> room s"
  shows "\<exists>b t. bread d n s = Ret b t \<and> bio_inv t T \<and> b \<notin> T \<and> bread_post s (d, n) b t"
proof (cases "bcached s (d, n)")
  case (Some i)
  have i: "i < NBUF" "pkey (bufs s i) = (d, n)" using bcached_SomeD [OF Some] by auto
  then have nb: "\<not> bbusy (bufs s i)" using assms(3) busy_keysI [of i s] by auto
  then have T: "i \<notin> T" using assms(1) by (auto simp: bio_inv_def)
  let ?f = "\<lambda>p. p\<lparr>bbusy := True\<rparr>"
  have fkey: "pkey (?f p) = pkey p" for p by (simp add: pkey_def)
  have ik: "ide_key (pkey (bufs s i))" using i(2) assms(2) by simp
  have "bio_inv (set_buf i ?f s) T"
  proof (rule bio_inv_set_buf [OF assms(1) i(1)])
    show "buf_ok (disk s) (i \<in> T) (?f (bufs s i))"
      using bio_inv_buf [OF assms(1) i(1)] ide_key_dev [OF ik] by (simp add: buf_ok_def pkey_def)
    show "pkey (bufs s j) \<noteq> pkey (?f (bufs s i))" if "j < NBUF" "j \<noteq> i" for j
      using bio_inv_unique [OF assms(1) i(1) that(1) ik] that(2) fkey by metis
  qed simp_all
  moreover have "bread_post s (d, n) i (set_buf i ?f s)"
    unfolding bread_post_def
    using i nb bview_set_buf [OF assms(1) i(1) ik, of ?f] bview_held [OF assms(1) i(1) ik]
      keys_set_buf [OF i(1), of ?f s] fkey by auto
  ultimately show ?thesis using bread_cached [OF assms(1,2) Some nb] T by blast
next
  case None
  obtain xs where xs: "lru (bufs s) xs" using bio_inv_lru [OF assms(1)] ..
  have "\<exists>i\<in>set (rev xs). (bfree \<circ> bufs s) i"
    using assms(4) None xs by (auto simp: room_def lru_def)
  then obtain b where fb: "find (bfree \<circ> bufs s) (rev xs) = Some b"
    by (metis find_None_iff not_None_eq)
  then have b: "b < NBUF" "bfree (bufs s b)" using xs by (auto simp: find_Some_iff lru_def)
      (metis length_rev nth_mem set_rev lessThan_iff)
  let ?f = "recycled d n (disk s (ide_loc d n))"
  let ?t = "set_buf b ?f s"
  have nkey: "pkey (?f p) = (d, n)" for p by (simp add: recycled_def pkey_def)
  have nT: "b \<notin> T" using b assms(1) by (auto simp: bio_inv_def bfree_def)
  have inv: "bio_inv ?t T"
  proof (rule bio_inv_set_buf [OF assms(1) b(1)])
    show "pkey (bufs s j) \<noteq> pkey (?f (bufs s b))" if "j < NBUF" for j
      using bcached_NoneD [OF None that] nkey by simp
    have "length (disk s (ide_loc d n)) = BSIZE" using assms(1) by (simp add: bio_inv_def disk_ok_def del: split_paired_All)
    then show "buf_ok (disk s) (b \<in> T) (?f (bufs s b))"
      using assms(2) ide_key_type [OF assms(2)] nkey by (simp add: buf_ok_def) (simp add: recycled_def)
  qed (simp_all add: recycled_def nT)
  have held: "pkey (bufs ?t b) = (d, n)" using nkey by simp
  have view: "bview ?t k = bview s k" for k
  proof (cases "ide_key k")
    case True
    show ?thesis
    proof (cases "\<exists>j<NBUF. j \<noteq> b \<and> pkey (bufs s j) = k")
      case True
      then obtain j where j: "j < NBUF" "j \<noteq> b" "pkey (bufs s j) = k" by blast
      then have "pkey (bufs ?t j) = k" by simp
      then show ?thesis
        using bview_held [OF assms(1) j(1)] bview_held [OF inv j(1)] j \<open>ide_key k\<close> by simp
    next
      case False
      have old: "bview s k = disk s (key_loc k)"
      proof (cases "pkey (bufs s b) = k")
        case True
        then show ?thesis
          using buf_ok_dev [OF bio_inv_buf [OF assms(1) b(1)]] ide_key_dev [of "bufs s b"] \<open>ide_key k\<close>
            bview_held [OF assms(1) b(1)] b(2) nT by (simp add: bfree_def)
      next
        case ne: False
        then have "bcached s k = None" using False bcached_SomeD [of s k] by (cases "bcached s k") auto
        then show ?thesis using \<open>ide_key k\<close> by (rule bview_uncached)
      qed
      show ?thesis
      proof (cases "k = (d, n)")
        case True
        then show ?thesis
          using old bview_held [OF inv b(1)] held assms(2) by (simp add: recycled_def)
      next
        case ne: False
        then have "bcached ?t k = None"
          using False bcached_SomeD [of ?t k] nkey by (cases "bcached ?t k") (auto split: if_splits)
        then show ?thesis using old \<open>ide_key k\<close> bview_uncached [of ?t k] by simp
      qed
    qed
  qed (simp add: bview_def)
  have "{j \<in> {..<NBUF}. bbusy (bufs ?t j)} = insert b {j \<in> {..<NBUF}. bbusy (bufs s j)}"
    using b(1) by (intro set_buf_collect(1)) (simp_all add: recycled_def)
  moreover have "(\<lambda>j. pkey (bufs ?t j)) ` {j \<in> {..<NBUF}. bbusy (bufs s j)} = busy_keys s"
    unfolding busy_keys_def using b(2) by (intro image_cong) (auto simp: bfree_def)
  ultimately have busy: "busy_keys ?t = insert (d, n) (busy_keys s)"
    using held by (simp only: busy_keys_def image_insert)
  have "{j \<in> {..<NBUF}. bdirty (bufs ?t j)} = {j \<in> {..<NBUF}. bdirty (bufs s j)}"
    using b(2) by (intro set_buf_collect(3)) (simp add: recycled_def bfree_def)
  moreover have "(\<lambda>j. pkey (bufs ?t j)) ` {j \<in> {..<NBUF}. bdirty (bufs s j)} = dirty_keys s"
    unfolding dirty_keys_def using b(2) by (intro image_cong) (auto simp: bfree_def)
  ultimately have dirty: "dirty_keys ?t = dirty_keys s" by (simp only: dirty_keys_def)
  have "bread_post s (d, n) b (woken (ChBuf b) ?t)"
    unfolding bread_post_def
  proof (intro conjI allI impI)
    show "bdata (bufs (woken (ChBuf b) ?t) b) = bview s (d, n)"
      using bview_uncached [OF None assms(2)] by (simp add: recycled_def)
    show "bview (woken (ChBuf b) ?t) = bview s" using view by (simp only: bview_woken) (rule ext)
    show "bufs (woken (ChBuf b) ?t) i = bufs s i" "i \<noteq> b" if "bbusy (bufs s i)" for i
      using that b(2) by (auto simp: bfree_def)
    show "bio_frame s (woken (ChBuf b) ?t)" by (rule bio_frame_trans [OF bio_frame_set_buf bio_frame_woken])
  qed (use b held busy dirty in \<open>simp_all add: recycled_def\<close>)
  moreover have "bio_inv (woken (ChBuf b) ?t) T"
    using inv assms(1) by (subst bio_inv_woken) (simp_all add: bio_inv_def [of s])
  ultimately show ?thesis
    using bread_uncached [OF assms(1) xs assms(2) None fb] nT by blast
qed

subsection \<open>Holding a buffer\<close>

definition holds :: "'a bio_scheme \<Rightarrow> nat \<Rightarrow> u32 \<times> u32 \<Rightarrow> bool" where
  "holds s b k \<longleftrightarrow> b < NBUF \<and> bbusy (bufs s b) \<and> pkey (bufs s b) = k"

lemma holds_key: "bio_inv s T \<Longrightarrow> holds s b k \<Longrightarrow> ide_key k"
  using busy_dev [of s T b] buf_ok_dev [OF bio_inv_buf, of s T b] by (auto simp: holds_def)

lemma holds_view: "bio_inv s T \<Longrightarrow> holds s b k \<Longrightarrow> bview s k = bdata (bufs s b)"
  using bview_held [of s T b] holds_key [of s T b k] by (auto simp: holds_def)

lemma holds_set_buf:
  "holds s b' k' \<Longrightarrow> bbusy (f (bufs s b)) = bbusy (bufs s b) \<Longrightarrow> pkey (f (bufs s b)) = pkey (bufs s b) \<Longrightarrow>
   holds (set_buf b f s) b' k'"
  by (auto simp: holds_def)

text \<open>A store by the holder, and marking a buffer dirty.\<close>

lemma bio_inv_modify:
  assumes "bio_inv s T" and "holds s b k" and "length (f (bview s k)) = BSIZE"
  shows "bio_inv (set_buf b (\<lambda>p. p\<lparr>bdata := f (bdata p)\<rparr>) s) (insert b T)"
proof (rule bio_inv_set_buf [OF assms(1)])
  have b: "b < NBUF" "bbusy (bufs s b)" "pkey (bufs s b) = k" using assms(2) by (auto simp: holds_def)
  note k = holds_key [OF assms(1,2)]
  show "b < NBUF" by (rule b)
  show "pkey (bufs s j) \<noteq> pkey (bufs s b\<lparr>bdata := f (bdata (bufs s b))\<rparr>)" if "j < NBUF" "j \<noteq> b" for j
    using bio_inv_unique [OF assms(1) b(1) that(1)] that(2) b(3) k by (auto simp: pkey_def)
  show "buf_ok (disk s) (b \<in> insert b T) (bufs s b\<lparr>bdata := f (bdata (bufs s b))\<rparr>)"
    using bio_inv_buf [OF assms(1) b(1)] assms(3) holds_view [OF assms(1,2)] busy_dev [OF assms(1) b(1)] b(2)
    by (simp add: buf_ok_def pkey_def)
qed (use assms(2) in \<open>auto simp: holds_def\<close>)

lemma bio_inv_mark:
  assumes "bio_inv s T" and "holds s b k"
  shows "bio_inv (set_buf b (\<lambda>p. p\<lparr>bdirty := True\<rparr>) s) (T - {b})"
proof (rule bio_inv_set_buf [OF assms(1)])
  have b: "b < NBUF" "bbusy (bufs s b)" "pkey (bufs s b) = k" using assms(2) by (auto simp: holds_def)
  note k = holds_key [OF assms(1,2)]
  show "b < NBUF" by (rule b)
  show "pkey (bufs s j) \<noteq> pkey (bufs s b\<lparr>bdirty := True\<rparr>)" if "j < NBUF" "j \<noteq> b" for j
    using bio_inv_unique [OF assms(1) b(1) that(1)] that(2) b(3) k by (auto simp: pkey_def)
  show "buf_ok (disk s) (b \<in> T - {b}) (bufs s b\<lparr>bdirty := True\<rparr>)"
    using bio_inv_buf [OF assms(1) b(1)] busy_dev [OF assms(1) b(1)] b(2)
    by (simp add: buf_ok_def pkey_def)
qed auto

text \<open>A write of the holder: first the disk, then the flags.\<close>

definition dwrite :: "bool \<times> nat \<Rightarrow> block \<Rightarrow> 'a bio_scheme \<Rightarrow> 'a bio_scheme" where
  "dwrite l x s = s\<lparr>disk := (disk s)(l := x), hist := hist s @ [(l, x)]\<rparr>"

lemma dwrite_fields [simp]:
  "bufs (dwrite l x s) = bufs s" "disk (dwrite l x s) = (disk s)(l := x)" "hist (dwrite l x s) = hist s @ [(l, x)]"
  "ptable (dwrite l x s) = ptable s" "busy_keys (dwrite l x s) = busy_keys s" "dirty_keys (dwrite l x s) = dirty_keys s"
  by (simp_all add: dwrite_def busy_keys_def dirty_keys_def)

lemma bio_frame_dwrite [simp]: "bio_frame s (dwrite l x s)"
proof -
  have "dwrite l x s = s\<lparr>ptable := ptable s, bufs := bufs s, disk := (disk s)(l := x), hist := hist s @ [(l, x)]\<rparr>"
    by (simp add: dwrite_def)
  then show ?thesis unfolding bio_frame_def by blast
qed

lemma bwrite_eq:
  assumes "bio_inv s T" and "holds s b k"
  shows "bwrite b s = Ret () (woken (ChBuf b) (set_buf b (\<lambda>p. p\<lparr>bvalid := True, bdirty := False\<rparr>)
    (dwrite (key_loc k) (bdata (bufs s b)) s)))"
proof -
  have b: "b < NBUF" "bbusy (bufs s b)" "bdev (bufs s b) = fst k" "bsector (bufs s b) = snd k"
    using assms(2) by (auto simp: holds_def pkey_def)
  have "GETDEVTYPE (fst k) = DEV_IDE"
    using ide_key_type [of "fst k" "snd k"] holds_key [OF assms] by simp
  moreover have "iderw b (set_buf b (\<lambda>p. p\<lparr>bdirty := True\<rparr>) s) = Ret () (woken (ChBuf b)
      (set_buf b (\<lambda>p. p\<lparr>bvalid := True, bdirty := False\<rparr>) (dwrite (key_loc k) (bdata (bufs s b)) s)))"
    using assms(1) b by (subst iderw_write) (simp_all add: bio_inv_def set_buf_def dwrite_def)
  ultimately show ?thesis
    using b by (simp add: bwrite_def kmon_defs)
qed

lemma bio_inv_dwrite:
  assumes "bio_inv s T" and "holds s b k"
  shows "bio_inv (dwrite (key_loc k) (bdata (bufs s b)) s) (insert b T)"
proof -
  have b: "b < NBUF" "bbusy (bufs s b)" "pkey (bufs s b) = k" using assms(2) by (auto simp: holds_def)
  note k = holds_key [OF assms]
  let ?t = "dwrite (key_loc k) (bdata (bufs s b)) s"
  have ok: "buf_ok (disk ?t) (j \<in> T) (bufs s j)" if j: "j < NBUF" "j \<noteq> b" for j
  proof (cases "bdev (bufs s j) = - 1")
    case False
    then have "ide_key (pkey (bufs s j))" using buf_ok_dev [OF bio_inv_buf [OF assms(1) j(1)]] by blast
    moreover have "pkey (bufs s j) \<noteq> k" using bio_inv_unique [OF assms(1) b(1) j(1)] b(3) k j(2) by auto
    ultimately have "key_loc (pkey (bufs s j)) \<noteq> key_loc k" using key_loc_inj k by blast
    then show ?thesis using bio_inv_buf [OF assms(1) j(1)] by (simp add: buf_ok_def)
  qed (use bio_inv_buf [OF assms(1) j(1)] in \<open>simp add: buf_ok_def\<close>)
  have bb: "buf_ok (disk s) (b \<in> T) (bufs s b)" "bdev (bufs s b) \<noteq> - 1"
    using bio_inv_buf [OF assms(1) b(1)] busy_dev [OF assms(1) b(1)] b(2) by auto
  have fixed: "\<exists>xs. lru (bufs ?t) xs" "ptable ?t \<noteq> []" "idequeue ?t = []" "havedisk1 ?t" "\<not> ide_err ?t"
    using assms(1) by (simp_all add: bio_inv_def dwrite_def)
  show ?thesis
    unfolding bio_inv_def
  proof (intro conjI allI impI ballI fixed)
    show "disk_ok (disk ?t)" using bb assms(1) by (auto simp: bio_inv_def disk_ok_def buf_ok_def)
    show "buf_ok (disk ?t) (j \<in> insert b T) (bufs ?t j)" if "j < NBUF" for j
      using ok [OF that] bb by (cases "j = b") (auto simp: buf_ok_def)
    show "i = j" if "i < NBUF" "j < NBUF" "pkey (bufs ?t i) = pkey (bufs ?t j)" "bdev (bufs ?t i) \<noteq> - 1" for i j
      using assms(1) that by (simp add: bio_inv_def)
    show "j < NBUF" "bbusy (bufs ?t j)" if "j \<in> insert b T" for j
      using assms(1) that b by (auto simp: bio_inv_def)
  qed
qed

lemma bio_inv_clean:
  assumes "bio_inv s (insert b T)" and "holds s b k" and "disk s (key_loc k) = bdata (bufs s b)"
  shows "bio_inv (set_buf b (\<lambda>p. p\<lparr>bvalid := True, bdirty := False\<rparr>) s) (T - {b})"
proof -
  have b: "b < NBUF" "bbusy (bufs s b)" "pkey (bufs s b) = k" using assms(2) by (auto simp: holds_def)
  note k = holds_key [OF assms(1,2)]
  show ?thesis
  proof (rule bio_inv_set_buf [OF assms(1) b(1)])
    show "pkey (bufs s j) \<noteq> pkey (bufs s b\<lparr>bvalid := True, bdirty := False\<rparr>)" if "j < NBUF" "j \<noteq> b" for j
      using bio_inv_unique [OF assms(1) b(1) that(1)] that(2) b(3) k by (auto simp: pkey_def)
    show "buf_ok (disk s) (b \<in> T - {b}) (bufs s b\<lparr>bvalid := True, bdirty := False\<rparr>)"
      using bio_inv_buf [OF assms(1) b(1)] busy_dev [OF assms(1) b(1)] b k assms(3)
      by (auto simp: buf_ok_def pkey_def)
  qed auto
qed

subsection \<open>Releasing a buffer\<close>

definition brelsed :: "nat \<Rightarrow> 'a bio_scheme \<Rightarrow> 'a bio_scheme" where
  "brelsed b s = s\<lparr>bufs := bpush b (bunlink b (bufs s))\<rparr>"

lemma brelsed_core [simp]:
  "pkey (bufs (brelsed b s) i) = pkey (bufs s i)" "bbusy (bufs (brelsed b s) i) = bbusy (bufs s i)"
  "bdirty (bufs (brelsed b s) i) = bdirty (bufs s i)" "bdata (bufs (brelsed b s) i) = bdata (bufs s i)"
  "bdev (bufs (brelsed b s) i) = bdev (bufs s i)" "bvalid (bufs (brelsed b s) i) = bvalid (bufs s i)"
  "disk (brelsed b s) = disk s" "hist (brelsed b s) = hist s" "ptable (brelsed b s) = ptable s"
  by (simp_all add: brelsed_def pkey_def)

lemma brelsed_abs [simp]:
  "bview (brelsed b s) = bview s" "busy_keys (brelsed b s) = busy_keys s" "dirty_keys (brelsed b s) = dirty_keys s"
proof -
  have "bcached (brelsed b s) k = bcached s k" for k by (simp add: bcached_def)
  then show "bview (brelsed b s) = bview s" by (intro ext) (simp add: bview_def split: option.split)
qed (simp_all add: busy_keys_def dirty_keys_def)

lemma bio_frame_brelsed [simp]: "bio_frame s (brelsed b s)"
proof -
  have "brelsed b s = s\<lparr>ptable := ptable s, bufs := bpush b (bunlink b (bufs s)), disk := disk s, hist := hist s\<rparr>"
    by (simp add: brelsed_def)
  then show ?thesis unfolding bio_frame_def by blast
qed

lemma bio_inv_brelsed:
  assumes "bio_inv s T" and "b < NBUF"
  shows "bio_inv (brelsed b s) T"
proof -
  have fixed: "ptable (brelsed b s) \<noteq> []" "idequeue (brelsed b s) = []" "havedisk1 (brelsed b s)"
      "\<not> ide_err (brelsed b s)" "disk_ok (disk (brelsed b s))"
    using assms(1) by (simp_all add: bio_inv_def brelsed_def)
  have lru: "\<exists>xs. lru (bufs (brelsed b s)) xs"
    using lru_move_front assms by (auto simp: bio_inv_def brelsed_def)
  show ?thesis
    unfolding bio_inv_def
  proof (intro conjI allI impI ballI fixed lru)
    show "buf_ok (disk (brelsed b s)) (j \<in> T) (bufs (brelsed b s) j)" if "j < NBUF" for j
      using bio_inv_buf [OF assms(1) that] by (simp add: buf_ok_def)
    show "i = j" if "i < NBUF" "j < NBUF" "pkey (bufs (brelsed b s) i) = pkey (bufs (brelsed b s) j)"
        "bdev (bufs (brelsed b s) i) \<noteq> - 1" for i j
      using assms(1) that by (simp add: bio_inv_def)
    show "j < NBUF" "bbusy (bufs (brelsed b s) j)" if "j \<in> T" for j
      using assms(1) that by (auto simp: bio_inv_def)
  qed
qed

lemma brelse_eq:
  assumes "bio_inv s T" and "holds s b k"
  shows "brelse b s = Ret () (woken (ChBuf b) (set_buf b (\<lambda>p. p\<lparr>bbusy := False\<rparr>) (brelsed b s)))"
  using assms by (simp add: brelse_def kmon_defs holds_def brelsed_def wakeup_woken bio_inv_def)

lemma bio_inv_unbusy:
  assumes "bio_inv s T" and "holds s b k" and "b \<notin> T"
  shows "bio_inv (set_buf b (\<lambda>p. p\<lparr>bbusy := False\<rparr>) s) T"
proof (rule bio_inv_set_buf [OF assms(1)])
  have b: "b < NBUF" "bbusy (bufs s b)" "pkey (bufs s b) = k" using assms(2) by (auto simp: holds_def)
  note k = holds_key [OF assms(1,2)]
  show "b < NBUF" by (rule b)
  show "pkey (bufs s j) \<noteq> pkey (bufs s b\<lparr>bbusy := False\<rparr>)" if "j < NBUF" "j \<noteq> b" for j
    using bio_inv_unique [OF assms(1) b(1) that(1)] that(2) b(3) k by (auto simp: pkey_def)
  show "buf_ok (disk s) (b \<in> T) (bufs s b\<lparr>bbusy := False\<rparr>)"
    using bio_inv_buf [OF assms(1) b(1)] by (auto simp: buf_ok_def pkey_def split: if_splits)
qed (use assms(3) in auto)

section \<open>The cache as its clients see it\<close>

record cache =
  cview :: "u32 \<times> u32 \<Rightarrow> block"
  cdisk :: "bool \<times> nat \<Rightarrow> block"
  chist :: "((bool \<times> nat) \<times> block) list"
  cbusy :: "(u32 \<times> u32) set"
  cdirty :: "(u32 \<times> u32) set"

definition c_read :: "u32 \<times> u32 \<Rightarrow> cache \<Rightarrow> cache" where
  "c_read k c = c\<lparr>cbusy := insert k (cbusy c)\<rparr>"

definition c_modify :: "u32 \<times> u32 \<Rightarrow> (block \<Rightarrow> block) \<Rightarrow> cache \<Rightarrow> cache" where
  "c_modify k f c = c\<lparr>cview := (cview c)(k := f (cview c k))\<rparr>"

definition c_mark :: "u32 \<times> u32 \<Rightarrow> cache \<Rightarrow> cache" where
  "c_mark k c = c\<lparr>cdirty := insert k (cdirty c)\<rparr>"

definition c_write :: "u32 \<times> u32 \<Rightarrow> cache \<Rightarrow> cache" where
  "c_write k c = c\<lparr>cdisk := (cdisk c)(key_loc k := cview c k), chist := chist c @ [(key_loc k, cview c k)],
     cdirty := cdirty c - {k}\<rparr>"

definition c_release :: "u32 \<times> u32 \<Rightarrow> cache \<Rightarrow> cache" where
  "c_release k c = c\<lparr>cbusy := cbusy c - {k}\<rparr>"

definition cache_abs :: "'a bio_scheme \<Rightarrow> cache" where
  "cache_abs s = \<lparr>cview = bview s, cdisk = disk s, chist = hist s, cbusy = busy_keys s, cdirty = dirty_keys s\<rparr>"

text \<open>
  The contract. \<open>inv s T\<close> is the invariant, \<open>T\<close> the buffers stored into since they were last written or
  marked; \<open>held s b k\<close> says that the caller holds \<open>b\<close> for sector \<open>k\<close>. Each operation acts on the
  abstract cache as its counterpart does. A sector can be read when nobody holds it and it is
  pinned or fewer than \<open>NBUF\<close> sectors are held or pinned.
\<close>

definition can_read :: "u32 \<times> u32 \<Rightarrow> cache \<Rightarrow> bool" where
  "can_read k c \<longleftrightarrow> ide_key k \<and> k \<notin> cbusy c \<and> (k \<in> cdirty c \<or> card (cbusy c \<union> cdirty c) < NBUF)"

locale buffer_cache =
  fixes rd :: "u32 \<Rightarrow> u32 \<Rightarrow> ('s, nat) kmon" and wr :: "nat \<Rightarrow> ('s, unit) kmon"
    and rel :: "nat \<Rightarrow> ('s, unit) kmon" and modify :: "nat \<Rightarrow> (block \<Rightarrow> block) \<Rightarrow> ('s, unit) kmon"
    and mark :: "nat \<Rightarrow> ('s, unit) kmon" and content :: "nat \<Rightarrow> ('s, block) kmon"
    and abs :: "'s \<Rightarrow> cache" and inv :: "'s \<Rightarrow> nat set \<Rightarrow> bool"
    and held :: "'s \<Rightarrow> nat \<Rightarrow> u32 \<times> u32 \<Rightarrow> bool" and frame :: "'s \<Rightarrow> 's \<Rightarrow> bool"
  assumes read_law: "inv s T \<Longrightarrow> can_read (d, n) (abs s) \<Longrightarrow> \<exists>b t. rd d n s = Ret b t \<and> inv t T \<and> b \<notin> T
      \<and> held t b (d, n) \<and> abs t = c_read (d, n) (abs s) \<and> frame s t
      \<and> (\<forall>b' k'. held s b' k' \<longrightarrow> b' \<noteq> b \<and> held t b' k')"
    and modify_law: "inv s T \<Longrightarrow> held s b k \<Longrightarrow> length (f (cview (abs s) k)) = BSIZE \<Longrightarrow>
      \<exists>t. modify b f s = Ret () t \<and> inv t (insert b T) \<and> abs t = c_modify k f (abs s) \<and> frame s t
      \<and> held t = held s"
    and mark_law: "inv s T \<Longrightarrow> held s b k \<Longrightarrow>
      \<exists>t. mark b s = Ret () t \<and> inv t (T - {b}) \<and> abs t = c_mark k (abs s) \<and> frame s t \<and> held t = held s"
    and write_law: "inv s T \<Longrightarrow> held s b k \<Longrightarrow>
      \<exists>t. wr b s = Ret () t \<and> inv t (T - {b}) \<and> abs t = c_write k (abs s) \<and> frame s t \<and> held t = held s"
    and release_law: "inv s T \<Longrightarrow> held s b k \<Longrightarrow> b \<notin> T \<Longrightarrow>
      \<exists>t. rel b s = Ret () t \<and> inv t T \<and> abs t = c_release k (abs s) \<and> frame s t
      \<and> (\<forall>b' k'. held s b' k' \<longrightarrow> b' \<noteq> b \<longrightarrow> held t b' k')"
    and content_law: "inv s T \<Longrightarrow> held s b k \<Longrightarrow> content b s = Ret (cview (abs s) k) s"
    and frame_trans: "frame s t \<Longrightarrow> frame t u \<Longrightarrow> frame s u"
    and view_length: "inv s T \<Longrightarrow> ide_key k \<Longrightarrow> length (cview (abs s) k) = BSIZE"
begin

text \<open>The three ways the kernel uses a block: look at it, change it and wr it through, change it
  and pin it.\<close>

lemma read_block:
  assumes "inv s T" and "can_read (d, n) (abs s)"
  shows "\<exists>t. kbind (rd d n) (\<lambda>b. kbind (content b) (\<lambda>x. kthen (rel b) (kreturn x))) s
      = Ret (cview (abs s) (d, n)) t \<and> inv t T \<and> abs t = abs s \<and> frame s t
      \<and> (\<forall>b k. held s b k \<longrightarrow> held t b k)"
proof -
  obtain b u where u: "rd d n s = Ret b u" "inv u T" "b \<notin> T" "held u b (d, n)"
      "abs u = c_read (d, n) (abs s)" "frame s u" "\<forall>b' k'. held s b' k' \<longrightarrow> b' \<noteq> b \<and> held u b' k'"
    using read_law [OF assms] by blast
  obtain t where t: "rel b u = Ret () t" "inv t T" "abs t = c_release (d, n) (abs u)" "frame u t"
      "\<forall>b' k'. held u b' k' \<longrightarrow> b' \<noteq> b \<longrightarrow> held t b' k'"
    using release_law [OF u(2,4,3)] by blast
  have "abs t = abs s" using t(3) u(5) assms(2) by (simp add: c_release_def c_read_def can_read_def)
  moreover have "cview (abs u) (d, n) = cview (abs s) (d, n)" using u(5) by (simp add: c_read_def)
  ultimately show ?thesis
    using u t content_law [OF u(2,4)] frame_trans [OF u(6) t(4)]
    by (auto simp: kbind_Ret kbind_def kreturn_def)
qed

lemma write_block:
  assumes "inv s T" and "can_read (d, n) (abs s)" and "length (f (cview (abs s) (d, n))) = BSIZE"
  shows "\<exists>t. kbind (rd d n) (\<lambda>b. kthen (modify b f) (kthen (wr b) (rel b))) s = Ret () t \<and> inv t T
      \<and> abs t = c_write (d, n) (c_modify (d, n) f (abs s)) \<and> frame s t \<and> (\<forall>b k. held s b k \<longrightarrow> held t b k)"
proof -
  obtain b u where u: "rd d n s = Ret b u" "inv u T" "b \<notin> T" "held u b (d, n)"
      "abs u = c_read (d, n) (abs s)" "frame s u" "\<forall>b' k'. held s b' k' \<longrightarrow> b' \<noteq> b \<and> held u b' k'"
    using read_law [OF assms(1,2)] by blast
  have "length (f (cview (abs u) (d, n))) = BSIZE" using u(5) assms(3) by (simp add: c_read_def)
  then obtain v where v: "modify b f u = Ret () v" "inv v (insert b T)" "abs v = c_modify (d, n) f (abs u)"
      "frame u v" "held v = held u"
    using modify_law [OF u(2,4)] by blast
  then obtain w where w: "wr b v = Ret () w" "inv w (insert b T - {b})" "abs w = c_write (d, n) (abs v)"
      "frame v w" "held w = held v"
    using write_law [of v "insert b T" b "(d, n)"] u(4) by auto
  have "insert b T - {b} = T" using u(3) by auto
  then obtain t where t: "rel b w = Ret () t" "inv t T" "abs t = c_release (d, n) (abs w)" "frame w t"
      "\<forall>b' k'. held w b' k' \<longrightarrow> b' \<noteq> b \<longrightarrow> held t b' k'"
    using release_law [of w T b "(d, n)"] w v(5) u(3,4) by auto
  have "abs t = c_write (d, n) (c_modify (d, n) f (abs s))"
    using t(3) w(3) v(3) u(5) assms(2)
    by (simp add: c_release_def c_read_def c_write_def c_modify_def can_read_def)
  moreover have "frame s t" using u(6) v(4) w(4) t(4) frame_trans by blast
  ultimately show ?thesis using u v w t by (auto simp: kbind_Ret)
qed

lemma pin_block:
  assumes "inv s T" and "can_read (d, n) (abs s)" and "length (f (cview (abs s) (d, n))) = BSIZE"
  shows "\<exists>t. kbind (rd d n) (\<lambda>b. kthen (modify b f) (kthen (mark b) (rel b))) s = Ret () t \<and> inv t T
      \<and> abs t = c_mark (d, n) (c_modify (d, n) f (abs s)) \<and> frame s t \<and> (\<forall>b k. held s b k \<longrightarrow> held t b k)"
proof -
  obtain b u where u: "rd d n s = Ret b u" "inv u T" "b \<notin> T" "held u b (d, n)"
      "abs u = c_read (d, n) (abs s)" "frame s u" "\<forall>b' k'. held s b' k' \<longrightarrow> b' \<noteq> b \<and> held u b' k'"
    using read_law [OF assms(1,2)] by blast
  have "length (f (cview (abs u) (d, n))) = BSIZE" using u(5) assms(3) by (simp add: c_read_def)
  then obtain v where v: "modify b f u = Ret () v" "inv v (insert b T)" "abs v = c_modify (d, n) f (abs u)"
      "frame u v" "held v = held u"
    using modify_law [OF u(2,4)] by blast
  then obtain w where w: "mark b v = Ret () w" "inv w (insert b T - {b})" "abs w = c_mark (d, n) (abs v)"
      "frame v w" "held w = held v"
    using mark_law [of v "insert b T" b "(d, n)"] u(4) by auto
  have "insert b T - {b} = T" using u(3) by auto
  then obtain t where t: "rel b w = Ret () t" "inv t T" "abs t = c_release (d, n) (abs w)" "frame w t"
      "\<forall>b' k'. held w b' k' \<longrightarrow> b' \<noteq> b \<longrightarrow> held t b' k'"
    using release_law [of w T b "(d, n)"] w v(5) u(3,4) by auto
  have "abs t = c_mark (d, n) (c_modify (d, n) f (abs s))"
    using t(3) w(3) v(3) u(5) assms(2)
    by (simp add: c_release_def c_read_def c_mark_def c_modify_def can_read_def)
  moreover have "frame s t" using u(6) v(4) w(4) t(4) frame_trans by blast
  ultimately show ?thesis using u v w t by (auto simp: kbind_Ret)
qed

end

text \<open>Fewer than \<open>NBUF\<close> sectors held or pinned leave a buffer to recycle.\<close>

lemma room_card:
  assumes "bio_inv s T" and "card (busy_keys s \<union> dirty_keys s) < NBUF"
  shows "room s"
proof (rule ccontr)
  assume no: "\<not> room s"
  then have all: "bbusy (bufs s i) \<or> bdirty (bufs s i)" if "i < NBUF" for i
    using that by (auto simp: room_def bfree_def)
  then have "(\<lambda>i. pkey (bufs s i)) ` {..<NBUF} \<subseteq> busy_keys s \<union> dirty_keys s"
    by (auto simp: busy_keys_def dirty_keys_def)
  moreover have "inj_on (\<lambda>i. pkey (bufs s i)) {..<NBUF}"
    using assms(1) all busy_dev [OF assms(1)] by (auto simp: inj_on_def bio_inv_def)
  moreover have "finite (busy_keys s \<union> dirty_keys s)" by (simp add: busy_keys_def dirty_keys_def)
  ultimately have "card {..<NBUF} \<le> card (busy_keys s \<union> dirty_keys s)"
    by (metis card_image card_mono)
  then show False using assms(2) by simp
qed

lemma cached_dirty:
  assumes "k \<in> dirty_keys s"
  shows "bcached s k \<noteq> None"
  using assms bcached_NoneD [of s k] by (auto simp: dirty_keys_def)

lemma holds_busy: "holds s b k \<Longrightarrow> k \<in> busy_keys s"
  using busy_keysI [of b s] by (auto simp: holds_def)

lemma bread_law:
  assumes "bio_inv s T" and "can_read (d, n) (cache_abs s)"
  shows "\<exists>b t. bread d n s = Ret b t \<and> bio_inv t T \<and> b \<notin> T \<and> holds t b (d, n)
    \<and> cache_abs t = c_read (d, n) (cache_abs s) \<and> bio_frame s t
    \<and> (\<forall>b' k'. holds s b' k' \<longrightarrow> b' \<noteq> b \<and> holds t b' k')"
proof -
  have "ide_key (d, n)" "(d, n) \<notin> busy_keys s" "bcached s (d, n) \<noteq> None \<or> room s"
    using assms(2) cached_dirty room_card [OF assms(1)] by (auto simp: can_read_def cache_abs_def)
  then obtain b t where t: "bread d n s = Ret b t" "bio_inv t T" "b \<notin> T" "bread_post s (d, n) b t"
    using bread_spec [OF assms(1)] by blast
  moreover have "holds t b (d, n)" "cache_abs t = c_read (d, n) (cache_abs s)" "bio_frame s t"
    using t(4) by (simp_all add: bread_post_def holds_def cache_abs_def c_read_def)
  moreover have "\<forall>b' k'. holds s b' k' \<longrightarrow> b' \<noteq> b \<and> holds t b' k'"
    using t(4) by (auto simp: bread_post_def holds_def)
  ultimately show ?thesis by blast
qed

lemma bmodify_law:
  assumes "bio_inv s T" and "holds s b k" and "length (f (cview (cache_abs s) k)) = BSIZE"
  shows "\<exists>t. bmodify b f s = Ret () t \<and> bio_inv t (insert b T) \<and> cache_abs t = c_modify k f (cache_abs s)
    \<and> bio_frame s t \<and> holds t = holds s"
proof -
  let ?f = "\<lambda>p. p\<lparr>bdata := f (bdata p)\<rparr>"
  have b: "b < NBUF" "pkey (bufs s b) = k" using assms(2) by (auto simp: holds_def)
  have key: "pkey (?f p) = pkey p" for p by (simp add: pkey_def)
  have ik: "ide_key (pkey (bufs s b))" using holds_key [OF assms(1,2)] b by simp
  have "cache_abs (set_buf b ?f s) = c_modify k f (cache_abs s)"
    using bview_set_buf [OF assms(1) b(1) ik, of ?f] keys_set_buf(3,4) [OF b(1), of ?f s] key b(2) holds_view [OF assms(1,2)]
    by (simp add: cache_abs_def c_modify_def)
  moreover have "holds (set_buf b ?f s) = holds s" by (auto simp: holds_def fun_eq_iff key)
  ultimately show ?thesis
    using bio_inv_modify [OF assms(1,2), of f] assms(3) by (auto simp: bmodify_def kmodify_def cache_abs_def)
qed

lemma bmark_law:
  assumes "bio_inv s T" and "holds s b k"
  shows "\<exists>t. bmark b s = Ret () t \<and> bio_inv t (T - {b}) \<and> cache_abs t = c_mark k (cache_abs s)
    \<and> bio_frame s t \<and> holds t = holds s"
proof -
  let ?f = "\<lambda>p. p\<lparr>bdirty := True\<rparr>"
  have b: "b < NBUF" "pkey (bufs s b) = k" using assms(2) by (auto simp: holds_def)
  have key: "pkey (?f p) = pkey p" for p by (simp add: pkey_def)
  have ik: "ide_key (pkey (bufs s b))" using holds_key [OF assms(1,2)] b by simp
  have same: "(bview s)(k := bdata (bufs s b)) = bview s"
    using holds_view [OF assms(1,2)] by (metis fun_upd_triv)
  have "cache_abs (set_buf b ?f s) = c_mark k (cache_abs s)"
    using bview_set_buf [OF assms(1) b(1) ik, of ?f] keys_set_buf(2,3) [OF b(1), of ?f s] key b(2) same
    by (simp add: cache_abs_def c_mark_def)
  moreover have "holds (set_buf b ?f s) = holds s" by (auto simp: holds_def fun_eq_iff key)
  ultimately show ?thesis
    using bio_inv_mark [OF assms] by (auto simp: bmark_def kmodify_def)
qed

lemma bwrite_law:
  assumes "bio_inv s T" and "holds s b k"
  shows "\<exists>t. bwrite b s = Ret () t \<and> bio_inv t (T - {b}) \<and> cache_abs t = c_write k (cache_abs s)
    \<and> bio_frame s t \<and> holds t = holds s"
proof -
  let ?f = "\<lambda>p. p\<lparr>bvalid := True, bdirty := False\<rparr>" and ?d = "dwrite (key_loc k) (bdata (bufs s b)) s"
  let ?t = "set_buf b ?f ?d"
  have b: "b < NBUF" "pkey (bufs s b) = k" using assms(2) by (auto simp: holds_def)
  have key: "pkey (?f p) = pkey p" for p by (simp add: pkey_def)
  have invd: "bio_inv ?d (insert b T)" by (rule bio_inv_dwrite [OF assms])
  have hd: "holds ?d b k" using assms(2) by (simp add: holds_def)
  have inv: "bio_inv ?t (T - {b})" by (rule bio_inv_clean [OF invd hd]) simp
  have "bcached ?t k' = bcached s k'" for k'
    by (rule bcached_same_keys) (simp add: key)
  moreover have "key_loc k' \<noteq> key_loc k" if "bcached s k' = None" "ide_key k'" for k'
    using key_loc_inj [of k' k] holds_key [OF assms] bcached_NoneD [OF that(1) b(1)] b(2) that(2) by auto
  ultimately have "bview ?t k' = bview s k'" for k'
    by (auto simp: bview_def split: option.split)
  then have view: "bview ?t = bview s" by (rule ext)
  have "busy_keys ?t = busy_keys s"
    using keys_set_buf(3) [OF b(1), of ?f ?d] key by simp
  moreover have "dirty_keys ?t = dirty_keys s - {k}"
    using keys_clear(2) [OF invd b(1), of ?f] b(2) holds_key [OF assms] key by simp
  ultimately have "cache_abs ?t = c_write k (cache_abs s)"
    using view holds_view [OF assms] by (simp add: cache_abs_def c_write_def)
  moreover have "holds ?t = holds s" by (auto simp: holds_def fun_eq_iff key)
  moreover have "bio_inv (woken (ChBuf b) ?t) (T - {b})"
    using inv assms(1) by (subst bio_inv_woken) (simp_all add: bio_inv_def [of s])
  moreover have "cache_abs (woken (ChBuf b) ?t) = cache_abs ?t" "holds (woken (ChBuf b) ?t) = holds ?t"
    by (simp_all add: cache_abs_def holds_def fun_eq_iff)
  moreover have "bio_frame s (woken (ChBuf b) ?t)"
    by (meson bio_frame_dwrite bio_frame_set_buf bio_frame_woken bio_frame_trans)
  ultimately show ?thesis
    using bwrite_eq [OF assms] by auto
qed

lemma brelse_law:
  assumes "bio_inv s T" and "holds s b k" and "b \<notin> T"
  shows "\<exists>t. brelse b s = Ret () t \<and> bio_inv t T \<and> cache_abs t = c_release k (cache_abs s) \<and> bio_frame s t
    \<and> (\<forall>b' k'. holds s b' k' \<longrightarrow> b' \<noteq> b \<longrightarrow> holds t b' k')"
proof -
  let ?f = "\<lambda>p. p\<lparr>bbusy := False\<rparr>" and ?u = "brelsed b s"
  let ?t = "set_buf b ?f ?u"
  have b: "b < NBUF" "pkey (bufs s b) = k" using assms(2) by (auto simp: holds_def)
  have key: "pkey (?f p) = pkey p" for p by (simp add: pkey_def)
  have invu: "bio_inv ?u T" by (rule bio_inv_brelsed [OF assms(1) b(1)])
  have hu: "holds ?u b k" using assms(2) by (simp add: holds_def)
  have ik: "ide_key (pkey (bufs ?u b))" using holds_key [OF assms(1,2)] b by simp
  have same: "(bview s)(k := bdata (bufs s b)) = bview s"
    using holds_view [OF assms(1,2)] by (metis fun_upd_triv)
  have "cache_abs ?t = c_release k (cache_abs s)"
    using bview_set_buf [OF invu b(1) ik, of ?f] keys_set_buf(4) [OF b(1), of ?f ?u] key b(2)
      keys_clear(1) [OF invu b(1) ik, of ?f] same
    by (simp add: cache_abs_def c_release_def)
  moreover have "bio_inv (woken (ChBuf b) ?t) T"
    using bio_inv_unbusy [OF invu hu assms(3)] assms(1) by (subst bio_inv_woken) (simp_all add: bio_inv_def [of s])
  moreover have "cache_abs (woken (ChBuf b) ?t) = cache_abs ?t" "holds (woken (ChBuf b) ?t) = holds ?t"
    by (simp_all add: cache_abs_def holds_def fun_eq_iff)
  moreover have "\<forall>b' k'. holds s b' k' \<longrightarrow> b' \<noteq> b \<longrightarrow> holds ?t b' k'" by (auto simp: holds_def)
  moreover have "bio_frame s (woken (ChBuf b) ?t)"
    by (meson bio_frame_brelsed bio_frame_set_buf bio_frame_woken bio_frame_trans)
  ultimately show ?thesis
    using brelse_eq [OF assms(1,2)] by auto
qed

interpretation bc: buffer_cache bread bwrite brelse bmodify bmark bdata_of cache_abs bio_inv holds bio_frame
proof unfold_locales
  fix s :: "'a bio_scheme" and T b k
  assume "bio_inv s T" "holds s b k"
  then show "bdata_of b s = Ret (cview (cache_abs s) k) s"
    using holds_view [of s T b k] by (simp add: bdata_of_def kget_def cache_abs_def)
next
  fix s :: "'a bio_scheme" and T k
  assume "bio_inv s T" "ide_key k"
  then show "length (cview (cache_abs s) k) = BSIZE" using bview_length by (simp add: cache_abs_def)
qed (fact bread_law bmodify_law bmark_law bwrite_law brelse_law bio_frame_trans)+

section \<open>Start-up\<close>

lemma binit_fold_fields:
  "bbusy (foldl binit_step f bs i) = bbusy (f i) \<and> bdirty (foldl binit_step f bs i) = bdirty (f i)
     \<and> bdev (foldl binit_step f bs i) = (if i \<in> set bs then - 1 else bdev (f i))"
  by (induction bs arbitrary: f) (auto simp: binit_step_def)

definition bio_boot :: "'a bio_scheme \<Rightarrow> bool" where
  "bio_boot s \<longleftrightarrow> ptable s \<noteq> [] \<and> idequeue s = [] \<and> havedisk1 s \<and> \<not> ide_err s \<and> disk_ok (disk s)
     \<and> (\<forall>i<NBUF. bfree (bufs s i))"

lemma binit_inv:
  assumes "bio_boot s"
  shows "\<exists>t. binit s = Ret () t \<and> bio_inv t {} \<and> lru (bufs t) (rev [0..<NBUF])
    \<and> busy_keys t = {} \<and> dirty_keys t = {} \<and> disk t = disk s \<and> hist t = hist s \<and> bio_frame s t
    \<and> (\<forall>i<NBUF. bdev (bufs t i) = - 1)"
proof -
  let ?f = "(bufs s)(NBUF := (bufs s NBUF)\<lparr>bprev := NBUF, bnext := NBUF\<rparr>)"
  define t where "t = s\<lparr>bufs := foldl binit_step ?f [0..<NBUF]\<rparr>"
  have t: "binit s = Ret () t" by (simp add: binit_def kmodify_def t_def)
  have "seg ?f NBUF (rev [0..<0]) NBUF" by simp
  then have "seg (bufs t) NBUF (rev [0..<NBUF]) NBUF"
    using lru_binit_fold [of ?f 0 NBUF] unfolding t_def by simp
  then have lru: "lru (bufs t) (rev [0..<NBUF])" by (auto simp: lru_def)
  have free: "bfree (bufs t i)" "bdev (bufs t i) = - 1" if "i < NBUF" for i
    using assms that binit_fold_fields [of ?f "[0..<NBUF]" i] by (auto simp: t_def bio_boot_def bfree_def)
  have "bio_inv t {}"
    unfolding bio_inv_def
  proof (intro conjI allI impI ballI)
    show "\<exists>xs. lru (bufs t) xs" using lru by blast
    show "buf_ok (disk t) (i \<in> {}) (bufs t i)" if "i < NBUF" for i
      using free [OF that] by (simp add: buf_ok_def bfree_def)
  qed (use assms free in \<open>simp_all add: t_def bio_boot_def\<close>)
  moreover have "busy_keys t = {}" "dirty_keys t = {}"
    using free by (auto simp: busy_keys_def dirty_keys_def bfree_def)
  moreover have "t = s\<lparr>ptable := ptable s, bufs := bufs t, disk := disk s, hist := hist s\<rparr>"
    by (simp add: t_def)
  then have "bio_frame s t" unfolding bio_frame_def by blast
  ultimately show ?thesis using t lru free by (auto simp: t_def)
qed

text \<open>A state to apply the lemmas to: one process, two IDE disks with every sector zero but for
  sector 7 of the second one.\<close>

definition zero_buf :: buf where
  "zero_buf = \<lparr>bbusy = False, bvalid = False, bdirty = False, bdev = 0, bsector = 0, bprev = 0, bnext = 0,
     bdata = replicate BSIZE 0\<rparr>"

definition bio_demo :: bio where
  "bio_demo = ptab.extend (ptab_three\<lparr>curproc := Some 0\<rparr>)
     \<lparr>bufs = (\<lambda>_. zero_buf), idequeue = [], havedisk1 = True, ide_err = False,
      disk = (\<lambda>_. replicate BSIZE 0)((True, 7) := replicate BSIZE 9), hist = [], sata_hist = [],
      sata_rd = (\<lambda>_ _ _. (2, [])), sata_wr = (\<lambda>_ _ _. 2)\<rparr>"

lemma bio_demo_disk: "disk bio_demo (True, 7) = replicate BSIZE 9"
  by (simp add: bio_demo_def ptab.extend_def)

lemma bio_demo_boot: "bio_boot bio_demo"
  by (simp add: bio_boot_def bio_demo_def ptab.extend_def ptab_three_def disk_ok_def bfree_def zero_buf_def)

definition bio_ready :: bio where
  "bio_ready = (case binit bio_demo of Ret _ t \<Rightarrow> t | _ \<Rightarrow> bio_demo)"

lemma bio_ready:
  "bio_inv bio_ready {} \<and> lru (bufs bio_ready) (rev [0..<NBUF]) \<and> busy_keys bio_ready = {}
     \<and> dirty_keys bio_ready = {} \<and> disk bio_ready = disk bio_demo \<and> (\<forall>i<NBUF. bdev (bufs bio_ready i) = - 1)"
  using binit_inv [OF bio_demo_boot] by (auto simp: bio_ready_def)

lemma bio_ready_can_read: "can_read (1, 7) (cache_abs bio_ready)"
  using bio_ready by (simp add: can_read_def ide_key_def cache_abs_def)

section \<open>Properties\<close>



text \<open>
  a sector is in the hands of one process at a time. A \<open>bread\<close> of a sector whose buffer is busy puts
  the caller to sleep on that buffer and changes nothing else.
\<close>

theorem bread_busy_sleeps:
  assumes "bio_inv s T" and "holds s b (d, n)" and "curproc s = Some i" and "i < length (ptable s)"
  shows "bread d n s = Sleep (ChBuf b) (set_proc i (\<lambda>p. p\<lparr>chan := Some (ChBuf b), state := SLEEPING\<rparr>) s)"
proof -
  obtain xs where xs: "lru (bufs s) xs" using bio_inv_lru [OF assms(1)] ..
  have k: "ide_key (d, n)" by (rule holds_key [OF assms(1,2)])
  have "bcached s (d, n) = Some b" and "bbusy (bufs s b)"
    using bcached_held [OF assms(1), of b] assms(2) k by (auto simp: holds_def)
  then show ?thesis
    using assms(3,4)
    by (simp add: bread_def bget_def kmon_defs bget_scans [OF xs] find_lru_key [OF assms(1) xs k] sleep_def sched_def)
qed

theorem bread_busy_sleeps_witness:
  "\<exists>b s t. bread 1 7 bio_ready = Ret b s \<and> bread 1 7 s = Sleep (ChBuf b) t"
proof -
  have inv: "bio_inv bio_ready {}" using bio_ready by blast
  obtain b s where s: "bread 1 7 bio_ready = Ret b s" "bio_inv s {}" "holds s b (1, 7)" "bio_frame bio_ready s"
    using bread_law [OF inv bio_ready_can_read] by blast
  obtain t where r: "binit bio_demo = Ret () t" "bio_frame bio_demo t" using binit_inv [OF bio_demo_boot] by blast
  have "curproc bio_demo = Some 0" by (simp add: bio_demo_def ptab.extend_def)
  then have "curproc s = Some 0" using s(4) r by (auto simp: bio_frame_def bio_ready_def)
  moreover have "0 < length (ptable s)" using s(2) by (auto simp: bio_inv_def)
  ultimately show ?thesis using bread_busy_sleeps [OF s(2,3)] s(1) by blast
qed

text \<open>
  C31: replacement is least recently used. \<open>brelse\<close> moves the buffer to the front of the list of all
  buffers; a \<open>bread\<close> that misses takes, among the buffers that are neither busy nor dirty, the one
  closest to the end, and panics if there is none.
\<close>

theorem lru_replacement:
  assumes "bio_inv s T" and "lru (bufs s) xs" and "ide_key (d, n)" and "bcached s (d, n) = None"
  shows "(\<forall>b. find (\<lambda>i. \<not> bbusy (bufs s i) \<and> \<not> bdirty (bufs s i)) (rev xs) = Some b \<longrightarrow>
      (\<exists>t. bread d n s = Ret b t \<and> lru (bufs t) xs))
    \<and> (find (\<lambda>i. \<not> bbusy (bufs s i) \<and> \<not> bdirty (bufs s i)) (rev xs) = None \<longrightarrow>
      bread d n s = Panic ''bget: no buffers'')
    \<and> (\<forall>b. holds s b k \<longrightarrow> (\<exists>t. brelse b s = Ret () t \<and> lru (bufs t) (b # remove1 b xs)))"
proof (intro conjI allI impI)
  fix b assume "find (\<lambda>i. \<not> bbusy (bufs s i) \<and> \<not> bdirty (bufs s i)) (rev xs) = Some b"
  then have "find (bfree \<circ> bufs s) (rev xs) = Some b" by (simp add: bfree_def comp_def)
  note r = bread_uncached [OF assms this]
  have "lru ((bufs s)(b := recycled d n x (bufs s b))) xs" for x
    using assms(2) lru_cong [of "(bufs s)(b := recycled d n x (bufs s b))" "bufs s" xs] by (simp add: recycled_def)
  with r show "\<exists>t. bread d n s = Ret b t \<and> lru (bufs t) xs" by simp
next
  assume "find (\<lambda>i. \<not> bbusy (bufs s i) \<and> \<not> bdirty (bufs s i)) (rev xs) = None"
  then have "find ((\<lambda>p. \<not> bbusy p \<and> \<not> bdirty p) \<circ> bufs s) (rev xs) = None" by (simp add: comp_def)
  then show "bread d n s = Panic ''bget: no buffers''"
    using assms(4)
    by (simp add: bread_def bget_def kmon_defs bget_scans [OF assms(2)] find_lru_key [OF assms(1-3)])
next
  fix b assume h: "holds s b k"
  then have "b < NBUF" by (simp add: holds_def)
  from lru_move_front [OF assms(2) this] have "lru (bufs (brelsed b s)) (b # remove1 b xs)" by (simp add: brelsed_def)
  then have "lru ((bufs (brelsed b s))(b := (bufs (brelsed b s) b)\<lparr>bbusy := False\<rparr>)) (b # remove1 b xs)"
    using lru_cong [of "(bufs (brelsed b s))(b := (bufs (brelsed b s) b)\<lparr>bbusy := False\<rparr>)" "bufs (brelsed b s)" "b # remove1 b xs"]
    by simp
  then show "\<exists>t. brelse b s = Ret () t \<and> lru (bufs t) (b # remove1 b xs)"
    using brelse_eq [OF assms(1) h] by simp
qed

theorem lru_replacement_witness:
  "\<exists>t. bread 1 7 bio_ready = Ret 0 t"
proof -
  have ready: "bio_inv bio_ready {}" "lru (bufs bio_ready) (rev [0..<NBUF])" using bio_ready by blast+
  have none: "bcached bio_ready (1, 7) = None"
    using bio_ready bcached_SomeD [of bio_ready "(1, 7)"] by (cases "bcached bio_ready (1, 7)") (auto simp: pkey_def)
  have "\<not> bbusy (bufs bio_ready 0) \<and> \<not> bdirty (bufs bio_ready 0)"
    using bio_inv_buf [OF ready(1), of 0] bio_ready by (simp add: buf_ok_def)
  then have "find (\<lambda>i. \<not> bbusy (bufs bio_ready i) \<and> \<not> bdirty (bufs bio_ready i)) (rev (rev [0..<NBUF])) = Some 0"
    by (simp add: upt_conv_Cons)
  then show ?thesis
    using lru_replacement [OF ready _ none, of "(1, 7)"] by (auto simp: ide_key_def)
qed

text \<open>
  a failed read goes unnoticed. When the controller reports an error, the interrupt handler skips
  the transfer but still marks the buffer valid, so \<open>bread\<close> returns, as the contents of the sector it
  was asked for, the bytes of whatever sector the recycled buffer held before.
\<close>

theorem ide_read_error_unnoticed:
  assumes "bio_inv (s\<lparr>ide_err := False\<rparr>) T" and "lru (bufs s) xs" and "ide_key (d, n)"
    and "bcached s (d, n) = None" and "find (bfree \<circ> bufs s) (rev xs) = Some b" and "ide_err s"
  shows "\<exists>t. bread d n s = Ret b t \<and> bvalid (bufs t b) \<and> pkey (bufs t b) = (d, n)
    \<and> bdata (bufs t b) = bdata (bufs s b)"
proof -
  let ?s = "set_buf b (\<lambda>p. p\<lparr>bdev := d, bsector := n, bbusy := True, bvalid := False, bdirty := False\<rparr>) s"
  have "find ((\<lambda>p. bdev p = d \<and> bsector p = n) \<circ> bufs s) xs = None"
    using find_lru_key [OF assms(1) _ assms(3), of xs] assms(2,4) by (simp add: bcached_def)
  moreover have "find ((\<lambda>p. \<not> bbusy p \<and> \<not> bdirty p) \<circ> bufs s) (rev xs) = Some b"
    using assms(5) by (simp add: bfree_def [abs_def])
  ultimately have "bget d n s = Ret b ?s"
    by (simp add: bget_def kmon_defs bget_scans [OF assms(2)])
  moreover have "ptable s \<noteq> []" "idequeue s = []" "havedisk1 s"
    using assms(1) by (simp_all add: bio_inv_def)
  then have "iderw b ?s = Ret () (woken (ChBuf b) (set_buf b (\<lambda>p. p\<lparr>bvalid := True, bdirty := False\<rparr>) ?s))"
    using assms(6)
    by (simp add: iderw_def ideintr_def idestart_def kmon_defs set_buf_def wakeup_woken woken_def Let_def)
  ultimately show ?thesis
    using ide_key_type [OF assms(3)] by (simp add: bread_def kmon_defs pkey_def)
qed

theorem ide_read_error_unnoticed_witness:
  "\<exists>t. bread 1 7 (bio_ready\<lparr>ide_err := True\<rparr>) = Ret 0 t \<and> bvalid (bufs t 0)"
proof -
  have inv: "bio_inv bio_ready {}" using bio_ready by blast
  then have "\<not> ide_err bio_ready" by (simp add: bio_inv_def)
  then have "bio_ready\<lparr>ide_err := True, ide_err := False\<rparr> = bio_ready" by (intro bio.equality) simp_all
  with inv have ready: "bio_inv (bio_ready\<lparr>ide_err := True, ide_err := False\<rparr>) {}" by (simp only:)
  have lru: "lru (bufs (bio_ready\<lparr>ide_err := True\<rparr>)) (rev [0..<NBUF])" using bio_ready by simp
  have none: "bcached (bio_ready\<lparr>ide_err := True\<rparr>) (1, 7) = None"
    using bio_ready bcached_SomeD [of "bio_ready\<lparr>ide_err := True\<rparr>" "(1, 7)"]
    by (cases "bcached (bio_ready\<lparr>ide_err := True\<rparr>) (1, 7)") (auto simp: pkey_def)
  have "bfree (bufs bio_ready 0)"
    using bio_inv_buf [OF inv, of 0] bio_ready by (simp add: buf_ok_def bfree_def)
  then have "find (bfree \<circ> bufs (bio_ready\<lparr>ide_err := True\<rparr>)) (rev (rev [0..<NBUF])) = Some 0"
    by (simp add: upt_conv_Cons)
  then show ?thesis
    using ide_read_error_unnoticed [OF ready lru _ none] by (auto simp: ide_key_def)
qed

text \<open>
  \<open>binit\<close> sets the cache up. From the cleared memory of the kernel image it makes a list of all thirty
  buffers, none of them holding a sector, and establishes the invariant.
\<close>

theorem binit_establishes:
  assumes "bio_boot s"
  shows "\<exists>t. binit s = Ret () t \<and> bio_inv t {} \<and> lru (bufs t) (rev [0..<NBUF]) \<and> busy_keys t = {}
    \<and> dirty_keys t = {} \<and> (\<forall>k. ide_key k \<longrightarrow> bview t k = disk s (key_loc k))"
proof -
  obtain t where t: "binit s = Ret () t" "bio_inv t {}" "lru (bufs t) (rev [0..<NBUF])" "busy_keys t = {}"
      "dirty_keys t = {}" "disk t = disk s" "\<forall>i<NBUF. bdev (bufs t i) = - 1"
    using binit_inv [OF assms] by blast
  have "bcached t k = None" if "ide_key k" for k
    using t(7) bcached_SomeD [of t k] ide_key_dev that by (cases "bcached t k") auto
  then have "\<forall>k. ide_key k \<longrightarrow> bview t k = disk s (key_loc k)"
    using t(6) bview_uncached [of t] by metis
  with t show ?thesis by blast
qed

theorem binit_establishes_witness: "\<exists>t. binit bio_demo = Ret () t \<and> bio_inv t {}"
  using binit_establishes [OF bio_demo_boot] by blast

end
