(* ===== verification/Log.thy ===== *)
theory Log
  imports Bio
begin

text \<open>
  The write-ahead log, \<open>kernel/log.c\<close>: transactions with \<open>begin_op\<close>, \<open>log_write\<close>, \<open>end_op\<close>, the commit and
  the recovery at start-up.

  The log lies in the sectors from \<open>log_start\<close> on: a header (a count and sector numbers) and behind it
  one sector for each number. A header on disk is read and written field by field with \<open>get32\<close> and
  \<open>put32\<close>; the other bytes of its sector stay as they are. An index beyond the thirty entries of
  \<open>lh.sector\<close> is the outcome \<open>Fault\<close>.

  The abstraction of a disk is \<open>ldisk\<close>: its sectors with the committed entries of the log laid over
  them. The lemmas show that each single write of a commit leaves it as it was or makes it the new
  state, all at once when the header is written, and that recovery, and each of its writes, keeps it.
\<close>

unbundle bit_operations_syntax

section \<open>Definitions\<close>

abbreviation (input) LOGSIZE :: nat where "LOGSIZE \<equiv> 30"
abbreviation (input) MAXOPBLOCKS :: int where "MAXOPBLOCKS \<equiv> 10"

record logst = bio +
  log_start :: u32
  log_size :: int
  outstanding :: int
  committing :: bool
  log_dev :: u32
  lh_n :: int
  lh_sector :: "u32 list"

text \<open>\<open>log.lh.sector[i]\<close>, and the sector number of the \<open>i\<close>-th log block.\<close>

definition log_sector :: "nat \<Rightarrow> ('a logst_scheme, u32) kmon" where
  "log_sector i s = (if i < LOGSIZE then Ret (lh_sector s ! i) s else Fault ''log.lh.sector'')"

definition log_block :: "'a logst_scheme \<Rightarrow> nat \<Rightarrow> u32" where
  "log_block s i = log_start s + of_nat i + 1"

fun install_loop :: "nat list \<Rightarrow> ('a logst_scheme, unit) kmon" where
  "install_loop [] = kreturn ()"
| "install_loop (i # is) =
     kbind (kget (\<lambda>s. (log_dev s, log_block s i))) (\<lambda>(dev, l).
     kbind (bread dev l) (\<lambda>lbuf.
     kbind (log_sector i) (\<lambda>sec.
     kbind (bread dev sec) (\<lambda>dbuf.
     kbind (bdata_of lbuf) (\<lambda>x.
     kthen (bmodify dbuf (\<lambda>_. x))
     (kthen (bwrite dbuf)
     (kthen (brelse lbuf)
     (kthen (brelse dbuf) (install_loop is)))))))))"

definition install_trans :: "('a logst_scheme, unit) kmon" where
  "install_trans = kbind (kget lh_n) (\<lambda>n. install_loop [0..<nat n])"

definition read_head :: "('a logst_scheme, unit) kmon" where
  "read_head = kbind (kget (\<lambda>s. (log_dev s, log_start s))) (\<lambda>(dev, st).
     kbind (bread dev st) (\<lambda>b.
     kbind (bdata_of b) (\<lambda>x. let n = sint (get32 0 x) in
       if n > int LOGSIZE then kfault ''log.lh.sector''
       else kthen (kmodify (\<lambda>s. s\<lparr>lh_n := n,
           lh_sector := splice 0 (map (\<lambda>i. get32 (4 + 4 * i) x) [0..<nat n]) (lh_sector s)\<rparr>))
         (brelse b))))"

fun put_sectors :: "nat \<Rightarrow> u32 list \<Rightarrow> block \<Rightarrow> block" where
  "put_sectors off [] x = x"
| "put_sectors off (w # ws) x = put_sectors (off + 4) ws (put32 off w x)"

definition write_head :: "('a logst_scheme, unit) kmon" where
  "write_head = kbind (kget (\<lambda>s. (log_dev s, log_start s, lh_n s, lh_sector s))) (\<lambda>(dev, st, n, secs).
     kbind (bread dev st) (\<lambda>b.
       if n > int LOGSIZE then kfault ''log.lh.sector''
       else kthen (bmodify b (\<lambda>x. put_sectors 4 (take (nat n) secs) (put32 0 (word_of_int n) x)))
         (kthen (bwrite b) (brelse b))))"

definition recover_from_log :: "('a logst_scheme, unit) kmon" where
  "recover_from_log = kthen read_head (kthen install_trans
     (kthen (kmodify (\<lambda>s. s\<lparr>lh_n := 0\<rparr>)) write_head))"

definition begin_op :: "('a logst_scheme, unit) kmon" where
  "begin_op s =
     (if committing s then sleep ChLog (Some (OtherLock ''log'')) s
      else if lh_n s + (outstanding s + 1) * MAXOPBLOCKS > int LOGSIZE
        then sleep ChLog (Some (OtherLock ''log'')) s
      else Ret () (s\<lparr>outstanding := outstanding s + 1\<rparr>))"

fun write_log_loop :: "nat list \<Rightarrow> ('a logst_scheme, unit) kmon" where
  "write_log_loop [] = kreturn ()"
| "write_log_loop (i # is) =
     kbind (kget (\<lambda>s. (log_dev s, log_block s i))) (\<lambda>(dev, l).
     kbind (bread dev l) (\<lambda>to.
     kbind (log_sector i) (\<lambda>sec.
     kbind (bread dev sec) (\<lambda>from.
     kbind (bdata_of from) (\<lambda>x.
     kthen (bmodify to (\<lambda>_. x))
     (kthen (bwrite to)
     (kthen (brelse from)
     (kthen (brelse to) (write_log_loop is)))))))))"

definition write_log :: "('a logst_scheme, unit) kmon" where
  "write_log = kbind (kget lh_n) (\<lambda>n. write_log_loop [0..<nat n])"

definition commit :: "('a logst_scheme, unit) kmon" where
  "commit = kbind (kget lh_n) (\<lambda>n.
     if n > 0 then kthen write_log (kthen write_head (kthen install_trans
       (kthen (kmodify (\<lambda>s. s\<lparr>lh_n := 0\<rparr>)) write_head)))
     else kreturn ())"

definition end_op :: "('a logst_scheme, unit) kmon" where
  "end_op = kthen (kmodify (\<lambda>s. s\<lparr>outstanding := outstanding s - 1\<rparr>))
     (kthen (kpanic_if committing ''log.committing'')
     (kbind (kget outstanding) (\<lambda>n.
       if n = 0 then
         kthen (kmodify (\<lambda>s. s\<lparr>committing := True\<rparr>))
         (kthen commit
         (kthen (kmodify (\<lambda>s. s\<lparr>committing := False\<rparr>)) (wakeup ChLog)))
       else wakeup ChLog)))"

text \<open>The slot of a sector in the header: where it already is, or behind the last one.\<close>

definition log_slot :: "u32 \<Rightarrow> 'a logst_scheme \<Rightarrow> nat" where
  "log_slot sec s = (case find_first (\<lambda>x. x = sec) (take (nat (lh_n s)) (lh_sector s)) of
     Some i \<Rightarrow> i | None \<Rightarrow> nat (lh_n s))"

definition log_write :: "nat \<Rightarrow> ('a logst_scheme, unit) kmon" where
  "log_write b =
     kthen (kpanic_if (\<lambda>s. lh_n s \<ge> int LOGSIZE \<or> lh_n s \<ge> log_size s - 1) ''too big a transaction'')
     (kthen (kpanic_if (\<lambda>s. outstanding s < 1) ''log_write outside of trans'')
     (kthen (kmodify (\<lambda>s. let i = log_slot (bsector (bufs s b)) s in
         s\<lparr>lh_sector := (lh_sector s)[i := bsector (bufs s b)],
           lh_n := (if int i = lh_n s then lh_n s + 1 else lh_n s)\<rparr>))
       (bmark b)))"

section \<open>Copying a block through the cache\<close>

definition c_copy :: "u32 \<times> u32 \<Rightarrow> u32 \<times> u32 \<Rightarrow> cache \<Rightarrow> cache" where
  "c_copy src dst c = c_write dst (c_modify dst (\<lambda>_. cview c src) c)"

context buffer_cache
begin

text \<open>Both copying loops take two buffers, copy one to the other, write that and let go of both. In
  \<open>install_trans\<close> the source is taken first, in \<open>write_log\<close> the destination.\<close>

lemma two_blocks:
  assumes "inv s T" and "can_read (d, n) (abs s)" and "can_read (d', n') (c_read (d, n) (abs s))"
  obtains b u b' v where "rd d n s = Ret b u" and "frame s u" and "rd d' n' u = Ret b' v" and "frame u v"
    and "inv v T" and "b \<noteq> b'" and "b \<notin> T" and "b' \<notin> T" and "held v b (d, n)" and "held v b' (d', n')"
    and "abs v = c_read (d', n') (c_read (d, n) (abs s))"
proof -
  obtain b u where u: "rd d n s = Ret b u" "inv u T" "b \<notin> T" "held u b (d, n)" "abs u = c_read (d, n) (abs s)" "frame s u"
    using read_law [OF assms(1,2)] by blast
  then have "can_read (d', n') (abs u)" using assms(3) by simp
  then obtain b' v where "rd d' n' u = Ret b' v" "inv v T" "b' \<notin> T" "held v b' (d', n')"
      "abs v = c_read (d', n') (abs u)" "frame u v" "\<forall>b'' k''. held u b'' k'' \<longrightarrow> b'' \<noteq> b' \<and> held v b'' k''"
    using read_law [OF u(2)] by blast
  with u that show ?thesis by metis
qed

lemma copy_block:
  assumes "inv v T" and "b \<noteq> b'" and "b \<notin> T" and "b' \<notin> T" and "held v b k" and "held v b' k'"
    and "abs v = c_read k' (c_read k c)" and "k \<notin> cbusy c" and "k' \<notin> cbusy c" and "ide_key k'"
    and "k \<noteq> k'"
  obtains u1 u2 u3 t where "content b' v = Ret (cview c k') v" and "modify b (\<lambda>_. cview c k') v = Ret () u1"
    and "wr b u1 = Ret () u2" and "rel b' u2 = Ret () u3" and "rel b u3 = Ret () t" and "inv t T"
    and "abs t = c_copy k' k c" and "frame v t"
proof -
  have view: "cview (abs v) = cview c" using assms(7) by (simp add: c_read_def)
  have "length (cview (abs v) k') = BSIZE" using view_length [OF assms(1,10)] .
  then obtain u1 where u1: "modify b (\<lambda>_. cview c k') v = Ret () u1" "inv u1 (insert b T)"
      "abs u1 = c_modify k (\<lambda>_. cview c k') (abs v)" "frame v u1" "held u1 = held v"
    using modify_law [OF assms(1,5), of "\<lambda>_. cview c k'"] view by auto
  then obtain u2 where u2: "wr b u1 = Ret () u2" "inv u2 (insert b T - {b})" "abs u2 = c_write k (abs u1)"
      "frame u1 u2" "held u2 = held v"
    using write_law [of u1 "insert b T" b k] assms(5) by auto
  have "insert b T - {b} = T" using assms(3) by auto
  then obtain u3 where u3: "rel b' u2 = Ret () u3" "inv u3 T" "abs u3 = c_release k' (abs u2)" "frame u2 u3"
      "\<forall>b'' k''. held u2 b'' k'' \<longrightarrow> b'' \<noteq> b' \<longrightarrow> held u3 b'' k''"
    using release_law [of u2 T b' k'] u2 assms(4,6) by auto
  have "held u3 b k" using u3(5) u2(5) assms(2,5) by (metis (no_types))
  then obtain t where t: "rel b u3 = Ret () t" "inv t T" "abs t = c_release k (abs u3)" "frame u3 t"
    using release_law [OF u3(2) _ assms(3)] by blast
  have "abs t = c_copy k' k c"
    using t(3) u3(3) u2(3) u1(3) assms(7-11)
    by (simp add: c_copy_def c_release_def c_read_def c_write_def c_modify_def insert_Diff_if)
  then show ?thesis
    using that content_law [OF assms(1,6)] view u1 u2 u3 t frame_trans by metis
qed

end

section \<open>The loops\<close>

lemma bio_frame_log:
  "bio_frame s t \<Longrightarrow> log_start t = log_start s \<and> log_size t = log_size s \<and> outstanding t = outstanding s
     \<and> committing t = committing s \<and> log_dev t = log_dev s \<and> lh_n t = lh_n s \<and> lh_sector t = lh_sector s
     \<and> curproc t = curproc s \<and> logst.more t = logst.more s"
  by (auto simp: bio_frame_def)

lemma c_copy_fields [simp]:
  "cbusy (c_copy k k' c) = cbusy c" "cdirty (c_copy k k' c) = cdirty c - {k'}"
  "cview (c_copy k k' c) = (cview c)(k' := cview c k)" "cdisk (c_copy k k' c) = (cdisk c)(key_loc k' := cview c k)"
  "chist (c_copy k k' c) = chist c @ [(key_loc k', cview c k)]"
  by (simp_all add: c_copy_def c_write_def c_modify_def)

text \<open>The places of a transaction: the sector of entry \<open>i\<close> and its block in the log.\<close>

definition home_key :: "'a logst_scheme \<Rightarrow> nat \<Rightarrow> u32 \<times> u32" where
  "home_key s i = (log_dev s, lh_sector s ! i)"

definition log_key :: "'a logst_scheme \<Rightarrow> nat \<Rightarrow> u32 \<times> u32" where
  "log_key s i = (log_dev s, log_block s i)"

definition head_key :: "'a logst_scheme \<Rightarrow> u32 \<times> u32" where
  "head_key s = (log_dev s, log_start s)"

lemma keys_frame: "bio_frame s t \<Longrightarrow> home_key t = home_key s \<and> log_key t = log_key s \<and> head_key t = head_key s"
  using bio_frame_log [of s t] by (simp add: home_key_def log_key_def log_block_def head_key_def fun_eq_iff)

lemma can_readI:
  assumes "ide_key k" and "k \<notin> cbusy c" and "card (cbusy c \<union> cdirty c) < NBUF"
  shows "can_read k c"
  using assms by (simp add: can_read_def)

lemma can_read_second:
  assumes "ide_key k'" and "k' \<noteq> k" and "k' \<notin> cbusy c" and "k' \<in> cdirty c \<or> card (insert k (cbusy c \<union> cdirty c)) < NBUF"
  shows "can_read k' (c_read k c)"
  using assms by (simp add: can_read_def c_read_def)

lemma install_step:
  assumes "bio_inv s T" and "i < LOGSIZE" and "can_read (log_key s i) (cache_abs s)"
    and "can_read (home_key s i) (c_read (log_key s i) (cache_abs s))"
  shows "\<exists>t. install_loop (i # is) s = install_loop is t \<and> bio_inv t T \<and> bio_frame s t
    \<and> cache_abs t = c_copy (log_key s i) (home_key s i) (cache_abs s)"
proof -
  let ?l = "log_block s i" and ?h = "lh_sector s ! i" and ?d = "log_dev s"
  have r1: "can_read (?d, ?l) (cache_abs s)" and r2: "can_read (?d, ?h) (c_read (?d, ?l) (cache_abs s))"
    using assms(3,4) by (simp_all add: log_key_def home_key_def)
  obtain b u b' v where uv: "bread ?d ?l s = Ret b u" "bio_frame s u" "bread ?d ?h u = Ret b' v" "bio_frame u v"
      "bio_inv v T" "b \<noteq> b'" "b \<notin> T" "b' \<notin> T" "holds v b (?d, ?l)" "holds v b' (?d, ?h)"
      "cache_abs v = c_read (?d, ?h) (c_read (?d, ?l) (cache_abs s))"
    using bc.two_blocks [OF assms(1) r1 r2] .
  have swap: "cache_abs v = c_read (?d, ?l) (c_read (?d, ?h) (cache_abs s))"
    using uv(11) by (simp add: c_read_def insert_commute)
  have ne: "(?d, ?h) \<noteq> (?d, ?l)" using r2 by (auto simp: can_read_def c_read_def)
  have side: "(?d, ?h) \<notin> cbusy (cache_abs s)" "(?d, ?l) \<notin> cbusy (cache_abs s)" "ide_key (?d, ?l)"
    using r1 r2 by (auto simp: can_read_def c_read_def)
  obtain u1 u2 u3 t where t: "bdata_of b v = Ret (cview (cache_abs s) (?d, ?l)) v"
      "bmodify b' (\<lambda>_. cview (cache_abs s) (?d, ?l)) v = Ret () u1" "bwrite b' u1 = Ret () u2"
      "brelse b u2 = Ret () u3" "brelse b' u3 = Ret () t" "bio_inv t T"
      "cache_abs t = c_copy (?d, ?l) (?d, ?h) (cache_abs s)" "bio_frame v t"
    using bc.copy_block [OF uv(5) uv(6)[symmetric] uv(8,7,10,9) swap side ne] .
  have sec: "log_sector i u = Ret ?h u"
    using assms(2) bio_frame_log [OF uv(2)] by (simp add: log_sector_def)
  have "install_loop (i # is) s = install_loop is t"
    using uv(1,3) sec t(1-5) by (simp add: kbind_def kget_def)
  moreover have "bio_frame s t" using uv(2,4) t(8) bio_frame_trans by blast
  ultimately show ?thesis using t(6,7) by (auto simp: log_key_def home_key_def)
qed

lemma write_log_step:
  assumes "bio_inv s T" and "i < LOGSIZE" and "can_read (log_key s i) (cache_abs s)"
    and "can_read (home_key s i) (c_read (log_key s i) (cache_abs s))"
  shows "\<exists>t. write_log_loop (i # is) s = write_log_loop is t \<and> bio_inv t T \<and> bio_frame s t
    \<and> cache_abs t = c_copy (home_key s i) (log_key s i) (cache_abs s)"
proof -
  let ?l = "log_block s i" and ?h = "lh_sector s ! i" and ?d = "log_dev s"
  have r1: "can_read (?d, ?l) (cache_abs s)" and r2: "can_read (?d, ?h) (c_read (?d, ?l) (cache_abs s))"
    using assms(3,4) by (simp_all add: log_key_def home_key_def)
  obtain b u b' v where uv: "bread ?d ?l s = Ret b u" "bio_frame s u" "bread ?d ?h u = Ret b' v" "bio_frame u v"
      "bio_inv v T" "b \<noteq> b'" "b \<notin> T" "b' \<notin> T" "holds v b (?d, ?l)" "holds v b' (?d, ?h)"
      "cache_abs v = c_read (?d, ?h) (c_read (?d, ?l) (cache_abs s))"
    using bc.two_blocks [OF assms(1) r1 r2] .
  have ne: "(?d, ?l) \<noteq> (?d, ?h)" using r2 by (auto simp: can_read_def c_read_def)
  have side: "(?d, ?l) \<notin> cbusy (cache_abs s)" "(?d, ?h) \<notin> cbusy (cache_abs s)" "ide_key (?d, ?h)"
    using r1 r2 by (auto simp: can_read_def c_read_def)
  obtain u1 u2 u3 t where t: "bdata_of b' v = Ret (cview (cache_abs s) (?d, ?h)) v"
      "bmodify b (\<lambda>_. cview (cache_abs s) (?d, ?h)) v = Ret () u1" "bwrite b u1 = Ret () u2"
      "brelse b' u2 = Ret () u3" "brelse b u3 = Ret () t" "bio_inv t T"
      "cache_abs t = c_copy (?d, ?h) (?d, ?l) (cache_abs s)" "bio_frame v t"
    using bc.copy_block [OF uv(5-10) uv(11) side ne] .
  have sec: "log_sector i u = Ret ?h u"
    using assms(2) bio_frame_log [OF uv(2)] by (simp add: log_sector_def)
  have "write_log_loop (i # is) s = write_log_loop is t"
    using uv(1,3) sec t(1-5) by (simp add: kbind_def kget_def)
  moreover have "bio_frame s t" using uv(2,4) t(8) bio_frame_trans by blast
  ultimately show ?thesis using t(6,7) by (auto simp: log_key_def home_key_def)
qed

subsection \<open>Many copies\<close>

definition replay :: "((bool \<times> nat) \<times> block) list \<Rightarrow> (bool \<times> nat \<Rightarrow> block) \<Rightarrow> (bool \<times> nat \<Rightarrow> block)" where
  "replay h d = foldl (\<lambda>d w. d(fst w := snd w)) d h"

lemma replay_simps [simp]: "replay [] d = d" "replay (w # h) d = replay h (d(fst w := snd w))"
  by (simp_all add: replay_def)

lemma replay_append: "replay (h @ h') d = replay h' (replay h d)"
  by (simp add: replay_def)

lemma replay_other: "l \<notin> fst ` set h \<Longrightarrow> replay h d l = d l"
  by (induction h arbitrary: d) auto

lemma replay_map_nth:
  assumes "distinct (map f is)" and "i \<in> set is"
  shows "replay (map (\<lambda>i. (f i, g i)) is) d (f i) = g i"
  using assms
proof (induction "is" arbitrary: d)
  case (Cons j js)
  then show ?case
    by (cases "i = j") (auto simp: replay_other image_comp)
qed simp

text \<open>Later writes decide: laying the same values over a disk again changes nothing.\<close>

lemma replay_absorb:
  assumes "\<And>l. l \<notin> fst ` set h \<Longrightarrow> d l = d' l"
  shows "replay h d = replay h d'"
  using assms
proof (induction h arbitrary: d d')
  case Nil
  then show ?case by auto
next
  case (Cons w h)
  have "replay h (d(fst w := snd w)) = replay h (d'(fst w := snd w))"
    using Cons.prems by (intro Cons.IH) auto
  then show ?case by simp
qed

abbreviation copies :: "('i \<Rightarrow> u32 \<times> u32) \<Rightarrow> ('i \<Rightarrow> u32 \<times> u32) \<Rightarrow> cache \<Rightarrow> 'i list \<Rightarrow> cache" where
  "copies src dst c is \<equiv> foldl (\<lambda>c i. c_copy (src i) (dst i) c) c is"

lemma copies_busy: "cbusy (copies src dst c is) = cbusy c"
  by (induction "is" arbitrary: c) auto

lemma copies_dirty: "cdirty (copies src dst c is) = cdirty c - dst ` set is"
  by (induction "is" arbitrary: c) auto

lemma copies_src:
  assumes "\<And>i j. i \<in> set is \<Longrightarrow> j \<in> set is \<Longrightarrow> src i \<noteq> dst j" and "i \<in> set is" and "j \<in> set is"
  shows "cview (c_copy (src j) (dst j) c) (src i) = cview c (src i)"
  using assms by simp

lemma copies_hist:
  assumes "\<And>i j. i \<in> set is \<Longrightarrow> j \<in> set is \<Longrightarrow> src i \<noteq> dst j"
  shows "chist (copies src dst c is) = chist c @ map (\<lambda>i. (key_loc (dst i), cview c (src i))) is
    \<and> cdisk (copies src dst c is) = replay (map (\<lambda>i. (key_loc (dst i), cview c (src i))) is) (cdisk c)"
  using assms
proof (induction "is" arbitrary: c)
  case (Cons j js)
  have m: "map (\<lambda>i. (key_loc (dst i), cview (c_copy (src j) (dst j) c) (src i))) js
      = map (\<lambda>i. (key_loc (dst i), cview c (src i))) js"
    using copies_src [of "j # js" src dst] Cons.prems by (intro map_cong) auto
  have "chist (copies src dst (c_copy (src j) (dst j) c) js) = chist (c_copy (src j) (dst j) c)
        @ map (\<lambda>i. (key_loc (dst i), cview c (src i))) js
      \<and> cdisk (copies src dst (c_copy (src j) (dst j) c) js)
        = replay (map (\<lambda>i. (key_loc (dst i), cview c (src i))) js) (cdisk (c_copy (src j) (dst j) c))"
    unfolding m [symmetric] by (rule Cons.IH) (simp add: Cons.prems)
  then show ?case by (simp del: fun_upd_apply)
qed simp

lemma copies_view:
  assumes "\<And>i j. i \<in> set is \<Longrightarrow> j \<in> set is \<Longrightarrow> src i \<noteq> dst j" and "distinct (map dst is)"
  shows "(i \<in> set is \<longrightarrow> cview (copies src dst c is) (dst i) = cview c (src i))
    \<and> (k \<notin> dst ` set is \<longrightarrow> cview (copies src dst c is) k = cview c k)"
  using assms
proof (induction "is" arbitrary: c i k)
  case (Cons j js)
  have ih: "(i \<in> set js \<longrightarrow> cview (copies src dst (c_copy (src j) (dst j) c) js) (dst i) = cview (c_copy (src j) (dst j) c) (src i))
      \<and> (k \<notin> dst ` set js \<longrightarrow> cview (copies src dst (c_copy (src j) (dst j) c) js) k = cview (c_copy (src j) (dst j) c) k)" for i k
    using Cons.prems by (intro Cons.IH) auto
  have src: "i \<in> set js \<Longrightarrow> src i \<noteq> dst j" using Cons.prems(1) [of i j] by simp
  show ?case
    using ih [of i k] ih [of i "dst j"] src Cons.prems(2) by auto
qed simp

section \<open>Headers\<close>

lemma length_put_sectors: "off + 4 * length ws \<le> length x \<Longrightarrow> length (put_sectors off ws x) = length x"
  by (induction ws arbitrary: off x) auto

lemma get32_put_sectors_before:
  "off + 4 * length ws \<le> length x \<Longrightarrow> p + 4 \<le> off \<Longrightarrow> get32 p (put_sectors off ws x) = get32 p x"
  by (induction ws arbitrary: off x) (auto simp: get32_put32_other)

lemma get32_put_sectors:
  "off + 4 * length ws \<le> length x \<Longrightarrow> i < length ws \<Longrightarrow> get32 (off + 4 * i) (put_sectors off ws x) = ws ! i"
proof (induction ws arbitrary: off x i)
  case (Cons w ws)
  show ?case
  proof (cases i)
    case 0
    have "get32 off (put_sectors (off + 4) ws (put32 off w x)) = get32 off (put32 off w x)"
      using Cons.prems by (intro get32_put_sectors_before) auto
    then show ?thesis using 0 Cons.prems by simp
  next
    case (Suc j)
    then show ?thesis using Cons.IH [of "off + 4" "put32 off w x" j] Cons.prems by (simp add: add.assoc)
  qed
qed simp

definition put_head :: "int \<Rightarrow> u32 list \<Rightarrow> block \<Rightarrow> block" where
  "put_head n secs x = put_sectors 4 (take (nat n) secs) (put32 0 (word_of_int n) x)"

definition head_n :: "block \<Rightarrow> int" where
  "head_n x = sint (get32 0 x)"

definition head_secs :: "block \<Rightarrow> u32 list" where
  "head_secs x = map (\<lambda>i. get32 (4 + 4 * i) x) [0..<nat (head_n x)]"

lemma put_head:
  assumes "length x = BSIZE" and "0 \<le> n" and "n \<le> 30" and "length secs = LOGSIZE"
  shows "length (put_head n secs x) = BSIZE" and "head_n (put_head n secs x) = n"
    and "head_secs (put_head n secs x) = take (nat n) secs"
proof -
  have len: "4 + 4 * length (take (nat n) secs) \<le> length (put32 0 (word_of_int n) x)" using assms by simp
  show "length (put_head n secs x) = BSIZE"
    using length_put_sectors [OF len] assms(1) by (simp add: put_head_def)
  have "get32 0 (put_head n secs x) = word_of_int n"
    using get32_put_sectors_before [OF len, of 0] assms(1) by (simp add: put_head_def)
  moreover have "sint (word_of_int n :: u32) = n"
    using assms(2,3) by (simp add: signed_of_int signed_take_bit_int_eq_self)
  ultimately show n: "head_n (put_head n secs x) = n" by (simp add: head_n_def)
  show "head_secs (put_head n secs x) = take (nat n) secs"
    unfolding head_secs_def n
    using get32_put_sectors [OF len] assms by (intro nth_equalityI) (simp_all add: put_head_def)
qed

section \<open>The loops on the abstract cache\<close>

lemma finite_keys [simp]: "finite (cbusy (cache_abs s))" "finite (cdirty (cache_abs s))"
  by (simp_all add: cache_abs_def busy_keys_def dirty_keys_def)

text \<open>What the copying loops need of the entries: legal and distinct sectors that nobody holds, the log
  blocks not pinned.\<close>

definition entries_ok :: "'a logst_scheme \<Rightarrow> nat set \<Rightarrow> bool" where
  "entries_ok s I \<longleftrightarrow> (\<forall>i\<in>I. i < LOGSIZE \<and> ide_key (log_key s i) \<and> ide_key (home_key s i)
     \<and> log_key s i \<notin> dirty_keys s \<and> (\<forall>j\<in>I. log_key s i \<noteq> home_key s j))"

lemma entries_frame:
  assumes "bio_frame s t" and "dirty_keys t \<subseteq> dirty_keys s" and "entries_ok s I" and "J \<subseteq> I"
  shows "entries_ok t J"
proof -
  have keys: "home_key t = home_key s" "log_key t = log_key s" using keys_frame [OF assms(1)] by simp_all
  show ?thesis using assms(2-4) unfolding entries_ok_def keys by blast
qed

lemma cache_abs_fields [simp]:
  "cview (cache_abs s) = bview s" "cdisk (cache_abs s) = disk s" "chist (cache_abs s) = hist s"
  "cbusy (cache_abs s) = busy_keys s" "cdirty (cache_abs s) = dirty_keys s"
  by (simp_all add: cache_abs_def)

lemma dirty_finite [simp]: "finite (dirty_keys s)" "finite (busy_keys s)"
  by (simp_all add: busy_keys_def dirty_keys_def)

lemma write_log_loop_abs:
  assumes "bio_inv s {}" and "busy_keys s = {}" and "entries_ok s (set is)" and "home_key s ` set is \<subseteq> dirty_keys s"
    and "card (dirty_keys s) < NBUF"
  shows "\<exists>t. write_log_loop is s = Ret () t \<and> bio_inv t {} \<and> bio_frame s t
    \<and> cache_abs t = copies (home_key s) (log_key s) (cache_abs s) is"
  using assms
proof (induction "is" arbitrary: s)
  case Nil
  then show ?case by (auto simp: kreturn_def)
next
  case (Cons i js)
  have e: "i < LOGSIZE" "ide_key (log_key s i)" "ide_key (home_key s i)" "log_key s i \<notin> dirty_keys s"
      "log_key s i \<noteq> home_key s i" "home_key s i \<in> dirty_keys s"
    using Cons.prems(3,4) by (auto simp: entries_ok_def)
  have r1: "can_read (log_key s i) (cache_abs s)" using e Cons.prems by (intro can_readI) simp_all
  have r2: "can_read (home_key s i) (c_read (log_key s i) (cache_abs s))"
    using e Cons.prems by (intro can_read_second) auto
  obtain t where t: "write_log_loop (i # js) s = write_log_loop js t" "bio_inv t {}" "bio_frame s t"
      "cache_abs t = c_copy (home_key s i) (log_key s i) (cache_abs s)"
    using write_log_step [OF Cons.prems(1) e(1) r1 r2] by blast
  have ab: "dirty_keys t = dirty_keys s" "busy_keys t = {}"
    using arg_cong [OF t(4), of cdirty] arg_cong [OF t(4), of cbusy] e(4) Cons.prems(2) by auto
  have keys: "home_key t = home_key s" "log_key t = log_key s" using keys_frame [OF t(3)] by simp_all
  have "\<exists>u. write_log_loop js t = Ret () u \<and> bio_inv u {} \<and> bio_frame t u
      \<and> cache_abs u = copies (home_key t) (log_key t) (cache_abs t) js"
    using Cons.prems(4,5) ab keys entries_frame [OF t(3) _ Cons.prems(3), of "set js"]
    by (intro Cons.IH [OF t(2)]) auto
  then obtain u where "write_log_loop js t = Ret () u" "bio_inv u {}" "bio_frame t u"
      "cache_abs u = copies (home_key t) (log_key t) (cache_abs t) js" by blast
  then show ?case using t keys bio_frame_trans by auto
qed

lemma install_loop_abs:
  assumes "bio_inv s {}" and "busy_keys s = {}" and "entries_ok s (set is)" and "distinct (map (home_key s) is)"
    and "card (dirty_keys s) < NBUF \<and> home_key s ` set is \<subseteq> dirty_keys s \<or> card (dirty_keys s) + 1 < NBUF"
  shows "\<exists>t. install_loop is s = Ret () t \<and> bio_inv t {} \<and> bio_frame s t
    \<and> cache_abs t = copies (log_key s) (home_key s) (cache_abs s) is"
  using assms
proof (induction "is" arbitrary: s)
  case Nil
  then show ?case by (auto simp: kreturn_def)
next
  case (Cons i js)
  have e: "i < LOGSIZE" "ide_key (log_key s i)" "ide_key (home_key s i)" "log_key s i \<notin> dirty_keys s"
      "log_key s i \<noteq> home_key s i"
    using Cons.prems(3) by (auto simp: entries_ok_def)
  have r1: "can_read (log_key s i) (cache_abs s)" using e Cons.prems by (intro can_readI) auto
  have "card (insert (log_key s i) (dirty_keys s)) \<le> card (dirty_keys s) + 1"
    by (simp add: card_insert_if)
  then have r2: "can_read (home_key s i) (c_read (log_key s i) (cache_abs s))"
    using e Cons.prems by (intro can_read_second) auto
  obtain t where t: "install_loop (i # js) s = install_loop js t" "bio_inv t {}" "bio_frame s t"
      "cache_abs t = c_copy (log_key s i) (home_key s i) (cache_abs s)"
    using install_step [OF Cons.prems(1) e(1) r1 r2] by blast
  have ab: "dirty_keys t = dirty_keys s - {home_key s i}" "busy_keys t = {}"
    using arg_cong [OF t(4), of cdirty] arg_cong [OF t(4), of cbusy] Cons.prems(2) by auto
  have keys: "home_key t = home_key s" "log_key t = log_key s" using keys_frame [OF t(3)] by simp_all
  have "card (dirty_keys t) \<le> card (dirty_keys s)" unfolding ab by (simp add: card_Diff1_le)
  then have c: "card (dirty_keys t) < NBUF \<and> home_key t ` set js \<subseteq> dirty_keys t \<or> card (dirty_keys t) + 1 < NBUF"
    using Cons.prems(4,5) ab keys by auto
  have "\<exists>u. install_loop js t = Ret () u \<and> bio_inv u {} \<and> bio_frame t u
      \<and> cache_abs u = copies (log_key t) (home_key t) (cache_abs t) js"
    using Cons.prems(4) ab keys entries_frame [OF t(3) _ Cons.prems(3), of "set js"] c
    by (intro Cons.IH [OF t(2)]) auto
  then obtain u where "install_loop js t = Ret () u" "bio_inv u {}" "bio_frame t u"
      "cache_abs u = copies (log_key t) (home_key t) (cache_abs t) js" by blast
  then show ?case using t keys bio_frame_trans by auto
qed

lemma write_head_abs:
  assumes "bio_inv s {}" and "busy_keys s = {}" and "card (dirty_keys s) < NBUF" and "ide_key (head_key s)"
    and "0 \<le> lh_n s" and "lh_n s \<le> 30" and "length (lh_sector s) = LOGSIZE"
  shows "\<exists>t. write_head s = Ret () t \<and> bio_inv t {} \<and> bio_frame s t
    \<and> cache_abs t = c_write (head_key s) (c_modify (head_key s) (put_head (lh_n s) (lh_sector s)) (cache_abs s))"
proof -
  let ?d = "log_dev s" and ?st = "log_start s" and ?f = "put_head (lh_n s) (lh_sector s)"
  have r: "can_read (?d, ?st) (cache_abs s)"
    using assms(2-4) by (intro can_readI) (simp_all add: head_key_def)
  have "length (?f (cview (cache_abs s) (?d, ?st))) = BSIZE"
    using put_head(1) [OF bview_length [OF assms(1)], of "(?d, ?st)"] assms(4-7) by (simp add: head_key_def)
  with bc.write_block [OF assms(1) r, of ?f] obtain t where
    t: "kbind (bread ?d ?st) (\<lambda>b. kthen (bmodify b ?f) (kthen (bwrite b) (brelse b))) s = Ret () t"
      "bio_inv t {}" "cache_abs t = c_write (?d, ?st) (c_modify (?d, ?st) ?f (cache_abs s))" "bio_frame s t"
    by blast
  have "write_head s = kbind (bread ?d ?st) (\<lambda>b. kthen (bmodify b ?f) (kthen (bwrite b) (brelse b))) s"
    using assms(6) by (simp add: write_head_def put_head_def [abs_def] kbind_def kget_def split: outcome.split)
  then show ?thesis using t by (auto simp: head_key_def)
qed

section \<open>What a disk with a log stands for\<close>

definition log_geom :: "'a logst_scheme \<Rightarrow> bool" where
  "log_geom s \<longleftrightarrow> (log_dev s = 0 \<or> log_dev s = 1) \<and> 2 \<le> log_size s
     \<and> unat (log_start s) + nat (log_size s) \<le> 0x10000000 \<and> length (lh_sector s) = LOGSIZE"

definition log_region :: "'a logst_scheme \<Rightarrow> (u32 \<times> u32) set" where
  "log_region s = {k. fst k = log_dev s \<and> unat (log_start s) \<le> unat (snd k)
     \<and> unat (snd k) < unat (log_start s) + nat (log_size s)}"

text \<open>Places that hold data: those of legal sectors outside the log.\<close>

definition data_key :: "'a logst_scheme \<Rightarrow> u32 \<times> u32 \<Rightarrow> bool" where
  "data_key s k \<longleftrightarrow> ide_key k \<and> k \<notin> log_region s"

definition log_writes :: "'a logst_scheme \<Rightarrow> (bool \<times> nat \<Rightarrow> block) \<Rightarrow> ((bool \<times> nat) \<times> block) list" where
  "log_writes s d = (let secs = head_secs (d (key_loc (head_key s))) in
     map (\<lambda>i. (ide_loc (log_dev s) (secs ! i), d (key_loc (log_key s i)))) [0..<length secs])"

definition ldisk :: "'a logst_scheme \<Rightarrow> (bool \<times> nat \<Rightarrow> block) \<Rightarrow> (bool \<times> nat \<Rightarrow> block)" where
  "ldisk s d = replay (log_writes s d) d"

definition head_ok :: "'a logst_scheme \<Rightarrow> (bool \<times> nat \<Rightarrow> block) \<Rightarrow> bool" where
  "head_ok s d \<longleftrightarrow> (let x = d (key_loc (head_key s)) in
     0 \<le> head_n x \<and> head_n x \<le> 30 \<and> head_n x \<le> log_size s - 1 \<and> distinct (head_secs x)
     \<and> (\<forall>w\<in>set (head_secs x). data_key s (log_dev s, w)))"

lemma unat_log_block:
  assumes "log_geom s" and "int i < log_size s - 1"
  shows "unat (log_block s i) = unat (log_start s) + i + 1"
proof -
  have "i + 1 < nat (log_size s)" using assms(2) by simp
  then have i: "unat (log_start s) + (i + 1) < 4294967296" using assms(1) unfolding log_geom_def by linarith
  then have n: "unat (of_nat (i + 1) :: u32) = i + 1" using u32_of_nat_small [of "i + 1"] by linarith
  have "log_block s i = log_start s + of_nat (i + 1)" by (simp add: log_block_def add.assoc)
  then show ?thesis using u32_unat_plus [of "log_start s" "of_nat (i + 1)"] n i by (simp only: add.assoc)
qed

lemma log_key_region:
  assumes "log_geom s" and "int i < log_size s - 1"
  shows "log_key s i \<in> log_region s" and "ide_key (log_key s i)" and "log_key s i \<noteq> head_key s"
proof -
  note b = unat_log_block [OF assms]
  have "i + 1 < nat (log_size s)" using assms(2) by simp
  then show "log_key s i \<in> log_region s" using b by (simp add: log_key_def log_region_def)
  have "unat (log_block s i) < 0x10000000"
    using b assms(1) \<open>i + 1 < nat (log_size s)\<close> unfolding log_geom_def by linarith
  then show "ide_key (log_key s i)"
    using assms(1) by (simp add: log_key_def ide_key_def log_geom_def word_less_nat_alt)
  show "log_key s i \<noteq> head_key s" using b by (auto simp: log_key_def head_key_def)
qed

lemma region_ide: "log_geom s \<Longrightarrow> k \<in> log_region s \<Longrightarrow> ide_key k"
  unfolding log_region_def ide_key_def log_geom_def mem_Collect_eq word_less_nat_alt
  by (elim conjE) simp

lemma head_key_region:
  assumes "log_geom s"
  shows "head_key s \<in> log_region s" and "ide_key (head_key s)"
proof -
  have "0 < nat (log_size s)" using assms by (simp add: log_geom_def)
  then show "head_key s \<in> log_region s" by (simp add: log_region_def head_key_def)
  then show "ide_key (head_key s)" by (rule region_ide [OF assms])
qed

lemma log_key_inj:
  assumes "log_geom s" and "int i < log_size s - 1" and "int j < log_size s - 1" and "log_key s i = log_key s j"
  shows "i = j"
proof -
  have "unat (log_block s i) = unat (log_block s j)" using assms(4) by (simp add: log_key_def)
  then show ?thesis using unat_log_block [OF assms(1,2)] unat_log_block [OF assms(1,3)] by linarith
qed

lemma data_loc: "log_geom s \<Longrightarrow> data_key s k \<Longrightarrow> k' \<in> log_region s \<Longrightarrow> key_loc k \<noteq> key_loc k'"
  using key_loc_inj [of k k'] region_ide [of s k'] by (auto simp: data_key_def)

text \<open>The writes of an installation go to places of data, and read from the log.\<close>

lemma log_writes_places:
  assumes "log_geom s" and "head_ok s d" and "l \<in> fst ` set (log_writes s d)"
  shows "\<exists>w. data_key s (log_dev s, w) \<and> l = ide_loc (log_dev s) w"
proof -
  let ?secs = "head_secs (d (key_loc (head_key s)))"
  obtain i where "i < length ?secs" "l = ide_loc (log_dev s) (?secs ! i)"
    using assms(3) by (auto simp: log_writes_def Let_def)
  moreover have "data_key s (log_dev s, ?secs ! i)" if "i < length ?secs" for i
    using assms(2) nth_mem [OF that] by (auto simp: head_ok_def Let_def)
  ultimately show ?thesis by blast
qed

text \<open>A disk that agrees on the log has the same installation.\<close>

lemma log_writes_cong:
  assumes "log_geom s" and "head_ok s d" and "\<And>k. k \<in> log_region s \<Longrightarrow> d' (key_loc k) = d (key_loc k)"
  shows "log_writes s d' = log_writes s d" and "head_ok s d'"
proof -
  let ?x = "d (key_loc (head_key s))"
  have x: "d' (key_loc (head_key s)) = ?x" using assms(3) head_key_region [OF assms(1)] by blast
  have "d' (key_loc (log_key s i)) = d (key_loc (log_key s i))" if "i < length (head_secs ?x)" for i
  proof -
    have "head_n ?x \<le> log_size s - 1" using assms(2) by (simp add: head_ok_def Let_def)
    moreover have "int i < head_n ?x" using that by (simp add: head_secs_def)
    ultimately have "int i < log_size s - 1" by linarith
    then show ?thesis using assms(1,3) log_key_region(1) by blast
  qed
  then show "log_writes s d' = log_writes s d" unfolding log_writes_def x Let_def by simp
  show "head_ok s d'" using assms(2) unfolding head_ok_def x .
qed

lemma replay_prefix_other:
  "l \<notin> fst ` set h \<Longrightarrow> replay (take k h) d l = d l"
  by (rule replay_other) (auto dest: in_set_takeD)

lemma head_n_0_secs: "head_n x = 0 \<Longrightarrow> head_secs x = []"
  by (simp add: head_secs_def)

lemma ldisk_clean: "head_n (d (key_loc (head_key s))) = 0 \<Longrightarrow> ldisk s d = d"
  by (simp add: ldisk_def log_writes_def head_n_0_secs)

text \<open>
  Stop an installation, or the erasing of the header behind it, after any number of writes: the
  data that the disk stands for is the same.
\<close>

lemma install_prefix:
  assumes "log_geom s" and "head_ok s d" and "head_n x' = 0"
  shows "data_key s key \<Longrightarrow>
      ldisk s (replay (take k (log_writes s d @ [(key_loc (head_key s), x')])) d) (key_loc key) = ldisk s d (key_loc key)"
    and "head_ok s (replay (take k (log_writes s d @ [(key_loc (head_key s), x')])) d)"
proof -
  let ?W = "log_writes s d" and ?hl = "key_loc (head_key s)"
  let ?d = "replay (take k ?W) d"
  have region: "?d (key_loc k') = d (key_loc k')" if "k' \<in> log_region s" for k'
  proof (rule replay_prefix_other, rule notI)
    assume "key_loc k' \<in> fst ` set ?W"
    then obtain w where "data_key s (log_dev s, w)" "key_loc k' = ide_loc (log_dev s) w"
      using log_writes_places [OF assms(1,2)] by blast
    then show False using data_loc [OF assms(1) _ that, of "(log_dev s, w)"] by simp
  qed
  have same: "log_writes s ?d = ?W" "head_ok s ?d"
    using log_writes_cong [OF assms(1,2), of ?d] region by blast+
  have "ldisk s ?d = ldisk s d"
    unfolding ldisk_def same(1) by (rule replay_absorb) (simp add: replay_prefix_other)
  moreover have "ldisk s ((replay ?W d)(?hl := x')) (key_loc key) = ldisk s d (key_loc key)" if "data_key s key"
    using ldisk_clean [of "(replay ?W d)(?hl := x')" s] assms(3) data_loc [OF assms(1) that head_key_region(1) [OF assms(1)]]
    by (simp add: ldisk_def)
  moreover have "head_ok s ((replay ?W d)(?hl := x'))"
    using assms(1,3) by (simp add: head_ok_def Let_def head_n_0_secs log_geom_def)
  moreover have "take k (?W @ [(?hl, x')]) = (if k \<le> length ?W then take k ?W else ?W @ [(?hl, x')])" by simp
  ultimately show "data_key s key \<Longrightarrow> ldisk s (replay (take k (?W @ [(?hl, x')])) d) (key_loc key) = ldisk s d (key_loc key)"
    and "head_ok s (replay (take k (?W @ [(?hl, x')])) d)"
    using same(2) by (auto simp: replay_append)
qed

section \<open>Recovery\<close>

lemma bview_clean:
  assumes "bio_inv s {}" and "ide_key k" and "k \<notin> dirty_keys s"
  shows "bview s k = disk s (key_loc k)"
proof (cases "bcached s k")
  case None
  then show ?thesis using assms(2) by (rule bview_uncached)
next
  case (Some i)
  then have i: "i < NBUF" "pkey (bufs s i) = k" using bcached_SomeD [OF Some] by auto
  then have "\<not> bdirty (bufs s i)" using assms(3) by (auto simp: dirty_keys_def)
  then show ?thesis
    using buf_ok_dev [OF bio_inv_buf [OF assms(1) i(1)]] ide_key_dev [of "bufs s i"] assms(2) i(2) Some
    by (simp add: bview_def)
qed

lemma log_fields_bio [simp]:
  "bio_inv (s\<lparr>lh_n := n, lh_sector := w\<rparr>) T = bio_inv s T" "bio_inv (s\<lparr>lh_n := n\<rparr>) T = bio_inv s T"
  "holds (s\<lparr>lh_n := n, lh_sector := w\<rparr>) = holds s"
  by (simp_all add: bio_inv_def holds_def fun_eq_iff)

lemma log_fields_abs [simp]:
  "cache_abs (s\<lparr>lh_n := n, lh_sector := w\<rparr>) = cache_abs s" "cache_abs (s\<lparr>lh_n := n\<rparr>) = cache_abs s"
proof -
  have "bview (s\<lparr>lh_n := n, lh_sector := w\<rparr>) = bview s" "bview (s\<lparr>lh_n := n\<rparr>) = bview s"
    by (rule bview_cong; simp)+
  then show "cache_abs (s\<lparr>lh_n := n, lh_sector := w\<rparr>) = cache_abs s" "cache_abs (s\<lparr>lh_n := n\<rparr>) = cache_abs s"
    by (simp_all add: cache_abs_def busy_keys_def dirty_keys_def)
qed

text \<open>A cache operation commutes with setting the header in memory.\<close>

lemma bio_frame_header:
  assumes "bio_frame s u"
  shows "bio_frame (s\<lparr>lh_n := n, lh_sector := w\<rparr>) (u\<lparr>lh_n := n, lh_sector := w\<rparr>)"
    and "bio_frame (s\<lparr>lh_n := n\<rparr>) (u\<lparr>lh_n := n\<rparr>)"
proof -
  obtain ps f d h where u: "u = s\<lparr>ptable := ps, bufs := f, disk := d, hist := h\<rparr>"
    using assms by (auto simp: bio_frame_def)
  have "u\<lparr>lh_n := n, lh_sector := w\<rparr> = s\<lparr>lh_n := n, lh_sector := w, ptable := ps, bufs := f, disk := d, hist := h\<rparr>"
    "u\<lparr>lh_n := n\<rparr> = s\<lparr>lh_n := n, ptable := ps, bufs := f, disk := d, hist := h\<rparr>"
    unfolding u by (rule logst.equality; simp)+
  then show "bio_frame (s\<lparr>lh_n := n, lh_sector := w\<rparr>) (u\<lparr>lh_n := n, lh_sector := w\<rparr>)"
    and "bio_frame (s\<lparr>lh_n := n\<rparr>) (u\<lparr>lh_n := n\<rparr>)"
    unfolding bio_frame_def by blast+
qed

lemma read_head_spec:
  assumes "bio_inv s {}" and "can_read (head_key s) (cache_abs s)" and "head_n (bview s (head_key s)) \<le> 30"
  defines "x \<equiv> bview s (head_key s)"
  shows "\<exists>t. read_head s = Ret () t \<and> bio_inv t {} \<and> cache_abs t = cache_abs s
    \<and> bio_frame (s\<lparr>lh_n := head_n x, lh_sector := splice 0 (head_secs x) (lh_sector s)\<rparr>) t"
proof -
  obtain b u where u: "bread (log_dev s) (log_start s) s = Ret b u" "bio_inv u {}"
      "holds u b (head_key s)" "cache_abs u = c_read (head_key s) (cache_abs s)" "bio_frame s u"
    using bread_law [OF assms(1), of "log_dev s" "log_start s"] assms(2) by (auto simp: head_key_def)
  have x: "bdata_of b u = Ret x u"
    using bc.content_law [OF u(2,3)] u(4) by (simp add: x_def c_read_def)
  let ?w = "splice 0 (head_secs x) (lh_sector u)"
  let ?u = "u\<lparr>lh_n := head_n x, lh_sector := ?w\<rparr>"
  have "bio_inv ?u {}" "holds ?u b (head_key s)" using u(2,3) by simp_all
  then obtain t where t: "brelse b ?u = Ret () t" "bio_inv t {}" "cache_abs t = c_release (head_key s) (cache_abs ?u)"
      "bio_frame ?u t"
    using brelse_law [of ?u "{}" b "head_key s"] by auto
  have "cache_abs t = cache_abs s"
    using t(3) u(4) assms(2) by (simp add: c_release_def c_read_def can_read_def)
  moreover have "read_head s = Ret () t"
    using u(1) x t(1) assms(3)
    by (simp add: read_head_def kbind_def kget_def Let_def head_n_def head_secs_def kmodify_def flip: x_def)
  moreover have "bio_frame (s\<lparr>lh_n := head_n x, lh_sector := splice 0 (head_secs x) (lh_sector s)\<rparr>) ?u"
    using bio_frame_header(1) [OF u(5)] bio_frame_log [OF u(5)] by simp
  ultimately show ?thesis using t(2,4) bio_frame_trans by blast
qed

text \<open>The entries of a legal header, once they are in memory.\<close>

lemma entries_of_head:
  assumes "log_geom s" and "0 \<le> n" and "n \<le> 30" and "n \<le> log_size s - 1"
    and "\<And>i. i < nat n \<Longrightarrow> data_key s (home_key s i)" and "dirty_keys s \<inter> log_region s = {}"
  shows "entries_ok s (set [0..<nat n])"
proof -
  have lt: "int i < log_size s - 1" if "i < nat n" for i using that assms(2,4) by linarith
  have "log_key s i \<noteq> home_key s j" if "i < nat n" "j < nat n" for i j
    using log_key_region(1) [OF assms(1) lt [OF that(1)]] assms(5) [OF that(2)] by (auto simp: data_key_def)
  then show ?thesis
    using assms log_key_region [OF assms(1) lt] by (auto simp: entries_ok_def data_key_def)
qed

lemma log_geom_frame:
  "bio_frame s t \<Longrightarrow> log_geom t = log_geom s \<and> log_region t = log_region s \<and> data_key t = data_key s
     \<and> head_ok t = head_ok s \<and> log_writes t = log_writes s"
  using bio_frame_log [of s t] keys_frame [of s t]
  by (simp add: log_geom_def log_region_def data_key_def [abs_def] head_ok_def [abs_def] log_writes_def [abs_def])

text \<open>The phase that commit and recovery share: the blocks of the log go to their places, then the
  header is erased.\<close>

lemma install_phase:
  fixes s :: "'a logst_scheme"
  defines "W \<equiv> map (\<lambda>i. (key_loc (home_key s i), bview s (log_key s i))) [0..<nat (lh_n s)]"
  assumes "bio_inv s {}" and "busy_keys s = {}" and "log_geom s"
    and "entries_ok s (set [0..<nat (lh_n s)])" and "distinct (map (home_key s) [0..<nat (lh_n s)])"
    and "card (dirty_keys s) < NBUF \<and> home_key s ` set [0..<nat (lh_n s)] \<subseteq> dirty_keys s \<or> card (dirty_keys s) + 1 < NBUF"
  shows "\<exists>t x'. kthen install_trans (kthen (kmodify (\<lambda>s. s\<lparr>lh_n := 0\<rparr>)) write_head) s = Ret () t
    \<and> bio_inv t {} \<and> busy_keys t = {} \<and> dirty_keys t = dirty_keys s - home_key s ` set [0..<nat (lh_n s)] - {head_key s}
    \<and> head_n x' = 0 \<and> bio_frame (s\<lparr>lh_n := 0\<rparr>) t
    \<and> hist t = hist s @ W @ [(key_loc (head_key s), x')] \<and> disk t = replay (W @ [(key_loc (head_key s), x')]) (disk s)
    \<and> (\<forall>k. k \<notin> log_region s \<longrightarrow> k \<notin> home_key s ` set [0..<nat (lh_n s)] \<longrightarrow> bview t k = bview s k)
    \<and> (\<forall>i<nat (lh_n s). home_key s i \<noteq> head_key s \<longrightarrow> bview t (home_key s i) = bview s (log_key s i))"
proof -
  let ?I = "[0..<nat (lh_n s)]" and ?hk = "head_key s"
  note hk = head_key_region [OF assms(4)]
  obtain t2 where t2: "install_loop ?I s = Ret () t2" "bio_inv t2 {}" "bio_frame s t2"
      "cache_abs t2 = copies (log_key s) (home_key s) (cache_abs s) ?I"
    using install_loop_abs [OF assms(2,3,5,6,7)] by blast
  have ne: "log_key s i \<noteq> home_key s j" if "i \<in> set ?I" "j \<in> set ?I" for i j
    using assms(5) that unfolding entries_ok_def by blast
  note ch = copies_hist [of ?I "log_key s" "home_key s" "cache_abs s", OF ne]
  have abs2: "hist t2 = hist s @ W" "disk t2 = replay W (disk s)" "busy_keys t2 = {}"
      "dirty_keys t2 = dirty_keys s - home_key s ` set ?I" "bview t2 = cview (copies (log_key s) (home_key s) (cache_abs s) ?I)"
    using ch arg_cong [OF t2(4), of chist] arg_cong [OF t2(4), of cdisk] arg_cong [OF t2(4), of cbusy]
      arg_cong [OF t2(4), of cdirty] arg_cong [OF t2(4), of cview] assms(3)
    by (auto simp: copies_busy copies_dirty W_def)
  let ?t2 = "t2\<lparr>lh_n := 0\<rparr>"
  have hk2: "head_key ?t2 = ?hk" using bio_frame_log [OF t2(3)] by (simp add: head_key_def)
  have "card (dirty_keys t2) \<le> card (dirty_keys s)"
    unfolding abs2(4) by (rule card_mono) (auto simp: dirty_keys_def)
  then have abs2': "busy_keys ?t2 = {}" "card (dirty_keys ?t2) < NBUF"
    using abs2 assms(7) by (auto simp: busy_keys_def dirty_keys_def)
  have len2: "length (lh_sector ?t2) = LOGSIZE" using bio_frame_log [OF t2(3)] assms(4) by (simp add: log_geom_def)
  obtain t where t: "write_head ?t2 = Ret () t" "bio_inv t {}" "bio_frame ?t2 t"
      "cache_abs t = c_write ?hk (c_modify ?hk (put_head 0 (lh_sector t2)) (cache_abs t2))"
    using write_head_abs [of ?t2] t2(2) abs2' hk(2) hk2 len2 by auto
  let ?x' = "put_head 0 (lh_sector t2) (bview t2 ?hk)"
  have "head_n ?x' = 0" using put_head(2) [OF bview_length [OF t2(2) hk(2)]] len2 by simp
  moreover have abs: "hist t = hist t2 @ [(key_loc ?hk, ?x')]" "disk t = (disk t2)(key_loc ?hk := ?x')"
      "busy_keys t = {}" "dirty_keys t = dirty_keys t2 - {?hk}" "bview t = (bview t2)(?hk := ?x')"
    using arg_cong [OF t(4), of chist] arg_cong [OF t(4), of cdisk] arg_cong [OF t(4), of cbusy]
      arg_cong [OF t(4), of cdirty] arg_cong [OF t(4), of cview] abs2 by (simp_all add: c_write_def c_modify_def)
  moreover have "kthen install_trans (kthen (kmodify (\<lambda>s. s\<lparr>lh_n := 0\<rparr>)) write_head) s = Ret () t"
    using t2(1) t(1) by (simp add: install_trans_def kbind_def kget_def kmodify_def)
  moreover have "bio_frame (s\<lparr>lh_n := 0\<rparr>) t" using bio_frame_header(2) [OF t2(3)] t(3) bio_frame_trans by blast
  moreover have "bview t k = bview s k" if "k \<notin> log_region s" "k \<notin> home_key s ` set ?I" for k
    using copies_view [of ?I "log_key s" "home_key s" undefined "cache_abs s" k, OF ne assms(6)] that hk(1) abs(5) abs2(5)
    by (metis cache_abs_fields(1) fun_upd_other)
  moreover have "bview t (home_key s i) = bview s (log_key s i)" if "i < nat (lh_n s)" "home_key s i \<noteq> ?hk" for i
    using copies_view [of ?I "log_key s" "home_key s" i "cache_abs s", OF ne assms(6)] that abs(5) abs2(5) by simp
  ultimately show ?thesis using t(2) abs2 by (auto simp: replay_append)
qed

lemma recover_spec:
  assumes "bio_inv s {}" and "busy_keys s = {}" and "dirty_keys s = {}" and "log_geom s" and "head_ok s (disk s)"
  shows "\<exists>t x'. recover_from_log s = Ret () t \<and> bio_inv t {} \<and> busy_keys t = {} \<and> dirty_keys t = {}
    \<and> head_n x' = 0 \<and> lh_n t = 0 \<and> log_geom t \<and> head_key t = head_key s \<and> log_region t = log_region s
    \<and> hist t = hist s @ log_writes s (disk s) @ [(key_loc (head_key s), x')]
    \<and> disk t = replay (log_writes s (disk s) @ [(key_loc (head_key s), x')]) (disk s)"
proof -
  let ?hk = "head_key s" and ?d = "disk s"
  let ?x = "?d (key_loc ?hk)"
  define n where "n = head_n ?x"
  note hk = head_key_region [OF assms(4)]
  have x: "bview s ?hk = ?x" using bview_clean [OF assms(1) hk(2)] assms(3) by simp
  have n: "0 \<le> n" "n \<le> 30" "n \<le> log_size s - 1" and secs: "distinct (head_secs ?x)"
      "\<forall>w\<in>set (head_secs ?x). data_key s (log_dev s, w)" "length (head_secs ?x) = nat n"
    using assms(5) by (auto simp: head_ok_def Let_def n_def head_secs_def)
  let ?s1 = "s\<lparr>lh_n := n, lh_sector := splice 0 (head_secs ?x) (lh_sector s)\<rparr>"
  have "can_read ?hk (cache_abs s)" using hk assms(2,3) by (intro can_readI) auto
  then obtain t1 where t1: "read_head s = Ret () t1" "bio_inv t1 {}" "cache_abs t1 = cache_abs s" "bio_frame ?s1 t1"
    using read_head_spec [OF assms(1)] n(2) x by (auto simp: n_def)
  note f1 = bio_frame_log [OF t1(4)] log_geom_frame [OF t1(4)] keys_frame [OF t1(4)]
  have len: "length (lh_sector s) = LOGSIZE" using assms(4) by (simp add: log_geom_def)
  have sec: "lh_sector t1 ! i = head_secs ?x ! i" if "i < nat n" for i
    using f1 that secs(3) len n(2) by (simp add: nth_splice)
  have geom1: "log_geom t1" "data_key t1 = data_key s" "log_key t1 = log_key s" "head_key t1 = ?hk"
      "log_region t1 = log_region s" "lh_n t1 = n" "log_dev t1 = log_dev s" "log_size t1 = log_size s"
    using f1 assms(4) len secs(3) n(2)
    by (auto simp: log_geom_def log_region_def data_key_def fun_eq_iff log_key_def log_block_def head_key_def)
  have abs1: "dirty_keys t1 = {}" "busy_keys t1 = {}" "disk t1 = ?d" "bview t1 = bview s" "hist t1 = hist s"
    using arg_cong [OF t1(3), of cdirty] arg_cong [OF t1(3), of cbusy] arg_cong [OF t1(3), of cdisk]
      arg_cong [OF t1(3), of cview] arg_cong [OF t1(3), of chist] assms(2,3) by auto
  have home: "home_key t1 i = (log_dev s, head_secs ?x ! i)" "data_key t1 (home_key t1 i)" if "i < nat n" for i
    using sec [OF that] secs(2,3) nth_mem [of i "head_secs ?x"] that geom1 by (auto simp: home_key_def)
  have lt: "int i < log_size s - 1" if "i < nat n" for i using that n(1,3) by linarith
  have ent: "entries_ok t1 (set [0..<nat n])"
    using entries_of_head [OF geom1(1) n(1,2)] n(3) home(2) abs1(1) geom1(8) by simp
  have "map (home_key t1) [0..<nat n] = map (Pair (log_dev s)) (head_secs ?x)"
    using home(1) secs(3) by (intro nth_equalityI) auto
  then have dist: "distinct (map (home_key t1) [0..<nat n])" using secs(1) by (simp add: distinct_map inj_on_def)
  have W: "map (\<lambda>i. (key_loc (home_key t1 i), bview t1 (log_key t1 i))) [0..<nat n] = log_writes s ?d"
    unfolding log_writes_def Let_def secs(3)
    using home(1) bview_clean [OF assms(1) log_key_region(2) [OF assms(4) lt]] assms(3) abs1(4) geom1(3)
    by (intro map_cong) auto
  obtain t x' where t: "kthen install_trans (kthen (kmodify (\<lambda>s. s\<lparr>lh_n := 0\<rparr>)) write_head) t1 = Ret () t"
      "bio_inv t {}" "busy_keys t = {}" "dirty_keys t = {}" "head_n x' = 0" "bio_frame (t1\<lparr>lh_n := 0\<rparr>) t"
      "hist t = hist s @ log_writes s ?d @ [(key_loc ?hk, x')]" "disk t = replay (log_writes s ?d @ [(key_loc ?hk, x')]) ?d"
    using install_phase [OF t1(2) abs1(2) geom1(1)] ent dist abs1 geom1(4,6) W by auto
  moreover have "recover_from_log s = Ret () t" using t1(1) t(1) by (simp add: recover_from_log_def kbind_def)
  moreover have "lh_n t = 0" "log_geom t" "head_key t = ?hk" "log_region t = log_region s"
    using bio_frame_log [OF t(6)] geom1 by (auto simp: log_geom_def log_region_def head_key_def)
  ultimately show ?thesis by blast
qed

section \<open>Commit\<close>

text \<open>The state of the log between commits: the sectors in the header in memory are distinct places of
  data and they are exactly the pinned ones, and the header on disk is empty.\<close>

definition log_ok :: "'a logst_scheme \<Rightarrow> bool" where
  "log_ok s \<longleftrightarrow> log_geom s \<and> 0 \<le> lh_n s \<and> lh_n s < 30 \<and> lh_n s \<le> log_size s - 1
     \<and> distinct (take (nat (lh_n s)) (lh_sector s))
     \<and> (\<forall>i<nat (lh_n s). data_key s (home_key s i))
     \<and> dirty_keys s = home_key s ` {..<nat (lh_n s)}
     \<and> head_n (disk s (key_loc (head_key s))) = 0"

lemma log_okD:
  assumes "log_ok s"
  shows "log_geom s" and "0 \<le> lh_n s" and "lh_n s < 30" and "lh_n s \<le> log_size s - 1"
    and "i < nat (lh_n s) \<Longrightarrow> data_key s (home_key s i)"
    and "dirty_keys s = home_key s ` {..<nat (lh_n s)}" and "head_n (disk s (key_loc (head_key s))) = 0"
    and "length (lh_sector s) = LOGSIZE" and "distinct (take (nat (lh_n s)) (lh_sector s))"
  using assms by (auto simp: log_ok_def log_geom_def)

lemma log_ok_dirty:
  assumes "log_ok s"
  shows "dirty_keys s \<inter> log_region s = {}" and "card (dirty_keys s) < NBUF"
    and "distinct (map (home_key s) [0..<nat (lh_n s)])"
proof -
  show "dirty_keys s \<inter> log_region s = {}" using log_okD(5,6) [OF assms] by (auto simp: data_key_def)
  have "card (dirty_keys s) \<le> nat (lh_n s)"
    unfolding log_okD(6) [OF assms] using card_image_le [of "{..<nat (lh_n s)}" "home_key s"] by simp
  then show "card (dirty_keys s) < NBUF" using log_okD(2,3) [OF assms] by linarith
  have "map (home_key s) [0..<nat (lh_n s)] = map (Pair (log_dev s)) (take (nat (lh_n s)) (lh_sector s))"
    using log_okD(3,8) [OF assms] by (intro nth_equalityI) (auto simp: home_key_def)
  then show "distinct (map (home_key s) [0..<nat (lh_n s)])"
    using log_okD(9) [OF assms] by (simp add: distinct_map inj_on_def)
qed

text \<open>The writes of a commit, as they go to the disk.\<close>

definition commit_log :: "'a logst_scheme \<Rightarrow> ((bool \<times> nat) \<times> block) list" where
  "commit_log s = map (\<lambda>i. (key_loc (log_key s i), bview s (home_key s i))) [0..<nat (lh_n s)]"

definition commit_head :: "'a logst_scheme \<Rightarrow> block" where
  "commit_head s = put_head (lh_n s) (lh_sector s) (bview s (head_key s))"

definition committed :: "'a logst_scheme \<Rightarrow> (bool \<times> nat \<Rightarrow> block)" where
  "committed s = (replay (commit_log s) (disk s))(key_loc (head_key s) := commit_head s)"

lemma committed_head:
  assumes "bio_inv s {}" and "log_ok s"
  shows "head_n (commit_head s) = lh_n s" and "head_secs (commit_head s) = take (nat (lh_n s)) (lh_sector s)"
  using put_head(2,3) [OF bview_length [OF assms(1) head_key_region(2)], of s "lh_n s" "lh_sector s"] log_okD [OF assms(2)]
  by (simp_all add: commit_head_def)

text \<open>The log blocks are in place.\<close>

lemma committed_block:
  assumes "log_ok s" and "i < nat (lh_n s)"
  shows "committed s (key_loc (log_key s i)) = bview s (home_key s i)"
proof -
  note ok = log_okD [OF assms(1)]
  have lt: "int j < log_size s - 1" if "j < nat (lh_n s)" for j using that ok(2,4) by linarith
  note ik = log_key_region(2) [OF ok(1) lt]
  have "distinct (map (\<lambda>j. key_loc (log_key s j)) [0..<nat (lh_n s)])"
    using log_key_inj [OF ok(1) lt lt] key_loc_inj [OF ik ik] by (auto simp: distinct_map inj_on_def)
  then have "replay (commit_log s) (disk s) (key_loc (log_key s i)) = bview s (home_key s i)"
    unfolding commit_log_def using assms(2) by (intro replay_map_nth) auto
  moreover have "key_loc (log_key s i) \<noteq> key_loc (head_key s)"
    using key_loc_inj [OF ik [OF assms(2)] head_key_region(2) [OF ok(1)]] log_key_region(3) [OF ok(1) lt [OF assms(2)]] by simp
  ultimately show ?thesis by (simp add: committed_def)
qed

lemma committed_writes:
  assumes "bio_inv s {}" and "log_ok s"
  shows "log_writes s (committed s) = map (\<lambda>i. (key_loc (home_key s i), bview s (home_key s i))) [0..<nat (lh_n s)]"
    and "head_ok s (committed s)"
proof -
  note ok = log_okD [OF assms(2)] and h = committed_head [OF assms]
  have x: "committed s (key_loc (head_key s)) = commit_head s" by (simp add: committed_def)
  have secs: "length (head_secs (commit_head s)) = nat (lh_n s)" using h(2) ok(3,8) by simp
  show "log_writes s (committed s) = map (\<lambda>i. (key_loc (home_key s i), bview s (home_key s i))) [0..<nat (lh_n s)]"
    unfolding log_writes_def Let_def x secs
  proof (intro map_cong refl)
    fix i assume "i \<in> set [0..<nat (lh_n s)]"
    then have i: "i < nat (lh_n s)" by simp
    then have hi: "head_secs (commit_head s) ! i = lh_sector s ! i" by (simp only: h(2) nth_take)
    have home: "key_loc (home_key s i) = ide_loc (log_dev s) (lh_sector s ! i)" by (simp add: home_key_def)
    show "(ide_loc (log_dev s) (head_secs (commit_head s) ! i), committed s (key_loc (log_key s i)))
        = (key_loc (home_key s i), bview s (home_key s i))"
      unfolding hi home committed_block [OF assms(2) i] by (rule refl)
  qed
  have "data_key s (log_dev s, w)" if w: "w \<in> set (take (nat (lh_n s)) (lh_sector s))" for w
  proof -
    obtain i where i: "i < length (take (nat (lh_n s)) (lh_sector s))" "take (nat (lh_n s)) (lh_sector s) ! i = w"
      using w [unfolded in_set_conv_nth] by blast
    then have "i < nat (lh_n s)" "w = lh_sector s ! i" by simp_all
    then show ?thesis using ok(5) [of i] by (simp add: home_key_def)
  qed
  then show "head_ok s (committed s)"
    using ok(2-4,9) unfolding head_ok_def Let_def x h by simp
qed

text \<open>The first phase: the log blocks and then the header. From here on the transaction is committed.\<close>

lemma log_phase:
  assumes "bio_inv s {}" and "busy_keys s = {}" and "log_ok s"
  shows "\<exists>t. kthen write_log write_head s = Ret () t \<and> bio_inv t {} \<and> bio_frame s t \<and> busy_keys t = {}
    \<and> dirty_keys t = dirty_keys s \<and> hist t = hist s @ commit_log s @ [(key_loc (head_key s), commit_head s)]
    \<and> disk t = committed s \<and> (\<forall>k. data_key s k \<longrightarrow> bview t k = bview s k)
    \<and> (\<forall>i<nat (lh_n s). bview t (log_key s i) = bview s (home_key s i))"
proof -
  let ?hk = "head_key s" and ?I = "[0..<nat (lh_n s)]"
  note ok = log_okD [OF assms(3)] and dirty = log_ok_dirty [OF assms(3)]
  note hk = head_key_region [OF ok(1)]
  have ent: "entries_ok s (set ?I)"
    using entries_of_head [OF ok(1,2) _ ok(4) ok(5) dirty(1)] ok(3) by simp
  have lt: "int i < log_size s - 1" if "i < nat (lh_n s)" for i using that ok(2,4) by linarith
  obtain t1 where t1: "write_log_loop ?I s = Ret () t1" "bio_inv t1 {}" "bio_frame s t1"
      "cache_abs t1 = copies (home_key s) (log_key s) (cache_abs s) ?I"
    using write_log_loop_abs [OF assms(1,2) ent] dirty(2) ok(6) by (auto simp: atLeast0LessThan)
  have sd: "home_key s i \<noteq> log_key s j" if "i \<in> set ?I" "j \<in> set ?I" for i j
    using ent that unfolding entries_ok_def by metis
  have dl: "distinct (map (log_key s) ?I)"
    using log_key_inj [OF ok(1) lt lt] by (auto simp: distinct_map inj_on_def)
  note h1 = copies_hist [of ?I "home_key s" "log_key s" "cache_abs s", OF sd]
   and v1 = copies_view [of ?I "home_key s" "log_key s" _ "cache_abs s", OF sd dl]
  have abs1: "hist t1 = hist s @ commit_log s" "disk t1 = replay (commit_log s) (disk s)" "busy_keys t1 = {}"
      "bview t1 = cview (copies (home_key s) (log_key s) (cache_abs s) ?I)"
    using h1 arg_cong [OF t1(4), of chist] arg_cong [OF t1(4), of cdisk] arg_cong [OF t1(4), of cbusy]
      arg_cong [OF t1(4), of cview] assms(2)
    by (auto simp: commit_log_def copies_busy)
  have dirty1: "dirty_keys t1 = dirty_keys s"
    using arg_cong [OF t1(4), of cdirty] ent by (auto simp: copies_dirty entries_ok_def)
  note f1 = bio_frame_log [OF t1(3)] keys_frame [OF t1(3)]
  have logr: "log_key s i \<in> log_region s" "log_key s i \<noteq> ?hk" if "i < nat (lh_n s)" for i
    using log_key_region [OF ok(1) lt [OF that]] by auto
  have view1: "bview t1 k = bview s k" if "k \<notin> log_key s ` set ?I" for k
    using v1 [of undefined k] that unfolding abs1(4) by simp
  have view1l: "bview t1 (log_key s i) = bview s (home_key s i)" if "i < nat (lh_n s)" for i
    using v1 [of i] that unfolding abs1(4) by simp
  have "?hk \<notin> log_key s ` set ?I"
  proof
    assume "?hk \<in> log_key s ` set ?I"
    then obtain i where "i < nat (lh_n s)" "log_key s i = ?hk" by auto
    with logr(2) show False by blast
  qed
  then have hv: "bview t1 ?hk = bview s ?hk" by (rule view1)
  obtain t where t: "write_head t1 = Ret () t" "bio_inv t {}" "bio_frame t1 t"
      "cache_abs t = c_write ?hk (c_modify ?hk (put_head (lh_n s) (lh_sector s)) (cache_abs t1))"
    using write_head_abs [OF t1(2) abs1(3)] dirty(2) dirty1 hk(2) f1 ok(2,3,8) by auto
  have abs: "hist t = hist t1 @ [(key_loc ?hk, commit_head s)]" "disk t = (disk t1)(key_loc ?hk := commit_head s)"
      "busy_keys t = {}" "dirty_keys t = dirty_keys t1 - {?hk}" "bview t = (bview t1)(?hk := commit_head s)"
    using arg_cong [OF t(4), of chist] arg_cong [OF t(4), of cdisk] arg_cong [OF t(4), of cbusy]
      arg_cong [OF t(4), of cdirty] arg_cong [OF t(4), of cview] abs1(3) hv
    by (simp_all add: c_write_def c_modify_def commit_head_def)
  have "kthen write_log write_head s = Ret () t"
    using t1(1) t(1) by (simp add: write_log_def kbind_def kget_def)
  moreover have "?hk \<notin> dirty_keys s" using dirty(1) hk(1) by auto
  moreover have "bview t k = bview s k" if "data_key s k" for k
  proof -
    have "k \<noteq> ?hk" "k \<notin> log_key s ` set ?I" using that hk(1) logr(1) by (auto simp: data_key_def)
    then show ?thesis using view1 by (simp add: abs(5))
  qed
  moreover have "bview t (log_key s i) = bview s (home_key s i)" if "i < nat (lh_n s)" for i
    using view1l [OF that] logr(2) [OF that] by (simp add: abs(5))
  moreover have "bio_frame s t" using t1(3) t(3) bio_frame_trans by blast
  ultimately show ?thesis using t(2) abs abs1 dirty1 by (auto simp: committed_def)
qed

lemma commit_spec:
  assumes "bio_inv s {}" and "busy_keys s = {}" and "log_ok s" and "0 < lh_n s"
  shows "\<exists>t x'. commit s = Ret () t \<and> bio_inv t {} \<and> busy_keys t = {} \<and> dirty_keys t = {} \<and> head_n x' = 0
    \<and> bio_frame (s\<lparr>lh_n := 0\<rparr>) t
    \<and> hist t = hist s @ commit_log s @ [(key_loc (head_key s), commit_head s)]
         @ log_writes s (committed s) @ [(key_loc (head_key s), x')]
    \<and> disk t = replay (log_writes s (committed s) @ [(key_loc (head_key s), x')]) (committed s)
    \<and> (\<forall>k. data_key s k \<longrightarrow> bview t k = bview s k)"
proof -
  let ?hk = "head_key s" and ?I = "[0..<nat (lh_n s)]"
  note ok = log_okD [OF assms(3)] and dirty = log_ok_dirty [OF assms(3)]
  obtain u where u: "kthen write_log write_head s = Ret () u" "bio_inv u {}" "bio_frame s u" "busy_keys u = {}"
      "dirty_keys u = dirty_keys s" "disk u = committed s"
      "hist u = hist s @ commit_log s @ [(key_loc ?hk, commit_head s)]"
      "\<forall>k. data_key s k \<longrightarrow> bview u k = bview s k"
      "\<forall>i<nat (lh_n s). bview u (log_key s i) = bview s (home_key s i)"
    using log_phase [OF assms(1-3)] by blast
  note f = bio_frame_log [OF u(3)] keys_frame [OF u(3)] log_geom_frame [OF u(3)]
  have home: "home_key u = home_key s" "log_key u = log_key s" "lh_n u = lh_n s" "head_key u = ?hk"
    "log_region u = log_region s" "log_geom u" "data_key u = data_key s" "log_size u = log_size s"
    using f ok(1) by simp_all
  have W: "map (\<lambda>i. (key_loc (home_key s i), bview u (log_key s i))) ?I = log_writes s (committed s)"
    unfolding committed_writes(1) [OF assms(1,3)] using u(9) by (intro map_cong) simp_all
  have ent: "entries_ok u (set ?I)"
    using entries_of_head [OF home(6), of "lh_n s"] ok(2-5) dirty(1) unfolding home u(5) by simp
  have card: "card (dirty_keys s) < NBUF \<and> home_key s ` set ?I \<subseteq> dirty_keys s"
    using dirty(2) ok(6) by auto
  have hd: "home_key s i \<noteq> ?hk" if "i < nat (lh_n s)" for i
    using ok(5) [OF that] head_key_region(1) [OF ok(1)] by (auto simp: data_key_def)
  have gone: "dirty_keys u - home_key u ` set [0..<nat (lh_n u)] - {head_key u} = {}"
    using ok(6) unfolding home u(5) by auto
  obtain t x' where t: "kthen install_trans (kthen (kmodify (\<lambda>s. s\<lparr>lh_n := 0\<rparr>)) write_head) u = Ret () t"
      "bio_inv t {}" "busy_keys t = {}" "dirty_keys t = {}" "head_n x' = 0" "bio_frame (u\<lparr>lh_n := 0\<rparr>) t"
      "hist t = hist u @ log_writes s (committed s) @ [(key_loc ?hk, x')]"
      "disk t = replay (log_writes s (committed s) @ [(key_loc ?hk, x')]) (committed s)"
      "\<forall>k. k \<notin> log_region s \<longrightarrow> k \<notin> home_key s ` set ?I \<longrightarrow> bview t k = bview u k"
      "\<forall>i<nat (lh_n s). home_key s i \<noteq> ?hk \<longrightarrow> bview t (home_key s i) = bview u (log_key s i)"
    using install_phase [OF u(2,4) home(6), unfolded gone, unfolded home W u(5,6), OF ent dirty(3) disjI1, OF card]
    by blast
  have "commit s = Ret () t" using u(1) t(1) assms(4) by (auto simp: commit_def kbind_def kget_def split: outcome.splits)
  moreover have "bview t k = bview s k" if "data_key s k" for k
  proof (cases "k \<in> home_key s ` set ?I")
    case True
    then obtain i where "i < nat (lh_n s)" "k = home_key s i" by auto
    then show ?thesis using t(10) hd u(9) by simp
  next
    case False
    moreover have "k \<notin> log_region s" using that by (simp add: data_key_def)
    ultimately have "bview t k = bview u k" using t(9) by blast
    then show ?thesis using u(8) that by metis
  qed
  moreover have "bio_frame (s\<lparr>lh_n := 0\<rparr>) t" using bio_frame_header(2) [OF u(3)] t(6) bio_frame_trans by blast
  ultimately show ?thesis using t u(7) by auto
qed

section \<open>Transactions\<close>

lemma header_order: "s\<lparr>lh_sector := w, lh_n := n\<rparr> = s\<lparr>lh_n := n, lh_sector := w\<rparr>"
  by (rule logst.equality) simp_all

lemma log_slot_new:
  assumes "log_ok s" and "sec \<notin> set (take (nat (lh_n s)) (lh_sector s))"
  shows "log_slot sec s = nat (lh_n s)"
proof -
  have "find_first (\<lambda>x. x = sec) (take (nat (lh_n s)) (lh_sector s)) = None"
    unfolding find_first_None using assms(2) by blast
  then show ?thesis by (simp add: log_slot_def)
qed

lemma log_slot_old:
  assumes "log_ok s" and "sec \<in> set (take (nat (lh_n s)) (lh_sector s))"
  shows "log_slot sec s < nat (lh_n s)" and "lh_sector s ! log_slot sec s = sec"
proof -
  let ?l = "take (nat (lh_n s)) (lh_sector s)"
  obtain i where "find_first (\<lambda>x. x = sec) ?l = Some i"
    using assms(2) find_first_None [of "\<lambda>x. x = sec" ?l] by (cases "find_first (\<lambda>x. x = sec) ?l") blast+
  then show "log_slot sec s < nat (lh_n s)" and "lh_sector s ! log_slot sec s = sec"
    using find_first_Some [of "\<lambda>x. x = sec" ?l i] by (auto simp: log_slot_def)
qed

text \<open>The header in memory after \<open>log_write\<close>.\<close>

definition logged :: "u32 \<Rightarrow> 'a logst_scheme \<Rightarrow> 'a logst_scheme" where
  "logged sec s = (if sec \<in> set (take (nat (lh_n s)) (lh_sector s)) then s
     else s\<lparr>lh_n := lh_n s + 1, lh_sector := (lh_sector s)[nat (lh_n s) := sec]\<rparr>)"

lemma logged_header:
  assumes "log_ok s"
  shows "(let i = log_slot sec s in s\<lparr>lh_sector := (lh_sector s)[i := sec],
       lh_n := (if int i = lh_n s then lh_n s + 1 else lh_n s)\<rparr>) = logged sec s"
proof (cases "sec \<in> set (take (nat (lh_n s)) (lh_sector s))")
  case True
  note slot = log_slot_old [OF assms True]
  have "(lh_sector s)[log_slot sec s := sec] = lh_sector s" using slot(2) by (metis list_update_id)
  moreover have "int (log_slot sec s) \<noteq> lh_n s" using slot(1) by simp
  ultimately show ?thesis using True by (simp add: logged_def)
next
  case False
  then show ?thesis
    using log_slot_new [OF assms False] log_okD(2) [OF assms] by (simp add: logged_def header_order)
qed

lemma logged_fields [simp]:
  "log_start (logged sec s) = log_start s" "log_size (logged sec s) = log_size s" "log_dev (logged sec s) = log_dev s"
  "outstanding (logged sec s) = outstanding s" "committing (logged sec s) = committing s" "disk (logged sec s) = disk s"
  "hist (logged sec s) = hist s" "logst.more (logged sec s) = logst.more s" "bufs (logged sec s) = bufs s"
  "bio_inv (logged sec s) T = bio_inv s T" "cache_abs (logged sec s) = cache_abs s" "holds (logged sec s) = holds s"
  by (simp_all add: logged_def)

lemma log_ok_mark:
  assumes "log_ok s" and "data_key s (log_dev s, sec)" and "lh_n s < log_size s - 1" and "log_size s \<le> 30"
    and "bio_frame (logged sec s) t" and "dirty_keys t = insert (log_dev s, sec) (dirty_keys s)" and "disk t = disk s"
  shows "log_ok t" and "lh_n t = (if (log_dev s, sec) \<in> dirty_keys s then lh_n s else lh_n s + 1)"
proof -
  let ?n = "nat (lh_n s)" and ?l = "lh_sector s" and ?s = "logged sec s"
  note ok = log_okD [OF assms(1)] and f = bio_frame_log [OF assms(5)]
  have same: "log_geom t" "data_key t = data_key s" "head_key t = head_key s" "log_dev t = log_dev s"
    using f ok(1) by (auto simp: log_geom_def log_region_def head_key_def data_key_def fun_eq_iff logged_def)
  have old: "(log_dev s, sec) \<in> dirty_keys s \<longleftrightarrow> sec \<in> set (take ?n ?l)"
    unfolding ok(6) using ok(2,3,8) by (auto simp: home_key_def in_set_conv_nth image_iff)
  show n: "lh_n t = (if (log_dev s, sec) \<in> dirty_keys s then lh_n s else lh_n s + 1)"
    using f old by (simp add: logged_def)
  show "log_ok t"
  proof (cases "sec \<in> set (take ?n ?l)")
    case True
    then have "home_key t = home_key s" "lh_n t = lh_n s" "lh_sector t = lh_sector s"
      using f by (simp_all add: logged_def home_key_def fun_eq_iff)
    moreover have "dirty_keys t = dirty_keys s" using assms(6) old True by auto
    moreover have "log_size t = log_size s" using f by simp
    ultimately show ?thesis using assms(1,7) same unfolding log_ok_def by simp
  next
    case False
    then have t: "lh_n t = lh_n s + 1" "lh_sector t = ?l[?n := sec]" "log_size t = log_size s"
      using f by (simp_all add: logged_def)
    have n: "nat (lh_n t) = Suc ?n" "?n < length ?l" using t(1) ok(2,3,8) by simp_all
    have home: "home_key t i = home_key s i" if "i < ?n" for i using that t(2) same(4) by (simp add: home_key_def)
    have last: "home_key t ?n = (log_dev s, sec)" using t(2) same(4) n(2) by (simp add: home_key_def)
    have "take (Suc ?n) (lh_sector t) = take ?n ?l @ [sec]" using n(2) t(2) by (simp add: take_Suc_conv_app_nth)
    then have "distinct (take (Suc ?n) (lh_sector t))" using ok(9) False by simp
    moreover have "data_key s (home_key t i)" if "i < Suc ?n" for i
      using that home last ok(5) assms(2) by (cases "i = ?n") simp_all
    moreover have "home_key t ` {..<Suc ?n} = insert (log_dev s, sec) (home_key s ` {..<?n})"
      using home last by (auto simp: lessThan_Suc)
    ultimately show ?thesis
      using same n(1) t assms(3,4,6,7) ok by (simp add: log_ok_def)
  qed
qed

text \<open>\<open>log_write\<close> of a held buffer: the buffer is pinned and its sector is in the header, once.\<close>

lemma log_write_law:
  assumes "bio_inv s T" and "holds s b (log_dev s, sec)" and "log_ok s" and "data_key s (log_dev s, sec)"
    and "1 \<le> outstanding s" and "lh_n s < log_size s - 1" and "log_size s \<le> 30"
  shows "\<exists>t. log_write b s = Ret () t \<and> bio_inv t (T - {b}) \<and> cache_abs t = c_mark (log_dev s, sec) (cache_abs s)
    \<and> holds t = holds s \<and> bio_frame (logged sec s) t \<and> log_ok t
    \<and> lh_n t = (if (log_dev s, sec) \<in> dirty_keys s then lh_n s else lh_n s + 1)"
proof -
  have sec: "bsector (bufs s b) = sec" using assms(2) by (simp add: holds_def pkey_def)
  obtain t where t: "bmark b (logged sec s) = Ret () t" "bio_inv t (T - {b})"
      "cache_abs t = c_mark (log_dev s, sec) (cache_abs s)" "bio_frame (logged sec s) t" "holds t = holds s"
    using bmark_law [of "logged sec s" T b "(log_dev s, sec)"] assms(1,2) by auto
  have "log_write b s = Ret () t"
    using t(1) assms(5,6,7) logged_header [OF assms(3), of sec] sec
    by (simp add: log_write_def kbind_def kpanic_if_def kmodify_def)
  moreover have "dirty_keys t = insert (log_dev s, sec) (dirty_keys s)" "disk t = disk s"
    using arg_cong [OF t(3), of cdirty] arg_cong [OF t(3), of cdisk] by (simp_all add: c_mark_def)
  ultimately show ?thesis using t log_ok_mark [OF assms(3,4,6,7) t(4)] by blast
qed

lemma data_key_dirty:
  assumes "log_ok s" and "k \<in> dirty_keys s" shows "data_key s k"
  using log_okD(5,6) [OF assms(1)] assms(2) by auto

text \<open>The idiom of the file system inside a transaction: read a block, change it, log it, let go of it.\<close>

lemma logged_write:
  assumes "bio_inv s T" and "log_ok s" and "data_key s (log_dev s, sec)" and "1 \<le> outstanding s"
    and "lh_n s < log_size s - 1" and "log_size s \<le> 30" and "can_read (log_dev s, sec) (cache_abs s)"
    and "length (f (bview s (log_dev s, sec))) = BSIZE"
  shows "\<exists>t. kbind (bread (log_dev s) sec) (\<lambda>b. kthen (bmodify b f) (kthen (log_write b) (brelse b))) s = Ret () t
    \<and> bio_inv t T \<and> log_ok t \<and> bio_frame (logged sec s) t
    \<and> cache_abs t = c_mark (log_dev s, sec) (c_modify (log_dev s, sec) f (cache_abs s))
    \<and> lh_n t = (if (log_dev s, sec) \<in> dirty_keys s then lh_n s else lh_n s + 1)
    \<and> (\<forall>b k. holds s b k \<longrightarrow> holds t b k)"
proof -
  let ?k = "(log_dev s, sec)"
  obtain b u where u: "bread (log_dev s) sec s = Ret b u" "bio_inv u T" "b \<notin> T" "holds u b ?k"
      "cache_abs u = c_read ?k (cache_abs s)" "bio_frame s u" "\<forall>b' k'. holds s b' k' \<longrightarrow> b' \<noteq> b \<and> holds u b' k'"
    using bread_law [OF assms(1,7)] by blast
  have "length (f (cview (cache_abs u) ?k)) = BSIZE" using u(5) assms(8) by (simp add: c_read_def)
  then obtain v where v: "bmodify b f u = Ret () v" "bio_inv v (insert b T)" "cache_abs v = c_modify ?k f (cache_abs u)"
      "bio_frame u v" "holds v = holds u"
    using bmodify_law [OF u(2,4)] by blast
  have fv: "bio_frame s v" using u(6) v(4) bio_frame_trans by blast
  note f = bio_frame_log [OF fv] log_geom_frame [OF fv] keys_frame [OF fv]
  have cv: "cache_abs v = c_modify ?k f (c_read ?k (cache_abs s))" using v(3) u(5) by simp
  have dv: "dirty_keys v = dirty_keys s" "disk v = disk s"
    using arg_cong [OF cv, of cdirty] arg_cong [OF cv, of cdisk] by (simp_all add: c_modify_def c_read_def)
  have okv: "log_ok v" using assms(2) f dv unfolding log_ok_def by simp
  obtain w where w: "log_write b v = Ret () w" "bio_inv w (insert b T - {b})" "cache_abs w = c_mark ?k (cache_abs v)"
      "holds w = holds v" "bio_frame (logged sec v) w" "log_ok w"
      "lh_n w = (if ?k \<in> dirty_keys s then lh_n s else lh_n s + 1)"
    using log_write_law [OF v(2) _ okv, of b sec] u(4) v(5) assms(3-6) f dv by auto
  have T: "insert b T - {b} = T" using u(3) by auto
  have hw: "holds w b ?k" using w(4) v(5) u(4) by simp
  obtain t where t: "brelse b w = Ret () t" "bio_inv t T" "cache_abs t = c_release ?k (cache_abs w)" "bio_frame w t"
      "\<forall>b' k'. holds w b' k' \<longrightarrow> b' \<noteq> b \<longrightarrow> holds t b' k'"
    using brelse_law [OF w(2)[unfolded T] hw u(3)] by blast
  have "bio_frame (logged sec s) (logged sec v)"
    using bio_frame_header(1) [OF fv] fv f by (simp add: logged_def)
  then have ft: "bio_frame (logged sec s) t" using w(5) t(4) bio_frame_trans by blast
  have nb: "?k \<notin> cbusy (cache_abs s)" using assms(7) by (simp add: can_read_def)
  have ca: "cache_abs t = c_mark ?k (c_modify ?k f (cache_abs s))"
    using t(3) w(3) cv nb by (simp add: c_mark_def c_modify_def c_read_def c_release_def)
  have "log_ok t" using w(6) bio_frame_log [OF t(4)] log_geom_frame [OF t(4)] keys_frame [OF t(4)]
      arg_cong [OF t(3), of cdirty] arg_cong [OF t(3), of cdisk]
    unfolding log_ok_def by (simp add: c_release_def)
  moreover have "\<forall>b' k. holds s b' k \<longrightarrow> holds t b' k" using u(7) v(5) w(4) t(5) by metis
  moreover have "lh_n t = lh_n w" using bio_frame_log [OF t(4)] by simp
  ultimately show ?thesis
    using u(1) v(1) w(1,7) t(1,2) ft ca by (auto simp: kbind_def)
qed

section \<open>Crashes\<close>

text \<open>The disk writes between two states, the disk after a part of them, and a machine that starts up again
  with that disk: an empty cache and the same geometry of the log.\<close>

definition writes_of :: "'a logst_scheme \<Rightarrow> 'a logst_scheme \<Rightarrow> ((bool \<times> nat) \<times> block) list" where
  "writes_of s t = drop (length (hist s)) (hist t)"

definition log_boot :: "'a logst_scheme \<Rightarrow> (bool \<times> nat \<Rightarrow> block) \<Rightarrow> 'a logst_scheme \<Rightarrow> bool" where
  "log_boot s d r \<longleftrightarrow> bio_inv r {} \<and> busy_keys r = {} \<and> dirty_keys r = {} \<and> disk r = d
     \<and> log_start r = log_start s \<and> log_size r = log_size s \<and> log_dev r = log_dev s \<and> length (lh_sector r) = LOGSIZE"

text \<open>The disks that can be found after a crash: in the middle of the commit of \<open>s\<close>, or in the middle of
  the recovery from such a disk, any number of times.\<close>

inductive crashed :: "'a logst_scheme \<Rightarrow> (bool \<times> nat \<Rightarrow> block) \<Rightarrow> bool" for s where
  in_commit: "commit s = Ret () t \<Longrightarrow> crashed s (replay (take k (writes_of s t)) (disk s))"
| in_recovery: "crashed s d \<Longrightarrow> log_boot s d r \<Longrightarrow> recover_from_log r = Ret () t
    \<Longrightarrow> crashed s (replay (take k (writes_of r t)) d)"

text \<open>The data of \<open>s\<close> before and after its transaction.\<close>

definition old_data :: "'a logst_scheme \<Rightarrow> (bool \<times> nat \<Rightarrow> block) \<Rightarrow> bool" where
  "old_data s d \<longleftrightarrow> (\<forall>k. data_key s k \<longrightarrow> d (key_loc k) = disk s (key_loc k))"

definition new_data :: "'a logst_scheme \<Rightarrow> (bool \<times> nat \<Rightarrow> block) \<Rightarrow> bool" where
  "new_data s d \<longleftrightarrow> (\<forall>k. data_key s k \<longrightarrow> d (key_loc k) = bview s k)"

lemma committed_ldisk:
  assumes "bio_inv s {}" and "log_ok s"
  shows "new_data s (ldisk s (committed s))"
  unfolding new_data_def
proof (intro allI impI)
  fix k assume k: "data_key s k"
  let ?I = "[0..<nat (lh_n s)]"
  note ok = log_okD [OF assms(2)]
  have ik: "ide_key k" using k by (simp add: data_key_def)
  have W: "ldisk s (committed s) = replay (map (\<lambda>i. (key_loc (home_key s i), bview s (home_key s i))) ?I) (committed s)"
    by (simp only: ldisk_def committed_writes(1) [OF assms])
  have ikh: "ide_key (home_key s i)" if "i < nat (lh_n s)" for i using ok(5) [OF that] by (simp add: data_key_def)
  show "ldisk s (committed s) (key_loc k) = bview s k"
  proof (cases "k \<in> dirty_keys s")
    case True
    then obtain i where i: "i < nat (lh_n s)" "k = home_key s i" using ok(6) by auto
    have "distinct (map (\<lambda>j. key_loc (home_key s j)) ?I)"
      using log_ok_dirty(3) [OF assms(2)] key_loc_inj [OF ikh ikh] by (auto simp: distinct_map inj_on_def)
    then show ?thesis unfolding W i(2) using i(1) by (intro replay_map_nth) auto
  next
    case False
    have "key_loc k \<notin> fst ` set (map (\<lambda>i. (key_loc (home_key s i), bview s (home_key s i))) ?I)"
    proof
      assume "key_loc k \<in> fst ` set (map (\<lambda>i. (key_loc (home_key s i), bview s (home_key s i))) ?I)"
      then obtain i where i: "i < nat (lh_n s)" "key_loc k = key_loc (home_key s i)" by auto
      then have "k = home_key s i" using key_loc_inj [OF ik ikh] by blast
      with i(1) False ok(6) show False by blast
    qed
    then have "ldisk s (committed s) (key_loc k) = committed s (key_loc k)" unfolding W by (rule replay_other)
    moreover have "key_loc k \<noteq> key_loc (head_key s)" by (rule data_loc [OF ok(1) k head_key_region(1) [OF ok(1)]])
    moreover have "key_loc k \<notin> fst ` set (commit_log s)"
    proof
      assume "key_loc k \<in> fst ` set (commit_log s)"
      then obtain i where i: "i < nat (lh_n s)" "key_loc k = key_loc (log_key s i)" by (auto simp: commit_log_def)
      then have "int i < log_size s - 1" using ok(2,4) by linarith
      with i data_loc [OF ok(1) k log_key_region(1) [OF ok(1)]] show False by blast
    qed
    ultimately have "ldisk s (committed s) (key_loc k) = disk s (key_loc k)"
      by (simp add: committed_def replay_other)
    then show ?thesis using bview_clean [OF assms(1) ik] False by simp
  qed
qed

text \<open>What a commit that is cut short leaves on the disk.\<close>

lemma commit_prefix:
  assumes "bio_inv s {}" and "busy_keys s = {}" and "log_ok s" and "0 < lh_n s" and "commit s = Ret () t"
  shows "head_ok s (replay (take k (writes_of s t)) (disk s))"
    and "k \<le> nat (lh_n s) \<Longrightarrow> old_data s (ldisk s (replay (take k (writes_of s t)) (disk s)))"
    and "nat (lh_n s) < k \<Longrightarrow> new_data s (ldisk s (replay (take k (writes_of s t)) (disk s)))"
proof -
  let ?hl = "key_loc (head_key s)" and ?n = "nat (lh_n s)" and ?d = "\<lambda>k. replay (take k (writes_of s t)) (disk s)"
  note ok = log_okD [OF assms(3)]
  obtain x' where x': "head_n x' = 0" and h: "hist t = hist s @ commit_log s @ [(?hl, commit_head s)]
      @ log_writes s (committed s) @ [(?hl, x')]"
    using commit_spec [OF assms(1-4)] assms(5) by auto
  let ?W = "log_writes s (committed s) @ [(?hl, x')]"
  have W: "writes_of s t = (commit_log s @ [(?hl, commit_head s)]) @ ?W" using h by (simp add: writes_of_def)
  have len: "length (commit_log s) = ?n" by (simp add: commit_log_def)
  have region: "fst ` set (commit_log s) \<subseteq> key_loc ` (log_region s - {head_key s})"
  proof
    fix l assume "l \<in> fst ` set (commit_log s)"
    then obtain i where i: "i < ?n" "l = key_loc (log_key s i)" by (auto simp: commit_log_def)
    then have "int i < log_size s - 1" using ok(2,4) by linarith
    from log_key_region [OF ok(1) this] i(2) show "l \<in> key_loc ` (log_region s - {head_key s})" by blast
  qed
  have early: "?d k = replay (take k (commit_log s)) (disk s)" if "k \<le> ?n" using that len W by simp
  have late: "?d k = replay (take (k - Suc ?n) ?W) (committed s)" if k: "?n < k"
  proof -
    obtain j where j: "k = Suc ?n + j" using less_iff_Suc_add [of ?n k] k by auto
    have "length (commit_log s @ [(?hl, commit_head s)]) = Suc ?n" using len by simp
    then have "take k (writes_of s t) = (commit_log s @ [(?hl, commit_head s)]) @ take j ?W"
      unfolding W j by (simp only: take_append take_all_iff) simp
    then show ?thesis using j by (simp add: replay_append committed_def)
  qed
  have hl: "?hl \<notin> fst ` set (commit_log s)"
    using region key_loc_inj [OF head_key_region(2) [OF ok(1)] region_ide [OF ok(1)]] by fastforce
  have head: "?d k ?hl = disk s ?hl" if "k \<le> ?n" unfolding early [OF that] by (rule replay_prefix_other [OF hl])
  have data: "key_loc key \<notin> fst ` set (commit_log s)" if "data_key s key" for key
    using region data_loc [OF ok(1) that] by blast
  show "old_data s (ldisk s (?d k))" if "k \<le> ?n"
    using head [OF that] ok(7) replay_prefix_other [OF data] early [OF that]
    by (simp add: ldisk_clean old_data_def)
  note ip = install_prefix [OF ok(1) committed_writes(2) [OF assms(1,3)] x']
  show "new_data s (ldisk s (?d k))" if "?n < k"
    using ip(1) [of _ "k - Suc ?n"] committed_ldisk [OF assms(1,3)] unfolding late [OF that] new_data_def by metis
  show "head_ok s (?d k)"
  proof (cases "k \<le> ?n")
    case True
    then show ?thesis using head ok(1,7) head_n_0_secs by (simp add: head_ok_def Let_def log_geom_def)
  next
    case False
    then have "?n < k" by simp
    show ?thesis unfolding late [OF \<open>?n < k\<close>] by (rule ip(2))
  qed
qed

text \<open>A machine that starts from a crashed disk reads the log the same way.\<close>

lemma log_boot_same:
  assumes "log_boot s d r" and "log_geom s"
  shows "log_geom r" and "head_key r = head_key s" and "data_key r = data_key s" and "head_ok r = head_ok s"
    and "log_writes r = log_writes s" and "ldisk r = ldisk s"
  using assms by (simp_all add: log_boot_def log_geom_def head_key_def data_key_def [abs_def] log_region_def
    head_ok_def [abs_def] log_writes_def [abs_def] ldisk_def [abs_def] log_key_def log_block_def)

lemma recovery_prefix:
  assumes "log_boot s d r" and "log_geom s" and "head_ok s d"
  shows "\<exists>t. recover_from_log r = Ret () t \<and> lh_n t = 0 \<and> dirty_keys t = {} \<and> head_n (disk t (key_loc (head_key s))) = 0
    \<and> disk t = replay (writes_of r t) d
    \<and> (\<forall>k key. data_key s key \<longrightarrow> ldisk s (replay (take k (writes_of r t)) d) (key_loc key) = ldisk s d (key_loc key))
    \<and> (\<forall>k. head_ok s (replay (take k (writes_of r t)) d))"
proof -
  note same = log_boot_same [OF assms(1,2)]
  have r: "bio_inv r {}" "busy_keys r = {}" "dirty_keys r = {}" "disk r = d" using assms(1) by (auto simp: log_boot_def)
  obtain t x' where t: "recover_from_log r = Ret () t" "dirty_keys t = {}" "head_n x' = 0" "lh_n t = 0"
      "hist t = hist r @ log_writes s d @ [(key_loc (head_key s), x')]"
      "disk t = replay (log_writes s d @ [(key_loc (head_key s), x')]) d"
    using recover_spec [OF r(1-3) same(1)] assms(3) r(4) same by auto
  have w: "writes_of r t = log_writes s d @ [(key_loc (head_key s), x')]" using t(5) by (simp add: writes_of_def)
  have "head_n (disk t (key_loc (head_key s))) = 0" using t(3,6) by (simp add: replay_append)
  then show ?thesis using t(1,2,4,6) install_prefix [OF assms(2,3) t(3)] by (intro exI [of _ t]) (simp add: w)
qed

lemma crashed_inv:
  assumes "crashed s d" and "bio_inv s {}" and "busy_keys s = {}" and "log_ok s" and "0 < lh_n s"
  shows "head_ok s d \<and> (old_data s (ldisk s d) \<or> new_data s (ldisk s d))"
  using assms(1)
proof (induction rule: crashed.induct)
  case (in_commit t k)
  then show ?case using commit_prefix [OF assms(2-5)] by (metis not_le)
next
  case (in_recovery d r t k)
  note ok = log_okD [OF assms(4)]
  have "head_ok s (replay (take k (writes_of r t)) d)"
    and same: "\<And>key. data_key s key \<Longrightarrow>
      ldisk s (replay (take k (writes_of r t)) d) (key_loc key) = ldisk s d (key_loc key)"
    using recovery_prefix [OF in_recovery.hyps(2) ok(1)] in_recovery by auto
  then show ?case using in_recovery.IH same unfolding old_data_def new_data_def by metis
qed

section \<open>Ending an operation\<close>

lemma log_flags [simp]:
  "bio_inv (s\<lparr>outstanding := n\<rparr>) T = bio_inv s T" "cache_abs (s\<lparr>outstanding := n\<rparr>) = cache_abs s"
  "bio_inv (s\<lparr>committing := c\<rparr>) T = bio_inv s T" "cache_abs (s\<lparr>committing := c\<rparr>) = cache_abs s"
proof -
  have "bview (s\<lparr>outstanding := n\<rparr>) = bview s" "bview (s\<lparr>committing := c\<rparr>) = bview s"
    by (rule bview_cong; simp)+
  then show "bio_inv (s\<lparr>outstanding := n\<rparr>) T = bio_inv s T" "cache_abs (s\<lparr>outstanding := n\<rparr>) = cache_abs s"
    "bio_inv (s\<lparr>committing := c\<rparr>) T = bio_inv s T" "cache_abs (s\<lparr>committing := c\<rparr>) = cache_abs s"
    by (simp_all add: bio_inv_def cache_abs_def busy_keys_def dirty_keys_def)
qed

lemma wakeup_abs:
  assumes "bio_inv s T"
  shows "\<exists>t. wakeup c s = Ret () t \<and> bio_inv t T \<and> cache_abs t = cache_abs s \<and> bio_frame s t \<and> holds t = holds s"
proof -
  have "ptable s \<noteq> []" using assms by (simp add: bio_inv_def)
  then obtain ps where ps: "wakeup c s = Ret () (s\<lparr>ptable := ps\<rparr>)" "ps \<noteq> []"
    using wakeup_eq [of s c] by (metis append_is_Nil_conv not_Cons_self2)
  have "bview (s\<lparr>ptable := ps\<rparr>) = bview s" by (rule bview_cong; simp)
  then have "cache_abs (s\<lparr>ptable := ps\<rparr>) = cache_abs s" by (simp add: cache_abs_def busy_keys_def dirty_keys_def)
  moreover have "bio_inv (s\<lparr>ptable := ps\<rparr>) T" using assms ps(2) by (simp add: bio_inv_def)
  moreover have "bio_frame s (s\<lparr>ptable := ps\<rparr>)"
  proof -
    have "s\<lparr>ptable := ps\<rparr> = s\<lparr>ptable := ps, bufs := bufs s, disk := disk s, hist := hist s\<rparr>" by simp
    then show ?thesis unfolding bio_frame_def by blast
  qed
  moreover have "holds (s\<lparr>ptable := ps\<rparr>) = holds s" by (simp add: holds_def fun_eq_iff)
  ultimately show ?thesis using ps(1) by blast
qed

text \<open>A commit leaves the log ready for the next transaction.\<close>

lemma commit_any:
  assumes "bio_inv s {}" and "busy_keys s = {}" and "log_ok s"
  shows "\<exists>t. commit s = Ret () t \<and> bio_inv t {} \<and> busy_keys t = {} \<and> log_ok t \<and> lh_n t = 0
    \<and> outstanding t = outstanding s \<and> committing t = committing s \<and> new_data s (disk t)
    \<and> (\<forall>k. data_key s k \<longrightarrow> bview t k = bview s k) \<and> bio_frame (s\<lparr>lh_n := 0\<rparr>) t"
proof (cases "lh_n s = 0")
  case True
  then have d: "dirty_keys s = {}" using log_okD(6) [OF assms(3)] by simp
  have "new_data s (disk s)"
    unfolding new_data_def using bview_clean [OF assms(1)] d by (simp add: data_key_def)
  moreover have "bio_frame (s\<lparr>lh_n := 0\<rparr>) s" using True by (metis bio_frame_refl logst.surjective logst.update_convs(6))
  ultimately show ?thesis using assms True by (simp add: commit_def kbind_def kget_def kreturn_def)
next
  case False
  note ok = log_okD [OF assms(3)]
  have n: "0 < lh_n s" using False ok(2) by simp
  obtain t x' where t: "commit s = Ret () t" "bio_inv t {}" "busy_keys t = {}" "dirty_keys t = {}" "head_n x' = 0"
      "bio_frame (s\<lparr>lh_n := 0\<rparr>) t"
      "hist t = hist s @ commit_log s @ [(key_loc (head_key s), commit_head s)]
         @ log_writes s (committed s) @ [(key_loc (head_key s), x')]"
      "disk t = replay (log_writes s (committed s) @ [(key_loc (head_key s), x')]) (committed s)"
      "\<forall>k. data_key s k \<longrightarrow> bview t k = bview s k"
    using commit_spec [OF assms n] by blast
  note f = bio_frame_log [OF t(6)]
  have same: "log_geom t" "data_key t = data_key s" "head_key t = head_key s"
    using f ok(1) by (auto simp: log_geom_def log_region_def head_key_def data_key_def fun_eq_iff)
  have "head_n (disk t (key_loc (head_key s))) = 0" using t(5,8) by (simp add: replay_append)
  then have "log_ok t" using same f t(4) ok(1) by (simp add: log_ok_def log_geom_def)
  moreover have "new_data s (disk t)"
    unfolding new_data_def
  proof (intro allI impI)
    fix k assume k: "data_key s k"
    then have "bview t k = disk t (key_loc k)" using bview_clean [OF t(2)] t(4) by (simp add: data_key_def)
    then show "disk t (key_loc k) = bview s k" using t(9) k by metis
  qed
  ultimately show ?thesis using t f by (intro exI [of _ t]) simp
qed

lemma end_op_law:
  assumes "bio_inv s {}" and "busy_keys s = {}" and "log_ok s" and "\<not> committing s" and "1 \<le> outstanding s"
  shows "\<exists>t. end_op s = Ret () t \<and> bio_inv t {} \<and> busy_keys t = {} \<and> log_ok t \<and> \<not> committing t
    \<and> outstanding t = outstanding s - 1 \<and> (\<forall>k. data_key s k \<longrightarrow> bview t k = bview s k)
    \<and> (if outstanding s = 1 then lh_n t = 0 \<and> new_data s (disk t) else lh_n t = lh_n s \<and> disk t = disk s)
    \<and> log_dev t = log_dev s \<and> log_start t = log_start s \<and> log_size t = log_size s \<and> curproc t = curproc s
    \<and> logst.more t = logst.more s"
proof -
  have ok: "log_ok (s\<lparr>outstanding := n\<rparr>)" "log_ok (s\<lparr>outstanding := n, committing := c\<rparr>)" for n c
    using assms(3) by (simp_all add: log_ok_def log_geom_def data_key_def log_region_def home_key_def head_key_def dirty_keys_def)
  have keep: "log_ok v" if "log_ok u" "bio_frame u v" "cache_abs v = cache_abs u" for u v :: "'a logst_scheme"
    using that(1) bio_frame_log [OF that(2)] log_geom_frame [OF that(2)] keys_frame [OF that(2)]
      arg_cong [OF that(3), of cdirty] arg_cong [OF that(3), of cdisk] unfolding log_ok_def by simp
  show ?thesis
  proof (cases "outstanding s = 1")
    case True
    let ?s = "s\<lparr>outstanding := 0, committing := True\<rparr>"
    have same: "busy_keys ?s = {}" "data_key ?s = data_key s" "bview ?s = bview s"
      using assms(2) by (auto simp: busy_keys_def data_key_def log_region_def fun_eq_iff intro!: arg_cong [OF bview_cong])
    obtain t where t: "commit ?s = Ret () t" "bio_inv t {}" "busy_keys t = {}" "log_ok t" "lh_n t = 0" "outstanding t = 0"
        "new_data ?s (disk t)" "\<forall>k. data_key s k \<longrightarrow> bview t k = bview s k"
        "bio_frame (?s\<lparr>lh_n := 0\<rparr>) t"
      using commit_any [of ?s] assms(1) same ok(2) by auto
    let ?t = "t\<lparr>committing := False\<rparr>"
    obtain u where u: "wakeup ChLog ?t = Ret () u" "bio_inv u {}" "cache_abs u = cache_abs ?t" "bio_frame ?t u"
      using wakeup_abs [of ?t "{}"] t(2) by auto
    have abs: "busy_keys u = {}" "bview u = bview t" "disk u = disk t"
      using arg_cong [OF u(3), of cbusy] arg_cong [OF u(3), of cview] arg_cong [OF u(3), of cdisk] t(3) by simp_all
    have "log_ok ?t"
      using t(4) by (simp add: log_ok_def log_geom_def data_key_def log_region_def home_key_def head_key_def dirty_keys_def)
    then have "log_ok u" using keep u(3,4) by blast
    moreover have "end_op s = Ret () u"
      using t(1) u(1) assms(4) True by (simp add: end_op_def kbind_def kmodify_def kpanic_if_def kget_def)
    moreover have "new_data s (disk u)" using t(7) same abs(3) by (simp add: new_data_def)
    ultimately show ?thesis using True u(2) abs t(1-8) bio_frame_log [OF u(4)] bio_frame_log [OF t(9)] by simp
  next
    case False
    let ?s = "s\<lparr>outstanding := outstanding s - 1\<rparr>"
    obtain u where u: "wakeup ChLog ?s = Ret () u" "bio_inv u {}" "cache_abs u = cache_abs s" "bio_frame ?s u"
      using wakeup_abs [of ?s "{}"] assms(1) by auto
    have "end_op s = Ret () u"
      using u(1) assms(4) False by (simp add: end_op_def kbind_def kmodify_def kpanic_if_def kget_def)
    moreover have "log_ok u" using keep [OF ok(1) u(4)] u(3) by simp
    ultimately show ?thesis
      using False u(2) bio_frame_log [OF u(4)] assms(2,4) arg_cong [OF u(3), of cbusy] arg_cong [OF u(3), of cview]
        arg_cong [OF u(3), of cdisk] by simp
  qed
qed

section \<open>A concrete log\<close>

definition log_ready :: logst where
  "log_ready = bio.extend bio_ready \<lparr>log_start = 100, log_size = 30, outstanding = 1, committing = False,
     log_dev = 1, lh_n = 0, lh_sector = replicate LOGSIZE 0\<rparr>"

lemma bio_extend [simp]:
  "bio_inv (bio.extend s e) T = bio_inv s T" "cache_abs (bio.extend s e) = cache_abs s"
  "holds (bio.extend s e) = holds s"
proof -
  have same: "bufs (bio.extend s e) = bufs s" "disk (bio.extend s e) = disk s" "hist (bio.extend s e) = hist s"
    "ptable (bio.extend s e) = ptable s" "idequeue (bio.extend s e) = idequeue s" "havedisk1 (bio.extend s e) = havedisk1 s"
    "ide_err (bio.extend s e) = ide_err s"
    by (simp_all add: bio.extend_def)
  show "bio_inv (bio.extend s e) T = bio_inv s T" by (simp add: bio_inv_def same)
  have "bview (bio.extend s e) = bview s" by (rule bview_cong) (simp_all add: same)
  then show "cache_abs (bio.extend s e) = cache_abs s"
    by (simp add: cache_abs_def busy_keys_def dirty_keys_def same)
  show "holds (bio.extend s e) = holds s" by (simp add: holds_def fun_eq_iff same)
qed

lemma get32_zeros: "off + 4 \<le> n \<Longrightarrow> get32 off (replicate n 0) = 0"
  by (simp add: get32_def word32_def nth_slice)

lemma log_ready_fields [simp]:
  "log_start log_ready = 100" "log_size log_ready = 30" "outstanding log_ready = 1" "committing log_ready = False"
  "log_dev log_ready = 1" "lh_n log_ready = 0" "lh_sector log_ready = replicate LOGSIZE 0"
  "disk log_ready = disk bio_demo"
  using bio_ready by (simp_all add: log_ready_def bio.extend_def)

lemma log_ready_bio [simp]:
  "bio_inv log_ready {}" "busy_keys log_ready = {}" "dirty_keys log_ready = {}" "cache_abs log_ready = cache_abs bio_ready"
proof -
  show abs: "cache_abs log_ready = cache_abs bio_ready" by (simp add: log_ready_def)
  show "bio_inv log_ready {}" using bio_ready by (simp add: log_ready_def)
  show "busy_keys log_ready = {}" "dirty_keys log_ready = {}"
    using arg_cong [OF abs, of cbusy] arg_cong [OF abs, of cdirty] bio_ready by (simp_all add: cache_abs_fields)
qed

lemma log_ready_ok: "log_ok log_ready" "data_key log_ready (1, 7)" "can_read (1, 7) (cache_abs log_ready)"
proof -
  have "head_n (disk bio_demo (key_loc (head_key log_ready))) = 0"
    by (simp add: head_key_def ide_loc_def GETDEVNUM_def bio_demo_def ptab.extend_def head_n_def get32_zeros)
  then show "log_ok log_ready" by (simp add: log_ok_def log_geom_def)
  show "data_key log_ready (1, 7)" by (simp add: data_key_def ide_key_def log_region_def)
  show "can_read (1, 7) (cache_abs log_ready)" using bio_ready_can_read by simp
qed

text \<open>The state after one logged write, and a machine that starts with the disk of its log phase.\<close>

definition log_one :: logst where
  "log_one = (case kbind (bread 1 7) (\<lambda>b. kthen (bmodify b (\<lambda>_. replicate BSIZE 5)) (kthen (log_write b) (brelse b))) log_ready
     of Ret _ t \<Rightarrow> t | _ \<Rightarrow> log_ready)"

lemma log_one:
  "bio_inv log_one {}" "busy_keys log_one = {}" "log_ok log_one" "lh_n log_one = 1" "disk log_one = disk bio_demo"
  "bview log_one (1, 7) = replicate BSIZE 5" "data_key log_one (1, 7)" "log_start log_one = 100" "log_size log_one = 30"
  "log_dev log_one = 1" "outstanding log_one = 1" "committing log_one = False"
proof -
  obtain t where t: "kbind (bread 1 7) (\<lambda>b. kthen (bmodify b (\<lambda>_. replicate BSIZE 5)) (kthen (log_write b) (brelse b))) log_ready
      = Ret () t" "bio_inv t {}" "log_ok t" "bio_frame (logged 7 log_ready) t"
      "cache_abs t = c_mark (1, 7) (c_modify (1, 7) (\<lambda>_. replicate BSIZE 5) (cache_abs log_ready))" "lh_n t = 1"
    using logged_write [of log_ready "{}" 7 "\<lambda>_. replicate BSIZE 5"] log_ready_ok by auto
  have one: "log_one = t" using t(1) by (simp add: log_one_def)
  note f = bio_frame_log [OF t(4)]
  show "bio_inv log_one {}" "log_ok log_one" "lh_n log_one = 1" using t one by simp_all
  show "busy_keys log_one = {}" "disk log_one = disk bio_demo" "bview log_one (1, 7) = replicate BSIZE 5"
    using arg_cong [OF t(5), of cbusy] arg_cong [OF t(5), of cdisk] arg_cong [OF t(5), of cview] one bio_ready
    by (simp_all add: c_mark_def c_modify_def)
  show "log_start log_one = 100" "log_size log_one = 30" "log_dev log_one = 1" "outstanding log_one = 1"
    "committing log_one = False" using f one by simp_all
  then show "data_key log_one (1, 7)" by (simp add: data_key_def ide_key_def log_region_def)
qed

definition log_again :: "(bool \<times> nat \<Rightarrow> block) \<Rightarrow> logst" where
  "log_again d = bio.extend (case binit (bio_demo\<lparr>disk := d\<rparr>) of Ret _ t \<Rightarrow> t | _ \<Rightarrow> bio_demo)
     \<lparr>log_start = 100, log_size = 30, outstanding = 0, committing = False, log_dev = 1, lh_n = 0,
      lh_sector = replicate LOGSIZE 0\<rparr>"

lemma log_again:
  assumes "disk_ok d"
  shows "log_boot log_one d (log_again d)"
proof -
  have "bio_boot (bio_demo\<lparr>disk := d\<rparr>)"
    using bio_demo_boot assms by (simp add: bio_boot_def)
  then obtain t where t: "binit (bio_demo\<lparr>disk := d\<rparr>) = Ret () t" "bio_inv t {}" "busy_keys t = {}" "dirty_keys t = {}" "disk t = d"
    using binit_inv by fastforce
  let ?r = "log_again d"
  have r: "?r = bio.extend t \<lparr>log_start = 100, log_size = 30, outstanding = 0, committing = False, log_dev = 1, lh_n = 0,
      lh_sector = replicate LOGSIZE 0\<rparr>"
    using t(1) by (simp add: log_again_def)
  have abs: "cache_abs ?r = cache_abs t" by (simp add: r)
  have "busy_keys ?r = {}" "dirty_keys ?r = {}" "disk ?r = d"
    using arg_cong [OF abs, of cbusy] arg_cong [OF abs, of cdirty] arg_cong [OF abs, of cdisk] t by simp_all
  moreover have "bio_inv ?r {}" using t(2) by (simp add: r)
  moreover have "log_start ?r = 100" "log_size ?r = 30" "log_dev ?r = 1" "length (lh_sector ?r) = LOGSIZE"
    by (simp_all add: r bio.extend_def)
  ultimately show ?thesis using log_one by (simp add: log_boot_def)
qed

section \<open>Properties\<close>

text \<open>
  C4: the commit point. However many of its disk writes a commit has made when the machine stops,
  the disk together with its log stands for the data before the transaction as long as the header has
  not been written, and for all of the data of the transaction from the write of the header on. There is
  no state of the disk in between. A commit that is not cut short returns, and leaves the data of the
  transaction in its places and an empty log.
\<close>

theorem commit_point:
  assumes "bio_inv s {}" and "busy_keys s = {}" and "log_ok s" and "0 < lh_n s"
  shows "\<exists>t. commit s = Ret () t \<and> lh_n t = 0 \<and> dirty_keys t = {} \<and> new_data s (disk t)
    \<and> (\<forall>k. if k \<le> nat (lh_n s) then old_data s (ldisk s (replay (take k (writes_of s t)) (disk s)))
           else new_data s (ldisk s (replay (take k (writes_of s t)) (disk s))))"
proof -
  obtain t x' where t: "commit s = Ret () t" "dirty_keys t = {}" "head_n x' = 0" "bio_frame (s\<lparr>lh_n := 0\<rparr>) t"
      "hist t = hist s @ commit_log s @ [(key_loc (head_key s), commit_head s)]
         @ log_writes s (committed s) @ [(key_loc (head_key s), x')]"
      "disk t = replay (log_writes s (committed s) @ [(key_loc (head_key s), x')]) (committed s)"
    using commit_spec [OF assms] by blast
  note p = commit_prefix [OF assms t(1)]
  have "ldisk s (disk t) = disk t"
    using t(3,6) by (intro ldisk_clean) (simp add: replay_append)
  moreover have "disk t = replay (take (length (writes_of s t)) (writes_of s t)) (disk s)"
    using t(5,6) by (simp add: writes_of_def replay_append committed_def)
  moreover have "nat (lh_n s) < length (writes_of s t)" using t(5) by (simp add: writes_of_def commit_log_def)
  ultimately have "new_data s (disk t)" using p(3) by metis
  moreover have "lh_n t = 0" using bio_frame_log [OF t(4)] by simp
  ultimately show ?thesis using t(1,2) p(2,3) by (intro exI [of _ t]) auto
qed

theorem commit_point_witness:
  "\<exists>t. commit log_one = Ret () t \<and> lh_n t = 0 \<and> disk t (ide_loc 1 7) = replicate BSIZE 5"
proof -
  have "0 < lh_n log_one" using log_one by simp
  from commit_point [OF log_one(1-3) this] show ?thesis
    using log_one(6,7) by (auto simp: new_data_def)
qed

text \<open>
  C1: recovery after crashes. Whatever disk a crash leaves, in the middle of the commit or in the middle
  of one or more attempts to recover, the next start-up's \<open>recover_from_log\<close> returns, empties the log and
  leaves either all data of the transaction or none of it.
\<close>

theorem crash_recovery:
  assumes "bio_inv s {}" and "busy_keys s = {}" and "log_ok s" and "0 < lh_n s"
    and "crashed s d" and "log_boot s d r"
  shows "\<exists>t. recover_from_log r = Ret () t \<and> lh_n t = 0 \<and> dirty_keys t = {}
    \<and> head_n (disk t (key_loc (head_key s))) = 0 \<and> (old_data s (disk t) \<or> new_data s (disk t))"
proof -
  have inv: "head_ok s d" "old_data s (ldisk s d) \<or> new_data s (ldisk s d)"
    using crashed_inv [OF assms(5,1-4)] by simp_all
  obtain t where t: "recover_from_log r = Ret () t" "lh_n t = 0" "dirty_keys t = {}"
      "head_n (disk t (key_loc (head_key s))) = 0" "disk t = replay (writes_of r t) d"
      "\<forall>k key. data_key s key \<longrightarrow> ldisk s (replay (take k (writes_of r t)) d) (key_loc key) = ldisk s d (key_loc key)"
    using recovery_prefix [OF assms(6) log_okD(1) [OF assms(3)] inv(1)] by blast
  have "disk t (key_loc key) = ldisk s d (key_loc key)" if "data_key s key" for key
    using t(6) that ldisk_clean [of "disk t" s, OF t(4)] t(5) by (metis take_all order_refl)
  then show ?thesis using t(1-4) inv(2) by (intro exI [of _ t]) (simp add: old_data_def new_data_def)
qed

theorem crash_recovery_witness:
  "crashed log_one (committed log_one)
   \<and> (\<exists>t. recover_from_log (log_again (committed log_one)) = Ret () t
     \<and> (old_data log_one (disk t) \<or> new_data log_one (disk t)))"
proof -
  have n: "0 < lh_n log_one" using log_one by simp
  obtain t x' where t: "commit log_one = Ret () t"
      "hist t = hist log_one @ commit_log log_one @ [(key_loc (head_key log_one), commit_head log_one)]
         @ log_writes log_one (committed log_one) @ [(key_loc (head_key log_one), x')]"
    using commit_spec [OF log_one(1-3) n] by blast
  have "length (commit_log log_one) = 1" using log_one by (simp add: commit_log_def)
  then have "replay (take 2 (writes_of log_one t)) (disk log_one) = committed log_one"
    using t(2) by (simp add: writes_of_def committed_def replay_append)
  then have c: "crashed log_one (committed log_one)" using in_commit [OF t(1), of 2] by simp
  obtain u :: logst where "bio_inv u {}" "disk u = committed log_one" using log_phase [OF log_one(1-3)] by blast
  then have "disk_ok (committed log_one)" unfolding bio_inv_def by metis
  then have "log_boot log_one (committed log_one) (log_again (committed log_one))" by (rule log_again)
  from crash_recovery [OF log_one(1-3) n c this] c show ?thesis by blast
qed

text \<open>
  writing a block inside a transaction. The idiom \<open>bread\<close>, change the data, \<open>log_write\<close>, \<open>brelse\<close>
  returns; every later reader sees the new contents, no other block changes, and nothing reaches the disk.
  The block takes a slot of the log, but only one however often it is written. The log stays well-formed,
  and buffers held by others stay held.
\<close>

theorem transaction_write:
  assumes "bio_inv s T" and "log_ok s" and "data_key s (log_dev s, sec)" and "1 \<le> outstanding s"
    and "lh_n s < log_size s - 1" and "log_size s \<le> 30" and "can_read (log_dev s, sec) (cache_abs s)"
    and "length (f (bview s (log_dev s, sec))) = BSIZE"
  shows "\<exists>t. kbind (bread (log_dev s) sec) (\<lambda>b. kthen (bmodify b f) (kthen (log_write b) (brelse b))) s = Ret () t
    \<and> bio_inv t T \<and> log_ok t \<and> disk t = disk s \<and> hist t = hist s \<and> busy_keys t = busy_keys s
    \<and> bview t = (bview s)((log_dev s, sec) := f (bview s (log_dev s, sec)))
    \<and> lh_n t = (if (log_dev s, sec) \<in> dirty_keys s then lh_n s else lh_n s + 1)
    \<and> (\<forall>b k. holds s b k \<longrightarrow> holds t b k)"
proof -
  obtain t where t: "kbind (bread (log_dev s) sec) (\<lambda>b. kthen (bmodify b f) (kthen (log_write b) (brelse b))) s = Ret () t"
      "bio_inv t T" "log_ok t" "cache_abs t = c_mark (log_dev s, sec) (c_modify (log_dev s, sec) f (cache_abs s))"
      "lh_n t = (if (log_dev s, sec) \<in> dirty_keys s then lh_n s else lh_n s + 1)" "\<forall>b k. holds s b k \<longrightarrow> holds t b k"
    using logged_write [OF assms(1-7), of f, OF assms(8)] by blast
  have "disk t = disk s" "hist t = hist s" "busy_keys t = busy_keys s"
      "bview t = (bview s)((log_dev s, sec) := f (bview s (log_dev s, sec)))"
    using arg_cong [OF t(4), of cdisk] arg_cong [OF t(4), of chist] arg_cong [OF t(4), of cbusy] arg_cong [OF t(4), of cview]
    by (simp_all add: c_mark_def c_modify_def)
  with t show ?thesis by blast
qed

theorem transaction_write_witness:
  "\<exists>t. kbind (bread 1 7) (\<lambda>b. kthen (bmodify b (\<lambda>_. replicate BSIZE 5)) (kthen (log_write b) (brelse b))) log_ready
      = Ret () t \<and> disk t = disk log_ready \<and> bview t (1, 7) = replicate BSIZE 5 \<and> lh_n t = 1"
  using transaction_write [of log_ready "{}" 7 "\<lambda>_. replicate BSIZE 5"] log_ready_ok by auto

text \<open>
  C29: the end of an operation. While other operations are outstanding \<open>end_op\<close> only counts down; the last one
  commits, and afterwards the disk itself holds what the cache showed, for every block of data. In both cases
  the cache shows the same data as before, the log is well-formed and not committing, and everybody asleep
  on the log has been woken.
\<close>

theorem end_op_commits:
  assumes "bio_inv s {}" and "busy_keys s = {}" and "log_ok s" and "\<not> committing s" and "1 \<le> outstanding s"
  shows "\<exists>t. end_op s = Ret () t \<and> bio_inv t {} \<and> busy_keys t = {} \<and> log_ok t \<and> \<not> committing t
    \<and> outstanding t = outstanding s - 1 \<and> (\<forall>k. data_key s k \<longrightarrow> bview t k = bview s k)
    \<and> (if outstanding s = 1 then lh_n t = 0 \<and> new_data s (disk t) else lh_n t = lh_n s \<and> disk t = disk s)"
proof -
  obtain t where t: "end_op s = Ret () t" "bio_inv t {} \<and> busy_keys t = {} \<and> log_ok t \<and> \<not> committing t
    \<and> outstanding t = outstanding s - 1 \<and> (\<forall>k. data_key s k \<longrightarrow> bview t k = bview s k)
    \<and> (if outstanding s = 1 then lh_n t = 0 \<and> new_data s (disk t) else lh_n t = lh_n s \<and> disk t = disk s)"
    using end_op_law [OF assms] by auto
  then show ?thesis by (intro exI [of _ t] conjI) blast+
qed

theorem end_op_commits_witness:
  "\<exists>t. end_op log_one = Ret () t \<and> outstanding t = 0 \<and> disk t (ide_loc 1 7) = replicate BSIZE 5"
  using end_op_commits [OF log_one(1-3)] log_one by (auto simp: new_data_def)



end
