(* ===== verification/Pipe.thy ===== *)
theory Pipe
  imports Log Spinlock "HOL-Library.Sublist"
begin

text \<open>
  Pipes, \<open>kernel/pipe.c\<close>: the ring buffer, \<open>pipewrite\<close>, \<open>piperead\<close> and \<open>pipeclose\<close> (\<open>pipealloc\<close> is in theory
  \<open>File\<close>, with the file table it uses).

  A pipe lives in a page from \<open>kalloc\<close>; the state has the pipes by the address of their page, and an access
  to a page that holds no pipe is \<open>Fault\<close>. The counters \<open>nread\<close> and \<open>nwrite\<close> are 32-bit words that wrap. The
  answer of \<open>sacquire(&p->lock, LOCK_WAIT_TICKS)\<close> (theory \<open>Spinlock\<close>) is the argument \<open>success\<close>; the lock is
  then held to the end of the call, so nobody else changes the pipe while it spins. A writer gets the bytes
  of the user's buffer, a reader returns the bytes it stored there.

  The locale \<open>byte_channel\<close> is what readers and writers rely on: whatever the sequence of calls, bytes come
  out in the order they went in, and none is lost or made up.
\<close>

section \<open>Definitions\<close>

abbreviation (input) PIPESIZE :: nat where "PIPESIZE \<equiv> 512"
abbreviation (input) MAX_WRITE_WAIT :: nat where "MAX_WRITE_WAIT \<equiv> 1000"
abbreviation (input) MAX_READ_WAIT :: nat where "MAX_READ_WAIT \<equiv> 1000"
abbreviation (input) F_ERROR :: int where "F_ERROR \<equiv> - 1"
abbreviation (input) FNOT_READY :: int where "FNOT_READY \<equiv> - 2"

record pipe =
  pdata :: "u8 list"
  nread :: u32
  nwrite :: u32
  readopen :: bool
  writeopen :: bool

record pipest = logst +
  pipes :: "u64 \<Rightarrow> pipe option"

definition pipe_at :: "u64 \<Rightarrow> ('a pipest_scheme, pipe) kmon" where
  "pipe_at p s = (case pipes s p of Some q \<Rightarrow> Ret q s | None \<Rightarrow> Fault ''pipe'')"

definition set_pipe :: "u64 \<Rightarrow> (pipe \<Rightarrow> pipe) \<Rightarrow> ('a pipest_scheme, unit) kmon" where
  "set_pipe p f = kmodify (\<lambda>s. s\<lparr>pipes := (pipes s)(p := map_option f (pipes s p))\<rparr>)"

text \<open>The fields that \<open>pipealloc\<close> sets in a new page; the data, behind a lock of 104 bytes, is what the page
  held.\<close>

definition pipe_init :: "u64 \<Rightarrow> 'a pipest_scheme \<Rightarrow> 'a pipest_scheme" where
  "pipe_init p s = s\<lparr>pipes := (pipes s)(p \<mapsto>
     \<lparr>pdata = map (\<lambda>i. kmem_mem s (p + 104 + of_nat i)) [0..<PIPESIZE], nread = 0, nwrite = 0,
      readopen = True, writeopen = True\<rparr>)\<rparr>"

definition pipeclose :: "u64 \<Rightarrow> bool \<Rightarrow> ('a pipest_scheme, unit) kmon" where
  "pipeclose p writable =
     kthen (pipe_at p)
     (kthen (if writable
        then kthen (set_pipe p (\<lambda>q. q\<lparr>writeopen := False\<rparr>)) (wakeup (ChPipeRead p))
        else kthen (set_pipe p (\<lambda>q. q\<lparr>readopen := False\<rparr>)) (wakeup (ChPipeWrite p)))
     (kbind (pipe_at p) (\<lambda>q.
        if \<not> readopen q \<and> \<not> writeopen q
        then kthen (kmodify (\<lambda>s. s\<lparr>pipes := (pipes s)(p := None)\<rparr>)) (kfree p)
        else kreturn ())))"

text \<open>\<open>proc->killed\<close>\<close>

definition proc_killed :: "('a ptab_scheme, bool) kmon" where
  "proc_killed s = (case curproc s of None \<Rightarrow> Fault ''proc->killed'' | Some i \<Rightarrow> Ret (killed (ptable s ! i)) s)"

text \<open>The loop on a full pipe, with \<open>left\<close> turns to go: an early return, or the final value of \<open>loops\<close>.\<close>

fun pipewrite_full :: "nat \<Rightarrow> u64 \<Rightarrow> ('a pipest_scheme, int + nat) kmon" where
  "pipewrite_full 0 p = kbind (pipe_at p) (\<lambda>q.
     if nwrite q = nread q + of_nat PIPESIZE then kreturn (Inr (Suc MAX_WRITE_WAIT))
     else kreturn (Inr MAX_WRITE_WAIT))"
| "pipewrite_full (Suc left) p = kbind (pipe_at p) (\<lambda>q.
     if nwrite q = nread q + of_nat PIPESIZE then
       kbind proc_killed (\<lambda>k.
         if \<not> readopen q \<or> k then kreturn (Inl F_ERROR)
         else kthen (wakeup (ChPipeRead p)) (pipewrite_full left p))
     else kreturn (Inr (MAX_WRITE_WAIT - Suc left)))"

text \<open>The loop over the bytes still to write; \<open>None\<close> when all are written.\<close>

fun pipewrite_loop :: "u64 \<Rightarrow> u8 list \<Rightarrow> ('a pipest_scheme, int option) kmon" where
  "pipewrite_loop p [] = kreturn None"
| "pipewrite_loop p (c # cs) = kbind (pipewrite_full MAX_WRITE_WAIT p) (\<lambda>r. case r of
       Inl e \<Rightarrow> kreturn (Some e)
     | Inr loops \<Rightarrow>
        if loops \<ge> MAX_WRITE_WAIT then kthen (wakeup (ChPipeRead p)) (kreturn (Some FNOT_READY))
        else kthen (set_pipe p (\<lambda>q. q\<lparr>pdata := (pdata q)[unat (nwrite q mod of_nat PIPESIZE) := c],
            nwrite := nwrite q + 1\<rparr>)) (pipewrite_loop p cs))"

definition pipewrite :: "u64 \<Rightarrow> u8 list \<Rightarrow> int \<Rightarrow> u8 \<Rightarrow> ('a pipest_scheme, int) kmon" where
  "pipewrite p addr n success =
     (if success \<noteq> SPINLOCK_ACQUIRED then kreturn FNOT_READY
      else if int (length addr) < n then kfault ''addr[i]''
      else kbind (pipewrite_loop p (take (nat n) addr)) (\<lambda>r. case r of
          Some e \<Rightarrow> kreturn e
        | None \<Rightarrow> kthen (wakeup (ChPipeRead p)) (kreturn n)))"

fun piperead_empty :: "nat \<Rightarrow> u64 \<Rightarrow> ('a pipest_scheme, int + nat) kmon" where
  "piperead_empty 0 p = kbind (pipe_at p) (\<lambda>q.
     if nread q = nwrite q \<and> writeopen q then kreturn (Inr (Suc MAX_READ_WAIT))
     else kreturn (Inr MAX_READ_WAIT))"
| "piperead_empty (Suc left) p = kbind (pipe_at p) (\<lambda>q.
     if nread q = nwrite q \<and> writeopen q then
       kbind proc_killed (\<lambda>k. if k then kreturn (Inl F_ERROR) else piperead_empty left p)
     else kreturn (Inr (MAX_READ_WAIT - Suc left)))"

fun piperead_copy :: "u64 \<Rightarrow> nat \<Rightarrow> ('a pipest_scheme, u8 list) kmon" where
  "piperead_copy p 0 = kreturn []"
| "piperead_copy p (Suc k) = kbind (pipe_at p) (\<lambda>q.
     if nread q = nwrite q then kreturn []
     else kthen (set_pipe p (\<lambda>q. q\<lparr>nread := nread q + 1\<rparr>))
       (kbind (piperead_copy p k) (\<lambda>bs.
          kreturn (pdata q ! unat (nread q mod of_nat PIPESIZE) # bs))))"

definition piperead :: "u64 \<Rightarrow> int \<Rightarrow> u8 \<Rightarrow> ('a pipest_scheme, int \<times> u8 list) kmon" where
  "piperead p n success =
     (if success \<noteq> SPINLOCK_ACQUIRED then kreturn (FNOT_READY, [])
      else kbind (piperead_empty MAX_READ_WAIT p) (\<lambda>r. case r of
          Inl e \<Rightarrow> kreturn (e, [])
        | Inr loops \<Rightarrow>
           if loops \<ge> MAX_READ_WAIT then kthen (wakeup (ChPipeWrite p)) (kreturn (FNOT_READY, []))
           else kbind (piperead_copy p (nat n)) (\<lambda>bs.
             kthen (wakeup (ChPipeWrite p)) (kreturn (int (length bs), bs)))))"

section \<open>The ring buffer as a list of bytes\<close>

definition pipe_len :: "pipe \<Rightarrow> nat" where
  "pipe_len q = unat (nwrite q - nread q)"

definition pipe_bytes :: "pipe \<Rightarrow> u8 list" where
  "pipe_bytes q = map (\<lambda>i. pdata q ! ((unat (nread q) + i) mod PIPESIZE)) [0..<pipe_len q]"

definition pipe_ok :: "pipe \<Rightarrow> bool" where
  "pipe_ok q \<longleftrightarrow> length (pdata q) = PIPESIZE \<and> pipe_len q \<le> PIPESIZE"

lemma length_pipe_bytes [simp]: "length (pipe_bytes q) = pipe_len q"
  by (simp add: pipe_bytes_def)

lemma pipe_slot: "unat (a mod of_nat PIPESIZE :: u32) = unat a mod PIPESIZE"
  by (simp add: unat_mod_word)

lemma pipe_full: "nwrite q = nread q + 512 \<longleftrightarrow> pipe_len q = PIPESIZE"
proof -
  have "nwrite q = nread q + 512 \<longleftrightarrow> nwrite q - nread q = 512" by (auto simp: algebra_simps)
  then show ?thesis by (simp add: pipe_len_def word_unat_eq_iff)
qed

lemma pipe_empty: "nread q = nwrite q \<longleftrightarrow> pipe_len q = 0"
  by (auto simp: pipe_len_def unat_eq_zero)

lemma u32_suc_mod: "unat (a + 1 :: u32) mod PIPESIZE = Suc (unat a) mod PIPESIZE"
proof -
  have "unat (a + 1) = Suc (unat a) mod 4294967296" by (simp add: unat_word_ariths)
  then show ?thesis by (simp add: mod_mod_cancel)
qed

lemma u32_diff_mod: "(unat a + unat (b - a)) mod PIPESIZE = unat (b :: u32) mod PIPESIZE"
proof -
  have "unat b = unat (a + (b - a))" by simp
  also have "\<dots> = (unat a + unat (b - a)) mod 4294967296" by (simp only: unat_word_ariths) simp
  finally show ?thesis by (simp add: mod_mod_cancel)
qed

lemma ring_distinct:
  assumes "i < n" and "n < PIPESIZE"
  shows "(a + i) mod PIPESIZE \<noteq> (a + n) mod PIPESIZE"
proof
  assume "(a + i) mod PIPESIZE = (a + n) mod PIPESIZE"
  then have "PIPESIZE dvd (a + n) - (a + i)" using assms(1) mod_eq_dvd_iff_nat [of "a + i" "a + n" PIPESIZE] by simp
  then show False using assms by (auto dest: dvd_imp_le)
qed

lemma pipe_push:
  fixes c :: u8
  assumes "pipe_ok q" and "pipe_len q < PIPESIZE"
  defines "q' \<equiv> q\<lparr>pdata := (pdata q)[unat (nwrite q mod of_nat PIPESIZE) := c], nwrite := nwrite q + 1\<rparr>"
  shows "pipe_ok q'" and "pipe_bytes q' = pipe_bytes q @ [c]" and "pipe_len q' = Suc (pipe_len q)"
proof -
  have "nwrite q' - nread q' = (nwrite q - nread q) + 1" by (simp add: q'_def)
  moreover have "unat (nwrite q - nread q) < 512" using assms(2) by (simp add: pipe_len_def)
  ultimately show len: "pipe_len q' = Suc (pipe_len q)"
    by (simp add: pipe_len_def unat_word_ariths)
  have w: "unat (nwrite q) mod PIPESIZE = (unat (nread q) + pipe_len q) mod PIPESIZE"
    unfolding pipe_len_def by (rule u32_diff_mod [symmetric])
  show "pipe_ok q'" using assms(1,2) len by (simp add: pipe_ok_def q'_def)
  have data: "pdata q' ! ((unat (nread q) + i) mod PIPESIZE) =
      (if i = pipe_len q then c else pdata q ! ((unat (nread q) + i) mod PIPESIZE))" if "i \<le> pipe_len q" for i
    using that ring_distinct [of i "pipe_len q" "unat (nread q)"] assms(1,2)
    unfolding q'_def pipe_ok_def pipe_slot w by (auto simp: nth_list_update)
  have "nread q' = nread q" by (simp add: q'_def)
  then show "pipe_bytes q' = pipe_bytes q @ [c]"
    unfolding pipe_bytes_def len by (simp add: data)
qed

lemma pipe_pop:
  assumes "pipe_ok q" and "pipe_len q \<noteq> 0"
  defines "q' \<equiv> q\<lparr>nread := nread q + 1\<rparr>"
  shows "pipe_ok q'" and "pipe_bytes q = pdata q ! unat (nread q mod of_nat PIPESIZE) # pipe_bytes q'"
    and "Suc (pipe_len q') = pipe_len q"
proof -
  have eq: "nwrite q - nread q = (nwrite q' - nread q') + 1" by (simp add: q'_def)
  have "unat (nwrite q' - nread q') + 1 < 4294967296"
  proof (rule ccontr)
    assume "\<not> ?thesis"
    then have "unat (nwrite q' - nread q') = 4294967295" using u32_bound [of "nwrite q' - nread q'"] by linarith
    then have "pipe_len q = 0" unfolding pipe_len_def eq by (simp only: unat_word_ariths) simp
    then show False using assms(2) by simp
  qed
  then show len: "Suc (pipe_len q') = pipe_len q" unfolding pipe_len_def eq by (simp add: unat_word_ariths)
  show "pipe_ok q'" using assms(1) len by (simp add: pipe_ok_def q'_def)
  have "[0..<pipe_len q] = 0 # map Suc [0..<pipe_len q']"
    unfolding len [symmetric] by (simp add: map_Suc_upt upt_conv_Cons del: upt_Suc)
  moreover have "(unat (nread q') + i) mod PIPESIZE = (unat (nread q) + Suc i) mod PIPESIZE" for i
    using u32_suc_mod [of "nread q"] by (simp add: q'_def) (metis add_Suc mod_add_left_eq)
  moreover have "pdata q' = pdata q" by (simp add: q'_def)
  ultimately show "pipe_bytes q = pdata q ! unat (nread q mod of_nat PIPESIZE) # pipe_bytes q'"
    unfolding pipe_bytes_def pipe_slot by simp
qed

section \<open>The operations\<close>

text \<open>Waking twice is waking once.\<close>

lemma woken_woken [simp]: "ptable s \<noteq> [] \<Longrightarrow> woken c (woken c s) = woken c s"
  by (simp add: woken_def wakeup1_proc_def o_def cong: if_cong)


definition at_pipe :: "u64 \<Rightarrow> pipe \<Rightarrow> 'a pipest_scheme \<Rightarrow> 'a pipest_scheme" where
  "at_pipe p q s = s\<lparr>pipes := (pipes s)(p \<mapsto> q)\<rparr>"

lemma at_pipe_simps [simp]:
  "pipes (at_pipe p q s) = (pipes s)(p \<mapsto> q)" "ptable (at_pipe p q s) = ptable s" "curproc (at_pipe p q s) = curproc s"
  "at_pipe p q (at_pipe p q' s) = at_pipe p q s" "pipes (woken c s) = pipes s" "curproc (woken c s) = curproc s"
  by (simp_all add: at_pipe_def woken_def)

lemma at_pipe_same: "pipes s p = Some q \<Longrightarrow> at_pipe p q s = s"
  by (simp add: at_pipe_def fun_upd_idem)

lemma set_pipe_eq: "pipes s p = Some q \<Longrightarrow> set_pipe p f s = Ret () (at_pipe p (f q) s)"
  by (simp add: set_pipe_def at_pipe_def kmodify_def)

text \<open>A call on behalf of a process of the table, on a pipe.\<close>

definition pipe_call :: "u64 \<Rightarrow> pipe \<Rightarrow> nat \<Rightarrow> 'a pipest_scheme \<Rightarrow> bool" where
  "pipe_call p q i s \<longleftrightarrow> pipes s p = Some q \<and> pipe_ok q \<and> curproc s = Some i \<and> i < length (ptable s)"

lemma pipe_callD:
  assumes "pipe_call p q i s"
  shows "pipes s p = Some q" and "pipe_ok q" and "curproc s = Some i" and "i < length (ptable s)" and "ptable s \<noteq> []"
  using assms by (auto simp: pipe_call_def)

lemma killed_woken [simp]: "i < length (ptable s) \<Longrightarrow> killed (ptable (woken c s) ! i) = killed (ptable s ! i)"
  by (cases "ptable s = []") (simp_all add: woken_def wakeup_nth wakeup1_proc_def)

lemma length_woken [simp]: "ptable s \<noteq> [] \<Longrightarrow> length (ptable (woken c s)) = length (ptable s)"
  by (simp add: woken_def)

lemma pipe_call_woken: "pipe_call p q i s \<Longrightarrow> pipe_call p q i (woken c s)"
  unfolding pipe_call_def by (cases "ptable s = []") simp_all

lemma pipe_call_at: "pipe_call p q i s \<Longrightarrow> pipe_ok q' \<Longrightarrow> pipe_call p q' i (at_pipe p q' s)"
  by (simp add: pipe_call_def)

lemma pipewrite_full_room:
  assumes "pipe_call p q i s" and "pipe_len q < PIPESIZE"
  shows "pipewrite_full (Suc left) p s = Ret (Inr (MAX_WRITE_WAIT - Suc left)) s"
  using assms by (simp add: pipe_call_def pipe_at_def kmon_defs pipe_full)

lemma pipewrite_full_error:
  assumes "pipe_call p q i s" and "pipe_len q = PIPESIZE" and "\<not> readopen q \<or> killed (ptable s ! i)"
  shows "pipewrite_full (Suc left) p s = Ret (Inl F_ERROR) s"
  using assms by (auto simp: pipe_call_def pipe_at_def proc_killed_def kmon_defs pipe_full)

lemma pipewrite_full_spins:
  assumes "pipe_call p q i s" and "pipe_len q = PIPESIZE" and "readopen q" and "\<not> killed (ptable s ! i)"
  shows "pipewrite_full (Suc left) p s = Ret (Inr (Suc MAX_WRITE_WAIT)) (woken (ChPipeRead p) s)"
  using assms
proof (induction left arbitrary: s)
  case 0
  then show ?case using pipe_callD(5) [OF 0(1)]
    by (simp add: pipe_call_def pipe_at_def proc_killed_def kmon_defs pipe_full wakeup_woken)
next
  case (Suc left)
  note c = pipe_callD [OF Suc.prems(1)]
  have "pipewrite_full (Suc (Suc left)) p s = pipewrite_full (Suc left) p (woken (ChPipeRead p) s)"
    using c Suc.prems by (simp add: pipe_at_def proc_killed_def kmon_defs pipe_full wakeup_woken)
  also have "\<dots> = Ret (Inr (Suc MAX_WRITE_WAIT)) (woken (ChPipeRead p) s)"
    using Suc.IH [OF pipe_call_woken [OF Suc.prems(1)] Suc.prems(2,3)] Suc.prems(4) c by simp
  finally show ?case .
qed

lemma pipewrite_loop_law:
  assumes "pipe_call p q i s" and "e \<longleftrightarrow> \<not> readopen q \<or> killed (ptable s ! i)"
  shows "\<exists>q'. pipe_ok q' \<and> pipe_bytes q' = pipe_bytes q @ take (PIPESIZE - pipe_len q) cs
    \<and> nread q' = nread q \<and> readopen q' = readopen q \<and> writeopen q' = writeopen q
    \<and> pipewrite_loop p cs s = (if pipe_len q + length cs \<le> PIPESIZE then Ret None (at_pipe p q' s)
       else if e then Ret (Some F_ERROR) (at_pipe p q' s)
       else Ret (Some FNOT_READY) (woken (ChPipeRead p) (at_pipe p q' s)))"
  using assms
proof (induction cs arbitrary: q s)
  case Nil
  then show ?case using pipe_callD [OF Nil(1)]
    by (intro exI [of _ q]) (simp add: kreturn_def at_pipe_same pipe_ok_def)
next
  case (Cons c cs)
  note call = pipe_callD [OF Cons.prems(1)]
  show ?case
  proof (cases "pipe_len q = PIPESIZE")
    case True
    have "pipewrite_full MAX_WRITE_WAIT p s = (if e then Ret (Inl F_ERROR) s
        else Ret (Inr (Suc MAX_WRITE_WAIT)) (woken (ChPipeRead p) s))"
      using pipewrite_full_error [OF Cons.prems(1) True, of 999] pipewrite_full_spins [OF Cons.prems(1) True, of 999]
        Cons.prems(2) by simp
    then show ?thesis using True call
      by (intro exI [of _ q]) (auto simp: kmon_defs at_pipe_same wakeup_woken)
  next
    case False
    then have room: "pipe_len q < PIPESIZE" using call(2) by (simp add: pipe_ok_def)
    let ?q = "q\<lparr>pdata := (pdata q)[unat (nwrite q mod of_nat PIPESIZE) := c], nwrite := nwrite q + 1\<rparr>"
    note push = pipe_push [OF call(2) room, of c]
    have step: "pipewrite_loop p (c # cs) s = pipewrite_loop p cs (at_pipe p ?q s)"
      using pipewrite_full_room [OF Cons.prems(1) room, of 999] set_pipe_eq [OF call(1)] by (simp add: kbind_Ret)
    have e: "e \<longleftrightarrow> \<not> readopen ?q \<or> killed (ptable (at_pipe p ?q s) ! i)" using Cons.prems(2) by simp
    have "take (PIPESIZE - pipe_len q) (c # cs) = c # take (PIPESIZE - pipe_len ?q) cs"
      unfolding push(3) using room by (simp add: take_Cons')
    moreover obtain q' where "pipe_ok q'" "pipe_bytes q' = pipe_bytes ?q @ take (PIPESIZE - pipe_len ?q) cs"
        "nread q' = nread q" "readopen q' = readopen q" "writeopen q' = writeopen q"
        "pipewrite_loop p cs (at_pipe p ?q s) = (if pipe_len ?q + length cs \<le> PIPESIZE then Ret None (at_pipe p q' s)
          else if e then Ret (Some F_ERROR) (at_pipe p q' s)
          else Ret (Some FNOT_READY) (woken (ChPipeRead p) (at_pipe p q' s)))"
      using Cons.IH [OF pipe_call_at [OF Cons.prems(1) push(1)] e] by (simp only: at_pipe_simps) auto
    ultimately show ?thesis unfolding step push(2,3) by (intro exI [of _ q']) simp
  qed
qed

lemma pipewrite_law:
  assumes "pipe_call p q i s"
  shows "\<exists>q'. pipe_ok q' \<and> pipe_bytes q' = pipe_bytes q @ take (PIPESIZE - pipe_len q) xs
    \<and> nread q' = nread q \<and> readopen q' = readopen q \<and> writeopen q' = writeopen q
    \<and> pipewrite p xs (int (length xs)) SPINLOCK_ACQUIRED s =
      (if pipe_len q + length xs \<le> PIPESIZE then Ret (int (length xs)) (woken (ChPipeRead p) (at_pipe p q' s))
       else if \<not> readopen q \<or> killed (ptable s ! i) then Ret F_ERROR (at_pipe p q' s)
       else Ret FNOT_READY (woken (ChPipeRead p) (at_pipe p q' s)))"
proof -
  obtain q' where "pipe_ok q'" "pipe_bytes q' = pipe_bytes q @ take (PIPESIZE - pipe_len q) xs"
      "nread q' = nread q" "readopen q' = readopen q" "writeopen q' = writeopen q"
      "pipewrite_loop p xs s = (if pipe_len q + length xs \<le> PIPESIZE then Ret None (at_pipe p q' s)
        else if \<not> readopen q \<or> killed (ptable s ! i) then Ret (Some F_ERROR) (at_pipe p q' s)
        else Ret (Some FNOT_READY) (woken (ChPipeRead p) (at_pipe p q' s)))"
    using pipewrite_loop_law [OF assms refl, of xs] by blast
  then show ?thesis using pipe_callD(5) [OF assms]
    by (intro exI [of _ q']) (simp add: pipewrite_def kbind_def kreturn_def wakeup_woken)
qed

lemma piperead_empty_ready:
  assumes "pipe_call p q i s" and "pipe_len q \<noteq> 0 \<or> \<not> writeopen q"
  shows "piperead_empty (Suc left) p s = Ret (Inr (MAX_READ_WAIT - Suc left)) s"
  using assms by (auto simp: pipe_call_def pipe_at_def kmon_defs pipe_empty)

lemma piperead_empty_waits:
  assumes "pipe_call p q i s" and "pipe_len q = 0" and "writeopen q"
  shows "piperead_empty (Suc left) p s =
    Ret (if killed (ptable s ! i) then Inl F_ERROR else Inr (Suc MAX_READ_WAIT)) s"
  using assms
  by (cases "killed (ptable s ! i)"; induction left)
    (simp_all add: pipe_call_def pipe_at_def proc_killed_def kmon_defs pipe_empty)

lemma piperead_copy_law:
  assumes "pipe_call p q i s"
  shows "\<exists>q'. pipe_ok q' \<and> pipe_bytes q = take k (pipe_bytes q) @ pipe_bytes q'
    \<and> nwrite q' = nwrite q \<and> readopen q' = readopen q \<and> writeopen q' = writeopen q
    \<and> piperead_copy p k s = Ret (take k (pipe_bytes q)) (at_pipe p q' s)"
  using assms
proof (induction k arbitrary: q s)
  case 0
  then show ?case using pipe_callD [OF 0] by (intro exI [of _ q]) (simp add: kreturn_def at_pipe_same)
next
  case (Suc k)
  note call = pipe_callD [OF Suc.prems]
  show ?case
  proof (cases "pipe_len q = 0")
    case True
    then have "pipe_bytes q = []" by (simp add: pipe_bytes_def)
    then show ?thesis using True call
      by (intro exI [of _ q]) (simp add: pipe_at_def kmon_defs at_pipe_same pipe_empty)
  next
    case False
    let ?q = "q\<lparr>nread := nread q + 1\<rparr>" and ?c = "pdata q ! unat (nread q mod of_nat PIPESIZE)"
    note pop = pipe_pop [OF call(2) False]
    obtain q' where q': "pipe_ok q'" "pipe_bytes ?q = take k (pipe_bytes ?q) @ pipe_bytes q'" "nwrite q' = nwrite ?q"
        "readopen q' = readopen ?q" "writeopen q' = writeopen ?q"
        "piperead_copy p k (at_pipe p ?q s) = Ret (take k (pipe_bytes ?q)) (at_pipe p q' (at_pipe p ?q s))"
      using Suc.IH [OF pipe_call_at [OF Suc.prems pop(1)]] by blast
    have "piperead_copy p (Suc k) s = Ret (?c # take k (pipe_bytes ?q)) (at_pipe p q' s)"
      using call(1) False q'(6) set_pipe_eq [OF call(1), of "\<lambda>q. q\<lparr>nread := nread q + 1\<rparr>"]
      by (simp add: pipe_at_def pipe_empty kbind_def kreturn_def)
    then show ?thesis using q' unfolding pop(2) by (intro exI [of _ q']) simp
  qed
qed

lemma piperead_law:
  assumes "pipe_call p q i s"
  shows "\<exists>q'. pipe_ok q' \<and> pipe_bytes q = take (nat n) (pipe_bytes q) @ pipe_bytes q'
    \<and> nwrite q' = nwrite q \<and> readopen q' = readopen q \<and> writeopen q' = writeopen q
    \<and> piperead p n SPINLOCK_ACQUIRED s =
      (if pipe_len q = 0 \<and> writeopen q then
         if killed (ptable s ! i) then Ret (F_ERROR, []) s else Ret (FNOT_READY, []) (woken (ChPipeWrite p) s)
       else Ret (int (min (nat n) (pipe_len q)), take (nat n) (pipe_bytes q)) (woken (ChPipeWrite p) (at_pipe p q' s)))"
proof -
  obtain q' where q': "pipe_ok q'" "pipe_bytes q = take (nat n) (pipe_bytes q) @ pipe_bytes q'"
      "nwrite q' = nwrite q" "readopen q' = readopen q" "writeopen q' = writeopen q"
      "piperead_copy p (nat n) s = Ret (take (nat n) (pipe_bytes q)) (at_pipe p q' s)"
    using piperead_copy_law [OF assms, of "nat n"] by blast
  show ?thesis
    using q' pipe_callD(5) [OF assms] piperead_empty_ready [OF assms, of 999] piperead_empty_waits [OF assms, of 999]
    by (intro exI [of _ q']) (simp add: piperead_def kbind_def kreturn_def wakeup_woken min.commute)
qed

section \<open>Pipes as byte channels\<close>

text \<open>A sequence of calls, by whoever makes them; the second argument of a call is the answer of the lock.
  The run returns the bytes that writers offered, the bytes that readers got, and whether every write
  reported success.\<close>

datatype chan_op = Put u8 "u8 list" | Get u8 int

fun chan_run :: "(u8 list \<Rightarrow> u8 \<Rightarrow> ('s, int) kmon) \<Rightarrow> (int \<Rightarrow> u8 \<Rightarrow> ('s, int \<times> u8 list) kmon) \<Rightarrow> chan_op list \<Rightarrow>
    ('s, u8 list \<times> u8 list \<times> bool) kmon" where
  "chan_run put get [] = kreturn ([], [], True)"
| "chan_run put get (Put a xs # ops) = kbind (put xs a) (\<lambda>r. kbind (chan_run put get ops) (\<lambda>(snt, rcv, fine).
     kreturn (xs @ snt, rcv, r = int (length xs) \<and> fine)))"
| "chan_run put get (Get a n # ops) = kbind (get n a) (\<lambda>(r, ys). kbind (chan_run put get ops) (\<lambda>(snt, rcv, fine).
     kreturn (snt, ys @ rcv, fine)))"

locale byte_channel =
  fixes put :: "u8 list \<Rightarrow> u8 \<Rightarrow> ('s, int) kmon" and get :: "int \<Rightarrow> u8 \<Rightarrow> ('s, int \<times> u8 list) kmon"
    and content :: "'s \<Rightarrow> u8 list" and ok :: "'s \<Rightarrow> bool"
  assumes put_law: "ok s \<Longrightarrow> \<exists>r t k. put xs a s = Ret r t \<and> ok t \<and> content t = content s @ take k xs
      \<and> (r = int (length xs) \<longrightarrow> take k xs = xs)"
    and get_law: "ok s \<Longrightarrow> \<exists>r ys t. get n a s = Ret (r, ys) t \<and> ok t \<and> content s = ys @ content t"
begin

lemma fifo:
  assumes "ok s"
  shows "\<exists>snt rcv fine t acc. chan_run put get ops s = Ret (snt, rcv, fine) t \<and> ok t
    \<and> content s @ acc = rcv @ content t \<and> subseq acc snt \<and> (fine \<longrightarrow> acc = snt)"
  using assms
proof (induction ops arbitrary: s)
  case Nil
  then show ?case by (auto simp: kreturn_def)
next
  case (Cons op ops)
  show ?case
  proof (cases op)
    case (Put a xs)
    obtain r u k where u: "put xs a s = Ret r u" "ok u" "content u = content s @ take k xs"
        "r = int (length xs) \<longrightarrow> take k xs = xs"
      using put_law [OF Cons.prems] by blast
    obtain snt rcv fine t acc where t: "chan_run put get ops u = Ret (snt, rcv, fine) t" "ok t"
        "content u @ acc = rcv @ content t" "subseq acc snt" "fine \<longrightarrow> acc = snt"
      using Cons.IH [OF u(2)] by blast
    have "chan_run put get (op # ops) s = Ret (xs @ snt, rcv, r = int (length xs) \<and> fine) t"
      using u(1) t(1) Put by (simp add: kbind_Ret kbind_def kreturn_def)
    moreover have "subseq (take k xs @ acc) (xs @ snt)"
      using t(4) by (intro list_emb_append_mono) (auto intro: prefix_imp_subseq take_is_prefix)
    moreover have "content s @ (take k xs @ acc) = rcv @ content t" using t(3) u(3) by simp
    ultimately show ?thesis using t(2,5) u(4) by blast
  next
    case (Get a n)
    obtain r ys u where u: "get n a s = Ret (r, ys) u" "ok u" "content s = ys @ content u"
      using get_law [OF Cons.prems] by blast
    obtain snt rcv fine t acc where t: "chan_run put get ops u = Ret (snt, rcv, fine) t" "ok t"
        "content u @ acc = rcv @ content t" "subseq acc snt" "fine \<longrightarrow> acc = snt"
      using Cons.IH [OF u(2)] by blast
    have "chan_run put get (op # ops) s = Ret (snt, ys @ rcv, fine) t"
      using u(1) t(1) Get by (simp add: kbind_Ret kbind_def kreturn_def)
    moreover have "content s @ acc = (ys @ rcv) @ content t" using t(3) u(3) by simp
    ultimately show ?thesis using t(2,4,5) by blast
  qed
qed

end

definition pipe_content :: "u64 \<Rightarrow> 'a pipest_scheme \<Rightarrow> u8 list" where
  "pipe_content p s = (case pipes s p of Some q \<Rightarrow> pipe_bytes q | None \<Rightarrow> [])"

definition pipe_used :: "u64 \<Rightarrow> nat \<Rightarrow> 'a pipest_scheme \<Rightarrow> bool" where
  "pipe_used p i s \<longleftrightarrow> (\<exists>q. pipe_call p q i s)"

lemma pipe_content_call: "pipe_call p q i s \<Longrightarrow> pipe_content p s = pipe_bytes q"
  by (simp add: pipe_content_def pipe_call_def)

lemma pipe_content_woken [simp]: "pipe_content p (woken c s) = pipe_content p s"
  by (simp add: pipe_content_def)

lemma pipewrite_channel:
  assumes "pipe_used p i s"
  shows "\<exists>r t k. pipewrite p xs (int (length xs)) a s = Ret r t \<and> pipe_used p i t
    \<and> pipe_content p t = pipe_content p s @ take k xs \<and> (r = int (length xs) \<longrightarrow> take k xs = xs)"
proof -
  obtain q where q: "pipe_call p q i s" using assms by (auto simp: pipe_used_def)
  show ?thesis
  proof (cases "a = SPINLOCK_ACQUIRED")
    case False
    then show ?thesis using assms by (auto simp: pipewrite_def kreturn_def intro!: exI [of _ 0])
  next
    case True
    obtain q' where q': "pipe_ok q'" "pipe_bytes q' = pipe_bytes q @ take (PIPESIZE - pipe_len q) xs"
      "pipewrite p xs (int (length xs)) a s =
       (if pipe_len q + length xs \<le> PIPESIZE then Ret (int (length xs)) (woken (ChPipeRead p) (at_pipe p q' s))
        else if \<not> readopen q \<or> killed (ptable s ! i) then Ret F_ERROR (at_pipe p q' s)
        else Ret FNOT_READY (woken (ChPipeRead p) (at_pipe p q' s)))"
      using pipewrite_law [OF q, of xs] True by blast
    have at: "pipe_call p q' i (at_pipe p q' s)" using pipe_call_at [OF q q'(1)] .
    then have "pipe_used p i (at_pipe p q' s)" "pipe_used p i (woken (ChPipeRead p) (at_pipe p q' s))"
      using pipe_call_woken unfolding pipe_used_def by blast+
    moreover have "pipe_content p (at_pipe p q' s) = pipe_content p s @ take (PIPESIZE - pipe_len q) xs"
      using q'(2) pipe_content_call [OF at] pipe_content_call [OF q] by simp
    ultimately show ?thesis using q'(3) by (auto intro!: exI [of _ "PIPESIZE - pipe_len q"])
  qed
qed

lemma piperead_channel:
  assumes "pipe_used p i s"
  shows "\<exists>r ys t. piperead p n a s = Ret (r, ys) t \<and> pipe_used p i t \<and> pipe_content p s = ys @ pipe_content p t"
proof -
  obtain q where q: "pipe_call p q i s" using assms by (auto simp: pipe_used_def)
  show ?thesis
  proof (cases "a = SPINLOCK_ACQUIRED")
    case False
    then show ?thesis using assms by (auto simp: piperead_def kreturn_def)
  next
    case True
    obtain q' where q': "pipe_ok q'" "pipe_bytes q = take (nat n) (pipe_bytes q) @ pipe_bytes q'"
      "piperead p n a s = (if pipe_len q = 0 \<and> writeopen q then
         if killed (ptable s ! i) then Ret (F_ERROR, []) s else Ret (FNOT_READY, []) (woken (ChPipeWrite p) s)
       else Ret (int (min (nat n) (pipe_len q)), take (nat n) (pipe_bytes q)) (woken (ChPipeWrite p) (at_pipe p q' s)))"
      using piperead_law [OF q, of n] True by blast
    have at: "pipe_call p q' i (at_pipe p q' s)" using pipe_call_at [OF q q'(1)] .
    then have "pipe_used p i (woken (ChPipeWrite p) (at_pipe p q' s))" "pipe_used p i (woken (ChPipeWrite p) s)"
      using pipe_call_woken q unfolding pipe_used_def by blast+
    moreover have "pipe_content p (at_pipe p q' s) = pipe_bytes q'" "pipe_content p s = pipe_bytes q"
      using pipe_content_call [OF at] pipe_content_call [OF q] by simp_all
    ultimately show ?thesis using q'(2,3) assms by auto
  qed
qed

interpretation pipe_chan: byte_channel "\<lambda>xs a. pipewrite p xs (int (length xs)) a" "\<lambda>n a. piperead p n a"
    "pipe_content p" "pipe_used p i" for p :: u64 and i :: nat
  by unfold_locales (use pipewrite_channel piperead_channel in blast)+

section \<open>A concrete pipe\<close>

definition pipe_two :: pipe where
  "pipe_two = \<lparr>pdata = replicate 509 0 @ [7, 8, 9], nread = 0xFFFFFFFD, nwrite = 0xFFFFFFFF, readopen = True, writeopen = True\<rparr>"

definition pipe_demo :: pipest where
  "pipe_demo = logst.extend log_ready \<lparr>pipes = [0xFFFFFFFF83200000 \<mapsto> pipe_two]\<rparr>"

text \<open>The second close of a pipe, with one more free page.\<close>

definition pipe_last :: pipest where
  "pipe_last = pipe_demo\<lparr>kmem_mem := kmem_mem kmem_two, freelist := freelist kmem_two, kend := kend kmem_two,
     pipes := [0xFFFFFFFF83202000 \<mapsto> pipe_two\<lparr>readopen := False\<rparr>]\<rparr>"

lemma pipe_demo_table: "ptable pipe_demo = ptable ptab_three" "curproc pipe_demo = Some 0"
proof -
  have "\<exists>f. bio_ready = bio_demo\<lparr>bufs := f\<rparr>"
    unfolding bio_ready_def binit_def kmodify_def Let_def outcome.case by blast
  then obtain f where f: "bio_ready = bio_demo\<lparr>bufs := f\<rparr>" ..
  have "ptable bio_ready = ptable bio_demo" "curproc bio_ready = curproc bio_demo" unfolding f by simp_all
  then show "ptable pipe_demo = ptable ptab_three" "curproc pipe_demo = Some 0"
    by (simp_all add: pipe_demo_def logst.extend_def log_ready_def bio.extend_def bio_demo_def ptab.extend_def)
qed

lemma pipe_demo: "pipe_call 0xFFFFFFFF83200000 pipe_two 0 pipe_demo" "pipe_bytes pipe_two = [7, 8]"
proof -
  show "pipe_bytes pipe_two = [7, 8]"
    by (simp add: pipe_bytes_def pipe_len_def pipe_two_def upt_rec nth_append)
  show "pipe_call 0xFFFFFFFF83200000 pipe_two 0 pipe_demo"
    using pipe_demo_table
    by (simp add: pipe_call_def) (simp add: pipe_demo_def logst.extend_def pipe_ok_def pipe_len_def pipe_two_def)
qed

section \<open>Properties\<close>

text \<open>
  C12: bytes leave a pipe in the order they entered it. For every sequence of reads and writes, whatever the
  lock answers and whether or not the counters wrap, every call returns; the bytes that readers got, followed
  by the bytes still in the pipe, are the bytes that were in it at first followed by bytes that were offered
  to it, in order. When every write reported success these are all the bytes offered: none is lost.
\<close>

theorem pipe_fifo:
  assumes "pipe_call p q i s"
  shows "\<exists>snt rcv fine t q' acc.
    chan_run (\<lambda>xs a. pipewrite p xs (int (length xs)) a) (\<lambda>n a. piperead p n a) ops s = Ret (snt, rcv, fine) t
    \<and> pipe_call p q' i t \<and> pipe_bytes q @ acc = rcv @ pipe_bytes q' \<and> subseq acc snt \<and> (fine \<longrightarrow> acc = snt)"
proof -
  have "pipe_used p i s" using assms by (auto simp: pipe_used_def)
  then obtain snt rcv fine t acc where t:
      "chan_run (\<lambda>xs a. pipewrite p xs (int (length xs)) a) (\<lambda>n a. piperead p n a) ops s = Ret (snt, rcv, fine) t"
      "pipe_used p i t" "pipe_content p s @ acc = rcv @ pipe_content p t" "subseq acc snt" "fine \<longrightarrow> acc = snt"
    using pipe_chan.fifo [of p i s ops] by blast
  then obtain q' where "pipe_call p q' i t" by (auto simp: pipe_used_def)
  then show ?thesis using t pipe_content_call [OF assms] pipe_content_call [of p q' i t] by auto
qed

theorem pipe_fifo_witness:
  "\<exists>snt rcv fine t q' acc. chan_run (\<lambda>xs a. pipewrite 0xFFFFFFFF83200000 xs (int (length xs)) a)
      (\<lambda>n a. piperead 0xFFFFFFFF83200000 n a) [Put 1 [1, 2, 3], Get 1 4, Put 0 [5]] pipe_demo = Ret (snt, rcv, fine) t
    \<and> pipe_call 0xFFFFFFFF83200000 q' 0 t \<and> [7, 8] @ acc = rcv @ pipe_bytes q' \<and> subseq acc snt"
  using pipe_fifo [OF pipe_demo(1)] unfolding pipe_demo(2) by blast

text \<open>
  C30: what a write does. It stores as much of the buffer as there is room for. If that is all of it, the call
  returns its length and wakes the readers. Otherwise it spins, holding the lock, until it gives up: with
  \<open>F_ERROR\<close> when nobody can read or the caller is killed, else with \<open>FNOT_READY\<close>. The bytes it stored stay in
  the pipe although the result names no number of them.
\<close>

theorem pipewrite_spec:
  assumes "pipe_call p q i s"
  shows "\<exists>q' t r. pipewrite p xs (int (length xs)) SPINLOCK_ACQUIRED s = Ret r t \<and> pipes t = (pipes s)(p \<mapsto> q')
    \<and> pipe_ok q' \<and> pipe_bytes q' = pipe_bytes q @ take (512 - length (pipe_bytes q)) xs
    \<and> r = (if length (pipe_bytes q) + length xs \<le> 512 then int (length xs)
           else if \<not> readopen q \<or> killed (ptable s ! i) then F_ERROR else FNOT_READY)
    \<and> (r \<noteq> F_ERROR \<longrightarrow> t = woken (ChPipeRead p) (s\<lparr>pipes := (pipes s)(p \<mapsto> q')\<rparr>))"
proof -
  obtain q' where "pipe_ok q'" "pipe_bytes q' = pipe_bytes q @ take (PIPESIZE - pipe_len q) xs"
      "pipewrite p xs (int (length xs)) SPINLOCK_ACQUIRED s =
      (if pipe_len q + length xs \<le> PIPESIZE then Ret (int (length xs)) (woken (ChPipeRead p) (at_pipe p q' s))
       else if \<not> readopen q \<or> killed (ptable s ! i) then Ret F_ERROR (at_pipe p q' s)
       else Ret FNOT_READY (woken (ChPipeRead p) (at_pipe p q' s)))"
    using pipewrite_law [OF assms, of xs] by blast
  then show ?thesis by (intro exI [of _ q']) (auto simp: at_pipe_def [symmetric])
qed

theorem pipewrite_spec_witness:
  "\<exists>q' t. pipewrite 0xFFFFFFFF83200000 (replicate 600 1) (int (length (replicate 600 (1 :: u8)))) 1 pipe_demo = Ret FNOT_READY t
    \<and> pipe_bytes q' = [7, 8] @ replicate 510 1 \<and> pipes t 0xFFFFFFFF83200000 = Some q'"
proof -
  have "readopen pipe_two" "\<not> killed (ptable pipe_demo ! 0)"
    using pipe_demo_table by (simp_all add: pipe_two_def zero_proc_def)
  then show ?thesis
    using pipewrite_spec [OF pipe_demo(1), of "replicate 600 1"] unfolding pipe_demo(2) by (auto simp: min_def)
qed

text \<open>
  closing the ends of a pipe. The first end to be closed leaves the pipe as it is but for the flag and wakes
  those who sleep at the other end; the second one gives the page back to the allocator, and the pipe is gone.
\<close>

theorem pipeclose_frees:
  assumes "pipes s p = Some q" and "ptable s \<noteq> []" and "pool s ps" and "page_ok s p" and "p \<notin> set ps"
  shows "\<exists>t. pipeclose p w s = Ret () t \<and> ptable t = ptable (woken (if w then ChPipeRead p else ChPipeWrite p) s)
    \<and> (if (if w then readopen q else writeopen q)
       then pipes t p = Some (if w then q\<lparr>writeopen := False\<rparr> else q\<lparr>readopen := False\<rparr>) \<and> pool t ps
       else pipes t p = None \<and> pool t (p # ps))"
proof -
  let ?q = "if w then q\<lparr>writeopen := False\<rparr> else q\<lparr>readopen := False\<rparr>"
  let ?s = "woken (if w then ChPipeRead p else ChPipeWrite p) (at_pipe p ?q s)"
  let ?c = "kbind (pipe_at p) (\<lambda>q. if \<not> readopen q \<and> \<not> writeopen q
        then kthen (kmodify (\<lambda>s. s\<lparr>pipes := (pipes s)(p := None)\<rparr>)) (kfree p) else kreturn ())"
  have run: "pipeclose p w s = ?c ?s"
    using assms(1,2) set_pipe_eq [OF assms(1)]
    by (simp add: pipeclose_def pipe_at_def kbind_def wakeup_woken)
  have tab: "ptable ?s = ptable (woken (if w then ChPipeRead p else ChPipeWrite p) s)" by (simp add: woken_def)
  have same: "kmem_mem ?s = kmem_mem s" "freelist ?s = freelist s" "kend ?s = kend s"
    by (simp_all add: woken_def at_pipe_def)
  show ?thesis
  proof (cases "if w then readopen q else writeopen q")
    case True
    then have "?c ?s = Ret () ?s" by (auto simp: pipe_at_def kmon_defs)
    moreover have "pool ?s ps" using assms(3) same by (simp add: pool_def page_ok_def list_all_iff)
    ultimately show ?thesis using True run tab by auto
  next
    case False
    let ?u = "?s\<lparr>pipes := (pipes ?s)(p := None)\<rparr>"
    have "pool ?u ps" "page_ok ?u p" using assms(3,4) same by (simp_all add: pool_def page_ok_def list_all_iff)
    then obtain t where t: "kfree p ?u = Ret () t" "pool t (p # ps)" using kfree_pool assms(5) by blast
    have "?c ?s = kfree p ?u" using False by (auto simp: pipe_at_def kmon_defs split: if_splits)
    moreover have "ptable t = ptable ?s \<and> pipes t p = None" using t(1) by (auto simp: kfree_eq split: if_splits)
    ultimately show ?thesis using False t run tab by auto
  qed
qed

theorem pipeclose_frees_witness:
  "\<exists>t. pipeclose 0xFFFFFFFF83202000 True pipe_last = Ret () t \<and> pipes t 0xFFFFFFFF83202000 = None
    \<and> pool t [0xFFFFFFFF83202000, 0xFFFFFFFF83201000, 0xFFFFFFFF83200000]"
proof -
  have "pool pipe_last [0xFFFFFFFF83201000, 0xFFFFFFFF83200000]"
    using pool_two by (simp add: pool_def pipe_last_def page_ok_def list_all_iff)
  moreover have "page_ok pipe_last 0xFFFFFFFF83202000"
    by (simp add: page_ok_def pipe_last_def kmem_two_def v2p_def)
  moreover have "ptable pipe_last \<noteq> []" using pipe_demo_table by (simp add: pipe_last_def)
  moreover have "pipes pipe_last 0xFFFFFFFF83202000 = Some (pipe_two\<lparr>readopen := False\<rparr>)" by (simp add: pipe_last_def)
  ultimately show ?thesis using pipeclose_frees [of pipe_last "0xFFFFFFFF83202000" _ _ True] by fastforce
qed

end
