(* ===== verification/Vm.thy ===== *)
theory Vm
  imports Kalloc
begin

text \<open>
  Virtual memory, \<open>kernel/vm.c\<close> and \<open>kernel/vm64.c\<close>: page tables, the address space of a process, its
  growth, its copy for a child and its release.

  The tables are where the code has them, in pages of the kernel memory of theory \<open>Kalloc\<close>: an entry is
  a word read and written at \<open>pgdir + 8 * PDX(va)\<close>. A process has a second-level table (\<open>pgdir\<close>, one
  gigabyte of addresses) and below it tables of 512 pages each; the two levels above are made by \<open>setupkvm\<close>,
  which stores pointers back to them in the entries 511 and 510 of \<open>pgdir\<close>. The static pointers of
  \<open>vm64.c\<close> are a record that \<open>kvmalloc\<close> returns; \<open>setupkvm\<close> has the one it uses as an argument. Loading
  \<open>cr3\<close> is the value that \<open>switchkvm\<close> and \<open>switchuvm\<close> return. An access through a null pointer is the
  outcome \<open>Fault\<close>.

  The lemmas are about an address space as a function from page numbers to page table entries
  (\<open>pte_of\<close>), with \<open>uvm_ok\<close> the invariant of the tables in memory.
\<close>

unbundle bit_operations_syntax

section \<open>Definitions\<close>

abbreviation (input) PTE_P :: u64 where "PTE_P \<equiv> 0x001"
abbreviation (input) PTE_W :: u64 where "PTE_W \<equiv> 0x002"
abbreviation (input) PTE_U :: u64 where "PTE_U \<equiv> 0x004"
abbreviation (input) PTE_PWT :: u64 where "PTE_PWT \<equiv> 0x008"
abbreviation (input) PTE_PCD :: u64 where "PTE_PCD \<equiv> 0x010"
abbreviation (input) PTE_PS :: u64 where "PTE_PS \<equiv> 0x080"
abbreviation (input) NPDENTRIES :: nat where "NPDENTRIES \<equiv> 512"
abbreviation (input) NPTENTRIES :: nat where "NPTENTRIES \<equiv> 512"
abbreviation (input) DEVSPACE :: u64 where "DEVSPACE \<equiv> 0xFE000000"

definition PDX :: "u64 \<Rightarrow> u64" where
  "PDX va = drop_bit 21 va AND 0x1FF"

definition PTX :: "u64 \<Rightarrow> u64" where
  "PTX va = drop_bit 12 va AND 0x1FF"

definition PTE_ADDR :: "u64 \<Rightarrow> u64" where
  "PTE_ADDR pte = pte AND NOT 0xFFF"

definition PTE_FLAGS :: "u64 \<Rightarrow> u64" where
  "PTE_FLAGS pte = pte AND 0xFFF"

text \<open>A word of kernel memory, and \<open>memset(p, 0, PGSIZE)\<close>.\<close>

definition kload :: "u64 \<Rightarrow> ('a kmem_scheme, u64) kmon" where
  "kload a = kget (\<lambda>s. ld64 (kmem_mem s) a)"

definition kstore :: "u64 \<Rightarrow> u64 \<Rightarrow> ('a kmem_scheme, unit) kmon" where
  "kstore a w = kmodify (\<lambda>s. s\<lparr>kmem_mem := st64 a w (kmem_mem s)\<rparr>)"

definition kclear :: "u64 \<Rightarrow> ('a kmem_scheme, unit) kmon" where
  "kclear p = (if p = 0 then kfault ''memset'' else kmodify (\<lambda>s. s\<lparr>kmem_mem := sys_memset p 0 (ucast PGSIZE) (kmem_mem s)\<rparr>))"

subsection \<open>Walking and mapping\<close>

definition walkpgdir :: "u64 \<Rightarrow> u64 \<Rightarrow> bool \<Rightarrow> ('a kmem_scheme, u64) kmon" where
  "walkpgdir pgdir va alloc = (let pde = pgdir + 8 * PDX va in
     kbind (kload pde) (\<lambda>e.
       if e AND PTE_P \<noteq> 0 then kreturn (p2v (PTE_ADDR e) + 8 * PTX va)
       else if \<not> alloc then kreturn 0
       else kbind kalloc (\<lambda>pgtab.
         if pgtab = 0 then kreturn 0
         else kthen (kclear pgtab) (kthen (kstore pde (v2p pgtab OR PTE_P OR PTE_W OR PTE_U))
           (kreturn (pgtab + 8 * PTX va))))))"

text \<open>The loop of \<open>mappages\<close> runs from the page of the first byte to that of the last; \<open>map_steps\<close> lists the pairs
  of addresses it sees.\<close>

definition map_steps :: "u64 \<Rightarrow> u64 \<Rightarrow> u64 \<Rightarrow> (u64 \<times> u64) list" where
  "map_steps va sz pa = (let a = PGROUNDDOWN va; last = PGROUNDDOWN (va + sz - 1) in
     map (\<lambda>k. (a + of_nat k * PGSIZE, pa + of_nat k * PGSIZE)) [0..<Suc (unat (last - a) div 4096)])"

fun map_loop :: "u64 \<Rightarrow> u64 \<Rightarrow> (u64 \<times> u64) list \<Rightarrow> ('a kmem_scheme, int) kmon" where
  "map_loop pgdir perm [] = kreturn 0"
| "map_loop pgdir perm ((a, pa) # steps) = kbind (walkpgdir pgdir a True) (\<lambda>pte.
     if pte = 0 then kreturn (- 1)
     else kbind (kload pte) (\<lambda>e.
       if e AND PTE_P \<noteq> 0 then kpanic ''remap''
       else kthen (kstore pte (pa OR perm OR PTE_P)) (map_loop pgdir perm steps)))"

definition mappages :: "u64 \<Rightarrow> u64 \<Rightarrow> u64 \<Rightarrow> u64 \<Rightarrow> u64 \<Rightarrow> ('a kmem_scheme, int) kmon" where
  "mappages pgdir va sz pa perm = map_loop pgdir perm (map_steps va sz pa)"

definition inituvm :: "u64 \<Rightarrow> u64 \<Rightarrow> u32 \<Rightarrow> ('a kmem_scheme, unit) kmon" where
  "inituvm pgdir init sz = (if ucast sz \<ge> PGSIZE then kpanic ''inituvm: more than a page''
     else kbind kalloc (\<lambda>mem. kthen (kclear mem)
       (kthen (mappages pgdir 0 PGSIZE (v2p mem) (PTE_W OR PTE_U))
       (kmodify (\<lambda>s. s\<lparr>kmem_mem := sys_memmove mem init sz (kmem_mem s)\<rparr>)))))"

subsection \<open>Release\<close>

text \<open>One turn of the loop of \<open>deallocuvm\<close> at the address \<open>a\<close>: whether it skips a table. The counter is a number:
  the sizes that the callers pass have at most 32 bits, so that it never wraps around.\<close>

definition dealloc_page :: "u64 \<Rightarrow> nat \<Rightarrow> ('a kmem_scheme, bool) kmon" where
  "dealloc_page pgdir a = kbind (walkpgdir pgdir (of_nat a) False) (\<lambda>pte.
     if pte = 0 then kreturn True
     else kbind (kload pte) (\<lambda>e.
       if e AND PTE_P \<noteq> 0 then
         (let pa = PTE_ADDR e in
          if pa = 0 then kpanic ''kfree''
          else kthen (kfree (p2v pa)) (kthen (kstore pte 0) (kreturn False)))
       else kreturn False))"

function dealloc_loop :: "u64 \<Rightarrow> nat \<Rightarrow> nat \<Rightarrow> ('a kmem_scheme, unit) kmon" where
  "dealloc_loop pgdir a oldsz s =
     (if a < oldsz then
        (case dealloc_page pgdir a s of
           Ret skip t \<Rightarrow> dealloc_loop pgdir (a + (if skip then NPTENTRIES * 4096 else 4096)) oldsz t
         | Panic e \<Rightarrow> Panic e | Sleep c t \<Rightarrow> Sleep c t | Fault e \<Rightarrow> Fault e)
      else Ret () s)"
  by pat_completeness auto

termination dealloc_loop
  by (relation "measure (\<lambda>(pgdir, a, oldsz, s). oldsz - a)") auto

declare dealloc_loop.simps [simp del]

definition deallocuvm :: "u64 \<Rightarrow> u64 \<Rightarrow> u64 \<Rightarrow> ('a kmem_scheme, u64) kmon" where
  "deallocuvm pgdir oldsz newsz =
     (if newsz \<ge> oldsz then kreturn oldsz
      else kthen (dealloc_loop pgdir (unat (PGROUNDUP newsz)) (unat oldsz)) (kreturn newsz))"

fun free_tables :: "u64 \<Rightarrow> nat list \<Rightarrow> ('a kmem_scheme, unit) kmon" where
  "free_tables pgdir [] = kreturn ()"
| "free_tables pgdir (i # is) = kbind (kload (pgdir + 8 * of_nat i)) (\<lambda>e.
     if e AND PTE_P \<noteq> 0 then kthen (kfree (p2v (PTE_ADDR e))) (free_tables pgdir is) else free_tables pgdir is)"

definition freevm :: "u64 \<Rightarrow> ('a kmem_scheme, unit) kmon" where
  "freevm pgdir = (if pgdir = 0 then kpanic ''freevm: no pgdir''
     else kthen (deallocuvm pgdir 0x3fa00000 0)
       (kthen (free_tables pgdir [0..<NPDENTRIES - 2]) (kfree pgdir)))"

subsection \<open>Growth\<close>

text \<open>\<open>allocuvm\<close> returns an \<open>int\<close> that its callers put back into an unsigned; what \<open>mappages\<close> returns is ignored.\<close>

fun alloc_loop :: "u64 \<Rightarrow> u32 \<Rightarrow> u32 \<Rightarrow> u64 list \<Rightarrow> ('a kmem_scheme, u32) kmon" where
  "alloc_loop pgdir oldsz newsz [] = kreturn newsz"
| "alloc_loop pgdir oldsz newsz (a # as) = kbind kalloc (\<lambda>mem.
     if mem = 0 then kthen (deallocuvm pgdir (ucast newsz) (ucast oldsz)) (kreturn 0)
     else kthen (kclear mem) (kthen (mappages pgdir a PGSIZE (v2p mem) (PTE_W OR PTE_U))
       (alloc_loop pgdir oldsz newsz as)))"

definition allocuvm :: "u64 \<Rightarrow> u32 \<Rightarrow> u32 \<Rightarrow> ('a kmem_scheme, u32) kmon" where
  "allocuvm pgdir oldsz newsz =
     (if ucast newsz \<ge> KERNBASE then kreturn 0
      else if newsz < oldsz then kreturn oldsz
      else let a = unat (PGROUNDUP (ucast oldsz)) in
        alloc_loop pgdir oldsz newsz (map (\<lambda>k. of_nat (a + k * 4096)) [0..<(unat newsz - a + 4095) div 4096]))"

definition clearpteu :: "u64 \<Rightarrow> u64 \<Rightarrow> ('a kmem_scheme, unit) kmon" where
  "clearpteu pgdir uva = kbind (walkpgdir pgdir uva False) (\<lambda>pte.
     if pte = 0 then kpanic ''clearpteu''
     else kbind (kload pte) (\<lambda>e. kstore pte (e AND NOT PTE_U)))"

subsection \<open>Address spaces\<close>

definition setupkvm :: "u64 \<Rightarrow> ('a kmem_scheme, u64) kmon" where
  "setupkvm kpdpt = kbind kalloc (\<lambda>pml4. kbind kalloc (\<lambda>pdpt. kbind kalloc (\<lambda>pgdir.
     kthen (kclear pml4) (kthen (kclear pdpt) (kthen (kclear pgdir)
     (kthen (kstore (pml4 + 8 * 511) (v2p kpdpt OR PTE_P OR PTE_W OR PTE_U))
     (kthen (kstore pml4 (v2p pdpt OR PTE_P OR PTE_W OR PTE_U))
     (kthen (kstore pdpt (v2p pgdir OR PTE_P OR PTE_W OR PTE_U))
     (kthen (kstore (pgdir + 8 * 511) (pml4 OR PTE_P))
     (kthen (kstore (pgdir + 8 * 510) (pdpt OR PTE_P))
     (kreturn pgdir)))))))))))"

fun copy_loop :: "u64 \<Rightarrow> u64 \<Rightarrow> u64 list \<Rightarrow> ('a kmem_scheme, u64) kmon" where
  "copy_loop pgdir d [] = kreturn d"
| "copy_loop pgdir d (i # is) = kbind (walkpgdir pgdir i False) (\<lambda>pte.
     if pte = 0 then kpanic ''copyuvm: pte should exist''
     else kbind (kload pte) (\<lambda>e.
       if e AND PTE_P = 0 then kpanic ''copyuvm: page not present''
       else kbind kalloc (\<lambda>mem.
         if mem = 0 then kthen (freevm d) (kreturn 0)
         else kthen (kmodify (\<lambda>s. s\<lparr>kmem_mem := sys_memmove mem (p2v (PTE_ADDR e)) (ucast PGSIZE) (kmem_mem s)\<rparr>))
           (kbind (mappages d i PGSIZE (v2p mem) (PTE_FLAGS e)) (\<lambda>r.
             if r < 0 then kthen (freevm d) (kreturn 0) else copy_loop pgdir d is)))))"

definition copyuvm :: "u64 \<Rightarrow> u64 \<Rightarrow> u32 \<Rightarrow> ('a kmem_scheme, u64) kmon" where
  "copyuvm kpdpt pgdir sz = kbind (setupkvm kpdpt) (\<lambda>d.
     if d = 0 then kreturn 0
     else copy_loop pgdir d (map (\<lambda>k. of_nat (k * 4096)) [0..<(unat sz + 4095) div 4096]))"

definition uva2ka :: "u64 \<Rightarrow> u64 \<Rightarrow> ('a kmem_scheme, u64) kmon" where
  "uva2ka pgdir uva = kbind (walkpgdir pgdir uva False) (\<lambda>pte.
     if pte = 0 then kfault ''*pte''
     else kbind (kload pte) (\<lambda>e.
       if e AND PTE_P = 0 then kreturn 0 else if e AND PTE_U = 0 then kreturn 0
       else kreturn (p2v (PTE_ADDR e))))"

text \<open>The loop of \<open>copyout\<close>, with the number of bytes left as a number.\<close>

definition copyout_n :: "u32 \<Rightarrow> nat \<Rightarrow> nat" where
  "copyout_n va len = min (4096 - unat va mod 4096) len"

function copyout_loop :: "u64 \<Rightarrow> u32 \<Rightarrow> u64 \<Rightarrow> nat \<Rightarrow> ('a kmem_scheme, int) kmon" where
  "copyout_loop pgdir va buf len s =
     (if len = 0 then Ret 0 s
      else let va0 = ucast (PGROUNDDOWN (ucast va)) :: u32; n = copyout_n va len in
        (case uva2ka pgdir (ucast va0) s of
           Ret pa0 t \<Rightarrow> if pa0 = 0 then Ret (- 1) t
             else copyout_loop pgdir (va0 + 4096) (buf + of_nat n) (len - n)
               (t\<lparr>kmem_mem := sys_memmove (pa0 + ucast (va - va0)) buf (of_nat n) (kmem_mem t)\<rparr>)
         | Panic e \<Rightarrow> Panic e | Sleep c t \<Rightarrow> Sleep c t | Fault e \<Rightarrow> Fault e))"
  by pat_completeness auto

lemma copyout_n_pos: "0 < len \<Longrightarrow> 0 < copyout_n va len"
  by (simp add: copyout_n_def)

termination copyout_loop
  by (relation "measure (\<lambda>(pgdir, va, buf, len, s). len)") (auto simp: copyout_n_pos)

declare copyout_loop.simps [simp del]

definition copyout :: "u64 \<Rightarrow> u32 \<Rightarrow> u64 \<Rightarrow> u32 \<Rightarrow> ('a kmem_scheme, int) kmon" where
  "copyout pgdir va p len = copyout_loop pgdir va p (unat len)"

subsection \<open>The kernel's own tables\<close>

record kvm =
  kpml4 :: u64
  kpdpt :: u64
  iopgdir :: u64
  kpgdir0 :: u64
  kpgdir1 :: u64

fun kvm_large :: "u64 \<Rightarrow> u64 \<Rightarrow> nat list \<Rightarrow> ('a kmem_scheme, unit) kmon" where
  "kvm_large d0 d1 [] = kreturn ()"
| "kvm_large d0 d1 (n # ns) =
     kthen (kstore (d0 + 8 * of_nat n) (push_bit 21 (of_nat n) OR PTE_PS OR PTE_P OR PTE_W))
     (kthen (kstore (d1 + 8 * of_nat n) (push_bit 21 (of_nat (n + 512)) OR PTE_PS OR PTE_P OR PTE_W))
     (kvm_large d0 d1 ns))"

fun kvm_io :: "u64 \<Rightarrow> nat list \<Rightarrow> ('a kmem_scheme, unit) kmon" where
  "kvm_io io [] = kreturn ()"
| "kvm_io io (n # ns) =
     kthen (kstore (io + 8 * of_nat n) ((DEVSPACE + push_bit 21 (of_nat n)) OR PTE_PS OR PTE_P OR PTE_W OR PTE_PWT OR PTE_PCD))
     (kvm_io io ns)"

definition switchkvm :: "kvm \<Rightarrow> u64" where
  "switchkvm k = v2p (kpml4 k)"

definition kvmalloc :: "('a kmem_scheme, kvm \<times> u64) kmon" where
  "kvmalloc = kbind kalloc (\<lambda>pml4. kbind kalloc (\<lambda>pdpt. kbind kalloc (\<lambda>d0. kbind kalloc (\<lambda>d1. kbind kalloc (\<lambda>io.
     kthen (kclear pml4) (kthen (kclear pdpt) (kthen (kclear io)
     (kthen (kstore (pml4 + 8 * 511) (v2p pdpt OR PTE_P OR PTE_W))
     (kthen (kstore (pdpt + 8 * 511) (v2p d1 OR PTE_P OR PTE_W))
     (kthen (kstore (pdpt + 8 * 510) (v2p d0 OR PTE_P OR PTE_W))
     (kthen (kstore (pdpt + 8 * 509) (v2p io OR PTE_P OR PTE_W))
     (if d0 = 0 \<or> d1 = 0 then kfault ''kpgdir''
      else kthen (kvm_large d0 d1 [0..<NPDENTRIES]) (kthen (kvm_io io [0..<16])
        (let k = \<lparr>kpml4 = pml4, kpdpt = pdpt, iopgdir = io, kpgdir0 = d0, kpgdir1 = d1\<rparr>
         in kreturn (k, switchkvm k)))))))))))))))"

text \<open>\<open>switchuvm\<close>: the stack for the next trap goes into the task state segment of the CPU, at offset 1024 of its local
  page; the result is the new \<open>cr3\<close>.\<close>

definition tss_set_rsp :: "u64 \<Rightarrow> nat \<Rightarrow> u64 \<Rightarrow> memory \<Rightarrow> memory" where
  "tss_set_rsp tss n rsp = st64 (tss + of_nat (8 * n + 4)) rsp"

definition switchuvm :: "u64 \<Rightarrow> u64 \<Rightarrow> u64 \<Rightarrow> ('a kmem_scheme, u64) kmon" where
  "switchuvm local kstack pgdir = (if pgdir = 0 then kpanic ''switchuvm: no pgdir''
     else kthen (kmodify (\<lambda>s. s\<lparr>kmem_mem := tss_set_rsp (local + 1024) 0 (kstack + 4096) (kmem_mem s)\<rparr>))
       (kbind (kload (pgdir + 8 * 511)) (\<lambda>e. kreturn (v2p (PTE_ADDR e)))))"

section \<open>Entries of a table\<close>

definition ent :: "memory \<Rightarrow> u64 \<Rightarrow> nat \<Rightarrow> u64" where
  "ent m d i = ld64 m (d + 8 * of_nat i)"

text \<open>Memory that differs at most inside the given pages.\<close>

definition mem_same :: "u64 set \<Rightarrow> memory \<Rightarrow> memory \<Rightarrow> bool" where
  "mem_same X m m' \<longleftrightarrow> (\<forall>b. PGROUNDDOWN b \<notin> X \<longrightarrow> m' b = m b)"

lemma mem_same_refl [simp]: "mem_same X m m"
  by (simp add: mem_same_def)

lemma mem_same_trans: "mem_same X m m' \<Longrightarrow> mem_same Y m' m'' \<Longrightarrow> X \<subseteq> Z \<Longrightarrow> Y \<subseteq> Z \<Longrightarrow> mem_same Z m m''"
  unfolding mem_same_def by (metis subsetD)

lemma mem_same_mono: "mem_same X m m' \<Longrightarrow> X \<subseteq> Y \<Longrightarrow> mem_same Y m m'"
  unfolding mem_same_def by blast

lemma ent_addr: "i < 512 \<Longrightarrow> k < 8 \<Longrightarrow> (d :: u64) + 8 * of_nat i + of_nat k = d + of_nat (8 * i + k)"
  by (simp add: algebra_simps)

lemma ent_same:
  assumes "mem_same X m m'" and "d \<notin> X" and "d mod PGSIZE = 0" and "i < 512"
  shows "ent m' d i = ent m d i"
  unfolding ent_def
proof (rule ld64_cong)
  fix k :: nat assume k: "k < 8"
  have "PGROUNDDOWN (d + 8 * of_nat i + of_nat k) = d"
    unfolding ent_addr [OF assms(4) k] using assms(3,4) k by (intro PGROUNDDOWN_in_page) auto
  then show "m' (d + 8 * of_nat i + of_nat k) = m (d + 8 * of_nat i + of_nat k)"
    using assms(1,2) by (simp add: mem_same_def)
qed

lemma ent_store:
  assumes "d mod PGSIZE = 0" and "i < 512" and "j < 512"
  shows "ent (st64 (d + 8 * of_nat i) w m) d j = (if j = i then w else ent m d j)"
proof (cases "j = i")
  case False
  have "st64 (d + 8 * of_nat i) w m (d + 8 * of_nat j + of_nat k) = m (d + 8 * of_nat j + of_nat k)" if k: "k < 8" for k :: nat
  proof (rule st64_other, rule notI)
    let ?x = "d + 8 * of_nat j + of_nat k - (d + 8 * of_nat i) :: u64"
    assume "?x < 8"
    then have x: "unat ?x < 8" by (simp add: word_less_nat_alt)
    have "d + of_nat (8 * i + unat ?x) = d + 8 * of_nat i + of_nat (unat ?x)" by (simp add: algebra_simps)
    also have "\<dots> = d + 8 * of_nat j + of_nat k" by simp
    also have "\<dots> = d + of_nat (8 * j + k)" by (simp add: algebra_simps)
    finally have "unat (d + of_nat (8 * i + unat ?x)) = unat (d + of_nat (8 * j + k))" by simp
    moreover have "unat (d + of_nat (8 * i + unat ?x)) = unat d + (8 * i + unat ?x)"
      using assms x by (intro unat_in_page) auto
    moreover have "unat (d + of_nat (8 * j + k)) = unat d + (8 * j + k)" using assms k by (intro unat_in_page) auto
    ultimately have "8 * i + unat ?x = 8 * j + k" by linarith
    then have "(8 * i + unat ?x) div 8 = (8 * j + k) div 8" by simp
    then show False using x k False by simp
  qed
  then have "ent (st64 (d + 8 * of_nat i) w m) d j = ent m d j" unfolding ent_def by (rule ld64_cong)
  then show ?thesis using False by simp
qed (simp add: ent_def)

lemma mem_same_store:
  assumes "d mod PGSIZE = 0" and "i < 512"
  shows "mem_same {d} m (st64 (d + 8 * of_nat i) w m)"
  unfolding mem_same_def
proof (intro allI impI)
  fix b assume b: "PGROUNDDOWN b \<notin> {d}"
  show "st64 (d + 8 * of_nat i) w m b = m b"
  proof (rule st64_other, rule notI)
    let ?x = "b - (d + 8 * of_nat i) :: u64"
    assume "?x < 8"
    then have x: "unat ?x < 8" by (simp add: word_less_nat_alt)
    have "b = d + of_nat (8 * i + unat ?x)" by (simp add: algebra_simps)
    moreover have "PGROUNDDOWN (d + of_nat (8 * i + unat ?x)) = d" using assms x by (intro PGROUNDDOWN_in_page) auto
    ultimately show False using b by simp
  qed
qed

lemma mem_same_clear: "p mod PGSIZE = 0 \<Longrightarrow> mem_same {p} m (sys_memset p c (ucast PGSIZE) m)"
  unfolding mem_same_def by (intro allI impI sys_memset_other_page) auto

lemma clear_byte:
  assumes "k < 4096"
  shows "sys_memset p 0 (ucast PGSIZE) m (p + of_nat k) = 0"
  using assms by (auto simp: sys_memset_stosb stosb_apply)

lemma ld64_zero: "(\<And>k. k < 8 \<Longrightarrow> m (a + of_nat k) = 0) \<Longrightarrow> ld64 m a = 0"
  by (rule bit_word_eqI) (auto simp: ld64_def bit_ld64_upto)

lemma ent_clear:
  assumes "i < 512"
  shows "ent (sys_memset p 0 (ucast PGSIZE) m) p i = 0"
  unfolding ent_def
proof (rule ld64_zero)
  fix k :: nat assume k: "k < 8"
  show "sys_memset p 0 (ucast PGSIZE) m (p + 8 * of_nat i + of_nat k) = 0"
    unfolding ent_addr [OF assms k] using assms k by (intro clear_byte) auto
qed

subsection \<open>Addresses\<close>

lemma page_bits: "p mod PGSIZE = 0 \<longleftrightarrow> (p :: u64) AND 0xFFF = 0"
proof -
  have "p AND 0xFFF = p AND mask 12" by (simp add: mask_eq_exp_minus_1)
  also have "\<dots> = take_bit 12 p" by (simp add: take_bit_eq_mask)
  also have "\<dots> = p mod PGSIZE" by (simp add: take_bit_eq_mod)
  finally show ?thesis by simp
qed

lemma v2p_aligned:
  assumes "p mod PGSIZE = 0"
  shows "v2p p mod PGSIZE = 0"
proof -
  have "v2p p = p + 0x80000000" by (simp add: v2p_def)
  then have "unat (v2p p) = (unat p + 0x80000000) mod 18446744073709551616" by (simp add: unat_word_ariths)
  moreover have "(unat p + 0x80000000) mod 18446744073709551616 mod 4096 = (unat p + 0x80000000) mod 4096"
    by (rule mod_mod_cancel) simp
  moreover have "(unat p + 0x80000000) mod 4096 = 0" using assms unfolding aligned_iff by (simp add: mod_eq_0_iff_dvd dvd_add)
  ultimately show ?thesis unfolding aligned_iff by simp
qed

lemma p2v_v2p [simp]: "p2v (v2p p) = p"
  by (simp add: p2v_def v2p_def)

lemma entry_parts:
  assumes "p mod PGSIZE = 0" and "f AND 0xFFF = f"
  shows "PTE_ADDR (v2p p OR f) = v2p p" and "PTE_FLAGS (v2p p OR f) = f"
proof -
  have "v2p p AND 0xFFF = 0" using v2p_aligned [OF assms(1)] page_bits by simp
  then have b: "\<not> (bit (v2p p) n \<and> bit (0xFFF :: u64) n)" for n by (metis bit_and_iff bit_0_eq bot_apply bot_bool_def)
  have f: "bit f n \<Longrightarrow> bit (0xFFF :: u64) n" for n using assms(2) by (metis bit_and_iff)
  show "PTE_ADDR (v2p p OR f) = v2p p"
  proof (rule bit_word_eqI)
    fix n assume "n < LENGTH(64)"
    then show "bit (PTE_ADDR (v2p p OR f)) n = bit (v2p p) n"
      unfolding PTE_ADDR_def bit_and_iff bit_or_iff bit_not_iff possible_bit_word using b [of n] f [of n] by blast
  qed
  show "PTE_FLAGS (v2p p OR f) = f"
  proof (rule bit_word_eqI)
    fix n show "bit (PTE_FLAGS (v2p p OR f)) n = bit f n"
      unfolding PTE_FLAGS_def bit_and_iff bit_or_iff using b [of n] f [of n] by blast
  qed
qed

lemma page_index:
  assumes "v < 262144"
  shows "PDX (of_nat (v * 4096)) = of_nat (v div 512)" and "PTX (of_nat (v * 4096)) = of_nat (v mod 512)"
    and "unat (of_nat (v * 4096) :: u64) = v * 4096"
proof -
  show u: "unat (of_nat (v * 4096) :: u64) = v * 4096" using assms by (intro u64_of_nat_small) simp
  have m: "(0x1FF :: u64) = mask 9" by (simp add: mask_eq_exp_minus_1)
  have "unat (PDX (of_nat (v * 4096))) = v * 4096 div 2097152 mod 512"
    unfolding PDX_def m take_bit_eq_mask [symmetric] unsigned_take_bit_eq unsigned_drop_bit_eq u take_bit_nat_def drop_bit_nat_def using assms by simp
  also have "v * 4096 div 2097152 = v div 512" using div_mult_mult2 [of 4096 v 512] by simp
  also have "v div 512 mod 512 = v div 512" using assms by simp
  finally show "PDX (of_nat (v * 4096)) = of_nat (v div 512)"
    using assms by (simp add: word_unat_eq_iff u64_of_nat_small)
  have "unat (PTX (of_nat (v * 4096))) = v * 4096 div 4096 mod 512"
    unfolding PTX_def m take_bit_eq_mask [symmetric] unsigned_take_bit_eq unsigned_drop_bit_eq u take_bit_nat_def drop_bit_nat_def using assms by simp
  then show "PTX (of_nat (v * 4096)) = of_nat (v mod 512)"
    by (simp add: word_unat_eq_iff u64_of_nat_small)
qed

section \<open>The address space of a process\<close>

definition has_table :: "memory \<Rightarrow> u64 \<Rightarrow> nat \<Rightarrow> bool" where
  "has_table m d i \<longleftrightarrow> ent m d i AND PTE_P \<noteq> 0"

definition table_page :: "memory \<Rightarrow> u64 \<Rightarrow> nat \<Rightarrow> u64" where
  "table_page m d i = p2v (PTE_ADDR (ent m d i))"

text \<open>The entry for the page with number \<open>v\<close>, zero where there is no table; a gigabyte less the two entries for the
  pointers back has 261120 pages.\<close>

definition pte_of :: "memory \<Rightarrow> u64 \<Rightarrow> nat \<Rightarrow> u64" where
  "pte_of m d v = (if has_table m d (v div 512) then ent m (table_page m d (v div 512)) (v mod 512) else 0)"

definition mapped :: "memory \<Rightarrow> u64 \<Rightarrow> nat \<Rightarrow> bool" where
  "mapped m d v \<longleftrightarrow> pte_of m d v AND PTE_P \<noteq> 0"

definition leaf_page :: "memory \<Rightarrow> u64 \<Rightarrow> nat \<Rightarrow> u64" where
  "leaf_page m d v = p2v (PTE_ADDR (pte_of m d v))"

abbreviation UPAGES :: nat where "UPAGES \<equiv> 261120"

definition tab_pages :: "memory \<Rightarrow> u64 \<Rightarrow> u64 set" where
  "tab_pages m d = insert d (table_page m d ` {i. i < 510 \<and> has_table m d i})"

definition leaf_pages :: "memory \<Rightarrow> u64 \<Rightarrow> u64 set" where
  "leaf_pages m d = leaf_page m d ` {v. v < UPAGES \<and> mapped m d v}"

text \<open>The pages of an address space are legal pages, no two of them are the same.\<close>

definition uvm_ok :: "'a kmem_scheme \<Rightarrow> u64 \<Rightarrow> bool" where
  "uvm_ok s d \<longleftrightarrow> (\<forall>p \<in> tab_pages (kmem_mem s) d \<union> leaf_pages (kmem_mem s) d. page_ok s p \<and> p \<noteq> 0)
     \<and> inj_on (table_page (kmem_mem s) d) {i. i < 510 \<and> has_table (kmem_mem s) d i}
     \<and> inj_on (leaf_page (kmem_mem s) d) {v. v < UPAGES \<and> mapped (kmem_mem s) d v}
     \<and> d \<notin> table_page (kmem_mem s) d ` {i. i < 510 \<and> has_table (kmem_mem s) d i}
     \<and> tab_pages (kmem_mem s) d \<inter> leaf_pages (kmem_mem s) d = {}"

text \<open>What the operations leave alone: all of the state but memory and free list.\<close>

definition kframe :: "'a kmem_scheme \<Rightarrow> 'a kmem_scheme \<Rightarrow> bool" where
  "kframe s t \<longleftrightarrow> kend t = kend s \<and> use_lock t = use_lock s \<and> kalloc_fullysetup t = kalloc_fullysetup s \<and> kmem.more t = kmem.more s"

lemma kframe_refl [simp]: "kframe s s"
  by (simp add: kframe_def)

lemma kframe_trans: "kframe s t \<Longrightarrow> kframe t u \<Longrightarrow> kframe s u"
  by (simp add: kframe_def)

lemma kframe_upd [simp]: "kframe s (t\<lparr>kmem_mem := m\<rparr>) = kframe s t" "kframe s (t\<lparr>freelist := f\<rparr>) = kframe s t"
  by (simp_all add: kframe_def)

lemma page_ok_frame: "kframe s t \<Longrightarrow> page_ok t = page_ok s"
  by (simp add: kframe_def page_ok_def fun_eq_iff)

lemma page_ok_aligned: "page_ok s p \<Longrightarrow> p mod PGSIZE = 0"
  by (simp add: page_ok_def)

lemma uvm_index: "v < UPAGES \<Longrightarrow> v div 512 < 510 \<and> v mod 512 < 512"
  by auto

lemma tab_pagesI: "i < 510 \<Longrightarrow> has_table m d i \<Longrightarrow> table_page m d i \<in> tab_pages m d"
  by (auto simp: tab_pages_def)

lemma leaf_pagesI: "v < UPAGES \<Longrightarrow> mapped m d v \<Longrightarrow> leaf_page m d v \<in> leaf_pages m d"
  by (auto simp: leaf_pages_def)

lemma uvm_okD:
  assumes "uvm_ok s d"
  shows "page_ok s d" and "d \<noteq> 0" and "d mod PGSIZE = 0"
    and "i < 510 \<Longrightarrow> has_table (kmem_mem s) d i \<Longrightarrow> page_ok s (table_page (kmem_mem s) d i)
      \<and> table_page (kmem_mem s) d i mod PGSIZE = 0 \<and> table_page (kmem_mem s) d i \<noteq> d \<and> table_page (kmem_mem s) d i \<noteq> 0"
    and "v < UPAGES \<Longrightarrow> mapped (kmem_mem s) d v \<Longrightarrow> page_ok s (leaf_page (kmem_mem s) d v) \<and> leaf_page (kmem_mem s) d v \<noteq> 0
      \<and> leaf_page (kmem_mem s) d v mod PGSIZE = 0 \<and> leaf_page (kmem_mem s) d v \<notin> tab_pages (kmem_mem s) d"
proof -
  let ?m = "kmem_mem s"
  have all: "page_ok s p \<and> p \<noteq> 0" if "p \<in> tab_pages ?m d \<union> leaf_pages ?m d" for p using assms that unfolding uvm_ok_def by blast
  have "d \<in> tab_pages ?m d" by (simp add: tab_pages_def)
  then show "page_ok s d" "d \<noteq> 0" "d mod PGSIZE = 0" using all [of d] page_ok_aligned by blast+
  show "page_ok s (table_page ?m d i) \<and> table_page ?m d i mod PGSIZE = 0 \<and> table_page ?m d i \<noteq> d \<and> table_page ?m d i \<noteq> 0"
    if "i < 510" "has_table ?m d i"
  proof -
    have "table_page ?m d i \<in> table_page ?m d ` {i. i < 510 \<and> has_table ?m d i}" using that by blast
    moreover have "d \<notin> table_page ?m d ` {i. i < 510 \<and> has_table ?m d i}" using assms by (simp add: uvm_ok_def)
    ultimately have "table_page ?m d i \<noteq> d" by metis
    then show ?thesis using all [of "table_page ?m d i"] tab_pagesI [OF that] page_ok_aligned by blast
  qed
  show "page_ok s (leaf_page ?m d v) \<and> leaf_page ?m d v \<noteq> 0 \<and> leaf_page ?m d v mod PGSIZE = 0 \<and> leaf_page ?m d v \<notin> tab_pages ?m d"
    if "v < UPAGES" "mapped ?m d v"
  proof -
    have "tab_pages ?m d \<inter> leaf_pages ?m d = {}" using assms by (simp add: uvm_ok_def)
    then show ?thesis using all [of "leaf_page ?m d v"] leaf_pagesI [OF that] page_ok_aligned by blast
  qed
qed

lemma table_inj:
  assumes "uvm_ok s d" and "i < 510" and "j < 510" and "has_table (kmem_mem s) d i" and "has_table (kmem_mem s) d j"
  shows "table_page (kmem_mem s) d i = table_page (kmem_mem s) d j \<longleftrightarrow> i = j"
  using assms unfolding uvm_ok_def by (metis (mono_tags, lifting) inj_onD mem_Collect_eq)

lemma uvm_same:
  assumes "uvm_ok s d" and "mem_same X (kmem_mem s) m'" and "X \<inter> tab_pages (kmem_mem s) d = {}"
  shows "i < 512 \<Longrightarrow> ent m' d i = ent (kmem_mem s) d i" and "v < UPAGES \<Longrightarrow> pte_of m' d v = pte_of (kmem_mem s) d v"
    and "tab_pages m' d = tab_pages (kmem_mem s) d" and "leaf_pages m' d = leaf_pages (kmem_mem s) d"
    and "v < UPAGES \<Longrightarrow> mapped m' d v = mapped (kmem_mem s) d v" and "v < UPAGES \<Longrightarrow> leaf_page m' d v = leaf_page (kmem_mem s) d v"
    and "kframe s t \<Longrightarrow> kmem_mem t = m' \<Longrightarrow> uvm_ok t d"
proof -
  let ?m = "kmem_mem s"
  have d: "ent m' d i = ent ?m d i" if "i < 512" for i
    using that ent_same [OF assms(2) _ uvm_okD(3) [OF assms(1)]] assms(3) by (auto simp: tab_pages_def)
  then show "i < 512 \<Longrightarrow> ent m' d i = ent ?m d i" .
  have h: "has_table m' d i = has_table ?m d i" "table_page m' d i = table_page ?m d i" if "i < 510" for i
    using that d by (simp_all add: has_table_def table_page_def)
  have p: "pte_of m' d v = pte_of ?m d v" if "v < UPAGES" for v
  proof -
    note x = uvm_index [OF that]
    have "ent m' (table_page ?m d (v div 512)) (v mod 512) = ent ?m (table_page ?m d (v div 512)) (v mod 512)" if "has_table ?m d (v div 512)"
      using x that uvm_okD(4) [OF assms(1) _ that] assms(3) by (intro ent_same [OF assms(2)]) (auto simp: tab_pages_def)
    then show ?thesis using h x by (simp add: pte_of_def)
  qed
  then show "v < UPAGES \<Longrightarrow> pte_of m' d v = pte_of ?m d v" .
  have q: "mapped m' d v = mapped ?m d v" "leaf_page m' d v = leaf_page ?m d v" if "v < UPAGES" for v
    using p that by (simp_all add: mapped_def leaf_page_def)
  show "v < UPAGES \<Longrightarrow> mapped m' d v = mapped ?m d v" "v < UPAGES \<Longrightarrow> leaf_page m' d v = leaf_page ?m d v" by (fact q)+
  have sets: "{i. i < 510 \<and> has_table m' d i} = {i. i < 510 \<and> has_table ?m d i}"
      "{v. v < UPAGES \<and> mapped m' d v} = {v. v < UPAGES \<and> mapped ?m d v}" using h q by auto
  show tp: "tab_pages m' d = tab_pages ?m d" and lp: "leaf_pages m' d = leaf_pages ?m d"
    unfolding tab_pages_def leaf_pages_def sets using h q by (auto simp: image_iff)
  show "uvm_ok t d" if "kframe s t" "kmem_mem t = m'"
  proof -
    have "table_page m' d ` {i. i < 510 \<and> has_table ?m d i} = table_page ?m d ` {i. i < 510 \<and> has_table ?m d i}"
      using h by (intro image_cong) auto
    moreover have "inj_on (table_page m' d) {i. i < 510 \<and> has_table ?m d i} = inj_on (table_page ?m d) {i. i < 510 \<and> has_table ?m d i}"
        "inj_on (leaf_page m' d) {v. v < UPAGES \<and> mapped ?m d v} = inj_on (leaf_page ?m d) {v. v < UPAGES \<and> mapped ?m d v}"
      using h q by (auto intro!: inj_on_cong)
    ultimately show ?thesis
      using assms(1) unfolding uvm_ok_def that(2) tp lp sets page_ok_frame [OF that(1)] by simp
  qed
qed

lemma pool_same:
  assumes "pool s ps" and "mem_same X (kmem_mem s) m'" and "X \<inter> set ps = {}"
  shows "pool (s\<lparr>kmem_mem := m'\<rparr>) ps"
proof -
  have "flist m' (freelist s) ps = flist (kmem_mem s) (freelist s) ps"
  proof (rule flist_cong)
    fix x and i :: nat assume x: "x \<in> set ps" "i < 8"
    then have "PGROUNDDOWN (x + of_nat i) = x" using assms(1) by (intro PGROUNDDOWN_in_page) (auto simp: pool_def list_all_iff page_ok_def)
    then show "m' (x + of_nat i) = kmem_mem s (x + of_nat i)" using assms(2,3) x(1) unfolding mem_same_def by auto
  qed
  then show ?thesis using assms(1) by (simp add: pool_def list_all_iff page_ok_def)
qed

subsection \<open>One entry\<close>

lemma page_slot_nonzero:
  assumes "p mod PGSIZE = 0" and "p \<noteq> 0" and "i < 512"
  shows "p + 8 * of_nat i \<noteq> 0"
proof -
  have "unat (p + of_nat (8 * i)) = unat p + 8 * i" using assms(1,3) by (intro unat_in_page) auto
  then have "0 < unat (p + of_nat (8 * i))" using assms(2) by (simp add: unat_gt_0)
  then show ?thesis using unat_gt_0 by (auto simp: algebra_simps)
qed

definition pte_addr :: "memory \<Rightarrow> u64 \<Rightarrow> nat \<Rightarrow> u64" where
  "pte_addr m d v = table_page m d (v div 512) + 8 * of_nat (v mod 512)"

lemma walk_table:
  assumes "v < UPAGES" and "has_table (kmem_mem s) d (v div 512)"
  shows "walkpgdir d (of_nat (v * 4096)) al s = Ret (pte_addr (kmem_mem s) d v) s"
  using assms page_index [of v] unfolding has_table_def ent_def
  by (simp add: walkpgdir_def Let_def kload_def kmon_defs pte_addr_def table_page_def ent_def)

lemma walk_none:
  assumes "v < UPAGES" and "\<not> has_table (kmem_mem s) d (v div 512)"
  shows "walkpgdir d (of_nat (v * 4096)) False s = Ret 0 s"
  using assms page_index [of v] unfolding has_table_def ent_def
  by (simp add: walkpgdir_def Let_def kload_def kmon_defs)

lemma pte_addr_load: "has_table m d (v div 512) \<Longrightarrow> ld64 m (pte_addr m d v) = pte_of m d v"
  by (simp add: pte_addr_def pte_of_def ent_def)

lemma pte_addr_nonzero:
  assumes "uvm_ok s d" and "v < UPAGES" and "has_table (kmem_mem s) d (v div 512)"
  shows "pte_addr (kmem_mem s) d v \<noteq> 0"
  unfolding pte_addr_def using uvm_okD(4) [OF assms(1) _ assms(3)] uvm_index [OF assms(2)] by (intro page_slot_nonzero) auto

lemma pte_store:
  assumes "uvm_ok s d" and "v < UPAGES" and "has_table (kmem_mem s) d (v div 512)"
    and "m' = st64 (pte_addr (kmem_mem s) d v) w (kmem_mem s)"
  shows "mem_same {table_page (kmem_mem s) d (v div 512)} (kmem_mem s) m'"
    and "i < 510 \<Longrightarrow> has_table m' d i = has_table (kmem_mem s) d i" and "i < 510 \<Longrightarrow> table_page m' d i = table_page (kmem_mem s) d i"
    and "u < UPAGES \<Longrightarrow> pte_of m' d u = (if u = v then w else pte_of (kmem_mem s) d u)"
    and "tab_pages m' d = tab_pages (kmem_mem s) d"
proof -
  let ?m = "kmem_mem s" and ?T = "table_page (kmem_mem s) d (v div 512)"
  note x = uvm_index [OF assms(2)]
  note T = uvm_okD(4) [OF assms(1) _ assms(3)]
  have al: "?T mod PGSIZE = 0" and ne: "?T \<noteq> d" using T x by blast+
  show ms: "mem_same {?T} ?m m'" unfolding assms(4) pte_addr_def using x al by (intro mem_same_store) auto
  have e: "ent m' d i = ent ?m d i" if "i < 512" for i
    using ent_same [OF ms _ uvm_okD(3) [OF assms(1)] that] ne by simp
  show h: "has_table m' d i = has_table ?m d i" "table_page m' d i = table_page ?m d i" if "i < 510" for i
    using that e by (simp_all add: has_table_def table_page_def)
  show "pte_of m' d u = (if u = v then w else pte_of ?m d u)" if u: "u < UPAGES"
  proof (cases "has_table ?m d (u div 512)")
    case True
    note y = uvm_index [OF u]
    have ty: "pte_of m' d u = ent m' (table_page ?m d (u div 512)) (u mod 512)" using h y True by (simp add: pte_of_def)
    show ?thesis
    proof (cases "u div 512 = v div 512")
      case same: True
      have "ent m' ?T (u mod 512) = (if u mod 512 = v mod 512 then w else ent ?m ?T (u mod 512))"
        unfolding assms(4) pte_addr_def using al x y by (intro ent_store) auto
      moreover have "u mod 512 = v mod 512 \<longleftrightarrow> u = v" using same by (metis div_mod_decomp)
      ultimately show ?thesis unfolding ty using True same by (simp add: pte_of_def)
    next
      case False
      then have "table_page ?m d (u div 512) \<noteq> ?T" using table_inj [OF assms(1) _ _ True assms(3)] x y by blast
      then have "ent m' (table_page ?m d (u div 512)) (u mod 512) = ent ?m (table_page ?m d (u div 512)) (u mod 512)"
        using uvm_okD(4) [OF assms(1) _ True] y by (intro ent_same [OF ms]) auto
      then show ?thesis unfolding ty using True False by (auto simp: pte_of_def)
    qed
  next
    case False
    then have "u \<noteq> v" using assms(3) by auto
    then show ?thesis using False h uvm_index [OF u] by (simp add: pte_of_def)
  qed
  have "{i. i < 510 \<and> has_table m' d i} = {i. i < 510 \<and> has_table ?m d i}" using h by auto
  then show "tab_pages m' d = tab_pages ?m d" unfolding tab_pages_def using h by (auto simp: image_iff)
qed

text \<open>The tables of a well-formed space after a change that keeps them and changes one entry.\<close>

lemma uvm_okI:
  assumes "uvm_ok s d" and "kframe s t" and "\<And>i. i < 510 \<Longrightarrow> has_table (kmem_mem t) d i = has_table (kmem_mem s) d i"
    and "\<And>i. i < 510 \<Longrightarrow> table_page (kmem_mem t) d i = table_page (kmem_mem s) d i"
    and "\<And>v. v \<in> leaf_pages (kmem_mem t) d \<Longrightarrow> page_ok s v \<and> v \<noteq> 0 \<and> v \<notin> tab_pages (kmem_mem s) d"
    and "inj_on (leaf_page (kmem_mem t) d) {v. v < UPAGES \<and> mapped (kmem_mem t) d v}"
  shows "uvm_ok t d"
proof -
  have set: "{i. i < 510 \<and> has_table (kmem_mem t) d i} = {i. i < 510 \<and> has_table (kmem_mem s) d i}" using assms(3) by auto
  have tab: "table_page (kmem_mem t) d ` {i. i < 510 \<and> has_table (kmem_mem t) d i} = table_page (kmem_mem s) d ` {i. i < 510 \<and> has_table (kmem_mem s) d i}"
    unfolding set using assms(4) by (intro image_cong) auto
  have inj: "inj_on (table_page (kmem_mem t) d) {i. i < 510 \<and> has_table (kmem_mem t) d i}"
    unfolding set using assms(1,4) by (subst inj_on_cong [of _ _ "table_page (kmem_mem s) d"]) (auto simp: uvm_ok_def)
  have pages: "tab_pages (kmem_mem t) d = tab_pages (kmem_mem s) d" unfolding tab_pages_def tab ..
  show ?thesis
    using assms(1,5,6) inj unfolding uvm_ok_def pages tab page_ok_frame [OF assms(2)] by blast
qed

lemma present_or: "(f :: u64) AND PTE_P \<noteq> 0 \<Longrightarrow> (x OR f) AND PTE_P \<noteq> 0"
  by (metis bit.conj_disj_distrib2 or_eq_0_iff)

lemma pte_map:
  assumes "uvm_ok s d" and "v < UPAGES" and "has_table (kmem_mem s) d (v div 512)" and "\<not> mapped (kmem_mem s) d v"
    and "page_ok s q" and "q \<noteq> 0" and "q \<notin> tab_pages (kmem_mem s) d \<union> leaf_pages (kmem_mem s) d" and "f AND 0xFFF = f" and "f AND PTE_P \<noteq> 0"
    and "t = s\<lparr>kmem_mem := st64 (pte_addr (kmem_mem s) d v) (v2p q OR f) (kmem_mem s)\<rparr>"
  shows "uvm_ok t d" and "tab_pages (kmem_mem t) d = tab_pages (kmem_mem s) d"
    and "leaf_pages (kmem_mem t) d = insert q (leaf_pages (kmem_mem s) d)"
    and "u < UPAGES \<Longrightarrow> pte_of (kmem_mem t) d u = (if u = v then v2p q OR f else pte_of (kmem_mem s) d u)"
proof -
  let ?m = "kmem_mem s" and ?n = "kmem_mem t" and ?w = "v2p q OR f"
  have n: "?n = st64 (pte_addr ?m d v) ?w ?m" using assms(10) by simp
  note st = pte_store [OF assms(1-3) n]
  note parts = entry_parts [OF page_ok_aligned [OF assms(5)] assms(8)]
  have present: "?w AND PTE_P \<noteq> 0" using assms(9) by (rule present_or)
  show tp: "tab_pages ?n d = tab_pages ?m d" by (fact st(5))
  show pt: "pte_of ?n d u = (if u = v then ?w else pte_of ?m d u)" if "u < UPAGES" for u using st(4) [OF that] .
  have mp: "mapped ?n d u \<longleftrightarrow> u = v \<or> mapped ?m d u" "leaf_page ?n d u = (if u = v then q else leaf_page ?m d u)" if "u < UPAGES" for u
    using pt [OF that] present parts(1) by (auto simp: mapped_def leaf_page_def)
  have set: "{u. u < UPAGES \<and> mapped ?n d u} = insert v {u. u < UPAGES \<and> mapped ?m d u}" using mp(1) assms(2) by auto
  have im: "leaf_page ?n d ` {u. u < UPAGES \<and> mapped ?m d u} = leaf_page ?m d ` {u. u < UPAGES \<and> mapped ?m d u}"
    using mp(2) assms(4) by (intro image_cong) auto
  show lp: "leaf_pages ?n d = insert q (leaf_pages ?m d)"
    unfolding leaf_pages_def set image_insert im using mp(2) [OF assms(2)] by simp
  show "uvm_ok t d"
  proof (rule uvm_okI [OF assms(1)])
    show "kframe s t" using assms(10) by simp
    show "page_ok s p \<and> p \<noteq> 0 \<and> p \<notin> tab_pages ?m d" if "p \<in> leaf_pages ?n d" for p
      using that assms(1,5-7) unfolding lp uvm_ok_def by blast
    have "inj_on (leaf_page ?n d) {u. u < UPAGES \<and> mapped ?m d u}"
      using assms(1,4) mp(2) by (subst inj_on_cong [of _ _ "leaf_page ?m d"]) (auto simp: uvm_ok_def)
    moreover have "leaf_page ?n d v \<notin> leaf_page ?n d ` {u. u < UPAGES \<and> mapped ?m d u}"
      unfolding im using mp(2) [OF assms(2)] assms(7) by (simp add: leaf_pages_def)
    ultimately show "inj_on (leaf_page ?n d) {u. u < UPAGES \<and> mapped ?n d u}"
      unfolding set inj_on_insert by (simp add: assms(4))
  qed (use st in auto)
qed

lemma pte_unmap:
  assumes "uvm_ok s d" and "v < UPAGES" and "has_table (kmem_mem s) d (v div 512)" and "mapped (kmem_mem s) d v"
    and "t = s\<lparr>kmem_mem := st64 (pte_addr (kmem_mem s) d v) 0 (kmem_mem s)\<rparr>"
  shows "uvm_ok t d" and "tab_pages (kmem_mem t) d = tab_pages (kmem_mem s) d"
    and "leaf_pages (kmem_mem t) d = leaf_pages (kmem_mem s) d - {leaf_page (kmem_mem s) d v}"
    and "u < UPAGES \<Longrightarrow> pte_of (kmem_mem t) d u = (if u = v then 0 else pte_of (kmem_mem s) d u)"
proof -
  let ?m = "kmem_mem s" and ?n = "kmem_mem t"
  have n: "?n = st64 (pte_addr ?m d v) 0 ?m" using assms(5) by simp
  note st = pte_store [OF assms(1-3) n]
  show tp: "tab_pages ?n d = tab_pages ?m d" by (fact st(5))
  show pt: "pte_of ?n d u = (if u = v then 0 else pte_of ?m d u)" if "u < UPAGES" for u using st(4) [OF that] .
  have mp: "mapped ?n d u \<longleftrightarrow> u \<noteq> v \<and> mapped ?m d u" "u \<noteq> v \<Longrightarrow> leaf_page ?n d u = leaf_page ?m d u" if "u < UPAGES" for u
    using pt [OF that] by (auto simp: mapped_def leaf_page_def)
  have inj: "inj_on (leaf_page ?m d) {u. u < UPAGES \<and> mapped ?m d u}" using assms(1) by (simp add: uvm_ok_def)
  have set: "{u. u < UPAGES \<and> mapped ?n d u} = {u. u < UPAGES \<and> mapped ?m d u} - {v}" using mp(1) by auto
  have im: "leaf_page ?n d ` {u. u < UPAGES \<and> mapped ?n d u} = leaf_page ?m d ` ({u. u < UPAGES \<and> mapped ?m d u} - {v})"
    unfolding set using mp(2) by (intro image_cong) auto
  have "leaf_page ?m d ` ({u. u < UPAGES \<and> mapped ?m d u} - {v}) = leaf_page ?m d ` {u. u < UPAGES \<and> mapped ?m d u} - leaf_page ?m d ` {v}"
    using assms(2,4) by (intro inj_on_image_set_diff [OF inj]) auto
  then show lp: "leaf_pages ?n d = leaf_pages ?m d - {leaf_page ?m d v}" unfolding leaf_pages_def im by simp
  show "uvm_ok t d"
  proof (rule uvm_okI [OF assms(1)])
    show "kframe s t" using assms(5) by simp
    show "page_ok s p \<and> p \<noteq> 0 \<and> p \<notin> tab_pages ?m d" if "p \<in> leaf_pages ?n d" for p
      using that assms(1) unfolding lp uvm_ok_def by blast
    show "inj_on (leaf_page ?n d) {u. u < UPAGES \<and> mapped ?n d u}"
      unfolding set using inj mp(2) by (subst inj_on_cong [of _ _ "leaf_page ?m d"]) (auto intro: inj_on_diff)
  qed (use st in auto)
qed

text \<open>A page for a new table.\<close>

definition new_table :: "u64 \<Rightarrow> u64 \<Rightarrow> nat \<Rightarrow> memory \<Rightarrow> memory" where
  "new_table p d i m = st64 (d + 8 * of_nat i) (v2p p OR 7) (sys_memset p 0 (ucast PGSIZE) m)"

lemma add_table:
  assumes "uvm_ok s d" and "i < 510" and "\<not> has_table (kmem_mem s) d i" and "page_ok s p" and "p \<noteq> 0"
    and "p \<notin> tab_pages (kmem_mem s) d \<union> leaf_pages (kmem_mem s) d" and "kframe s t" and "kmem_mem t = new_table p d i (kmem_mem s)"
  shows "uvm_ok t d" and "tab_pages (kmem_mem t) d = insert p (tab_pages (kmem_mem s) d)"
    and "leaf_pages (kmem_mem t) d = leaf_pages (kmem_mem s) d" and "u < UPAGES \<Longrightarrow> pte_of (kmem_mem t) d u = pte_of (kmem_mem s) d u"
    and "has_table (kmem_mem t) d i" and "table_page (kmem_mem t) d i = p" and "mem_same {p, d} (kmem_mem s) (kmem_mem t)"
proof -
  let ?m = "kmem_mem s" and ?n = "kmem_mem t" and ?c = "sys_memset p 0 (ucast PGSIZE) (kmem_mem s)"
  have al: "p mod PGSIZE = 0" and ad: "d mod PGSIZE = 0" and pd: "p \<noteq> d"
    using page_ok_aligned [OF assms(4)] uvm_okD(3) [OF assms(1)] assms(6) by (auto simp: tab_pages_def)
  have n: "?n = st64 (d + 8 * of_nat i) (v2p p OR 7) ?c" using assms(8) by (simp add: new_table_def)
  have c: "mem_same {p} ?m ?c" using mem_same_clear [OF al] .
  have s2: "mem_same {d} ?c ?n" unfolding n using ad assms(2) by (intro mem_same_store) auto
  show ms: "mem_same {p, d} ?m ?n" using mem_same_trans [OF c s2] by blast
  have ed: "ent ?n d j = (if j = i then v2p p OR 7 else ent ?m d j)" if "j < 512" for j
    using ent_store [OF ad _ that, of i "v2p p OR 7" ?c] assms(2) ent_same [OF c _ ad that] pd unfolding n by simp
  note parts = entry_parts [OF al, of 7]
  have h: "has_table ?n d j \<longleftrightarrow> j = i \<or> has_table ?m d j" "table_page ?n d j = (if j = i then p else table_page ?m d j)" if "j < 510" for j
  proof -
    have "(v2p p OR 7) AND PTE_P \<noteq> 0" by (rule present_or) simp
    then show "has_table ?n d j \<longleftrightarrow> j = i \<or> has_table ?m d j" "table_page ?n d j = (if j = i then p else table_page ?m d j)"
      using ed [of j] that parts(1) by (auto simp: has_table_def table_page_def)
  qed
  show "has_table ?n d i" "table_page ?n d i = p" using h [OF assms(2)] by simp_all
  have zero: "ent ?n p k = 0" if "k < 512" for k using ent_same [OF s2 _ al that] pd ent_clear [OF that] by simp
  have old: "table_page ?m d j \<noteq> p" if "j < 510" "has_table ?m d j" for j using tab_pagesI [OF that] assms(6) by auto
  have pt: "pte_of ?n d u = pte_of ?m d u" if "u < UPAGES" for u
  proof -
    note x = uvm_index [OF that]
    show ?thesis
    proof (cases "has_table ?m d (u div 512)")
      case True
      have "ent ?n (table_page ?m d (u div 512)) (u mod 512) = ent ?m (table_page ?m d (u div 512)) (u mod 512)"
        using uvm_okD(4) [OF assms(1) _ True] old [OF _ True] x by (intro ent_same [OF ms]) auto
      moreover have "u div 512 \<noteq> i" using True assms(3) by auto
      ultimately show ?thesis using True h x by (simp add: pte_of_def)
    next
      case False
      then show ?thesis using h [of "u div 512"] x zero [of "u mod 512"] by (auto simp: pte_of_def)
    qed
  qed
  then show "u < UPAGES \<Longrightarrow> pte_of ?n d u = pte_of ?m d u" .
  have mp: "mapped ?n d u = mapped ?m d u" "leaf_page ?n d u = leaf_page ?m d u" if "u < UPAGES" for u
    using pt [OF that] by (simp_all add: mapped_def leaf_page_def)
  have set: "{j. j < 510 \<and> has_table ?n d j} = insert i {j. j < 510 \<and> has_table ?m d j}"
      "{v. v < UPAGES \<and> mapped ?n d v} = {v. v < UPAGES \<and> mapped ?m d v}" using h mp assms(2) by auto
  have im: "table_page ?n d ` {j. j < 510 \<and> has_table ?m d j} = table_page ?m d ` {j. j < 510 \<and> has_table ?m d j}"
    using h(2) assms(3) by (intro image_cong) auto
  have tim: "table_page ?n d ` {j. j < 510 \<and> has_table ?n d j} = insert p (table_page ?m d ` {j. j < 510 \<and> has_table ?m d j})"
    unfolding set(1) image_insert im using h(2) [OF assms(2)] by simp
  show tp: "tab_pages ?n d = insert p (tab_pages ?m d)" unfolding tab_pages_def tim by auto
  show lp: "leaf_pages ?n d = leaf_pages ?m d" unfolding leaf_pages_def set using mp(2) by (intro image_cong) auto
  have "inj_on (table_page ?n d) {j. j < 510 \<and> has_table ?m d j}"
    using assms(1,3) h(2) by (subst inj_on_cong [of _ _ "table_page ?m d"]) (auto simp: uvm_ok_def)
  moreover have "table_page ?n d i \<notin> table_page ?n d ` {j. j < 510 \<and> has_table ?m d j}"
    unfolding im using h(2) [OF assms(2)] assms(6) by (simp add: tab_pages_def)
  ultimately have ij: "inj_on (table_page ?n d) {j. j < 510 \<and> has_table ?n d j}"
    unfolding set inj_on_insert by (simp add: assms(3))
  have lj: "inj_on (leaf_page ?n d) {v. v < UPAGES \<and> mapped ?n d v}"
    unfolding set using assms(1) mp(2) by (subst inj_on_cong [of _ _ "leaf_page ?m d"]) (auto simp: uvm_ok_def)
  show "uvm_ok t d"
    using assms(1,4,5,6) pd ij lj unfolding uvm_ok_def tim tp lp page_ok_frame [OF assms(7)] by blast
qed

subsection \<open>Mapping a page\<close>

lemma walk_alloc:
  assumes "v < UPAGES" and "\<not> has_table (kmem_mem s) d (v div 512)" and "pool s (p # ps)"
  shows "walkpgdir d (of_nat (v * 4096)) True s
    = Ret (p + 8 * of_nat (v mod 512)) (s\<lparr>freelist := ld64 (kmem_mem s) p, kmem_mem := new_table p d (v div 512) (kmem_mem s)\<rparr>)"
proof -
  have "p \<noteq> 0" using assms(3) page_ok_nonzero [OF assms(3), of p] by (simp add: pool_def)
  then show ?thesis
    using assms(1,2) pool_Cons(1) [OF assms(3)] page_index [of v] unfolding has_table_def ent_def
    by (simp add: walkpgdir_def Let_def kload_def kstore_def kclear_def kmon_defs new_table_def)
qed

lemma walk_empty:
  assumes "v < UPAGES" and "\<not> has_table (kmem_mem s) d (v div 512)" and "pool s []"
  shows "walkpgdir d (of_nat (v * 4096)) True s = Ret 0 s"
  using assms(1,2) pool_Nil [OF assms(3)] page_index [of v] unfolding has_table_def ent_def
  by (simp add: walkpgdir_def Let_def kload_def kmon_defs)

lemma map_steps_page:
  assumes "v < UPAGES"
  shows "map_steps (of_nat (v * 4096)) PGSIZE pa = [(of_nat (v * 4096), pa)]"
proof -
  have al: "(of_nat (v * 4096) :: u64) mod PGSIZE = 0" unfolding aligned_iff using assms page_index(3) [of v] by simp
  have "PGROUNDDOWN (of_nat (v * 4096) + PGSIZE - 1) = of_nat (v * 4096)" using PGROUNDDOWN_in_page [OF al, of 4095] by (simp add: algebra_simps)
  moreover have "PGROUNDDOWN (of_nat (v * 4096)) = of_nat (v * 4096)" using PGROUNDDOWN_in_page [OF al, of 0] by simp
  ultimately show ?thesis by (simp add: map_steps_def)
qed

lemma map_store:
  assumes "uvm_ok s d" and "v < UPAGES" and "has_table (kmem_mem s) d (v div 512)" and "\<not> mapped (kmem_mem s) d v"
  shows "kbind (kload (pte_addr (kmem_mem s) d v)) (\<lambda>e. if e AND PTE_P \<noteq> 0 then kpanic ''remap''
      else kthen (kstore (pte_addr (kmem_mem s) d v) w) (kreturn (0 :: int))) s
    = Ret 0 (s\<lparr>kmem_mem := st64 (pte_addr (kmem_mem s) d v) w (kmem_mem s)\<rparr>)"
  using assms(3,4) pte_addr_load [OF assms(3)] by (simp add: kload_def kstore_def kmon_defs mapped_def)

lemma flags_present: "f AND 0xFFF = f \<Longrightarrow> ((f :: u64) OR PTE_P) AND 0xFFF = f OR PTE_P \<and> (f OR PTE_P) AND PTE_P \<noteq> 0"
proof -
  assume "f AND 0xFFF = f"
  moreover have "(f OR PTE_P) AND 0xFFF = (f AND 0xFFF) OR (PTE_P AND 0xFFF)" by (rule bit.conj_disj_distrib2)
  moreover have "(f OR PTE_P) AND PTE_P \<noteq> 0" by (rule present_or) simp
  ultimately show ?thesis by simp
qed

definition free_apart :: "'a kmem_scheme \<Rightarrow> u64 \<Rightarrow> u64 list \<Rightarrow> bool" where
  "free_apart s d ps \<longleftrightarrow> pool s ps \<and> uvm_ok s d \<and> (tab_pages (kmem_mem s) d \<union> leaf_pages (kmem_mem s) d) \<inter> set ps = {}"

lemma map_page:
  assumes "free_apart s d ps" and "v < UPAGES" and "\<not> mapped (kmem_mem s) d v" and "page_ok s q" and "q \<noteq> 0"
    and "q \<notin> tab_pages (kmem_mem s) d \<union> leaf_pages (kmem_mem s) d \<union> set ps" and "f AND 0xFFF = f"
    and "has_table (kmem_mem s) d (v div 512) \<or> ps \<noteq> []"
  shows "\<exists>t ps'. mappages d (of_nat (v * 4096)) PGSIZE (v2p q) f s = Ret 0 t \<and> kframe s t \<and> free_apart t d ps'
    \<and> (\<forall>u<UPAGES. pte_of (kmem_mem t) d u = (if u = v then v2p q OR (f OR PTE_P) else pte_of (kmem_mem s) d u))
    \<and> leaf_pages (kmem_mem t) d = insert q (leaf_pages (kmem_mem s) d) \<and> has_table (kmem_mem t) d (v div 512)
    \<and> tab_pages (kmem_mem t) d \<union> set ps' = tab_pages (kmem_mem s) d \<union> set ps \<and> mem_same (tab_pages (kmem_mem t) d) (kmem_mem s) (kmem_mem t)
    \<and> (if has_table (kmem_mem s) d (v div 512) then ps' = ps else ps' = tl ps)"
proof -
  have ok: "pool s ps" "uvm_ok s d" "(tab_pages (kmem_mem s) d \<union> leaf_pages (kmem_mem s) d) \<inter> set ps = {}"
    using assms(1) by (simp_all add: free_apart_def)
  note fl = flags_present [OF assms(7)] and x = uvm_index [OF assms(2)]
  have run: "mappages d (of_nat (v * 4096)) PGSIZE (v2p q) f s = kbind (walkpgdir d (of_nat (v * 4096)) True) (\<lambda>pte.
      if pte = 0 then kreturn (- 1) else kbind (kload pte) (\<lambda>e. if e AND PTE_P \<noteq> 0 then kpanic ''remap''
      else kthen (kstore pte (v2p q OR (f OR PTE_P))) (kreturn (0 :: int)))) s"
    unfolding mappages_def map_steps_page [OF assms(2)] map_loop.simps ..
  define p where "p = hd ps"
  define s1 where "s1 = (if has_table (kmem_mem s) d (v div 512) then s
    else s\<lparr>freelist := ld64 (kmem_mem s) p, kmem_mem := new_table p d (v div 512) (kmem_mem s)\<rparr>)"
  define ps' where "ps' = (if has_table (kmem_mem s) d (v div 512) then ps else tl ps)"
  have walk: "walkpgdir d (of_nat (v * 4096)) True s = Ret (pte_addr (kmem_mem s1) d v) s1 \<and> kframe s s1 \<and> free_apart s1 d ps'
      \<and> (\<forall>u<UPAGES. pte_of (kmem_mem s1) d u = pte_of (kmem_mem s) d u) \<and> leaf_pages (kmem_mem s1) d = leaf_pages (kmem_mem s) d
      \<and> has_table (kmem_mem s1) d (v div 512) \<and> tab_pages (kmem_mem s1) d \<union> set ps' = tab_pages (kmem_mem s) d \<union> set ps
      \<and> mem_same (tab_pages (kmem_mem s1) d) (kmem_mem s) (kmem_mem s1)
      \<and> q \<notin> tab_pages (kmem_mem s1) d \<union> leaf_pages (kmem_mem s1) d \<union> set ps'"
  proof (cases "has_table (kmem_mem s) d (v div 512)")
    case True
    then show ?thesis using walk_table [OF assms(2) True] assms(1,6) by (simp add: s1_def ps'_def)
  next
    case False
    then have ps: "ps = p # ps'" using assms(8) by (simp add: p_def ps'_def)
    have s1: "kmem_mem s1 = new_table p d (v div 512) (kmem_mem s)" "kframe s s1" using False by (simp_all add: s1_def)
    have pg: "page_ok s p" "p \<noteq> 0" using ok(1) page_ok_nonzero [OF ok(1), of p] unfolding ps by (simp_all add: pool_def)
    have pn: "p \<notin> tab_pages (kmem_mem s) d \<union> leaf_pages (kmem_mem s) d" using ok(3) ps by auto
    note a = add_table [OF ok(2) _ False pg pn s1(2,1)]
    have a': "uvm_ok s1 d" "tab_pages (kmem_mem s1) d = insert p (tab_pages (kmem_mem s) d)" "leaf_pages (kmem_mem s1) d = leaf_pages (kmem_mem s) d"
        "\<forall>u<UPAGES. pte_of (kmem_mem s1) d u = pte_of (kmem_mem s) d u" "has_table (kmem_mem s1) d (v div 512)" "table_page (kmem_mem s1) d (v div 512) = p"
        "mem_same {p, d} (kmem_mem s) (kmem_mem s1)"
      using a x by blast+
    have dist: "p \<notin> set ps'" "d \<notin> set ps'" using ok(1,3) ps by (auto simp: pool_def tab_pages_def)
    have "pool (s\<lparr>freelist := ld64 (kmem_mem s) p\<rparr>) ps'" using pool_Cons(2) ok(1) ps by metis
    then have "pool (s\<lparr>freelist := ld64 (kmem_mem s) p\<rparr>\<lparr>kmem_mem := kmem_mem s1\<rparr>) ps'"
      using a'(7) dist by (intro pool_same) auto
    then have "pool s1 ps'" using False by (simp add: s1_def)
    then have "free_apart s1 d ps'" using a'(1-3) ok(3) ps dist by (auto simp: free_apart_def)
    moreover have "mem_same (tab_pages (kmem_mem s1) d) (kmem_mem s) (kmem_mem s1)"
      using mem_same_mono [OF a'(7)] a'(2) by (simp add: tab_pages_def)
    moreover have "q \<notin> tab_pages (kmem_mem s1) d \<union> leaf_pages (kmem_mem s1) d \<union> set ps'" using assms(6) a'(2,3) ps by auto
    moreover have "walkpgdir d (of_nat (v * 4096)) True s = Ret (pte_addr (kmem_mem s1) d v) s1"
      using walk_alloc [OF assms(2) False, of p ps'] ok(1) ps a'(6) False by (simp add: pte_addr_def s1_def)
    ultimately show ?thesis using s1(2) a'(2-5) ps by auto
  qed
  then have un: "\<not> mapped (kmem_mem s1) d v" "uvm_ok s1 d" "page_ok s1 q"
    using assms(2,3,4) page_ok_frame [of s s1] by (auto simp: mapped_def free_apart_def)
  define t where "t = s1\<lparr>kmem_mem := st64 (pte_addr (kmem_mem s1) d v) (v2p q OR (f OR PTE_P)) (kmem_mem s1)\<rparr>"
  have h1: "has_table (kmem_mem s1) d (v div 512)" "q \<notin> tab_pages (kmem_mem s1) d \<union> leaf_pages (kmem_mem s1) d" using walk by auto
  note pm = pte_map [OF un(2) assms(2) h1(1) un(1,3) assms(5) h1(2) _ _ t_def]
  note nz = pte_addr_nonzero [OF un(2) assms(2) h1(1)]
  have "mappages d (of_nat (v * 4096)) PGSIZE (v2p q) f s = Ret 0 t"
    unfolding run kbind_Ret [where m = "walkpgdir d (of_nat (v * 4096)) True" and s = s, OF conjunct1 [OF walk]] using nz map_store [OF un(2) assms(2) h1(1) un(1)] by (simp add: t_def)
  moreover have st: "mem_same {table_page (kmem_mem s1) d (v div 512)} (kmem_mem s1) (kmem_mem t)"
      "has_table (kmem_mem t) d (v div 512)"
    using pte_store(1,2) [OF un(2) assms(2) h1(1), of "kmem_mem t" "v2p q OR (f OR PTE_P)"] x h1(1) by (simp_all add: t_def)
  moreover have pt: "uvm_ok t d" "tab_pages (kmem_mem t) d = tab_pages (kmem_mem s1) d"
      "leaf_pages (kmem_mem t) d = insert q (leaf_pages (kmem_mem s1) d)"
      "\<forall>u<UPAGES. pte_of (kmem_mem t) d u = (if u = v then v2p q OR (f OR PTE_P) else pte_of (kmem_mem s1) d u)"
    using pm fl by blast+
  moreover have tin: "table_page (kmem_mem s1) d (v div 512) \<in> tab_pages (kmem_mem s1) d" using tab_pagesI x h1(1) by blast
  have "mem_same (tab_pages (kmem_mem t) d) (kmem_mem s) (kmem_mem t)"
    using walk mem_same_trans [OF _ st(1), of "tab_pages (kmem_mem s1) d" "kmem_mem s" "tab_pages (kmem_mem s1) d"] tin unfolding pt(2) by auto
  moreover have "free_apart t d ps'"
  proof -
    have "pool (s1\<lparr>kmem_mem := kmem_mem t\<rparr>) ps'"
      using walk tin by (intro pool_same [OF _ st(1)]) (auto simp: free_apart_def)
    then have "pool t ps'" by (simp add: t_def)
    then show ?thesis using walk pt(1-3) by (auto simp: free_apart_def)
  qed
  moreover have "kframe s t" using walk by (simp add: t_def)
  ultimately show ?thesis using walk by (intro exI [of _ t] exI [of _ ps']) (simp add: ps'_def)
qed

subsection \<open>A new address space\<close>

lemma page_limit:
  assumes "page_ok s p"
  shows "unat p + 4096 < 2 ^ 64"
proof -
  have "unat (v2p p) < 0xE000000" using assms by (simp add: page_ok_def word_less_nat_alt)
  then have "unat (p2v (v2p p) + of_nat 0 * PGSIZE) = 0xFFFFFFFF80000000 + unat (v2p p) + 0 * 4096" by (intro unat_p2v_page) simp
  then show ?thesis using \<open>unat (v2p p) < 0xE000000\<close> by simp
qed

lemma page_same:
  assumes "mem_same X m n" and "p \<notin> X" and "p mod PGSIZE = 0"
  shows "bytes_at n p 4096 = bytes_at m p 4096"
proof (rule bytes_at_cong)
  fix k :: nat assume "k < 4096"
  then show "n (p + of_nat k) = m (p + of_nat k)"
    using PGROUNDDOWN_in_page [OF assms(3)] assms(1,2) by (simp add: mem_same_def)
qed

definition fresh_tables :: "u64 \<Rightarrow> u64 \<Rightarrow> u64 \<Rightarrow> u64 \<Rightarrow> memory \<Rightarrow> memory" where
  "fresh_tables kp a b c m = st64 (c + 8 * 510) (b OR PTE_P) (st64 (c + 8 * 511) (a OR PTE_P) (st64 b (v2p c OR 7)
     (st64 a (v2p b OR 7) (st64 (a + 8 * 511) (v2p kp OR 7) (sys_memset c 0 (ucast PGSIZE) (sys_memset b 0 (ucast PGSIZE)
       (sys_memset a 0 (ucast PGSIZE) m)))))))"

lemma setupkvm_run:
  assumes "pool s (a # b # c # ps)"
  shows "\<exists>f. setupkvm kp s = Ret c (s\<lparr>freelist := f, kmem_mem := fresh_tables kp a b c (kmem_mem s)\<rparr>) \<and> pool (s\<lparr>freelist := f\<rparr>) ps"
proof -
  note p1 = pool_Cons [OF assms]
  note p2 = pool_Cons [OF p1(2)]
  note p3 = pool_Cons [OF p2(2)]
  have "a \<noteq> 0" "b \<noteq> 0" "c \<noteq> 0" using assms page_ok_nonzero [OF assms] by (simp_all add: pool_def)
  then have "setupkvm kp s = Ret c (s\<lparr>freelist := ld64 (kmem_mem s) c, kmem_mem := fresh_tables kp a b c (kmem_mem s)\<rparr>)"
    unfolding setupkvm_def kbind_Ret [of kalloc, OF p1(1)] kbind_Ret [of kalloc, OF p2(1)] kbind_Ret [of kalloc, OF p3(1)]
    by (simp add: kclear_def kstore_def kmon_defs fresh_tables_def)
  then show ?thesis using p3(2) by auto
qed

lemma fresh_tables_same:
  assumes "a mod PGSIZE = 0" and "b mod PGSIZE = 0" and "c mod PGSIZE = 0"
  shows "mem_same {a, b, c} m (fresh_tables kp a b c m)"
proof -
  let ?Z = "{a, b, c}"
  let ?m1 = "sys_memset a 0 (ucast PGSIZE) m" let ?m2 = "sys_memset b 0 (ucast PGSIZE) ?m1" let ?m3 = "sys_memset c 0 (ucast PGSIZE) ?m2"
  let ?m4 = "st64 (a + 8 * 511) (v2p kp OR 7) ?m3" let ?m5 = "st64 a (v2p b OR 7) ?m4" let ?m6 = "st64 b (v2p c OR 7) ?m5"
  let ?m7 = "st64 (c + 8 * 511) (a OR PTE_P) ?m6"
  have al: "x mod PGSIZE = 0" if "x \<in> ?Z" for x using that assms by (metis empty_iff insertE)
  have st: "mem_same ?Z n (st64 (x + 8 * of_nat i) w n)" if "x \<in> ?Z" "i < 512" for x i w n
    using that(1) by (intro mem_same_mono [OF mem_same_store [OF al that(2)]]) blast+
  have cl: "mem_same ?Z n (sys_memset x 0 (ucast PGSIZE) n)" if "x \<in> ?Z" for x n
    using that by (intro mem_same_mono [OF mem_same_clear [OF al]]) blast+
  have tr: "mem_same ?Z x y \<Longrightarrow> mem_same ?Z y z \<Longrightarrow> mem_same ?Z x z" for x y z
    using mem_same_trans by blast
  have "mem_same ?Z m ?m3" by (rule tr [OF tr [OF cl cl] cl]) auto
  moreover have "mem_same ?Z ?m3 ?m4" "mem_same ?Z ?m4 ?m5" "mem_same ?Z ?m5 ?m6" "mem_same ?Z ?m6 ?m7"
      "mem_same ?Z ?m7 (fresh_tables kp a b c m)"
    using st [of a 511 ?m3 "v2p kp OR 7"] st [of a 0 ?m4 "v2p b OR 7"] st [of b 0 ?m5 "v2p c OR 7"] st [of c 511 ?m6 "a OR PTE_P"]
      st [of c 510 ?m7 "b OR PTE_P"] by (simp_all add: fresh_tables_def)
  ultimately show ?thesis using tr by blast
qed

lemma fresh_tables_ent:
  assumes "a mod PGSIZE = 0" and "b mod PGSIZE = 0" and "c mod PGSIZE = 0" and "a \<noteq> c" and "b \<noteq> c" and "i < 510"
  shows "ent (fresh_tables kp a b c m) c i = 0"
proof -
  let ?m3 = "sys_memset c 0 (ucast PGSIZE) (sys_memset b 0 (ucast PGSIZE) (sys_memset a 0 (ucast PGSIZE) m))"
  let ?m4 = "st64 (a + 8 * of_nat 511) (v2p kp OR 7) ?m3" let ?m5 = "st64 (a + 8 * of_nat 0) (v2p b OR 7) ?m4"
  let ?m6 = "st64 (b + 8 * of_nat 0) (v2p c OR 7) ?m5" let ?m7 = "st64 (c + 8 * of_nat 511) (a OR PTE_P) ?m6"
  have i: "i < 512" using assms(6) by simp
  have "ent (fresh_tables kp a b c m) c i = ent ?m7 c i"
    using ent_store [OF assms(3), of 510 i "b OR PTE_P" ?m7] assms(6) by (simp add: fresh_tables_def)
  also have "\<dots> = ent ?m6 c i" using ent_store [OF assms(3), of 511 i "a OR PTE_P" ?m6] assms(6) by simp
  also have "\<dots> = ent ?m5 c i" using assms i by (intro ent_same [OF mem_same_store [OF assms(2)]]) auto
  also have "\<dots> = ent ?m4 c i" using assms i by (intro ent_same [OF mem_same_store [OF assms(1)]]) auto
  also have "\<dots> = ent ?m3 c i" using assms i by (intro ent_same [OF mem_same_store [OF assms(1)]]) auto
  also have "\<dots> = 0" using ent_clear [OF i] .
  finally show ?thesis .
qed

lemma uvm_ok_empty:
  assumes "page_ok s c" and "c \<noteq> 0" and "\<And>i. i < 510 \<Longrightarrow> ent (kmem_mem s) c i = 0"
  shows "uvm_ok s c" and "tab_pages (kmem_mem s) c = {c}" and "leaf_pages (kmem_mem s) c = {}" and "v < UPAGES \<Longrightarrow> pte_of (kmem_mem s) c v = 0"
proof -
  have h: "\<not> has_table (kmem_mem s) c i" if "i < 510" for i using assms(3) [OF that] by (simp add: has_table_def)
  have p: "pte_of (kmem_mem s) c v = 0" if "v < UPAGES" for v using h uvm_index [OF that] by (simp add: pte_of_def)
  then show "v < UPAGES \<Longrightarrow> pte_of (kmem_mem s) c v = 0" .
  have e: "{i. i < 510 \<and> has_table (kmem_mem s) c i} = {}" "{v. v < UPAGES \<and> mapped (kmem_mem s) c v} = {}"
    using h p by (auto simp: mapped_def)
  show t: "tab_pages (kmem_mem s) c = {c}" "leaf_pages (kmem_mem s) c = {}" unfolding tab_pages_def leaf_pages_def e by simp_all
  show "uvm_ok s c" unfolding uvm_ok_def t e using assms(1,2) by simp
qed

lemma setupkvm_law:
  assumes "pool s (a # b # c # ps)"
  shows "\<exists>t. setupkvm kp s = Ret c t \<and> kframe s t \<and> free_apart t c ps \<and> mem_same {a, b, c} (kmem_mem s) (kmem_mem t)
    \<and> tab_pages (kmem_mem t) c = {c} \<and> leaf_pages (kmem_mem t) c = {} \<and> (\<forall>v<UPAGES. pte_of (kmem_mem t) c v = 0)"
proof -
  obtain f where f: "setupkvm kp s = Ret c (s\<lparr>freelist := f, kmem_mem := fresh_tables kp a b c (kmem_mem s)\<rparr>)" "pool (s\<lparr>freelist := f\<rparr>) ps"
    using setupkvm_run [OF assms] by blast
  let ?t = "s\<lparr>freelist := f, kmem_mem := fresh_tables kp a b c (kmem_mem s)\<rparr>"
  have ok: "page_ok s a" "page_ok s b" "page_ok s c" and dist: "distinct (a # b # c # ps)" using assms by (simp_all add: pool_def)
  note al = ok [THEN page_ok_aligned]
  have nz: "c \<noteq> 0" using page_ok_nonzero [OF assms ok(3)] .
  have fr: "kframe s ?t" by simp
  have okt: "page_ok ?t c" unfolding page_ok_frame [OF fr] by (fact ok(3))
  have ent: "ent (kmem_mem ?t) c i = 0" if "i < 510" for i using fresh_tables_ent [OF al _ _ that] dist by auto
  note emp = uvm_ok_empty [OF okt nz ent]
  have ms: "mem_same {a, b, c} (kmem_mem s) (kmem_mem ?t)" using fresh_tables_same [OF al] by simp
  have "pool (s\<lparr>freelist := f\<rparr>\<lparr>kmem_mem := fresh_tables kp a b c (kmem_mem s)\<rparr>) ps"
    using dist by (intro pool_same [OF f(2), of "{a, b, c}"]) (use fresh_tables_same [OF al] in auto)
  then have "free_apart ?t c ps" using emp(1-3) dist by (simp add: free_apart_def)
  then show ?thesis using f(1) fr ms emp(2-4) by blast
qed

subsection \<open>Copying an address space\<close>

abbreviation vm_pages :: "memory \<Rightarrow> u64 \<Rightarrow> u64 set" where
  "vm_pages m d \<equiv> tab_pages m d \<union> leaf_pages m d"

definition copied :: "memory \<Rightarrow> u64 \<Rightarrow> u64 \<Rightarrow> nat \<Rightarrow> bool" where
  "copied m d c u \<longleftrightarrow> mapped m c u \<and> PTE_FLAGS (pte_of m c u) = PTE_FLAGS (pte_of m d u)
     \<and> bytes_at m (leaf_page m c u) 4096 = bytes_at m (leaf_page m d u) 4096"

lemma copy_bytes:
  assumes "page_ok s p" and "page_ok s q" and "n = sys_memmove q p (ucast PGSIZE) m"
  shows "bytes_at n q 4096 = bytes_at m p 4096" and "mem_same {q} m n"
proof -
  have u: "unat (ucast PGSIZE :: u32) = 4096" by simp
  have lim: "unat p + 4096 < 2 ^ 64" "unat q + 4096 \<le> 2 ^ 64" using page_limit [OF assms(1)] page_limit [OF assms(2)] by simp_all
  show "bytes_at n q 4096 = bytes_at m p 4096"
    unfolding bytes_at_def assms(3) using lim sys_memmove_same [of p "ucast PGSIZE" q _ m] unfolding u by simp
  show "mem_same {q} m n"
    unfolding mem_same_def assms(3)
  proof (intro allI impI sys_memmove_other)
    fix b and k :: nat assume b: "PGROUNDDOWN b \<notin> {q}" and "k < unat (ucast PGSIZE :: u32)"
    then have "k < 4096" unfolding u by simp
    then show "b \<noteq> q + of_nat k" using b PGROUNDDOWN_in_page [OF page_ok_aligned [OF assms(2)]] by auto
  qed
qed

lemma flags_fit: "PTE_FLAGS e AND 0xFFF = PTE_FLAGS e"
  by (simp add: PTE_FLAGS_def and.assoc)

lemma flags_P: "e AND PTE_P \<noteq> 0 \<Longrightarrow> PTE_FLAGS e OR PTE_P = PTE_FLAGS e"
proof -
  assume "e AND PTE_P \<noteq> 0"
  then have "bit e 0" by (simp add: and_one_eq bit_0 odd_iff_mod_2_eq_one)
  show ?thesis
    by (rule bit_word_eqI) (use \<open>bit e 0\<close> in \<open>auto simp: PTE_FLAGS_def bit_simps bit_1_iff\<close>)
qed

lemma has_table_mapped: "mapped m d v \<Longrightarrow> has_table m d (v div 512)"
  by (auto simp: mapped_def pte_of_def split: if_splits)

lemma copy_page:
  assumes "free_apart s c (q # ps)" and "uvm_ok s d" and "vm_pages (kmem_mem s) d \<inter> (vm_pages (kmem_mem s) c \<union> set (q # ps)) = {}"
    and "v < UPAGES" and "mapped (kmem_mem s) d v" and "\<not> mapped (kmem_mem s) c v"
    and "has_table (kmem_mem s) c (v div 512) \<or> ps \<noteq> []"
  shows "\<exists>t ps'. copy_loop d c (of_nat (v * 4096) # is) s = copy_loop d c is t \<and> kframe s t \<and> free_apart t c ps'
    \<and> (if has_table (kmem_mem s) c (v div 512) then ps' = ps else ps' = tl ps) \<and> has_table (kmem_mem t) c (v div 512)
    \<and> tab_pages (kmem_mem t) c \<union> set ps' = tab_pages (kmem_mem s) c \<union> set ps \<and> leaf_pages (kmem_mem t) c = insert q (leaf_pages (kmem_mem s) c)
    \<and> mem_same (insert q (tab_pages (kmem_mem t) c)) (kmem_mem s) (kmem_mem t) \<and> copied (kmem_mem t) d c v
    \<and> (\<forall>u<UPAGES. u \<noteq> v \<longrightarrow> pte_of (kmem_mem t) c u = pte_of (kmem_mem s) c u)"
proof -
  let ?m = "kmem_mem s" and ?e = "pte_of (kmem_mem s) d v" and ?p = "leaf_page (kmem_mem s) d v"
  have ok: "pool s (q # ps)" "uvm_ok s c" "vm_pages ?m c \<inter> set (q # ps) = {}" using assms(1) by (simp_all add: free_apart_def)
  have q: "page_ok s q" "q \<noteq> 0" "q \<notin> set ps" using ok(1) page_ok_nonzero [OF ok(1), of q] by (simp_all add: pool_def)
  note h = has_table_mapped [OF assms(5)]
  note p = uvm_okD(5) [OF assms(2,4,5)]
  define s1 where "s1 = s\<lparr>freelist := ld64 ?m q\<rparr>"
  define s2 where "s2 = s1\<lparr>kmem_mem := sys_memmove q ?p (ucast PGSIZE) ?m\<rparr>"
  have s1: "kalloc s = Ret q s1" "pool s1 ps" using pool_Cons [OF ok(1)] by (simp_all add: s1_def)
  have m2: "kmem_mem s2 = sys_memmove q ?p (ucast PGSIZE) ?m" and f2: "kframe s s2" by (simp_all add: s2_def s1_def)
  note cp = copy_bytes [OF conjunct1 [OF p] q(1) m2]
  have qc: "{q} \<inter> tab_pages ?m c = {}" using ok(3) by auto
  note c2 = uvm_same [OF ok(2) cp(2) qc]
  have "pool (s1\<lparr>kmem_mem := kmem_mem s2\<rparr>) ps" using q(3) cp(2) by (intro pool_same [OF s1(2)]) (auto simp: s1_def)
  then have pool2: "pool s2 ps" by (simp add: s2_def)
  then have fa2: "free_apart s2 c ps" using c2(3,4) c2(7) [OF f2 refl] ok(3) by (auto simp: free_apart_def)
  have e2: "\<not> mapped (kmem_mem s2) c v" "page_ok s2 q" "q \<notin> vm_pages (kmem_mem s2) c \<union> set ps"
      "has_table (kmem_mem s2) c (v div 512) = has_table ?m c (v div 512)"
    using assms(4,6) c2(5) [OF assms(4)] page_ok_frame [OF f2] q c2(1) [of "v div 512"] uvm_index [OF assms(4)] ok(3)
    unfolding c2(3,4) by (auto simp: has_table_def)
  obtain t ps' where t: "mappages c (of_nat (v * 4096)) PGSIZE (v2p q) (PTE_FLAGS ?e) s2 = Ret 0 t" "kframe s2 t" "free_apart t c ps'"
      "\<forall>u<UPAGES. pte_of (kmem_mem t) c u = (if u = v then v2p q OR (PTE_FLAGS ?e OR PTE_P) else pte_of (kmem_mem s2) c u)"
      "leaf_pages (kmem_mem t) c = insert q (leaf_pages (kmem_mem s2) c)" "has_table (kmem_mem t) c (v div 512)"
      "tab_pages (kmem_mem t) c \<union> set ps' = tab_pages (kmem_mem s2) c \<union> set ps" "mem_same (tab_pages (kmem_mem t) c) (kmem_mem s2) (kmem_mem t)"
      "if has_table ?m c (v div 512) then ps' = ps else ps' = tl ps"
    using map_page [OF fa2 assms(4) e2(1,2) q(2) e2(3) flags_fit] assms(7) unfolding e2(4) by blast
  have eP: "?e AND PTE_P \<noteq> 0" using assms(5) by (simp add: mapped_def)
  have "copy_loop d c (of_nat (v * 4096) # is) s = copy_loop d c is t"
    using walk_table [OF assms(4) h, of False] pte_addr_nonzero [OF assms(2,4) h] pte_addr_load [OF h] eP s1(1) t(1) q(2)
    by (simp add: kbind_Ret kload_def kget_def kmodify_def s2_def s1_def leaf_page_def)
  moreover have ms: "mem_same (insert q (tab_pages (kmem_mem t) c)) ?m (kmem_mem t)"
    using mem_same_trans [OF cp(2) t(8)] by blast
  moreover have "kframe s t" using kframe_trans [OF f2 t(2)] .
  moreover have pt: "\<forall>u<UPAGES. u \<noteq> v \<longrightarrow> pte_of (kmem_mem t) c u = pte_of ?m c u" using t(4) c2(2) by simp
  moreover have "copied (kmem_mem t) d c v"
  proof -
    have dis: "insert q (tab_pages (kmem_mem t) c) \<inter> vm_pages ?m d = {}" using equalityD1 [OF t(7)] assms(3) unfolding c2(3) by auto
    then have "insert q (tab_pages (kmem_mem t) c) \<inter> tab_pages ?m d = {}" by auto
    note d = uvm_same [OF assms(2) ms this]
    have w: "pte_of (kmem_mem t) c v = v2p q OR PTE_FLAGS ?e" using t(4) assms(4) flags_P [OF eP] by simp
    note parts = entry_parts [OF page_ok_aligned [OF q(1)] flags_fit [of ?e]]
    have "PTE_FLAGS ?e AND PTE_P \<noteq> 0" using eP by (simp add: PTE_FLAGS_def and.assoc)
    then have "mapped (kmem_mem t) c v" unfolding mapped_def w by (rule present_or)
    moreover have "PTE_FLAGS (pte_of (kmem_mem t) c v) = PTE_FLAGS (pte_of (kmem_mem t) d v)" unfolding w parts(2) d(2) [OF assms(4)] ..
    moreover have lq: "leaf_page (kmem_mem t) c v = q" unfolding leaf_page_def w parts(1) by simp
    moreover have "bytes_at (kmem_mem t) q 4096 = bytes_at (kmem_mem s2) q 4096"
    proof (rule page_same [OF t(8) _ page_ok_aligned [OF q(1)]])
      show "q \<notin> tab_pages (kmem_mem t) c" using t(3,5) unfolding free_apart_def uvm_ok_def by blast
    qed
    moreover have "bytes_at (kmem_mem t) ?p 4096 = bytes_at ?m ?p 4096"
      using dis p leaf_pagesI [OF assms(4,5)] by (intro page_same [OF ms]) auto
    ultimately show ?thesis using cp(1) unfolding copied_def lq d(6) [OF assms(4)] by simp
  qed
  ultimately show ?thesis using t(3,5-7,9) unfolding c2(3,4) by blast
qed

lemma copied_keep:
  assumes "copied (kmem_mem s) d c u" and "u < UPAGES" and "mapped (kmem_mem s) d u" and "uvm_ok s d" and "uvm_ok s c"
    and "mem_same X (kmem_mem s) n" and "X \<inter> vm_pages (kmem_mem s) d = {}"
    and "pte_of n c u = pte_of (kmem_mem s) c u" and "leaf_page (kmem_mem s) c u \<notin> X"
  shows "copied n d c u"
proof -
  have "X \<inter> tab_pages (kmem_mem s) d = {}" using assms(7) by auto
  note d = uvm_same [OF assms(4,6) this]
  have c: "mapped (kmem_mem s) c u" using assms(1) by (simp add: copied_def)
  have l: "mapped n c u" "leaf_page n c u = leaf_page (kmem_mem s) c u" using c assms(8) by (simp_all add: mapped_def leaf_page_def)
  have "bytes_at n (leaf_page (kmem_mem s) c u) 4096 = bytes_at (kmem_mem s) (leaf_page (kmem_mem s) c u) 4096"
    using uvm_okD(5) [OF assms(5,2) c] assms(9) by (intro page_same [OF assms(6)]) auto
  moreover have "bytes_at n (leaf_page (kmem_mem s) d u) 4096 = bytes_at (kmem_mem s) (leaf_page (kmem_mem s) d u) 4096"
    using uvm_okD(5) [OF assms(4,2,3)] leaf_pagesI [OF assms(2,3)] assms(7) by (intro page_same [OF assms(6)]) auto
  ultimately show ?thesis
    using assms(1) unfolding copied_def l d(2,6) [OF assms(2)] assms(8) by (simp add: l(1))
qed

text \<open>The pages the copy of the pages from \<open>k\<close> on takes: one for each, and one for each table that begins there.\<close>

definition copy_need :: "nat \<Rightarrow> nat \<Rightarrow> nat" where
  "copy_need k n = (n - k) + length (filter (\<lambda>v. v mod 512 = 0) [k..<n])"

lemma copy_need_step: "k < n \<Longrightarrow> copy_need k n = Suc (copy_need (Suc k) n + (if k mod 512 = 0 then 1 else 0))"
  by (auto simp: copy_need_def upt_conv_Cons)

lemma copy_loop_law:
  assumes "free_apart s c ps" and "uvm_ok s d" and "vm_pages (kmem_mem s) d \<inter> (vm_pages (kmem_mem s) c \<union> set ps) = {}"
    and "n \<le> UPAGES" and "k \<le> n" and "copy_need k n \<le> length ps" and "\<forall>u<n. mapped (kmem_mem s) d u" and "\<forall>u<k. copied (kmem_mem s) d c u"
    and "\<forall>u<UPAGES. k \<le> u \<longrightarrow> pte_of (kmem_mem s) c u = 0" and "k mod 512 \<noteq> 0 \<longrightarrow> has_table (kmem_mem s) c (k div 512)"
  shows "\<exists>t ps'. copy_loop d c (map (\<lambda>k. of_nat (k * 4096)) [k..<n]) s = Ret c t \<and> kframe s t \<and> free_apart t c ps' 
    \<and> vm_pages (kmem_mem t) c \<union> set ps' = vm_pages (kmem_mem s) c \<union> set ps \<and> mem_same (vm_pages (kmem_mem s) c \<union> set ps) (kmem_mem s) (kmem_mem t)
    \<and> (\<forall>u<n. copied (kmem_mem t) d c u) \<and> (\<forall>u<UPAGES. n \<le> u \<longrightarrow> pte_of (kmem_mem t) c u = 0)"
  using assms
proof (induction "n - k" arbitrary: k s ps)
  case 0
  then have kn: "k = n" by simp
  show ?case by (rule exI [of _ s], rule exI [of _ ps]) (use 0 in \<open>simp add: kn kreturn_def\<close>)
next
  case (Suc j)
  note pr = Suc.prems
  have kn: "k < n" "k < UPAGES" using Suc(2) pr(4) by simp_all
  have len: "Suc (copy_need (Suc k) n + (if k mod 512 = 0 then 1 else 0)) \<le> length ps" using pr(6) copy_need_step [OF kn(1)] by simp
  then obtain q qs where ps: "ps = q # qs" by (cases ps) auto
  have nm: "\<not> mapped (kmem_mem s) c k" using pr(9) kn by (simp add: mapped_def)
  have room: "has_table (kmem_mem s) c (k div 512) \<or> qs \<noteq> []" using pr(10) len ps by (auto split: if_splits)
  have m: "mapped (kmem_mem s) d k" using pr(7) kn by blast
  obtain t ps' where t: "copy_loop d c (of_nat (k * 4096) # map (\<lambda>k. of_nat (k * 4096)) [Suc k..<n]) s = copy_loop d c (map (\<lambda>k. of_nat (k * 4096)) [Suc k..<n]) t"
      "kframe s t" "free_apart t c ps'" "if has_table (kmem_mem s) c (k div 512) then ps' = qs else ps' = tl qs" "has_table (kmem_mem t) c (k div 512)"
      "tab_pages (kmem_mem t) c \<union> set ps' = tab_pages (kmem_mem s) c \<union> set qs" "leaf_pages (kmem_mem t) c = insert q (leaf_pages (kmem_mem s) c)"
      "mem_same (insert q (tab_pages (kmem_mem t) c)) (kmem_mem s) (kmem_mem t)" "copied (kmem_mem t) d c k"
      "\<forall>u<UPAGES. u \<noteq> k \<longrightarrow> pte_of (kmem_mem t) c u = pte_of (kmem_mem s) c u"
    using copy_page [OF pr(1) [unfolded ps] pr(2) pr(3) [unfolded ps] kn(2) m nm room] by blast
  have sub: "set ps' \<subseteq> set qs" using t(4) set_drop_subset [of 1 qs] by (auto simp: drop_Suc split: if_splits)
  let ?X = "insert q (tab_pages (kmem_mem t) c)"
  have X: "?X \<subseteq> vm_pages (kmem_mem s) c \<union> set ps" using equalityD1 [OF t(6)] ps by auto
  then have Xd: "?X \<inter> vm_pages (kmem_mem s) d = {}" using pr(3) by blast
  then have Xt: "?X \<inter> tab_pages (kmem_mem s) d = {}" by auto
  note d = uvm_same [OF pr(2) t(8) Xt]
  have ok: "uvm_ok s c" "uvm_ok t c" using pr(1) t(3) by (simp_all add: free_apart_def)
  have old: "copied (kmem_mem t) d c u" if "u < k" for u
  proof (rule copied_keep [OF _ _ _ pr(2) ok(1) t(8) Xd])
    have c: "copied (kmem_mem s) d c u" "u < UPAGES" "mapped (kmem_mem s) d u" using pr(7,8) that kn by auto
    show "copied (kmem_mem s) d c u" "u < UPAGES" "mapped (kmem_mem s) d u" by (fact c)+
    show pe: "pte_of (kmem_mem t) c u = pte_of (kmem_mem s) c u" using t(10) c(2) that by simp
    have mc: "mapped (kmem_mem s) c u" using c(1) by (simp add: copied_def)
    have "leaf_page (kmem_mem s) c u \<noteq> q" using leaf_pagesI [OF c(2) mc] pr(1) unfolding ps free_apart_def by auto
    moreover have "mapped (kmem_mem t) c u" "leaf_page (kmem_mem t) c u = leaf_page (kmem_mem s) c u" using mc pe by (simp_all add: mapped_def leaf_page_def)
    then have "leaf_page (kmem_mem s) c u \<notin> tab_pages (kmem_mem t) c" using uvm_okD(5) [OF ok(2) c(2)] by simp
    ultimately show "leaf_page (kmem_mem s) c u \<notin> ?X" by blast
  qed
  have cop: "\<forall>u<Suc k. copied (kmem_mem t) d c u" using old t(9) by (auto simp: less_Suc_eq)
  have un: "\<forall>u<UPAGES. Suc k \<le> u \<longrightarrow> pte_of (kmem_mem t) c u = 0" using pr(9) t(10) by simp
  have mp: "\<forall>u<n. mapped (kmem_mem t) d u" using pr(4,7) d(5) by simp
  have dis: "vm_pages (kmem_mem t) d \<inter> (vm_pages (kmem_mem t) c \<union> set ps') = {}"
    unfolding d(3,4) using pr(3) equalityD1 [OF t(6)] t(7) sub ps by auto
  have tab: "Suc k mod 512 \<noteq> 0 \<longrightarrow> has_table (kmem_mem t) c (Suc k div 512)"
    using t(5) by (metis div_Suc)
  have lp: "copy_need (Suc k) n \<le> length ps'"
  proof -
    have "length ps' \<ge> length qs - (if k mod 512 = 0 then 1 else 0)" using t(4) pr(10) by (auto split: if_splits)
    then show ?thesis using len ps by (auto split: if_splits)
  qed
  have "uvm_ok t d" using d(7) [OF t(2) refl] .
  moreover have "j = n - Suc k" "Suc k \<le> n" using Suc(2) kn by simp_all
  ultimately have rec: "\<exists>u ps''. copy_loop d c (map (\<lambda>k. of_nat (k * 4096)) [Suc k..<n]) t = Ret c u \<and> kframe t u \<and> free_apart u c ps''
    \<and> vm_pages (kmem_mem u) c \<union> set ps'' = vm_pages (kmem_mem t) c \<union> set ps' \<and> mem_same (vm_pages (kmem_mem t) c \<union> set ps') (kmem_mem t) (kmem_mem u)
    \<and> (\<forall>v<n. copied (kmem_mem u) d c v) \<and> (\<forall>v<UPAGES. n \<le> v \<longrightarrow> pte_of (kmem_mem u) c v = 0)"
    using dis lp mp cop un tab by (intro Suc.hyps(1) t(3) pr(4))
  obtain u ps'' where u: "copy_loop d c (map (\<lambda>k. of_nat (k * 4096)) [Suc k..<n]) t = Ret c u" "kframe t u" "free_apart u c ps''"
      "vm_pages (kmem_mem u) c \<union> set ps'' = vm_pages (kmem_mem t) c \<union> set ps'"
      "mem_same (vm_pages (kmem_mem t) c \<union> set ps') (kmem_mem t) (kmem_mem u)"
      "\<forall>v<n. copied (kmem_mem u) d c v" "\<forall>v<UPAGES. n \<le> v \<longrightarrow> pte_of (kmem_mem u) c v = 0"
    using rec by (elim exE conjE) (rule that)
  have "copy_loop d c (map (\<lambda>k. of_nat (k * 4096)) [k..<n]) s = Ret c u"
    using t(1) u(1) kn by (simp only: upt_conv_Cons list.map)
  moreover have sub2: "vm_pages (kmem_mem t) c \<union> set ps' = vm_pages (kmem_mem s) c \<union> set ps" using t(6,7) ps by auto
  moreover have "mem_same (vm_pages (kmem_mem s) c \<union> set ps) (kmem_mem s) (kmem_mem u)" using mem_same_trans [OF t(8) u(5) X equalityD1 [OF sub2]] .
  ultimately show ?case using kframe_trans [OF t(2) u(2)] u(3,4,6,7) by blast
qed

subsection \<open>Releasing an address space\<close>

lemma dealloc_mapped:
  assumes "free_apart s d ps" and "v < UPAGES" and "mapped (kmem_mem s) d v" and "KERNBASE < kend s"
  shows "\<exists>t. dealloc_page d (v * 4096) s = Ret False t \<and> kframe s t \<and> free_apart t d (leaf_page (kmem_mem s) d v # ps)
    \<and> tab_pages (kmem_mem t) d = tab_pages (kmem_mem s) d \<and> leaf_pages (kmem_mem t) d = leaf_pages (kmem_mem s) d - {leaf_page (kmem_mem s) d v}
    \<and> (\<forall>i<510. has_table (kmem_mem t) d i = has_table (kmem_mem s) d i)
    \<and> (\<forall>u<UPAGES. pte_of (kmem_mem t) d u = (if u = v then 0 else pte_of (kmem_mem s) d u))"
proof -
  let ?m = "kmem_mem s" and ?p = "leaf_page (kmem_mem s) d v" and ?e = "pte_of (kmem_mem s) d v"
  have ok: "pool s ps" "uvm_ok s d" "vm_pages ?m d \<inter> set ps = {}" using assms(1) by (simp_all add: free_apart_def)
  note h = has_table_mapped [OF assms(3)] and x = uvm_index [OF assms(2)]
  note p = uvm_okD(5) [OF ok(2) assms(2,3)]
  have pn: "?p \<notin> set ps" using leaf_pagesI [OF assms(2,3)] ok(3) by auto
  obtain s1 where s1: "kfree ?p s = Ret () s1" "pool s1 (?p # ps)" using kfree_pool [OF ok(1) conjunct1 [OF p] pn] by blast
  have fr: "kframe s s1" using s1(1) unfolding kfree_eq by (auto split: if_splits)
  have ms: "mem_same {?p} ?m (kmem_mem s1)" using kfree_mem_other [OF s1(1)] by (simp add: mem_same_def)
  have dis: "{?p} \<inter> tab_pages ?m d = {}" using p by blast
  note u1 = uvm_same [OF ok(2) ms dis]
  have h1: "has_table (kmem_mem s1) d i = has_table ?m d i" "table_page (kmem_mem s1) d i = table_page ?m d i" if "i < 510" for i
    using that u1(1) by (simp_all add: has_table_def table_page_def)
  have a1: "pte_addr (kmem_mem s1) d v = pte_addr ?m d v" using h1 x by (simp add: pte_addr_def)
  define t where "t = s1\<lparr>kmem_mem := st64 (pte_addr (kmem_mem s1) d v) 0 (kmem_mem s1)\<rparr>"
  have okd: "uvm_ok s1 d" "mapped (kmem_mem s1) d v" "has_table (kmem_mem s1) d (v div 512)"
    using u1(7) [OF fr refl] u1(5) [OF assms(2)] assms(3) h1 x h by simp_all
  note un = pte_unmap [OF okd(1) assms(2) okd(3,2) t_def]
  have "?p \<noteq> p2v 0"
  proof
    assume pz: "?p = p2v 0"
    have "kend s \<le> ?p" using p by (simp add: page_ok_def)
    then have "KERNBASE < p2v 0" unfolding pz using assms(4) by (rule order_less_le_trans [rotated])
    then show False by (simp add: p2v_def)
  qed
  then have pa: "PTE_ADDR ?e \<noteq> 0" by (auto simp: leaf_page_def)
  have "?e AND PTE_P \<noteq> 0" using assms(3) by (simp add: mapped_def)
  then have "dealloc_page d (v * 4096) s = Ret False t"
    using walk_table [OF assms(2) h, of False] pte_addr_nonzero [OF ok(2) assms(2) h] pte_addr_load [OF h] s1(1) pa a1
    by (simp add: dealloc_page_def kbind_Ret kload_def kget_def kstore_def kmodify_def kreturn_def Let_def t_def leaf_page_def)
  moreover have "kframe s t" using fr by (simp add: t_def)
  moreover have lt: "leaf_pages (kmem_mem t) d = leaf_pages ?m d - {?p}" unfolding un(3) u1(4) u1(6) [OF assms(2)] ..
  moreover have tt: "tab_pages (kmem_mem t) d = tab_pages ?m d" unfolding un(2) u1(3) ..
  moreover have "pool t (?p # ps)"
  proof -
    let ?T = "table_page (kmem_mem s1) d (v div 512)"
    have "?T \<in> tab_pages ?m d" using tab_pagesI [of "v div 512" "kmem_mem s1" d] okd(3) x u1(3) by simp
    then have "{?T} \<inter> set (?p # ps) = {}" using dis ok(3) by auto
    moreover have "mem_same {?T} (kmem_mem s1) (kmem_mem t)" using pte_store(1) [OF okd(1) assms(2) okd(3)] by (simp add: t_def)
    ultimately have "pool (s1\<lparr>kmem_mem := kmem_mem t\<rparr>) (?p # ps)" using s1(2) by (intro pool_same)
    then show ?thesis by (simp add: t_def)
  qed
  moreover have "vm_pages (kmem_mem t) d \<inter> set (?p # ps) = {}" unfolding lt tt using ok(3) dis by auto
  moreover have "has_table (kmem_mem t) d i = has_table ?m d i" if "i < 510" for i
    using pte_store(2) [OF okd(1) assms(2) okd(3), of "kmem_mem t" 0 i] that h1 by (simp add: t_def)
  moreover have "pte_of (kmem_mem t) d u = (if u = v then 0 else pte_of ?m d u)" if "u < UPAGES" for u
    using un(4) [OF that] u1(2) [OF that] by simp
  ultimately show ?thesis using un(1) by (auto simp: free_apart_def)
qed

lemma dealloc_unmapped:
  assumes "uvm_ok s d" and "v < UPAGES" and "\<not> mapped (kmem_mem s) d v"
  shows "dealloc_page d (v * 4096) s = Ret (\<not> has_table (kmem_mem s) d (v div 512)) s"
proof (cases "has_table (kmem_mem s) d (v div 512)")
  case True
  then show ?thesis
    using walk_table [OF assms(2) True, of False] pte_addr_nonzero [OF assms(1,2) True] pte_addr_load [OF True] assms(3)
    by (simp add: dealloc_page_def kbind_Ret kload_def kget_def kreturn_def mapped_def)
next
  case False
  then show ?thesis using walk_none [OF assms(2) False] by (simp add: dealloc_page_def kbind_Ret kreturn_def)
qed

text \<open>The loop over all pages below \<open>n\<close>; it may skip a table because it only meets a missing one at its first page.\<close>

lemma dealloc_loop_law:
  assumes "free_apart s d ps" and "n \<le> UPAGES" and "n mod 512 = 0" and "KERNBASE < kend s" and "\<forall>u<k. u < n \<longrightarrow> \<not> mapped (kmem_mem s) d u"
    and "k mod 512 = 0 \<or> has_table (kmem_mem s) d (k div 512)"
  shows "\<exists>t ps'. dealloc_loop d (k * 4096) (n * 4096) s = Ret () t \<and> kframe s t \<and> free_apart t d ps'
    \<and> tab_pages (kmem_mem t) d = tab_pages (kmem_mem s) d \<and> leaf_pages (kmem_mem t) d \<union> set ps' = leaf_pages (kmem_mem s) d \<union> set ps
    \<and> (\<forall>u<n. \<not> mapped (kmem_mem t) d u) \<and> (\<forall>u<UPAGES. n \<le> u \<longrightarrow> pte_of (kmem_mem t) d u = pte_of (kmem_mem s) d u)"
  using assms
proof (induction "n - k" arbitrary: k s ps rule: less_induct)
  case less
  note pr = less.prems
  show ?case
  proof (cases "k < n")
    case False
    then show ?thesis
      using pr by (intro exI [of _ s] exI [of _ ps]) (auto simp: dealloc_loop.simps)
  next
    case True
    then have ku: "k < UPAGES" using pr(2) by simp
    note x = uvm_index [OF ku]
    have ok: "uvm_ok s d" using pr(1) by (simp add: free_apart_def)
    show ?thesis
    proof (cases "mapped (kmem_mem s) d k")
      case m: True
      let ?p = "leaf_page (kmem_mem s) d k"
      obtain t where t: "dealloc_page d (k * 4096) s = Ret False t" "kframe s t" "free_apart t d (?p # ps)"
          "tab_pages (kmem_mem t) d = tab_pages (kmem_mem s) d" "leaf_pages (kmem_mem t) d = leaf_pages (kmem_mem s) d - {?p}"
          "\<forall>i<510. has_table (kmem_mem t) d i = has_table (kmem_mem s) d i"
          "\<forall>u<UPAGES. pte_of (kmem_mem t) d u = (if u = k then 0 else pte_of (kmem_mem s) d u)"
        using dealloc_mapped [OF pr(1) ku m pr(4)] by (elim exE conjE) (rule that)
      have un: "\<forall>u<Suc k. u < n \<longrightarrow> \<not> mapped (kmem_mem t) d u" using pr(2,5) t(7) by (auto simp: mapped_def less_Suc_eq)
      have tab: "Suc k mod 512 = 0 \<or> has_table (kmem_mem t) d (Suc k div 512)"
        using has_table_mapped [OF m] t(6) x by (metis div_Suc)
      have ke: "KERNBASE < kend t" using pr(4) t(2) by (simp add: kframe_def)
      have "\<exists>u ps'. dealloc_loop d (Suc k * 4096) (n * 4096) t = Ret () u \<and> kframe t u \<and> free_apart u d ps'
          \<and> tab_pages (kmem_mem u) d = tab_pages (kmem_mem t) d \<and> leaf_pages (kmem_mem u) d \<union> set ps' = leaf_pages (kmem_mem t) d \<union> set (?p # ps)
          \<and> (\<forall>v<n. \<not> mapped (kmem_mem u) d v) \<and> (\<forall>v<UPAGES. n \<le> v \<longrightarrow> pte_of (kmem_mem u) d v = pte_of (kmem_mem t) d v)"
        by (rule less.hyps [OF _ t(3) pr(2,3) ke un tab]) (use True in simp)
      then obtain u ps' where u: "dealloc_loop d (Suc k * 4096) (n * 4096) t = Ret () u" "kframe t u" "free_apart u d ps'"
          "tab_pages (kmem_mem u) d = tab_pages (kmem_mem t) d" "leaf_pages (kmem_mem u) d \<union> set ps' = leaf_pages (kmem_mem t) d \<union> set (?p # ps)"
          "\<forall>v<n. \<not> mapped (kmem_mem u) d v" "\<forall>v<UPAGES. n \<le> v \<longrightarrow> pte_of (kmem_mem u) d v = pte_of (kmem_mem t) d v"
        by (elim exE conjE) (rule that)
      have "dealloc_loop d (k * 4096) (n * 4096) s = Ret () u"
        using t(1) u(1) True by (subst dealloc_loop.simps) (simp add: add.commute)
      moreover have "leaf_pages (kmem_mem u) d \<union> set ps' = leaf_pages (kmem_mem s) d \<union> set ps"
        using u(5) t(5) leaf_pagesI [OF ku m] by auto
      moreover have "\<forall>v<UPAGES. n \<le> v \<longrightarrow> pte_of (kmem_mem u) d v = pte_of (kmem_mem s) d v" using u(7) t(7) True by auto
      ultimately show ?thesis using kframe_trans [OF t(2) u(2)] u(3,4,6) t(4) by (intro exI [of _ u] exI [of _ ps']) simp
    next
      case m: False
      define k' where "k' = (if has_table (kmem_mem s) d (k div 512) then Suc k else k + 512)"
      note dp = dealloc_unmapped [OF ok ku m]
      have al: "k mod 512 = 0" if "\<not> has_table (kmem_mem s) d (k div 512)" using pr(6) that by blast
      have un: "\<forall>u<k'. u < n \<longrightarrow> \<not> mapped (kmem_mem s) d u"
      proof (intro allI impI)
        fix u assume u: "u < k'" "u < n"
        show "\<not> mapped (kmem_mem s) d u"
        proof (cases "has_table (kmem_mem s) d (k div 512)")
          case True
          then show ?thesis using u m pr(5) by (auto simp: k'_def less_Suc_eq)
        next
          case False
          then have "u < k \<or> u div 512 = k div 512" using u(1) al by (auto simp: k'_def intro!: div_nat_eqI)
          then show ?thesis using False u(2) pr(5) has_table_mapped [of "kmem_mem s" d u] by auto
        qed
      qed
      have tab: "k' mod 512 = 0 \<or> has_table (kmem_mem s) d (k' div 512)"
        unfolding k'_def using al by (auto simp: div_Suc)
      have step: "dealloc_loop d (k * 4096) (n * 4096) s = dealloc_loop d (k' * 4096) (n * 4096) s"
        using dp True by (subst dealloc_loop.simps) (simp add: k'_def add.commute algebra_simps)
      show ?thesis unfolding step by (rule less.hyps [OF _ pr(1-4) un tab]) (use True in \<open>auto simp: k'_def\<close>)
    qed
  qed
qed

lemma free_tables_law:
  assumes "pool s ps" and "distinct is" and "\<forall>i\<in>set is. i < 510" and "d mod PGSIZE = 0" and "d \<notin> set ps"
    and "\<forall>i\<in>set is. has_table (kmem_mem s) d i \<longrightarrow> page_ok s (table_page (kmem_mem s) d i) \<and> table_page (kmem_mem s) d i \<noteq> d
      \<and> table_page (kmem_mem s) d i \<notin> set ps"
    and "inj_on (table_page (kmem_mem s) d) {i. i \<in> set is \<and> has_table (kmem_mem s) d i}"
  shows "\<exists>t ps'. free_tables d is s = Ret () t \<and> kframe s t \<and> pool t ps'
    \<and> set ps' = set ps \<union> table_page (kmem_mem s) d ` {i. i \<in> set is \<and> has_table (kmem_mem s) d i}"
  using assms
proof (induction "is" arbitrary: s ps)
  case Nil
  then show ?case by (auto simp: kreturn_def)
next
  case (Cons i "is")
  note pr = Cons.prems
  let ?m = "kmem_mem s" and ?T = "table_page (kmem_mem s) d i"
  have load: "kload (d + 8 * of_nat i) s = Ret (ent ?m d i) s" by (simp add: kload_def kget_def ent_def)
  show ?case
  proof (cases "has_table ?m d i")
    case False
    have set: "{j. j \<in> set (i # is) \<and> has_table ?m d j} = {j. j \<in> set is \<and> has_table ?m d j}" using False by auto
    then show ?thesis
      using Cons.IH [OF pr(1) _ _ pr(4,5)] pr False load by (simp add: kbind_Ret has_table_def set)
  next
    case True
    have T: "page_ok s ?T" "?T \<noteq> d" "?T \<notin> set ps" using pr(6) True by auto
    obtain t where t: "kfree ?T s = Ret () t" "pool t (?T # ps)" using kfree_pool [OF pr(1) T(1,3)] by blast
    have fr: "kframe s t" using t(1) unfolding kfree_eq by (auto split: if_splits)
    have ms: "mem_same {?T} ?m (kmem_mem t)" using kfree_mem_other [OF t(1)] by (simp add: mem_same_def)
    have e: "ent (kmem_mem t) d j = ent ?m d j" if "j < 510" for j using that T(2) by (intro ent_same [OF ms _ pr(4)]) auto
    have h: "has_table (kmem_mem t) d j = has_table ?m d j" "table_page (kmem_mem t) d j = table_page ?m d j" if "j \<in> set is" for j
      using that pr(3) e by (simp_all add: has_table_def table_page_def)
    have new: "table_page ?m d j \<noteq> ?T" if "j \<in> set is" "has_table ?m d j" for j
      using inj_onD [OF pr(7), of j i] that True pr(2) by auto
    have each: "\<forall>j\<in>set is. has_table (kmem_mem t) d j \<longrightarrow> page_ok t (table_page (kmem_mem t) d j) \<and> table_page (kmem_mem t) d j \<noteq> d
        \<and> table_page (kmem_mem t) d j \<notin> set (?T # ps)"
      using pr(6) h new page_ok_frame [OF fr] by simp
    have set: "{j. j \<in> set is \<and> has_table (kmem_mem t) d j} = {j. j \<in> set is \<and> has_table ?m d j}" using h by auto
    have "inj_on (table_page ?m d) {j. j \<in> set is \<and> has_table ?m d j}" by (rule inj_on_subset [OF pr(7)]) auto
    then have inj: "inj_on (table_page (kmem_mem t) d) {j. j \<in> set is \<and> has_table (kmem_mem t) d j}"
      unfolding set using h by (subst inj_on_cong [of _ _ "table_page ?m d"]) auto
    have "\<exists>u ps'. free_tables d is t = Ret () u \<and> kframe t u \<and> pool u ps'
        \<and> set ps' = set (?T # ps) \<union> table_page (kmem_mem t) d ` {j. j \<in> set is \<and> has_table (kmem_mem t) d j}"
      by (rule Cons.IH [OF t(2) _ _ pr(4) _ each inj]) (use pr(2,3,5) T(2) in auto)
    moreover have "table_page (kmem_mem t) d ` {j. j \<in> set is \<and> has_table (kmem_mem t) d j} = table_page ?m d ` {j. j \<in> set is \<and> has_table ?m d j}"
      unfolding set using h by (intro image_cong) auto
    moreover have "{j. j \<in> set (i # is) \<and> has_table ?m d j} = insert i {j. j \<in> set is \<and> has_table ?m d j}" using True by auto
    ultimately obtain u ps' where u: "free_tables d is t = Ret () u" "kframe t u" "pool u ps'"
        "set ps' = set ps \<union> table_page ?m d ` {j. j \<in> set (i # is) \<and> has_table ?m d j}"
      by auto
    have "free_tables d (i # is) s = Ret () u"
      using load True t(1) u(1) by (simp add: kbind_Ret has_table_def table_page_def)
    then show ?thesis using u(2-4) kframe_trans [OF fr] by blast
  qed
qed

lemma freevm_law:
  assumes "free_apart s d ps" and "KERNBASE < kend s" and "\<forall>u<UPAGES. 260608 \<le> u \<longrightarrow> \<not> mapped (kmem_mem s) d u"
  shows "\<exists>t ps'. freevm d s = Ret () t \<and> kframe s t \<and> pool t ps' \<and> set ps' = set ps \<union> vm_pages (kmem_mem s) d"
proof -
  have dl: "deallocuvm d 0x3fa00000 0 s = kthen (dealloc_loop d (0 * 4096) (260608 * 4096)) (kreturn 0) s"
    by (simp add: deallocuvm_def PGROUNDUP_def)
  obtain t ps' where t: "dealloc_loop d (0 * 4096) (260608 * 4096) s = Ret () t" "kframe s t" "free_apart t d ps'"
      "tab_pages (kmem_mem t) d = tab_pages (kmem_mem s) d" "leaf_pages (kmem_mem t) d \<union> set ps' = leaf_pages (kmem_mem s) d \<union> set ps"
      "\<forall>u<260608. \<not> mapped (kmem_mem t) d u" "\<forall>u<UPAGES. 260608 \<le> u \<longrightarrow> pte_of (kmem_mem t) d u = pte_of (kmem_mem s) d u"
    using dealloc_loop_law [OF assms(1) _ _ assms(2), of 260608 0] by auto
  have "\<not> mapped (kmem_mem t) d u" if "u < UPAGES" for u
    using that t(6,7) assms(3) by (cases "u < 260608") (auto simp: mapped_def)
  then have nl: "leaf_pages (kmem_mem t) d = {}" by (auto simp: leaf_pages_def)
  have okt: "pool t ps'" "uvm_ok t d" "tab_pages (kmem_mem t) d \<inter> set ps' = {}" using t(3) by (auto simp: free_apart_def)
  let ?T = "table_page (kmem_mem t) d ` {i. i \<in> set [0..<510] \<and> has_table (kmem_mem t) d i}"
  have sets: "{i. i \<in> set [0..<510] \<and> has_table (kmem_mem t) d i} = {i. i < 510 \<and> has_table (kmem_mem t) d i}" by auto
  have tp: "tab_pages (kmem_mem t) d = insert d ?T" unfolding tab_pages_def sets ..
  have "\<exists>u ps''. free_tables d [0..<510] t = Ret () u \<and> kframe t u \<and> pool u ps'' \<and> set ps'' = set ps' \<union> ?T"
  proof (rule free_tables_law [OF okt(1) _ _ uvm_okD(3) [OF okt(2)]])
    show "\<forall>i\<in>set [0..<510]. has_table (kmem_mem t) d i \<longrightarrow> page_ok t (table_page (kmem_mem t) d i) \<and> table_page (kmem_mem t) d i \<noteq> d
        \<and> table_page (kmem_mem t) d i \<notin> set ps'"
      using uvm_okD(4) [OF okt(2)] tab_pagesI okt(3) by fastforce
    show "inj_on (table_page (kmem_mem t) d) {i. i \<in> set [0..<510] \<and> has_table (kmem_mem t) d i}"
      unfolding sets using okt(2) by (simp add: uvm_ok_def)
  qed (use okt(3) tp in auto)
  then obtain u ps'' where u: "free_tables d [0..<510] t = Ret () u" "kframe t u" "pool u ps''" "set ps'' = set ps' \<union> ?T"
    by (elim exE conjE) (rule that)
  have "d \<notin> ?T" using okt(2) unfolding uvm_ok_def sets by blast
  then have nd: "d \<notin> set ps''" using u(4) okt(3) tp by blast
  have "page_ok u d" using uvm_okD(1) [OF okt(2)] page_ok_frame [OF u(2)] by simp
  then obtain w where w: "kfree d u = Ret () w" "pool w (d # ps'')" using kfree_pool [OF u(3) _ nd] by blast
  have "kframe u w" using w(1) unfolding kfree_eq by (auto split: if_splits)
  then have "kframe s w" using t(2) u(2) kframe_trans by blast
  moreover have "freevm d s = Ret () w"
    using uvm_okD(2) [OF okt(2)] t(1) u(1) w(1)
    by (simp add: freevm_def kbind_Ret [where m = "deallocuvm d 0x3fa00000 0", OF dl [unfolded kbind_Ret [where m = "dealloc_loop d (0 * 4096) (260608 * 4096)", OF t(1)] kreturn_def]] kbind_Ret)
  moreover have "set (d # ps'') = set ps \<union> vm_pages (kmem_mem s) d" using u(4) t(4,5) nl tp by auto
  ultimately show ?thesis using w(2) by (intro exI [of _ w] exI [of _ "d # ps''"]) blast
qed

section \<open>Properties\<close>

definition upages :: "u32 \<Rightarrow> nat" where
  "upages sz = (unat sz + 4095) div 4096"

lemma copyuvm_law:
  assumes "pool s (a # b # c # ps)" and "uvm_ok s d" and "vm_pages (kmem_mem s) d \<inter> set (a # b # c # ps) = {}"
    and "upages sz \<le> UPAGES" and "copy_need 0 (upages sz) \<le> length ps" and "\<forall>u<upages sz. mapped (kmem_mem s) d u"
  shows "\<exists>t ps'. copyuvm kp d sz s = Ret c t \<and> kframe s t \<and> free_apart t c ps' \<and> vm_pages (kmem_mem t) c \<union> set ps' = insert c (set ps)
    \<and> (\<forall>u<upages sz. copied (kmem_mem t) d c u) \<and> (\<forall>u<UPAGES. upages sz \<le> u \<longrightarrow> pte_of (kmem_mem t) c u = 0)
    \<and> mem_same (set (a # b # c # ps)) (kmem_mem s) (kmem_mem t)"
proof -
  obtain t where t: "setupkvm kp s = Ret c t" "kframe s t" "free_apart t c ps" "mem_same {a, b, c} (kmem_mem s) (kmem_mem t)"
      "tab_pages (kmem_mem t) c = {c}" "leaf_pages (kmem_mem t) c = {}" "\<forall>v<UPAGES. pte_of (kmem_mem t) c v = 0"
    using setupkvm_law [OF assms(1), of kp] by (elim exE conjE) (rule that)
  have "{a, b, c} \<inter> tab_pages (kmem_mem s) d = {}" using assms(3) by auto
  note d = uvm_same [OF assms(2) t(4) this]
  have dis: "vm_pages (kmem_mem t) d \<inter> (vm_pages (kmem_mem t) c \<union> set ps) = {}" unfolding d(3,4) t(5,6) using assms(3) by auto
  have mp: "\<forall>u<upages sz. mapped (kmem_mem t) d u" using assms(4,6) d(5) by simp
  have z: "\<forall>u<UPAGES. 0 \<le> u \<longrightarrow> pte_of (kmem_mem t) c u = 0" using t(7) by simp
  obtain u ps' where u: "copy_loop d c (map (\<lambda>k. of_nat (k * 4096)) [0..<upages sz]) t = Ret c u" "kframe t u" "free_apart u c ps'"
      "vm_pages (kmem_mem u) c \<union> set ps' = vm_pages (kmem_mem t) c \<union> set ps"
      "mem_same (vm_pages (kmem_mem t) c \<union> set ps) (kmem_mem t) (kmem_mem u)"
      "\<forall>v<upages sz. copied (kmem_mem u) d c v" "\<forall>v<UPAGES. upages sz \<le> v \<longrightarrow> pte_of (kmem_mem u) c v = 0"
    using copy_loop_law [OF t(3) d(7) [OF t(2) refl] dis assms(4) le0 assms(5) mp _ z] by auto
  have "c \<noteq> 0" using t(3) uvm_okD(2) by (auto simp: free_apart_def)
  then have "copyuvm kp d sz s = Ret c u" using t(1) u(1) by (simp add: copyuvm_def kbind_Ret upages_def)
  moreover have "mem_same (set (a # b # c # ps)) (kmem_mem s) (kmem_mem u)"
    using mem_same_trans [OF t(4) u(5), of "set (a # b # c # ps)"] unfolding t(5,6) by auto
  moreover have "vm_pages (kmem_mem u) c \<union> set ps' = insert c (set ps)" using u(4) unfolding t(5,6) by simp
  ultimately show ?thesis using kframe_trans [OF t(2) u(2)] u(3,6,7) by blast
qed

text \<open>A process of one page, and free memory.\<close>

definition vm_empty :: kmem where
  "vm_empty = \<lparr>kmem_mem = (\<lambda>_. 0), kend = 0xFFFFFFFF83000000, freelist = 0, use_lock = True, kalloc_fullysetup = True\<rparr>"

lemma vm_pool:
  assumes "n \<le> 100"
  shows "\<exists>s ps. pool (s :: kmem) ps \<and> length ps = n \<and> kend s = 0xFFFFFFFF83000000"
proof -
  have "pool vm_empty []" by (simp add: pool_def vm_empty_def)
  moreover have "kend vm_empty \<le> p2v 0x3200000" by (simp add: vm_empty_def p2v_def)
  ultimately obtain t :: kmem where "pool t (rev (page_list (p2v 0x3200000) n) @ [])" "kend t = kend vm_empty"
    using freerange_range [of vm_empty "[]" "0x3200000" n] assms by auto
  then show ?thesis by (intro exI [of _ t] exI [of _ "rev (page_list (p2v 0x3200000) n)"]) (simp add: vm_empty_def page_list_def)
qed

lemma vm_demo:
  "\<exists>(s :: kmem) d ps. pool s ps \<and> length ps = 5 \<and> uvm_ok s d \<and> vm_pages (kmem_mem s) d \<inter> set ps = {} \<and> mapped (kmem_mem s) d 0
    \<and> kend s = 0xFFFFFFFF83000000"
proof -
  obtain s :: kmem and qs where s: "pool s qs" "length qs = 10" "kend s = 0xFFFFFFFF83000000" using vm_pool [of 10] by auto
  then obtain a b d q r ps where qs: "qs = a # b # d # q # r # ps" and len: "length ps = 5" by (auto simp: numeral_eq_Suc length_Suc_conv)
  obtain t where t: "kframe s t" "free_apart t d (q # r # ps)" "tab_pages (kmem_mem t) d = {d}" "leaf_pages (kmem_mem t) d = {}"
      "\<forall>v<UPAGES. pte_of (kmem_mem t) d v = 0"
    using setupkvm_law [OF s(1) [unfolded qs], of 0] by (elim exE conjE) (rule that)
  define t1 where "t1 = t\<lparr>freelist := ld64 (kmem_mem t) q\<rparr>"
  have p: "pool t (q # r # ps)" "uvm_ok t d" "d \<notin> set (q # r # ps)" using t(2,3) by (auto simp: free_apart_def)
  have q: "page_ok t q" "q \<noteq> 0" "q \<notin> set (r # ps)" using p(1) page_ok_nonzero [OF p(1), of q] by (simp_all add: pool_def)
  have fr: "kframe t t1" "kmem_mem t1 = kmem_mem t" by (simp_all add: t1_def)
  have okd: "uvm_ok t1 d" by (rule uvm_same(7) [OF p(2) mem_same_refl _ fr, of "{}"]) simp
  have "pool t1 (r # ps)" using pool_Cons(2) [OF p(1)] by (simp add: t1_def)
  then have fa: "free_apart t1 d (r # ps)" using okd p(3) t(3,4) fr by (simp add: free_apart_def)
  have pq: "page_ok t1 q" using q(1) page_ok_frame [OF fr(1)] by simp
  have nm: "\<not> mapped (kmem_mem t1) d 0" using t(5) fr by (simp add: mapped_def)
  have qn: "q \<notin> vm_pages (kmem_mem t1) d \<union> set (r # ps)" using q(3) p(3) t(3,4) fr by auto
  have pre: "(0 :: nat) < UPAGES" "(6 :: u64) AND 0xFFF = 6" "has_table (kmem_mem t1) d (0 div 512) \<or> r # ps \<noteq> []" by simp_all
  obtain u ps' where u: "kframe t1 u" "free_apart u d ps'"
      "\<forall>v<UPAGES. pte_of (kmem_mem u) d v = (if v = 0 then v2p q OR (6 OR PTE_P) else pte_of (kmem_mem t1) d v)"
      "if has_table (kmem_mem t1) d (0 div 512) then ps' = r # ps else ps' = tl (r # ps)"
    using map_page [OF fa pre(1) nm pq q(2) qn pre(2,3)] by (elim exE conjE) (rule that)
  have "\<not> has_table (kmem_mem t1) d 0"
  proof
    assume "has_table (kmem_mem t1) d 0"
    then have "table_page (kmem_mem t1) d 0 \<in> tab_pages (kmem_mem t1) d" "table_page (kmem_mem t1) d 0 \<noteq> d"
      using tab_pagesI [of 0] uvm_okD(4) [OF okd, of 0] by auto
    then show False using t(3) fr by simp
  qed
  then have "length ps' = 5" using u(4) len by simp
  moreover have "pte_of (kmem_mem u) d 0 = v2p q OR (6 OR PTE_P)" using u(3) by simp
  then have "mapped (kmem_mem u) d 0" unfolding mapped_def by (simp only:) (rule present_or, simp)
  moreover have "kend u = 0xFFFFFFFF83000000" using s(3) t(1) fr(1) u(1) by (simp add: kframe_def)
  ultimately show ?thesis using u(2) by (auto simp: free_apart_def)
qed

text \<open>
  C8: a child gets a copy of its parent's memory, on pages of its own. With enough free pages, \<open>copyuvm\<close> returns a
  well-formed address space whose pages were all free before and none of which belongs to the parent. Each page of the parent
  below its size is there with the same permissions and the same contents, no other page is mapped, and the memory
  outside the pages that were free is untouched, the parent's tables and pages with it.
\<close>

theorem copyuvm_isolates:
  assumes "pool s (a # b # c # ps)" and "uvm_ok s d" and "vm_pages (kmem_mem s) d \<inter> set (a # b # c # ps) = {}"
    and "upages sz \<le> UPAGES" and "copy_need 0 (upages sz) \<le> length ps" and "\<forall>u<upages sz. mapped (kmem_mem s) d u"
  shows "\<exists>t ps'. copyuvm kp d sz s = Ret c t \<and> pool t ps' \<and> uvm_ok t c \<and> uvm_ok t d
    \<and> vm_pages (kmem_mem t) c \<union> set ps' = insert c (set ps) \<and> vm_pages (kmem_mem t) c \<inter> set ps' = {}
    \<and> vm_pages (kmem_mem t) d = vm_pages (kmem_mem s) d \<and> vm_pages (kmem_mem t) c \<inter> vm_pages (kmem_mem t) d = {}
    \<and> (\<forall>u<upages sz. mapped (kmem_mem t) c u \<and> PTE_FLAGS (pte_of (kmem_mem t) c u) = PTE_FLAGS (pte_of (kmem_mem s) d u)
        \<and> bytes_at (kmem_mem t) (leaf_page (kmem_mem t) c u) 4096 = bytes_at (kmem_mem s) (leaf_page (kmem_mem s) d u) 4096)
    \<and> (\<forall>u<UPAGES. upages sz \<le> u \<longrightarrow> \<not> mapped (kmem_mem t) c u) \<and> (\<forall>u<UPAGES. pte_of (kmem_mem t) d u = pte_of (kmem_mem s) d u)
    \<and> (\<forall>x. PGROUNDDOWN x \<notin> set (a # b # c # ps) \<longrightarrow> kmem_mem t x = kmem_mem s x)"
proof -
  obtain t ps' where t: "copyuvm kp d sz s = Ret c t" "kframe s t" "free_apart t c ps'" "vm_pages (kmem_mem t) c \<union> set ps' = insert c (set ps)"
      "\<forall>u<upages sz. copied (kmem_mem t) d c u" "\<forall>u<UPAGES. upages sz \<le> u \<longrightarrow> pte_of (kmem_mem t) c u = 0"
      "mem_same (set (a # b # c # ps)) (kmem_mem s) (kmem_mem t)"
    using copyuvm_law [OF assms, of kp] by (elim exE conjE) (rule that)
  have "set (a # b # c # ps) \<inter> tab_pages (kmem_mem s) d = {}" using assms(3) by blast
  note d = uvm_same [OF assms(2) t(7) this]
  have "bytes_at (kmem_mem t) (leaf_page (kmem_mem s) d u) 4096 = bytes_at (kmem_mem s) (leaf_page (kmem_mem s) d u) 4096"
    if "u < upages sz" for u
  proof (rule page_same [OF t(7)])
    have u: "u < UPAGES" "mapped (kmem_mem s) d u" using that assms(4,6) by auto
    show "leaf_page (kmem_mem s) d u \<notin> set (a # b # c # ps)" using leaf_pagesI [OF u] assms(3) by blast
    show "leaf_page (kmem_mem s) d u mod PGSIZE = 0" using uvm_okD(5) [OF assms(2) u] by blast
  qed
  then have "\<forall>u<upages sz. mapped (kmem_mem t) c u \<and> PTE_FLAGS (pte_of (kmem_mem t) c u) = PTE_FLAGS (pte_of (kmem_mem s) d u)
      \<and> bytes_at (kmem_mem t) (leaf_page (kmem_mem t) c u) 4096 = bytes_at (kmem_mem s) (leaf_page (kmem_mem s) d u) 4096"
    using t(5) d(2,6) assms(4) by (simp add: copied_def)
  moreover have "vm_pages (kmem_mem t) c \<inter> vm_pages (kmem_mem t) d = {}" unfolding d(3,4) using t(4) assms(3) by auto
  moreover have "\<forall>x. PGROUNDDOWN x \<notin> set (a # b # c # ps) \<longrightarrow> kmem_mem t x = kmem_mem s x" using t(7) unfolding mem_same_def by blast
  moreover have "\<forall>u<UPAGES. upages sz \<le> u \<longrightarrow> \<not> mapped (kmem_mem t) c u" using t(6) by (simp add: mapped_def)
  ultimately show ?thesis
    using t(1,3,4) d(2,3,4) d(7) [OF t(2) refl] unfolding free_apart_def by (intro exI [of _ t] exI [of _ ps']) simp
qed

theorem copyuvm_isolates_witness:
  "\<exists>(s :: kmem) d c t. copyuvm 0 d 4096 s = Ret c t \<and> uvm_ok t c \<and> mapped (kmem_mem t) c 0
    \<and> bytes_at (kmem_mem t) (leaf_page (kmem_mem t) c 0) 4096 = bytes_at (kmem_mem s) (leaf_page (kmem_mem s) d 0) 4096"
proof -
  obtain s :: kmem and d ps where s: "pool s ps" "length ps = 5" "uvm_ok s d" "vm_pages (kmem_mem s) d \<inter> set ps = {}" "mapped (kmem_mem s) d 0"
    using vm_demo by blast
  from s(2) obtain a b c qs where ps: "ps = a # b # c # qs" and len: "length qs = 2" by (auto simp: numeral_eq_Suc length_Suc_conv)
  have u: "upages 4096 = 1" by (simp add: upages_def)
  have h: "upages 4096 \<le> UPAGES" "copy_need 0 (upages 4096) \<le> length qs" "\<forall>u<upages 4096. mapped (kmem_mem s) d u"
    using len s(5) unfolding u by (simp_all add: copy_need_def)
  show ?thesis using copyuvm_isolates [OF s(1) [unfolded ps] s(3) s(4) [unfolded ps] h, of 0] unfolding u by auto
qed

text \<open>
  C25: an address space that is made and released again costs two pages. The copy that \<open>copyuvm\<close> makes of a process of less than
  1018 megabytes and \<open>freevm\<close> then releases gives back all pages it took but the first two, which hold the two upper
  levels of its tables: \<open>freevm\<close> follows neither of the pointers that \<open>setupkvm\<close> stored in the last entries for that purpose.
\<close>

theorem copy_free_leaks:
  assumes "pool s (a # b # c # ps)" and "uvm_ok s d" and "vm_pages (kmem_mem s) d \<inter> set (a # b # c # ps) = {}"
    and "upages sz \<le> 260608" and "copy_need 0 (upages sz) \<le> length ps" and "\<forall>u<upages sz. mapped (kmem_mem s) d u" and "KERNBASE < kend s"
  shows "\<exists>t ps'. kbind (copyuvm kp d sz) freevm s = Ret () t \<and> pool t ps' \<and> set ps' = set (c # ps) \<and> a \<notin> set ps' \<and> b \<notin> set ps'"
proof -
  have lim: "upages sz \<le> UPAGES" using assms(4) by simp
  obtain t ps' where t: "copyuvm kp d sz s = Ret c t" "kframe s t" "free_apart t c ps'" "vm_pages (kmem_mem t) c \<union> set ps' = insert c (set ps)"
      "\<forall>u<UPAGES. upages sz \<le> u \<longrightarrow> pte_of (kmem_mem t) c u = 0"
    using copyuvm_law [OF assms(1-3) lim assms(5,6), of kp] by (elim exE conjE) (rule that)
  have "KERNBASE < kend t" using assms(7) t(2) by (simp add: kframe_def)
  moreover have "\<forall>u<UPAGES. 260608 \<le> u \<longrightarrow> \<not> mapped (kmem_mem t) c u" using t(5) assms(4) by (simp add: mapped_def)
  ultimately obtain u qs where u: "freevm c t = Ret () u" "pool u qs" "set qs = set ps' \<union> vm_pages (kmem_mem t) c"
    using freevm_law [OF t(3)] by blast
  have q: "set qs = set (c # ps)" using u(3) t(4) by auto
  moreover have "a \<notin> set (c # ps)" "b \<notin> set (c # ps)" using assms(1) by (auto simp: pool_def)
  ultimately show ?thesis using t(1) u(1,2) by (intro exI [of _ u] exI [of _ qs]) (simp add: kbind_Ret)
qed

theorem copy_free_leaks_witness:
  "\<exists>(s :: kmem) d ps t ps'. pool s ps \<and> length ps = 5 \<and> kbind (copyuvm 0 d 4096) freevm s = Ret () t \<and> pool t ps' \<and> length ps' = 3"
proof -
  obtain s :: kmem and d ps where s: "pool s ps" "length ps = 5" "uvm_ok s d" "vm_pages (kmem_mem s) d \<inter> set ps = {}" "mapped (kmem_mem s) d 0"
      "kend s = 0xFFFFFFFF83000000"
    using vm_demo by blast
  from s(2) obtain a b c qs where ps: "ps = a # b # c # qs" and len: "length qs = 2" by (auto simp: numeral_eq_Suc length_Suc_conv)
  have u: "upages 4096 = 1" by (simp add: upages_def)
  have h: "upages 4096 \<le> 260608" "copy_need 0 (upages 4096) \<le> length qs" "\<forall>u<upages 4096. mapped (kmem_mem s) d u" "KERNBASE < kend s"
    using len s(5,6) unfolding u by (simp_all add: copy_need_def)
  obtain t ps' where t: "kbind (copyuvm 0 d 4096) freevm s = Ret () t" "pool t ps'" "set ps' = set (c # qs)"
    using copy_free_leaks [OF s(1) [unfolded ps] s(3) s(4) [unfolded ps] h, of 0] by blast
  have "distinct ps'" "distinct (c # qs)" using t(2) s(1) ps by (auto simp: pool_def)
  then have "length ps' = 3" using distinct_card [of ps'] distinct_card [of "c # qs"] t(3) len by simp
  then show ?thesis using s(1,2) t(1,2) by blast
qed

text \<open>
  C26: \<open>allocuvm\<close> does not look at what \<open>mappages\<close> returns. When one page is free and the next page of the process has no table
  yet, the page is taken, the table cannot be made, and the call still returns the new size: nothing is mapped there, and the page
  is neither in the address space nor free.
\<close>

theorem allocuvm_ignores_failure:
  assumes "free_apart s d [q]" and "v < UPAGES" and "\<not> has_table (kmem_mem s) d (v div 512)" and "0 < k" and "k \<le> 4096"
  shows "\<exists>t. allocuvm d (of_nat (v * 4096)) (of_nat (v * 4096 + k)) s = Ret (of_nat (v * 4096 + k)) t \<and> pool t []
    \<and> (\<forall>u<UPAGES. pte_of (kmem_mem t) d u = pte_of (kmem_mem s) d u) \<and> q \<notin> vm_pages (kmem_mem t) d"
proof -
  have p: "pool s [q]" "uvm_ok s d" "q \<notin> vm_pages (kmem_mem s) d" using assms(1) by (auto simp: free_apart_def)
  have q: "page_ok s q" "q \<noteq> 0" using p(1) page_ok_nonzero [OF p(1), of q] by (simp_all add: pool_def)
  have n: "unat (of_nat (v * 4096) :: u32) = v * 4096" "unat (of_nat (v * 4096 + k) :: u32) = v * 4096 + k"
    using assms(2,5) by (simp_all only: unat_of_nat) simp_all
  have wide: "unat (ucast w :: u64) = unat w" for w :: u32
    using unsigned_less [where 'a = nat, of w] by (simp add: unsigned_ucast_eq take_bit_nat_eq_self)
  have uc: "(ucast (of_nat (v * 4096) :: u32) :: u64) = of_nat (v * 4096)"
    unfolding word_unat_eq_iff wide n(1) using page_index(3) [of v] assms(2) by simp
  have al: "(of_nat (v * 4096) :: u64) mod PGSIZE = 0" unfolding aligned_iff using assms(2) page_index(3) [of v] by simp
  have up: "unat (PGROUNDUP (ucast (of_nat (v * 4096) :: u32))) = v * 4096"
    unfolding uc PGROUNDUP_aligned [OF al] using assms(2) page_index(3) [of v] by simp
  have cnt: "(v * 4096 + k - v * 4096 + 4095) div 4096 = 1" using assms(4,5) by simp
  have lim: "\<not> (ucast (of_nat (v * 4096 + k) :: u32) :: u64) \<ge> KERNBASE"
  proof -
    have "unat (ucast (of_nat (v * 4096 + k) :: u32) :: u64) = v * 4096 + k" unfolding wide n(2) ..
    then show ?thesis unfolding word_le_nat_alt using assms(2,5) by simp
  qed
  have le: "\<not> (of_nat (v * 4096 + k) :: u32) < of_nat (v * 4096)" using n by (simp add: word_less_nat_alt)
  define t1 where "t1 = s\<lparr>freelist := ld64 (kmem_mem s) q\<rparr>"
  define t where "t = t1\<lparr>kmem_mem := sys_memset q 0 (ucast PGSIZE) (kmem_mem s)\<rparr>"
  have t1: "kalloc s = Ret q t1" "pool t1 []" using pool_Cons [OF p(1)] by (simp_all add: t1_def)
  have ms: "mem_same {q} (kmem_mem s) (kmem_mem t)" using mem_same_clear [OF page_ok_aligned [OF q(1)]] by (simp add: t_def)
  have pt: "pool t []" using t1(2) by (simp add: pool_def t_def)
  have dis: "{q} \<inter> tab_pages (kmem_mem s) d = {}" using p(3) by auto
  note d = uvm_same [OF p(2) ms dis]
  have "\<not> has_table (kmem_mem t) d (v div 512)" using assms(3) d(1) [of "v div 512"] uvm_index [OF assms(2)] by (simp add: has_table_def)
  then have "mappages d (of_nat (v * 4096)) PGSIZE (v2p q) (PTE_W OR PTE_U) t = Ret (- 1) t"
    unfolding mappages_def map_steps_page [OF assms(2)] using walk_empty [OF assms(2) _ pt] by (simp add: kbind_Ret kreturn_def)
  moreover have "kclear q t1 = Ret () t" using q(2) by (simp add: kclear_def kmodify_def t_def t1_def)
  ultimately have "allocuvm d (of_nat (v * 4096)) (of_nat (v * 4096 + k)) s = Ret (of_nat (v * 4096 + k)) t"
    unfolding allocuvm_def Let_def up n using lim le t1(1) q(2) cnt by (simp add: kbind_Ret kreturn_def)
  then show ?thesis using pt d(2,3,4) p(3) by (intro exI [of _ t]) simp
qed

theorem allocuvm_ignores_failure_witness:
  "\<exists>(s :: kmem) d t. allocuvm d 0 1 s = Ret 1 t \<and> pool t [] \<and> \<not> mapped (kmem_mem t) d 0"
proof -
  obtain s :: kmem and qs where s: "pool s qs" "length qs = 4" using vm_pool [of 4] by auto
  then obtain a b d q where qs: "qs = [a, b, d, q]" by (auto simp: numeral_eq_Suc length_Suc_conv)
  obtain t :: kmem where t: "free_apart t d [q]" "tab_pages (kmem_mem t) d = {d}" "\<forall>v<UPAGES. pte_of (kmem_mem t) d v = 0"
    using setupkvm_law [OF s(1) [unfolded qs], of 0] by (elim exE conjE) (rule that)
  have ok: "uvm_ok t d" using t(1) by (simp add: free_apart_def)
  have "\<not> has_table (kmem_mem t) d (0 div 512)"
    using tab_pagesI [of 0 "kmem_mem t" d] uvm_okD(4) [OF ok, of 0] t(2) by auto
  then obtain u :: kmem where "allocuvm d 0 1 t = Ret 1 u" "pool u []" "\<forall>v<UPAGES. pte_of (kmem_mem u) d v = pte_of (kmem_mem t) d v"
    using allocuvm_ignores_failure [OF t(1), of 0 1] by auto
  then show ?thesis using t(3) by (intro exI [of _ t] exI [of _ d] exI [of _ u]) (simp add: mapped_def)
qed

end
