(* ===== verification/Fs_Block.thy ===== *)
theory Fs_Block
  imports Pipe
begin

text \<open>
  The block layer of the native file system, \<open>kernel/fs/fs1.c\<close> with \<open>include/fs/fs1.h\<close>: the superblock, the
  bitmap of blocks in use, allocation and release of blocks, and \<open>initlog\<close> of \<open>kernel/log.c\<close>, which
  reads the superblock.

  The theory also has the state that the theories of the file system share: the in-memory inodes of the two caches
  (\<open>fs1_icache\<close> of \<open>fs1.c\<close>, an array; \<open>icache\<close> of \<open>kernel/vfs.c\<close>, a list that grows by pages), the table of
  mounted file systems, the root device and the copy of an ext2 superblock. An inode pointer says which cache and
  which slot. Sector and block numbers are 32-bit words; a loop variable that only counts is a natural number.

  Every operation runs inside a transaction of theory \<open>Log\<close>. The lemmas say what it does to the contents of the
  disk as later readers see them (\<open>bview\<close>), and how many slots of the log it takes at most.
\<close>

unbundle bit_operations_syntax

section \<open>Definitions\<close>

abbreviation (input) NINODE :: nat where "NINODE \<equiv> 50"
abbreviation (input) NDIRECT :: nat where "NDIRECT \<equiv> 28"
abbreviation (input) NINDIRECT :: nat where "NINDIRECT \<equiv> 128"
abbreviation (input) MAXFILE :: nat where "MAXFILE \<equiv> 156"
abbreviation (input) IPB :: nat where "IPB \<equiv> 4"
abbreviation (input) BPB :: nat where "BPB \<equiv> 4096"
abbreviation (input) DIRSIZ :: nat where "DIRSIZ \<equiv> 14"
abbreviation (input) ROOTINO :: u32 where "ROOTINO \<equiv> 1"
abbreviation (input) T_DIR :: u16 where "T_DIR \<equiv> 1"
abbreviation (input) T_FILE :: u16 where "T_FILE \<equiv> 2"
abbreviation (input) T_DEV :: u16 where "T_DEV \<equiv> 3"

text \<open>An inode pointer: in \<open>icache\<close> of the virtual file system (\<open>True\<close>) or in \<open>fs1_icache\<close>, and the slot.\<close>

type_synonym iptr = "bool \<times> nat"

record inode =
  idev :: u32
  inum :: u32
  iref :: int
  ibusy :: bool
  ivalid :: bool
  itype :: u16
  imajor :: u16
  iminor :: u16
  nlink :: u16
  isize :: u32
  addrs :: "u32 list"

record fsmap_t =
  fs_type :: u16
  fs_dev :: u64
  fs_used :: u8

record fsst = pipest +
  fs1_icache :: "inode list"
  icache :: "inode list"
  unused_nodes :: u16
  fsmap :: "fsmap_t list"
  ROOT_DEV :: u64
  ext2_sb :: block

record fs1_superblock =
  sb_size :: u32
  sb_nblocks :: u32
  sb_ninodes :: u32
  sb_nlog :: u32

text \<open>The overlay of \<open>struct fs1_superblock\<close> on a sector.\<close>

definition sb_of :: "block \<Rightarrow> fs1_superblock" where
  "sb_of x = \<lparr>sb_size = get32 0 x, sb_nblocks = get32 4 x, sb_ninodes = get32 8 x, sb_nlog = get32 12 x\<rparr>"

definition fs1_readsb :: "u32 \<Rightarrow> ('a fsst_scheme, fs1_superblock) kmon" where
  "fs1_readsb dev = kbind (bread dev 1) (\<lambda>bp. kbind (bdata_of bp) (\<lambda>x.
     kthen (brelse bp) (kreturn (sb_of x))))"

definition fs1_bzero :: "u32 \<Rightarrow> u32 \<Rightarrow> ('a fsst_scheme, unit) kmon" where
  "fs1_bzero dev bno = kbind (bread dev bno) (\<lambda>bp.
     kthen (bmodify bp (\<lambda>x. replicate BSIZE 0)) (kthen (log_write bp) (brelse bp)))"

definition IBLOCK :: "u32 \<Rightarrow> u32" where
  "IBLOCK i = of_nat (unat i div IPB + 2)"

definition BBLOCK :: "nat \<Rightarrow> u32 \<Rightarrow> u32" where
  "BBLOCK b ninodes = of_nat (b div BPB + unat ninodes div IPB + 3)"

text \<open>The bit of block \<open>bi\<close> of a bitmap sector, and setting and clearing it.\<close>

definition bit_clear :: "block \<Rightarrow> nat \<Rightarrow> bool" where
  "bit_clear x bi \<longleftrightarrow> x ! (bi div 8) AND push_bit (bi mod 8) 1 = 0"

definition mark_used :: "nat \<Rightarrow> block \<Rightarrow> block" where
  "mark_used bi x = x[bi div 8 := x ! (bi div 8) OR push_bit (bi mod 8) 1]"

definition mark_free :: "nat \<Rightarrow> block \<Rightarrow> block" where
  "mark_free bi x = x[bi div 8 := x ! (bi div 8) AND NOT (push_bit (bi mod 8) 1)]"

text \<open>The loop over the bitmap sectors; the list has the values of \<open>b\<close> still to come.\<close>

fun balloc_loop :: "u32 \<Rightarrow> fs1_superblock \<Rightarrow> nat list \<Rightarrow> ('a fsst_scheme, u32) kmon" where
  "balloc_loop dev sb [] = kpanic ''fs1_balloc: out of blocks''"
| "balloc_loop dev sb (b # bs) =
     kbind (bread dev (BBLOCK b (sb_ninodes sb))) (\<lambda>bp. kbind (bdata_of bp) (\<lambda>x.
       case find (bit_clear x) [0..<min BPB (unat (sb_size sb) - b)] of
         Some bi \<Rightarrow>
           kthen (bmodify bp (mark_used bi)) (kthen (log_write bp) (kthen (brelse bp)
             (kthen (fs1_bzero dev (of_nat (b + bi))) (kreturn (of_nat (b + bi))))))
       | None \<Rightarrow> kthen (brelse bp) (balloc_loop dev sb bs)))"

definition fs1_balloc :: "u32 \<Rightarrow> ('a fsst_scheme, u32) kmon" where
  "fs1_balloc dev = kbind (fs1_readsb dev) (\<lambda>sb.
     balloc_loop dev sb (map (\<lambda>k. k * BPB) [0..<(unat (sb_size sb) + BPB - 1) div BPB]))"

definition fs1_bfree :: "u32 \<Rightarrow> u32 \<Rightarrow> ('a fsst_scheme, unit) kmon" where
  "fs1_bfree dev b = kbind (fs1_readsb dev) (\<lambda>sb.
     kbind (bread dev (BBLOCK (unat b) (sb_ninodes sb))) (\<lambda>bp. kbind (bdata_of bp) (\<lambda>x.
       let bi = unat b mod BPB in
       if bit_clear x bi then kpanic ''freeing free block''
       else kthen (bmodify bp (mark_free bi)) (kthen (log_write bp) (brelse bp)))))"

subsection \<open>In-memory inodes\<close>

definition inode_at :: "iptr \<Rightarrow> ('a fsst_scheme, inode) kmon" where
  "inode_at p s = (let xs = (if fst p then icache s else fs1_icache s) in
     if snd p < length xs then Ret (xs ! snd p) s else Fault ''ip'')"

definition set_inode :: "iptr \<Rightarrow> (inode \<Rightarrow> inode) \<Rightarrow> ('a fsst_scheme, unit) kmon" where
  "set_inode p f = kmodify (\<lambda>s. if fst p
     then s\<lparr>icache := (icache s)[snd p := f (icache s ! snd p)]\<rparr>
     else s\<lparr>fs1_icache := (fs1_icache s)[snd p := f (fs1_icache s ! snd p)]\<rparr>)"

definition zero_inode :: inode where
  "zero_inode = \<lparr>idev = 0, inum = 0, iref = 0, ibusy = False, ivalid = False, itype = 0, imajor = 0, iminor = 0,
     nlink = 0, isize = 0, addrs = replicate 29 0\<rparr>"

subsection \<open>The ext2 superblock and the start of the log\<close>

abbreviation (input) FS_EXT2_SIGNATURE :: u16 where "FS_EXT2_SIGNATURE \<equiv> 0xEF53"
abbreviation (input) FS_EXT2_SB_SIZE :: nat where "FS_EXT2_SB_SIZE \<equiv> 1024"
abbreviation (input) FS_EXT2_MAX_BLOCK_SIZE :: int where "FS_EXT2_MAX_BLOCK_SIZE \<equiv> 4096"
abbreviation (input) FS_EXT2_OLD_INODE_SIZE :: int where "FS_EXT2_OLD_INODE_SIZE \<equiv> 128"

definition TODEVNUM :: "u32 \<Rightarrow> u32 \<Rightarrow> u32" where
  "TODEVNUM type num = push_bit 28 type + (0x0FFFFFFF AND num)"

text \<open>\<open>readblock\<close> on the contents of \<open>buf\<close>. The number of turns is bounded by \<open>n\<close>: the first argument of the loop is
  the number of sectors that \<open>n\<close> reaches into, positive exactly as long as \<open>n > 0\<close>.\<close>

fun readblock_loop :: "nat \<Rightarrow> u32 \<Rightarrow> u64 \<Rightarrow> u32 \<Rightarrow> u8 \<Rightarrow> block \<Rightarrow> int \<Rightarrow> ('a fsst_scheme, block) kmon" where
  "readblock_loop 0 dev start spb i buf n = kreturn buf"
| "readblock_loop (Suc k) dev start spb i buf n =
     (if ucast i = spb then kreturn buf
      else kbind (bread dev (ucast (start + ucast i))) (\<lambda>bp. kbind (bdata_of bp) (\<lambda>x.
        kthen (brelse bp)
          (readblock_loop k dev start spb (i + 1)
            (if n > 512 then splice (512 * unat i) x buf else buf) (n - 512)))))"

definition readblock :: "u32 \<Rightarrow> u32 \<Rightarrow> u64 \<Rightarrow> u32 \<Rightarrow> block \<Rightarrow> int \<Rightarrow> ('a fsst_scheme, block) kmon" where
  "readblock devt devnum blocknum blocksize buf n =
     (let spb = blocksize div 512 in
      readblock_loop (nat ((n + 511) div 512)) (TODEVNUM devt devnum) (blocknum * ucast spb) spb 0 buf n)"

definition ext2_readsb :: "u32 \<Rightarrow> u32 \<Rightarrow> ('a fsst_scheme, block) kmon" where
  "ext2_readsb devt devnum = kbind (kget ext2_sb) (\<lambda>sb.
     kbind (readblock devt devnum 1 (of_nat FS_EXT2_SB_SIZE) sb (int FS_EXT2_SB_SIZE)) (\<lambda>sb'.
       kthen (kmodify (\<lambda>s. s\<lparr>ext2_sb := sb'\<rparr>)) (kreturn sb')))"

text \<open>\<open>1024 << sb.block_size\<close>, undefined when it does not fit an \<open>int\<close>.\<close>

definition ext2_blocksize :: "('a fsst_scheme, int) kmon" where
  "ext2_blocksize s = (let k = unat (get32 24 (ext2_sb s)) in
     if k < 21 then Ret (1024 * 2 ^ k) s else Fault ''1024 << sb.block_size'')"

definition ext2_init_dev :: "u32 \<Rightarrow> u32 \<Rightarrow> ('a fsst_scheme, u8) kmon" where
  "ext2_init_dev devt devnum = kbind (ext2_readsb devt devnum) (\<lambda>sb.
     if get16 56 sb \<noteq> FS_EXT2_SIGNATURE then kreturn 0
     else kbind ext2_blocksize (\<lambda>blocksize.
       if blocksize > FS_EXT2_MAX_BLOCK_SIZE then kreturn 0 else kreturn 1))"

definition initlog :: "('a fsst_scheme, unit) kmon" where
  "initlog = kbind (kget ROOT_DEV) (\<lambda>dev.
     kbind (ext2_init_dev (GETDEVTYPE (ucast dev)) (GETDEVNUM (ucast dev))) (\<lambda>r.
       kthen (if r = 1 then kreturn ()
         else kbind (fs1_readsb (ucast dev)) (\<lambda>sb.
           kmodify (\<lambda>s. s\<lparr>log_start := sb_size sb - sb_nlog sb, log_size := sint (sb_nlog sb)\<rparr>)))
       (kthen (kmodify (\<lambda>s. s\<lparr>log_dev := ucast dev\<rparr>)) recover_from_log)))"

declare balloc_loop.simps [simp del]

section \<open>Steps inside a transaction\<close>

text \<open>Inside a transaction nothing reaches the disk. An operation of the file system changes the buffers, who is
  awake, the log in memory and the in-memory inodes. A step moreover ends with the same buffers held.\<close>

definition txn :: "'a logst_scheme \<Rightarrow> bool" where
  "txn s \<longleftrightarrow> bio_inv s {} \<and> log_ok s \<and> 1 \<le> outstanding s \<and> log_size s \<le> 30"

definition fs_frame :: "'a fsst_scheme \<Rightarrow> 'a fsst_scheme \<Rightarrow> bool" where
  "fs_frame s t \<longleftrightarrow> (\<exists>ps f n w c d. t = s\<lparr>ptable := ps, bufs := f, lh_n := n, lh_sector := w, fs1_icache := c, icache := d\<rparr>)"

definition same_inodes :: "'a fsst_scheme \<Rightarrow> 'a fsst_scheme \<Rightarrow> bool" where
  "same_inodes s t \<longleftrightarrow> fs1_icache t = fs1_icache s \<and> icache t = icache s"

definition fs_step :: "'a fsst_scheme \<Rightarrow> 'a fsst_scheme \<Rightarrow> bool" where
  "fs_step s t \<longleftrightarrow> txn t \<and> fs_frame s t \<and> busy_keys t = busy_keys s \<and> (\<forall>b k. holds s b k \<longrightarrow> holds t b k)"

text \<open>The log and the cache have room for the blocks of \<open>X\<close> and \<open>n\<close> more, and for one more block to be held.\<close>

definition fs_fits :: "nat \<Rightarrow> (u32 \<times> u32) set \<Rightarrow> 'a logst_scheme \<Rightarrow> bool" where
  "fs_fits n X s \<longleftrightarrow> finite X \<and> int (card (dirty_keys s \<union> X) + n) < log_size s - 1
     \<and> card (busy_keys s) + card (dirty_keys s \<union> X) + n + 1 < NBUF"

lemma fs_frame_refl [simp]: "fs_frame s s"
proof -
  have "s = s\<lparr>ptable := ptable s, bufs := bufs s, lh_n := lh_n s, lh_sector := lh_sector s, fs1_icache := fs1_icache s,
      icache := icache s\<rparr>" by simp
  then show ?thesis unfolding fs_frame_def by blast
qed

lemma fs_frame_trans: "fs_frame s t \<Longrightarrow> fs_frame t u \<Longrightarrow> fs_frame s u"
  unfolding fs_frame_def by force

lemma fs_frame_fields:
  assumes "fs_frame s t"
  shows "log_dev t = log_dev s" and "log_start t = log_start s" and "log_size t = log_size s"
    and "outstanding t = outstanding s" and "committing t = committing s" and "disk t = disk s" and "hist t = hist s"
    and "curproc t = curproc s" and "pipes t = pipes s" and "kmem_mem t = kmem_mem s" and "freelist t = freelist s"
    and "kend t = kend s" and "fsmap t = fsmap s" and "ROOT_DEV t = ROOT_DEV s" and "ext2_sb t = ext2_sb s"
    and "fsst.more t = fsst.more s" and "data_key t = data_key s" and "log_region t = log_region s"
  using assms by (auto simp: fs_frame_def data_key_def [abs_def] log_region_def [abs_def])

lemma fs_frame_bio:
  assumes "bio_frame s t" and "disk t = disk s" and "hist t = hist s"
  shows "fs_frame s t \<and> same_inodes s t"
proof -
  obtain ps f d h where t: "t = s\<lparr>ptable := ps, bufs := f, disk := d, hist := h\<rparr>"
    using assms(1) by (auto simp: bio_frame_def)
  then have "t = s\<lparr>ptable := ps, bufs := f, lh_n := lh_n s, lh_sector := lh_sector s, fs1_icache := fs1_icache s,
      icache := icache s\<rparr>"
    using assms(2,3) by simp
  then have "fs_frame s t" unfolding fs_frame_def by blast
  then show ?thesis using t by (simp add: same_inodes_def)
qed

lemma fs_frame_logged: "fs_frame s (logged sec s)" "same_inodes s (logged sec s)"
proof -
  have "s\<lparr>lh_n := n, lh_sector := w\<rparr> = s\<lparr>ptable := ptable s, bufs := bufs s, lh_n := n, lh_sector := w,
      fs1_icache := fs1_icache s, icache := icache s\<rparr>" for n w by simp
  then have "fs_frame s (s\<lparr>lh_n := n, lh_sector := w\<rparr>)" for n w unfolding fs_frame_def by blast
  then show "fs_frame s (logged sec s)" by (simp add: logged_def)
  show "same_inodes s (logged sec s)" by (simp add: same_inodes_def logged_def)
qed

lemma same_inodes_refl [simp]: "same_inodes s s"
  by (simp add: same_inodes_def)

lemma same_inodes_trans: "same_inodes s t \<Longrightarrow> same_inodes t u \<Longrightarrow> same_inodes s u"
  by (simp add: same_inodes_def)

lemma fs_step_trans: "fs_step s t \<Longrightarrow> fs_step t u \<Longrightarrow> fs_step s u"
  unfolding fs_step_def by (metis fs_frame_trans)

lemma fs_step_refl: "txn s \<Longrightarrow> fs_step s s"
  by (simp add: fs_step_def)

lemma fs_stepD: "fs_step s t \<Longrightarrow> txn t \<and> log_dev t = log_dev s \<and> log_start t = log_start s \<and> log_size t = log_size s
    \<and> busy_keys t = busy_keys s \<and> data_key t = data_key s"
  using fs_frame_fields by (auto simp: fs_step_def)

lemma card_dirty: "log_ok s \<Longrightarrow> card (dirty_keys s) = nat (lh_n s)"
proof -
  assume ok: "log_ok s"
  have "inj_on (home_key s) {..<nat (lh_n s)}"
    using log_ok_dirty(3) [OF ok] by (simp add: distinct_map lessThan_atLeast0)
  then show ?thesis using log_okD(6) [OF ok] by (simp add: card_image)
qed

lemma fits_mono: "fs_fits n X s \<Longrightarrow> m \<le> n \<Longrightarrow> fs_fits m X s"
  by (auto simp: fs_fits_def)

lemma fits_sub:
  assumes "fs_fits n X s" and "Y \<subseteq> X"
  shows "fs_fits n Y s"
proof -
  have "card (dirty_keys s \<union> Y) \<le> card (dirty_keys s \<union> X)"
    using assms by (intro card_mono) (auto simp: fs_fits_def)
  then show ?thesis using assms finite_subset by (fastforce simp: fs_fits_def)
qed

lemma fits_step:
  assumes "fs_fits n X s" and "fs_step s t" and "dirty_keys t \<subseteq> dirty_keys s \<union> X"
  shows "fs_fits n X t"
proof -
  have "card (dirty_keys t \<union> X) \<le> card (dirty_keys s \<union> X)" using assms by (intro card_mono) (auto simp: fs_fits_def)
  then show ?thesis using assms(1) fs_stepD [OF assms(2)] by (simp add: fs_fits_def)
qed

lemma fits_step_new:
  assumes "fs_fits (Suc n) X s" and "fs_step s t" and "dirty_keys t \<subseteq> insert k (dirty_keys s \<union> X)"
  shows "fs_fits n X t"
proof -
  have "card (dirty_keys t \<union> X) \<le> card (insert k (dirty_keys s \<union> X))"
    using assms by (intro card_mono) (auto simp: fs_fits_def)
  also have "\<dots> \<le> Suc (card (dirty_keys s \<union> X))" by (rule card_insert_le_m1) (auto simp: card_insert_le)
  finally show ?thesis using assms(1) fs_stepD [OF assms(2)] by (simp add: fs_fits_def)
qed

lemma fits_log: "txn s \<Longrightarrow> fs_fits n X s \<Longrightarrow> lh_n s < log_size s - 1"
proof -
  assume a: "txn s" "fs_fits n X s"
  have "card (dirty_keys s) \<le> card (dirty_keys s \<union> X)" using a(2) by (intro card_mono) (auto simp: fs_fits_def)
  moreover have "card (dirty_keys s) = nat (lh_n s)" using a(1) by (simp add: card_dirty txn_def)
  ultimately have "int (nat (lh_n s)) < log_size s - 1" using a(2) unfolding fs_fits_def by linarith
  then show ?thesis by linarith
qed

lemma fits_can_read:
  assumes "txn s" and "fs_fits n X s" and "ide_key k" and "k \<notin> busy_keys s"
  shows "can_read k (cache_abs s)"
proof -
  have "card (busy_keys s \<union> dirty_keys s) \<le> card (busy_keys s) + card (dirty_keys s)" by (rule card_Un_le)
  also have "card (dirty_keys s) \<le> card (dirty_keys s \<union> X)" using assms(2) by (intro card_mono) (auto simp: fs_fits_def)
  finally show ?thesis using assms(2-4) by (simp add: can_read_def fs_fits_def)
qed

subsection \<open>Holding, changing and releasing a block\<close>

lemma log_ok_same:
  assumes "log_ok s" and "bio_frame s t" and "dirty_keys t = dirty_keys s" and "disk t = disk s"
  shows "log_ok t"
  using assms(1,3,4) bio_frame_log [OF assms(2)] log_geom_frame [OF assms(2)] keys_frame [OF assms(2)]
  unfolding log_ok_def by simp

lemma fs_hold:
  assumes "txn s" and "fs_fits n X s" and "ide_key (dev, k)" and "(dev, k) \<notin> busy_keys s"
  shows "\<exists>b t. bread dev k s = Ret b t \<and> bdata_of b t = Ret (bview s (dev, k)) t \<and> holds t b (dev, k) \<and> txn t \<and> fs_frame s t
    \<and> same_inodes s t \<and> busy_keys t = insert (dev, k) (busy_keys s) \<and> bview t = bview s
    \<and> dirty_keys t = dirty_keys s \<and> (\<forall>b' k'. holds s b' k' \<longrightarrow> b' \<noteq> b \<and> holds t b' k')"
proof -
  obtain b t where t: "bread dev k s = Ret b t" "bio_inv t {}" "b \<notin> {}" "holds t b (dev, k)"
      "cache_abs t = c_read (dev, k) (cache_abs s)" "bio_frame s t" "\<forall>b' k'. holds s b' k' \<longrightarrow> b' \<noteq> b \<and> holds t b' k'"
    using bread_law [of s "{}" dev k] fits_can_read [OF assms] assms(1) by (auto simp: txn_def)
  have abs: "bview t = bview s" "disk t = disk s" "hist t = hist s" "busy_keys t = insert (dev, k) (busy_keys s)"
      "dirty_keys t = dirty_keys s"
    using arg_cong [OF t(5), of cview] arg_cong [OF t(5), of cdisk] arg_cong [OF t(5), of chist] arg_cong [OF t(5), of cbusy]
      arg_cong [OF t(5), of cdirty] by (simp_all add: c_read_def)
  note f = fs_frame_bio [OF t(6) abs(2,3)] and g = bio_frame_log [OF t(6)]
  have "log_ok t" using log_ok_same [OF _ t(6) abs(5,2)] assms(1) by (simp add: txn_def)
  then have "txn t" using g t(2) assms(1) by (simp add: txn_def)
  moreover have "bdata_of b t = Ret (bview s (dev, k)) t"
    using bc.content_law [OF t(2,4)] abs(1) by simp
  ultimately show ?thesis using t abs f by blast
qed

lemma fits_hold:
  assumes "fs_fits (Suc n) X s" and "fs_frame s t" and "busy_keys t = insert k (busy_keys s)" and "dirty_keys t = dirty_keys s"
  shows "fs_fits n X t"
proof -
  have "card (busy_keys t) \<le> Suc (card (busy_keys s))" unfolding assms(3) by (rule card_insert_le_m1) (auto simp: card_insert_le)
  then show ?thesis using assms fs_frame_fields(3) [OF assms(2)] by (simp add: fs_fits_def)
qed

lemma fs_log:
  assumes "txn s" and "lh_n s < log_size s - 1" and "holds s b (log_dev s, sec)" and "data_key s (log_dev s, sec)"
    and "length (f (bview s (log_dev s, sec))) = BSIZE"
  shows "\<exists>t. kthen (bmodify b f) (log_write b) s = Ret () t \<and> fs_step s t \<and> same_inodes s t \<and> holds t = holds s
    \<and> bview t = (bview s)((log_dev s, sec) := f (bview s (log_dev s, sec)))
    \<and> dirty_keys t = insert (log_dev s, sec) (dirty_keys s)"
proof -
  let ?k = "(log_dev s, sec)"
  have s: "bio_inv s {}" "log_ok s" "1 \<le> outstanding s" "log_size s \<le> 30" using assms(1) by (auto simp: txn_def)
  obtain v where v: "bmodify b f s = Ret () v" "bio_inv v {b}" "cache_abs v = c_modify ?k f (cache_abs s)"
      "bio_frame s v" "holds v = holds s"
    using bmodify_law [OF s(1) assms(3)] assms(5) by auto
  have dv: "dirty_keys v = dirty_keys s" "disk v = disk s" "hist v = hist s"
    using arg_cong [OF v(3), of cdirty] arg_cong [OF v(3), of cdisk] arg_cong [OF v(3), of chist] by (simp_all add: c_modify_def)
  note fv = fs_frame_bio [OF v(4) dv(2,3)] and gv = bio_frame_log [OF v(4)]
  have okv: "log_ok v" using log_ok_same [OF s(2) v(4) dv(1,2)] .
  obtain t where t: "log_write b v = Ret () t" "bio_inv t ({b} - {b})" "cache_abs t = c_mark ?k (cache_abs v)"
      "holds t = holds v" "bio_frame (logged sec v) t" "log_ok t"
      "lh_n t = (if ?k \<in> dirty_keys s then lh_n s else lh_n s + 1)"
    using log_write_law [OF v(2) _ okv, of b sec] assms(2-4) v(5) s gv log_geom_frame [OF v(4)] dv(1) by auto
  have at: "disk t = disk s" "hist t = hist s" "busy_keys t = busy_keys s" "bview t = (bview s)(?k := f (bview s ?k))"
      "dirty_keys t = insert ?k (dirty_keys s)"
    using arg_cong [OF t(3), of cdisk] arg_cong [OF t(3), of chist] arg_cong [OF t(3), of cbusy] arg_cong [OF t(3), of cview]
      arg_cong [OF t(3), of cdirty] v(3) by (simp_all add: c_mark_def c_modify_def)
  have "disk (logged sec v) = disk s" "hist (logged sec v) = hist s" using dv by (simp_all add: logged_def)
  then have ft: "fs_frame (logged sec v) t \<and> same_inodes (logged sec v) t" using fs_frame_bio [OF t(5)] at by simp
  have fr: "fs_frame s t" "same_inodes s t"
    using fv ft fs_frame_logged [of v sec] fs_frame_trans same_inodes_trans by blast+
  then have "fs_step s t"
    using t(2,4,6,7) v(5) at(3) s fs_frame_fields [OF fr(1)] by (simp add: fs_step_def txn_def)
  then show ?thesis using v(1) t(1,4) v(5) at fr by (auto simp: kbind_Ret)
qed

lemma fs_release:
  assumes "txn s" and "holds s b k"
  shows "\<exists>t. brelse b s = Ret () t \<and> txn t \<and> fs_frame s t \<and> same_inodes s t \<and> busy_keys t = busy_keys s - {k} \<and> bview t = bview s
    \<and> dirty_keys t = dirty_keys s \<and> (\<forall>b' k'. holds s b' k' \<longrightarrow> b' \<noteq> b \<longrightarrow> holds t b' k')"
proof -
  obtain t where t: "brelse b s = Ret () t" "bio_inv t {}" "cache_abs t = c_release k (cache_abs s)" "bio_frame s t"
      "\<forall>b' k'. holds s b' k' \<longrightarrow> b' \<noteq> b \<longrightarrow> holds t b' k'"
    using brelse_law [of s "{}" b k] assms by (auto simp: txn_def)
  have abs: "bview t = bview s" "disk t = disk s" "hist t = hist s" "busy_keys t = busy_keys s - {k}" "dirty_keys t = dirty_keys s"
    using arg_cong [OF t(3), of cview] arg_cong [OF t(3), of cdisk] arg_cong [OF t(3), of chist] arg_cong [OF t(3), of cbusy]
      arg_cong [OF t(3), of cdirty] by (simp_all add: c_release_def)
  note f = fs_frame_bio [OF t(4) abs(2,3)] and g = bio_frame_log [OF t(4)]
  have "log_ok t" using log_ok_same [OF _ t(4) abs(5,2)] assms(1) by (simp add: txn_def)
  then have "txn t" using g t(2) assms(1) by (simp add: txn_def)
  then show ?thesis using t abs f by blast
qed

text \<open>A block is looked at, or changed and logged, and released.\<close>

lemma fs_open:
  assumes "txn s" and "fs_fits m X s" and "ide_key (dev, n)" and "(dev, n) \<notin> busy_keys s"
  shows "\<exists>b t. bread dev n s = Ret b t \<and> bdata_of b t = Ret (bview s (dev, n)) t
    \<and> (\<exists>u. brelse b t = Ret () u \<and> fs_step s u \<and> same_inodes s u \<and> bview u = bview s \<and> dirty_keys u = dirty_keys s)
    \<and> (\<forall>f. dev = log_dev s \<longrightarrow> data_key s (dev, n) \<longrightarrow> length (f (bview s (dev, n))) = BSIZE \<longrightarrow>
        (\<exists>u. kthen (bmodify b f) (kthen (log_write b) (brelse b)) t = Ret () u \<and> fs_step s u \<and> same_inodes s u
          \<and> bview u = (bview s)((dev, n) := f (bview s (dev, n))) \<and> dirty_keys u = insert (dev, n) (dirty_keys s)))"
proof -
  obtain b t where t: "bread dev n s = Ret b t" "bdata_of b t = Ret (bview s (dev, n)) t" "holds t b (dev, n)" "txn t" "fs_frame s t"
      "same_inodes s t" "busy_keys t = insert (dev, n) (busy_keys s)" "bview t = bview s"
      "dirty_keys t = dirty_keys s" "\<forall>b' k'. holds s b' k' \<longrightarrow> b' \<noteq> b \<and> holds t b' k'"
    using fs_hold [OF assms] by blast
  note ff = fs_frame_fields [OF t(5)]
  have lh: "lh_n t < log_size t - 1"
    using fits_log [OF assms(1,2)] card_dirty [of s] card_dirty [of t] assms(1) t(4,9) ff log_okD(2) [of s] log_okD(2) [of t]
    by (simp add: txn_def)
  have busy: "insert (dev, n) (busy_keys s) - {(dev, n)} = busy_keys s" using assms(4) by auto
  have "\<exists>u. brelse b t = Ret () u \<and> fs_step s u \<and> same_inodes s u \<and> bview u = bview s \<and> dirty_keys u = dirty_keys s"
  proof -
    obtain u where u: "brelse b t = Ret () u" "txn u" "fs_frame t u" "same_inodes t u" "busy_keys u = busy_keys t - {(dev, n)}"
        "bview u = bview t" "dirty_keys u = dirty_keys t" "\<forall>b' k'. holds t b' k' \<longrightarrow> b' \<noteq> b \<longrightarrow> holds u b' k'"
      using fs_release [OF t(4,3)] by blast
    have "fs_frame s u" using fs_frame_trans t(5) u(3) by blast
    then have "fs_step s u" using u(2,5,8) t(7,10) busy unfolding fs_step_def by auto
    then show ?thesis using u t same_inodes_trans by metis
  qed
  moreover have "\<exists>u. kthen (bmodify b f) (kthen (log_write b) (brelse b)) t = Ret () u \<and> fs_step s u \<and> same_inodes s u
      \<and> bview u = (bview s)((dev, n) := f (bview s (dev, n))) \<and> dirty_keys u = insert (dev, n) (dirty_keys s)"
    if f: "dev = log_dev s" "data_key s (dev, n)" "length (f (bview s (dev, n))) = BSIZE" for f
  proof -
    obtain v where v: "kthen (bmodify b f) (log_write b) t = Ret () v" "fs_step t v" "same_inodes t v" "holds v = holds t"
        "bview v = (bview t)((dev, n) := f (bview t (dev, n)))" "dirty_keys v = insert (dev, n) (dirty_keys t)"
      using fs_log [OF t(4) lh, of b n f] f t(3,8) ff by auto
    have vt: "txn v" "fs_frame t v" "busy_keys v = busy_keys t" using v(2) by (auto simp: fs_step_def)
    obtain u where u: "brelse b v = Ret () u" "txn u" "fs_frame v u" "same_inodes v u" "busy_keys u = busy_keys v - {(dev, n)}"
        "bview u = bview v" "dirty_keys u = dirty_keys v" "\<forall>b' k'. holds v b' k' \<longrightarrow> b' \<noteq> b \<longrightarrow> holds u b' k'"
      using fs_release [OF vt(1), of b "(dev, n)"] v(4) t(3) by auto
    have "fs_frame s u" using fs_frame_trans t(5) vt(2) u(3) by blast
    then have "fs_step s u" using u(2,5,8) vt(3) v(4) t(7,10) busy unfolding fs_step_def by auto
    moreover have "kthen (bmodify b f) (kthen (log_write b) (brelse b)) t = Ret () u"
      using kbind_Ret [of "kthen (bmodify b f) (log_write b)" t "()" v "\<lambda>_. brelse b"] v(1) u(1) by (simp only: kbind_assoc)
    moreover have "same_inodes s u" using t(6) v(3) u(4) same_inodes_trans by blast
    ultimately show ?thesis using u(6,7) v(5,6) t(8,9) by auto
  qed
  ultimately show ?thesis using t(1,2) by blast
qed

lemma fs_look:
  assumes "txn s" and "fs_fits m X s" and "ide_key (dev, n)" and "(dev, n) \<notin> busy_keys s"
  shows "\<exists>t. kbind (bread dev n) (\<lambda>bp. kbind (bdata_of bp) (\<lambda>x. kthen (brelse bp) (f x))) s = f (bview s (dev, n)) t
    \<and> fs_step s t \<and> same_inodes s t \<and> bview t = bview s \<and> dirty_keys t = dirty_keys s"
  using fs_open [OF assms] by (auto simp: kbind_Ret)

lemma fs_edit:
  assumes "txn s" and "fs_fits m X s" and "(log_dev s, n) \<notin> busy_keys s" and "data_key s (log_dev s, n)"
    and "length (f (bview s (log_dev s, n))) = BSIZE"
  shows "\<exists>t. kbind (bread (log_dev s) n) (\<lambda>bp. kthen (bmodify bp f) (kthen (log_write bp) (brelse bp))) s = Ret () t
    \<and> fs_step s t \<and> same_inodes s t \<and> bview t = (bview s)((log_dev s, n) := f (bview s (log_dev s, n)))
    \<and> dirty_keys t = insert (log_dev s, n) (dirty_keys s)"
proof -
  have "ide_key (log_dev s, n)" using assms(4) by (auto simp: data_key_def)
  then show ?thesis using fs_open [OF assms(1,2) _ assms(3)] assms(4,5) by (auto simp: kbind_Ret)
qed

section \<open>Allocation of blocks\<close>

text \<open>The contents of a sector of the file system's device, its superblock, and whether the bitmap has a block free.\<close>

definition fview :: "'a logst_scheme \<Rightarrow> nat \<Rightarrow> block" where
  "fview s n = bview s (log_dev s, of_nat n)"

definition fs_sb :: "'a logst_scheme \<Rightarrow> fs1_superblock" where
  "fs_sb s = sb_of (fview s 1)"

definition bmap_start :: "'a logst_scheme \<Rightarrow> nat" where
  "bmap_start s = unat (sb_ninodes (fs_sb s)) div IPB + 3"

definition data_start :: "'a logst_scheme \<Rightarrow> nat" where
  "data_start s = bmap_start s + unat (sb_size (fs_sb s)) div BPB + 1"

definition block_free :: "'a logst_scheme \<Rightarrow> nat \<Rightarrow> bool" where
  "block_free s b \<longleftrightarrow> bit_clear (fview s (bmap_start s + b div BPB)) (b mod BPB)"

definition bitmap_keys :: "'a logst_scheme \<Rightarrow> (u32 \<times> u32) set" where
  "bitmap_keys s = (\<lambda>k. (log_dev s, of_nat (bmap_start s + k))) ` {..unat (sb_size (fs_sb s)) div BPB}"

text \<open>A disk as \<open>mkfs\<close> makes it: inodes, bitmap, data and log in this order, below the limit of the IDE driver, and the
  bitmap has everything before the data area in use. It does not have the blocks of the log in use: what is shown about
  allocation therefore supposes a free block below the log.\<close>

definition fs_ok :: "'a logst_scheme \<Rightarrow> bool" where
  "fs_ok s \<longleftrightarrow> log_dev s \<le> 1 \<and> data_start s \<le> unat (log_start s) \<and> unat (log_start s) \<le> unat (sb_size (fs_sb s))
     \<and> unat (sb_size (fs_sb s)) < 0x10000000
     \<and> (\<forall>b<unat (sb_size (fs_sb s)). block_free s b \<longrightarrow> data_start s \<le> b)"

lemma fs_ok_size: "fs_ok s \<Longrightarrow> b < unat (log_start s) \<Longrightarrow> b < unat (sb_size (fs_sb s))"
  by (simp add: fs_ok_def)

text \<open>The blocks that are held are data blocks in use.\<close>

definition busy_ok :: "'a logst_scheme \<Rightarrow> bool" where
  "busy_ok s \<longleftrightarrow> (\<forall>k\<in>busy_keys s. \<exists>b. k = (log_dev s, of_nat b) \<and> data_start s \<le> b \<and> b < unat (log_start s) \<and> \<not> block_free s b)"

lemma fs_ok_nums:
  assumes "fs_ok s"
  shows "bmap_start s < data_start s" and "3 \<le> bmap_start s" and "data_start s < 0x10000000"
    and "unat (log_start s) < 0x10000000" and "b < unat (sb_size (fs_sb s)) \<Longrightarrow> bmap_start s + b div BPB < data_start s"
  using assms by (auto simp: fs_ok_def data_start_def bmap_start_def div_le_mono less_Suc_eq_le)

lemma fs_key:
  assumes "fs_ok s" and "n < unat (log_start s)"
  shows "data_key s (log_dev s, of_nat n)" and "ide_key (log_dev s, of_nat n)"
proof -
  have n: "unat (of_nat n :: u32) = n" using assms fs_ok_nums(4) [OF assms(1)] by (intro u32_of_nat_small) simp
  have "log_dev s = 0 \<or> log_dev s = 1"
    using assms(1) unfolding fs_ok_def by (metis word_le_less_eq word_less_1)
  then show k: "ide_key (log_dev s, of_nat n)"
    using assms fs_ok_nums(4) [OF assms(1)] n by (simp add: ide_key_def word_less_nat_alt)
  then show "data_key s (log_dev s, of_nat n)" using assms(2) n by (simp add: data_key_def log_region_def)
qed

lemma of_nat_u32_eq:
  assumes "m < 0x10000000" and "n < 0x10000000"
  shows "of_nat m = (of_nat n :: u32) \<longleftrightarrow> m = n"
proof -
  have "unat (of_nat m :: u32) = m" "unat (of_nat n :: u32) = n"
    using assms by (auto intro: u32_of_nat_small)
  then show ?thesis by metis
qed

lemma busy_ok_meta:
  assumes "fs_ok s" and "busy_ok s" and "n < data_start s \<or> block_free s n" and "n < unat (log_start s)"
  shows "(log_dev s, of_nat n) \<notin> busy_keys s"
proof
  assume "(log_dev s, of_nat n) \<in> busy_keys s"
  then obtain b where b: "of_nat n = (of_nat b :: u32)" "data_start s \<le> b" "b < unat (log_start s)" "\<not> block_free s b"
    using assms(2) by (fastforce simp: busy_ok_def)
  then have "n = b" using of_nat_u32_eq [of n b] assms(4) fs_ok_nums(4) [OF assms(1)] by simp
  then show False using assms(3) b by auto
qed

lemma fs_same:
  assumes "fs_step s t" and "bview t = bview s"
  shows "fview t = fview s" and "fs_sb t = fs_sb s" and "bmap_start t = bmap_start s" and "data_start t = data_start s"
    and "block_free t = block_free s" and "fs_ok t = fs_ok s" and "busy_ok t = busy_ok s"
proof -
  have f: "log_dev t = log_dev s" "log_start t = log_start s" "busy_keys t = busy_keys s"
    using fs_stepD [OF assms(1)] by auto
  show v: "fview t = fview s" using assms(2) f by (simp add: fview_def fun_eq_iff)
  then show b: "fs_sb t = fs_sb s" "bmap_start t = bmap_start s" "data_start t = data_start s" "block_free t = block_free s"
    by (simp_all add: fs_sb_def bmap_start_def data_start_def block_free_def fun_eq_iff)
  then show "fs_ok t = fs_ok s" "busy_ok t = busy_ok s" using f by (simp_all add: fs_ok_def busy_ok_def)
qed

lemma busy_ok_keep:
  assumes "busy_ok s" and "fs_step s t" and "data_start t = data_start s"
    and "\<And>b. b < unat (log_start s) \<Longrightarrow> \<not> block_free s b \<Longrightarrow> \<not> block_free t b"
  shows "busy_ok t"
  unfolding busy_ok_def
proof
  fix k assume "k \<in> busy_keys t"
  then have "k \<in> busy_keys s" using fs_stepD [OF assms(2)] by simp
  then obtain b where "k = (log_dev s, of_nat b)" "data_start s \<le> b" "b < unat (log_start s)" "\<not> block_free s b"
    using assms(1) unfolding busy_ok_def by blast
  then show "\<exists>b. k = (log_dev t, of_nat b) \<and> data_start t \<le> b \<and> b < unat (log_start t) \<and> \<not> block_free t b"
    using fs_stepD [OF assms(2)] assms(3,4) by auto
qed

lemma fs1_readsb_law:
  assumes "txn s" and "fs_fits m X s" and "fs_ok s" and "busy_ok s"
  shows "\<exists>t. fs1_readsb (log_dev s) s = Ret (fs_sb s) t \<and> fs_step s t \<and> same_inodes s t \<and> bview t = bview s
    \<and> dirty_keys t = dirty_keys s"
proof -
  have "1 < unat (log_start s)" "1 < data_start s" using assms(3) fs_ok_nums(1,2) [OF assms(3)] by (auto simp: fs_ok_def)
  then have "ide_key (log_dev s, 1)" "(log_dev s, 1) \<notin> busy_keys s"
    using fs_key(2) [OF assms(3), of 1] busy_ok_meta [OF assms(3,4), of 1] by simp_all
  then show ?thesis
    using fs_look [OF assms(1,2), of "log_dev s" 1 "\<lambda>x. kreturn (sb_of x)"]
    by (auto simp: fs1_readsb_def fs_sb_def fview_def kreturn_def)
qed

lemma fs1_bzero_law:
  assumes "txn s" and "fs_fits m X s" and "data_key s (log_dev s, n)" and "(log_dev s, n) \<notin> busy_keys s"
  shows "\<exists>t. fs1_bzero (log_dev s) n s = Ret () t \<and> fs_step s t \<and> same_inodes s t
    \<and> bview t = (bview s)((log_dev s, n) := replicate BSIZE 0) \<and> dirty_keys t = insert (log_dev s, n) (dirty_keys s)"
  using fs_edit [OF assms(1,2,4,3), of "\<lambda>_. replicate BSIZE 0"] by (simp add: fs1_bzero_def)

lemma kthen_three: "kthen a (kthen b c) s = Ret () u \<Longrightarrow> kthen a (kthen b (kthen c k)) s = k u"
  by (auto simp: kbind_def split: outcome.splits)

lemma BBLOCK_start: "BBLOCK (j * BPB) (sb_ninodes (fs_sb s)) = of_nat (bmap_start s + j)"
  by (simp add: BBLOCK_def bmap_start_def ac_simps)

lemma find_Some_upt: "i < n \<Longrightarrow> P i \<Longrightarrow> \<forall>k<i. \<not> P k \<Longrightarrow> find P [0..<n] = Some i"
  by (auto simp: find_Some_iff intro!: exI [of _ i])

lemma upt_chunk: "j * BPB \<le> b \<Longrightarrow> b < sz \<Longrightarrow> [j..<(sz + BPB - 1) div BPB] = j # [Suc j..<(sz + BPB - 1) div BPB]"
  by (rule upt_conv_Cons) (auto simp: less_eq_div_iff_mult_less_eq Suc_le_eq [symmetric])

lemma length_mark [simp]: "length (mark_used bi x) = length x" "length (mark_free bi x) = length x"
  by (simp_all add: mark_used_def mark_free_def)

lemma fview_length: "txn s \<Longrightarrow> ide_key (log_dev s, of_nat n) \<Longrightarrow> length (fview s n) = BSIZE"
  using bc.view_length [of s "{}" "(log_dev s, of_nat n)"] by (simp add: fview_def txn_def)

text \<open>What an allocation does to the disk: one bit set, one block cleared.\<close>

definition allocated :: "'a logst_scheme \<Rightarrow> nat \<Rightarrow> u32 \<times> u32 \<Rightarrow> block" where
  "allocated s b = (bview s)((log_dev s, of_nat (bmap_start s + b div BPB)) := mark_used (b mod BPB) (fview s (bmap_start s + b div BPB)),
     (log_dev s, of_nat b) := replicate BSIZE 0)"

definition alloc_keys :: "'a logst_scheme \<Rightarrow> nat \<Rightarrow> (u32 \<times> u32) set" where
  "alloc_keys s b = {(log_dev s, of_nat (bmap_start s + b div BPB)), (log_dev s, of_nat b)}"

lemma balloc_found:
  assumes "txn s" and "fs_fits m X s" and "fs_ok s" and "busy_ok s" and "b < unat (log_start s)" and "block_free s b"
    and "bitmap_keys s \<subseteq> X" and "\<And>b'. b div BPB * BPB \<le> b' \<Longrightarrow> b' < b \<Longrightarrow> \<not> block_free s b'"
  shows "\<exists>t. balloc_loop (log_dev s) (fs_sb s) (b div BPB * BPB # bs) s = Ret (of_nat b) t \<and> fs_step s t \<and> same_inodes s t
    \<and> bview t = allocated s b
    \<and> dirty_keys t = dirty_keys s \<union> alloc_keys s b"
proof -
  define n where "n = bmap_start s + b div BPB"
  let ?j = "b div BPB" and ?d = "log_dev s" and ?x = "fview s n"
  note sz = fs_ok_size [OF assms(3,5)]
  have m: "n < data_start s" "n < unat (log_start s)" "b < unat (log_start s)" "data_start s \<le> b"
    using fs_ok_nums(5) [OF assms(3) sz] sz assms(3,5,6) by (auto simp: fs_ok_def n_def)
  have inX: "(?d, of_nat n) \<in> X" using sz assms(7) by (auto simp: bitmap_keys_def n_def div_le_mono)
  note km = fs_key [OF assms(3) m(2)] and kb = fs_key [OF assms(3) m(3)]
  have nb: "(?d, of_nat n) \<notin> busy_keys s" "(?d, of_nat b) \<notin> busy_keys s"
    using busy_ok_meta [OF assms(3,4)] m assms(6) by auto
  have len: "length ?x = BSIZE" using fview_length [OF assms(1)] km(2) by simp
  obtain bp t where t: "bread ?d (of_nat n) s = Ret bp t" "bdata_of bp t = Ret ?x t"
      "\<exists>u. kthen (bmodify bp (mark_used (b mod BPB))) (kthen (log_write bp) (brelse bp)) t = Ret () u \<and> fs_step s u
        \<and> same_inodes s u \<and> bview u = (bview s)((?d, of_nat n) := mark_used (b mod BPB) ?x)
        \<and> dirty_keys u = insert (?d, of_nat n) (dirty_keys s)"
    using fs_open [OF assms(1,2) km(2) nb(1)] km(1) len unfolding fview_def by auto
  obtain u where u: "kthen (bmodify bp (mark_used (b mod BPB))) (kthen (log_write bp) (brelse bp)) t = Ret () u" "fs_step s u"
      "same_inodes s u" "bview u = (bview s)((?d, of_nat n) := mark_used (b mod BPB) ?x)"
      "dirty_keys u = insert (?d, of_nat n) (dirty_keys s)"
    using t(3) by blast
  note fu = fs_stepD [OF u(2)]
  obtain v where v: "fs1_bzero ?d (of_nat b) u = Ret () v" "fs_step u v" "same_inodes u v"
      "bview v = (bview u)((?d, of_nat b) := replicate BSIZE 0)" "dirty_keys v = insert (?d, of_nat b) (dirty_keys u)"
    using fs1_bzero_law [of u m X "of_nat b"] fu kb(1) nb(2) fits_step [OF assms(2) u(2)] u(5) inX by auto
  have free: "bit_clear ?x k \<longleftrightarrow> block_free s (?j * BPB + k)" if "k < BPB" for k
    using that by (simp add: block_free_def n_def)
  have "find (bit_clear ?x) [0..<min BPB (unat (sb_size (fs_sb s)) - ?j * BPB)] = Some (b mod BPB)"
  proof (rule find_Some_upt)
    have split: "?j * BPB + b mod BPB = b" by simp
    then have "b mod BPB < unat (sb_size (fs_sb s)) - ?j * BPB" using sz by linarith
    then show "b mod BPB < min BPB (unat (sb_size (fs_sb s)) - ?j * BPB)" by simp
    show "bit_clear ?x (b mod BPB)" using free [of "b mod BPB"] assms(6) by simp
    show "\<forall>k<b mod BPB. \<not> bit_clear ?x k"
    proof (intro allI impI)
      fix k assume "k < b mod BPB"
      moreover have "b mod BPB < BPB" by simp
      ultimately show "\<not> bit_clear ?x k" using free [of k] assms(8) [of "?j * BPB + k"] split by linarith
    qed
  qed
  moreover have bb: "BBLOCK (?j * BPB) (sb_ninodes (fs_sb s)) = of_nat n" unfolding n_def by (rule BBLOCK_start)
  ultimately have "balloc_loop ?d (fs_sb s) (?j * BPB # bs) s = Ret (of_nat b) v"
    using t(1,2) v(1) bb by (simp add: balloc_loop.simps kthen_three [OF u(1)] kbind_Ret kreturn_def)
  moreover have "fs_step s v" using fs_step_trans [OF u(2) v(2)] .
  ultimately show ?thesis using u(3-5) v(3-5) same_inodes_trans by (auto simp: allocated_def alloc_keys_def n_def)
qed


lemma balloc_skip:
  assumes "txn s" and "fs_fits m X s" and "fs_ok s" and "busy_ok s" and "j * BPB < unat (sb_size (fs_sb s))"
    and "\<And>b. j * BPB \<le> b \<Longrightarrow> b < Suc j * BPB \<Longrightarrow> b < unat (sb_size (fs_sb s)) \<Longrightarrow> \<not> block_free s b"
  shows "\<exists>t. balloc_loop (log_dev s) (fs_sb s) (j * BPB # bs) s = balloc_loop (log_dev s) (fs_sb s) bs t \<and> fs_step s t
    \<and> same_inodes s t \<and> bview t = bview s \<and> dirty_keys t = dirty_keys s"
proof -
  define n where "n = bmap_start s + j"
  let ?d = "log_dev s" and ?x = "fview s n"
  have m: "n < data_start s" "n < unat (log_start s)"
    using fs_ok_nums(5) [OF assms(3,5)] assms(3) by (auto simp: fs_ok_def n_def)
  obtain bp t u where t: "bread ?d (of_nat n) s = Ret bp t" "bdata_of bp t = Ret ?x t" "brelse bp t = Ret () u"
      "fs_step s u" "same_inodes s u" "bview u = bview s" "dirty_keys u = dirty_keys s"
    using fs_open [OF assms(1,2) fs_key(2) [OF assms(3) m(2)]] busy_ok_meta [OF assms(3,4)] m unfolding fview_def by blast
  have bb: "BBLOCK (j * BPB) (sb_ninodes (fs_sb s)) = of_nat n" unfolding n_def by (rule BBLOCK_start)
  have "\<not> bit_clear ?x k" if "k < min BPB (unat (sb_size (fs_sb s)) - j * BPB)" for k
  proof -
    have "j * BPB + k < unat (sb_size (fs_sb s))" "k < BPB" using that by linarith+
    then show ?thesis using assms(6) [of "j * BPB + k"] by (simp add: block_free_def n_def)
  qed
  then have "find (bit_clear ?x) [0..<min BPB (unat (sb_size (fs_sb s)) - j * BPB)] = None" by (simp add: find_None_iff)
  then have "balloc_loop ?d (fs_sb s) (j * BPB # bs) s = balloc_loop ?d (fs_sb s) bs u"
    using t(1-3) bb by (simp add: balloc_loop.simps kbind_Ret)
  then show ?thesis using t by blast
qed

lemma balloc_loop_law:
  assumes "txn s" and "fs_fits m X s" and "fs_ok s" and "busy_ok s" and "b < unat (log_start s)" and "block_free s b"
    and "bitmap_keys s \<subseteq> X" and "j * BPB \<le> b" and "\<And>b'. j * BPB \<le> b' \<Longrightarrow> b' < b \<Longrightarrow> \<not> block_free s b'"
  shows "\<exists>t. balloc_loop (log_dev s) (fs_sb s) (map (\<lambda>k. k * BPB) [j..<(unat (sb_size (fs_sb s)) + BPB - 1) div BPB]) s
      = Ret (of_nat b) t \<and> fs_step s t \<and> same_inodes s t \<and> bview t = allocated s b
      \<and> dirty_keys t = dirty_keys s \<union> alloc_keys s b"
  using assms
proof (induction "b div BPB - j" arbitrary: j s)
  case 0
  then have j: "j = b div BPB" by (simp add: less_eq_div_iff_mult_less_eq antisym)
  have "map (\<lambda>k. k * BPB) [j..<(unat (sb_size (fs_sb s)) + BPB - 1) div BPB]
      = b div BPB * BPB # map (\<lambda>k. k * BPB) [Suc j..<(unat (sb_size (fs_sb s)) + BPB - 1) div BPB]"
    by (simp only: upt_chunk [OF 0(9) fs_ok_size [OF 0(4,6)]] list.map) (simp add: j)
  then show ?case using balloc_found [OF 0(2-8)] 0(10) unfolding j by (simp only:) blast
next
  case (Suc n)
  note p = Suc.prems
  note sz = fs_ok_size [OF p(3,5)]
  have j: "Suc j * BPB \<le> b" using Suc(2) div_times_less_eq_dividend [of b BPB] mult_le_mono1 [of "Suc j" "b div BPB" BPB] by linarith
  obtain t where t: "balloc_loop (log_dev s) (fs_sb s) (map (\<lambda>k. k * BPB) [j..<(unat (sb_size (fs_sb s)) + BPB - 1) div BPB]) s
      = balloc_loop (log_dev s) (fs_sb s) (map (\<lambda>k. k * BPB) [Suc j..<(unat (sb_size (fs_sb s)) + BPB - 1) div BPB]) t"
      "fs_step s t" "same_inodes s t" "bview t = bview s" "dirty_keys t = dirty_keys s"
    using balloc_skip [OF p(1-4), of j] sz p(8,9) j unfolding upt_chunk [OF p(8) sz] list.map by force
  note same = fs_same [OF t(2,4)] and ft = fs_stepD [OF t(2)]
  have n: "n = b div BPB - Suc j" using Suc(2) by simp
  have pt: "txn t" "fs_fits m X t" "fs_ok t" "busy_ok t" "b < unat (log_start t)" "block_free t b" "bitmap_keys t \<subseteq> X"
    using ft same p(1-7) fits_step [OF p(2) t(2)] t(5) by (simp_all add: bitmap_keys_def)
  have qt: "\<not> block_free t b'" if "Suc j * BPB \<le> b'" "b' < b" for b' using p(9) [of b'] that same by simp
  obtain u where u: "balloc_loop (log_dev t) (fs_sb t) (map (\<lambda>k. k * BPB) [Suc j..<(unat (sb_size (fs_sb t)) + BPB - 1) div BPB]) t
      = Ret (of_nat b) u" "fs_step t u" "same_inodes t u" "bview u = allocated t b" "dirty_keys u = dirty_keys t \<union> alloc_keys t b"
    using Suc(1) [OF n pt j qt] by blast
  have "allocated t b = allocated s b" "alloc_keys t b = alloc_keys s b" using ft same t(4) by (simp_all add: allocated_def alloc_keys_def)
  then show ?case using t u ft same fs_step_trans [OF t(2) u(2)] same_inodes_trans by auto
qed

lemma fs1_balloc_law:
  assumes "txn s" and "fs_fits m X s" and "fs_ok s" and "busy_ok s" and "b < unat (log_start s)" and "block_free s b"
    and "bitmap_keys s \<subseteq> X" and "\<And>b'. b' < b \<Longrightarrow> \<not> block_free s b'"
  shows "\<exists>t. fs1_balloc (log_dev s) s = Ret (of_nat b) t \<and> fs_step s t \<and> same_inodes s t \<and> bview t = allocated s b
    \<and> dirty_keys t = dirty_keys s \<union> alloc_keys s b"
proof -
  obtain t where t: "fs1_readsb (log_dev s) s = Ret (fs_sb s) t" "fs_step s t" "same_inodes s t" "bview t = bview s"
      "dirty_keys t = dirty_keys s"
    using fs1_readsb_law [OF assms(1-4)] by blast
  note same = fs_same [OF t(2,4)] and ft = fs_stepD [OF t(2)]
  have pt: "txn t" "fs_fits m X t" "fs_ok t" "busy_ok t" "b < unat (log_start t)" "block_free t b" "bitmap_keys t \<subseteq> X"
    using ft same assms(1-7) fits_step [OF assms(2) t(2)] t(5) by (simp_all add: bitmap_keys_def)
  have qt: "\<not> block_free t b'" if "b' < b" for b' using assms(8) [of b'] that same by simp
  obtain u where u: "balloc_loop (log_dev t) (fs_sb t) (map (\<lambda>k. k * BPB) [0..<(unat (sb_size (fs_sb t)) + BPB - 1) div BPB]) t
      = Ret (of_nat b) u" "fs_step t u" "same_inodes t u" "bview u = allocated t b" "dirty_keys u = dirty_keys t \<union> alloc_keys t b"
    using balloc_loop_law [OF pt, of 0] qt by auto
  have "allocated t b = allocated s b" "alloc_keys t b = alloc_keys s b" using ft same t(4) by (simp_all add: allocated_def alloc_keys_def)
  then show ?thesis
    using t u ft same fs_step_trans [OF t(2) u(2)] same_inodes_trans by (auto simp: fs1_balloc_def kbind_Ret)
qed

lemma fs1_balloc_full:
  assumes "txn s" and "fs_fits m X s" and "fs_ok s" and "busy_ok s" and "\<And>b. b < unat (sb_size (fs_sb s)) \<Longrightarrow> \<not> block_free s b"
  shows "fs1_balloc (log_dev s) s = Panic ''fs1_balloc: out of blocks''"
proof -
  have "balloc_loop (log_dev s) (fs_sb s) (map (\<lambda>k. k * BPB) [j..<(unat (sb_size (fs_sb s)) + BPB - 1) div BPB]) s
      = Panic ''fs1_balloc: out of blocks''"
    if "txn s" "fs_fits m X s" "fs_ok s" "busy_ok s" "\<And>b. b < unat (sb_size (fs_sb s)) \<Longrightarrow> \<not> block_free s b" for s :: "'a fsst_scheme" and j
    using that
  proof (induction "(unat (sb_size (fs_sb s)) + BPB - 1) div BPB - j" arbitrary: j s)
    case 0
    then show ?case by (simp add: balloc_loop.simps kpanic_def)
  next
    case (Suc n)
    note p = Suc.prems
    have lt: "j * BPB < unat (sb_size (fs_sb s))" using Suc(2) by (simp add: less_diff_conv)
    obtain t where t: "balloc_loop (log_dev s) (fs_sb s) (map (\<lambda>k. k * BPB) [j..<(unat (sb_size (fs_sb s)) + BPB - 1) div BPB]) s
        = balloc_loop (log_dev s) (fs_sb s) (map (\<lambda>k. k * BPB) [Suc j..<(unat (sb_size (fs_sb s)) + BPB - 1) div BPB]) t"
        "fs_step s t" "bview t = bview s" "dirty_keys t = dirty_keys s"
      using balloc_skip [OF p(1-4) lt] p(5) unfolding upt_chunk [OF order_refl lt] list.map by force
    note same = fs_same [OF t(2,3)] and ft = fs_stepD [OF t(2)]
    have "balloc_loop (log_dev t) (fs_sb t) (map (\<lambda>k. k * BPB) [Suc j..<(unat (sb_size (fs_sb t)) + BPB - 1) div BPB]) t
        = Panic ''fs1_balloc: out of blocks''"
      using Suc(1) [of t "Suc j"] Suc(2) ft same p fits_step [OF p(2) t(2)] t(4) by simp
    then show ?case using t(1) ft same by simp
  qed
  note loop = this
  obtain t where t: "fs1_readsb (log_dev s) s = Ret (fs_sb s) t" "fs_step s t" "bview t = bview s" "dirty_keys t = dirty_keys s"
    using fs1_readsb_law [OF assms(1-4)] by blast
  note same = fs_same [OF t(2,3)] and ft = fs_stepD [OF t(2)]
  show ?thesis
    using loop [of t 0] t ft same assms fits_step [OF assms(2) t(2)] by (simp add: fs1_balloc_def kbind_Ret)
qed

subsection \<open>The bitmap\<close>

lemma bit_clear_iff: "bit_clear x k \<longleftrightarrow> \<not> bit (x ! (k div 8)) (k mod 8)"
  by (simp add: bit_clear_def push_bit_eq_mult and_exp_eq_0_iff_not_bit)

lemma bit_clear_mark:
  assumes "k < BPB" and "bi < BPB" and "length x = BSIZE"
  shows "bit_clear (mark_used bi x) k \<longleftrightarrow> k \<noteq> bi \<and> bit_clear x k"
    and "bit_clear (mark_free bi x) k \<longleftrightarrow> k = bi \<or> bit_clear x k"
proof -
  have lt: "k div 8 < BSIZE" "bi div 8 < BSIZE" using assms(1,2) by auto
  have eq: "k = bi \<longleftrightarrow> k div 8 = bi div 8 \<and> k mod 8 = bi mod 8" by (metis div_mult_mod_eq)
  have one: "bit (push_bit n 1 :: u8) i \<longleftrightarrow> i = n" if "n < 8" "i < 8" for n i using that by (auto simp: bit_simps)
  show "bit_clear (mark_used bi x) k \<longleftrightarrow> k \<noteq> bi \<and> bit_clear x k"
    using lt assms(3) one [of "bi mod 8" "k mod 8"] unfolding bit_clear_iff mark_used_def eq
    by (auto simp: nth_list_update bit_or_iff)
  show "bit_clear (mark_free bi x) k \<longleftrightarrow> k = bi \<or> bit_clear x k"
    using lt assms(3) one [of "bi mod 8" "k mod 8"] unfolding bit_clear_iff mark_free_def eq
    by (auto simp: nth_list_update bit_and_iff bit_not_iff)
qed

text \<open>A write to a block of the data area, or of the bitmap, leaves the superblock and the other bits alone.\<close>

lemma fs_keep_data:
  assumes "fs_ok s" and "fs_step s t" and "\<And>n. n < data_start s \<Longrightarrow> fview t n = fview s n"
  shows "fs_sb t = fs_sb s" and "bmap_start t = bmap_start s" and "data_start t = data_start s" and "fs_ok t"
    and "b < unat (sb_size (fs_sb s)) \<Longrightarrow> block_free t b = block_free s b" and "bitmap_keys t = bitmap_keys s"
    and "busy_ok s \<Longrightarrow> busy_ok t"
proof -
  note f = fs_stepD [OF assms(2)]
  have one: "1 < data_start s" using fs_ok_nums(1,2) [OF assms(1)] by simp
  show sb: "fs_sb t = fs_sb s" using assms(3) [OF one] by (simp add: fs_sb_def)
  then show bm: "bmap_start t = bmap_start s" "data_start t = data_start s" by (simp_all add: bmap_start_def data_start_def)
  show "bitmap_keys t = bitmap_keys s" using f sb bm by (simp add: bitmap_keys_def)
  have free: "block_free t b = block_free s b" if "b < unat (sb_size (fs_sb s))" for b
    using assms(3) [OF fs_ok_nums(5) [OF assms(1) that]] by (simp add: block_free_def bm)
  then show "b < unat (sb_size (fs_sb s)) \<Longrightarrow> block_free t b = block_free s b" .
  show "fs_ok t" using assms(1) f sb bm free unfolding fs_ok_def by simp
  have "unat (log_start s) \<le> unat (sb_size (fs_sb s))" using assms(1) by (simp add: fs_ok_def)
  then show "busy_ok t" if "busy_ok s" using busy_ok_keep [OF that assms(2) bm(2)] free by simp
qed

lemma fview_upd:
  assumes "n < 0x10000000" and "k < 0x10000000" and "bview t = (bview s)((log_dev s, of_nat k) := x)" and "log_dev t = log_dev s"
  shows "fview t n = (if n = k then x else fview s n)"
  using assms of_nat_u32_eq [OF assms(1,2)] by (auto simp: fview_def)

lemma fs_bitmap_change:
  assumes "fs_ok s" and "fs_step s t" and "b < unat (log_start s)" and "data_start s \<le> b"
    and "\<forall>n<data_start s. fview t n = (if n = bmap_start s + b div BPB then g (fview s n) else fview s n)"
    and "\<forall>k<BPB. bit_clear (g (fview s (bmap_start s + b div BPB))) k \<longleftrightarrow>
      (if k = b mod BPB then c else bit_clear (fview s (bmap_start s + b div BPB)) k)"
  shows "fs_sb t = fs_sb s" and "data_start t = data_start s" and "bmap_start t = bmap_start s" and "fs_ok t"
    and "b' < unat (sb_size (fs_sb s)) \<Longrightarrow> block_free t b' = (if b' = b then c else block_free s b')" and "bitmap_keys t = bitmap_keys s"
proof -
  note f = fs_stepD [OF assms(2)]
  have one: "1 < bmap_start s" "bmap_start s < data_start s" using fs_ok_nums(1,2) [OF assms(1)] by simp_all
  show sb: "fs_sb t = fs_sb s" using assms(5) [rule_format, of 1] one by (simp add: fs_sb_def)
  then show bm: "bmap_start t = bmap_start s" "data_start t = data_start s" by (simp_all add: bmap_start_def data_start_def)
  show "bitmap_keys t = bitmap_keys s" using f sb bm by (simp add: bitmap_keys_def)
  have free: "block_free t b' = (if b' = b then c else block_free s b')" if lt: "b' < unat (sb_size (fs_sb s))" for b'
  proof -
    have "b' = b \<longleftrightarrow> b' div BPB = b div BPB \<and> b' mod BPB = b mod BPB" by (metis div_mult_mod_eq)
    then show ?thesis
      using assms(5) [rule_format, OF fs_ok_nums(5) [OF assms(1) lt]] assms(6) [rule_format, of "b' mod BPB"] by (auto simp: block_free_def bm)
  qed
  then show "b' < unat (sb_size (fs_sb s)) \<Longrightarrow> block_free t b' = (if b' = b then c else block_free s b')" .
  show "fs_ok t" using assms(1,3,4) f sb bm free unfolding fs_ok_def by simp
qed

lemma allocated_fview:
  assumes "txn s" and "fs_ok s" and "fs_step s t" and "bview t = allocated s b" and "b < unat (log_start s)" and "block_free s b"
    and "n < 0x10000000"
  shows "fview t n = (if n = b then replicate BSIZE 0 else if n = bmap_start s + b div BPB
    then mark_used (b mod BPB) (fview s n) else fview s n)"
proof -
  have b: "data_start s \<le> b" "b < unat (log_start s)" using fs_ok_size [OF assms(2,5)] assms(2,5,6) by (auto simp: fs_ok_def)
  have m: "bmap_start s + b div BPB < data_start s" "data_start s < 0x10000000" "b < 0x10000000"
    using fs_ok_nums(3,4) [OF assms(2)] fs_ok_nums(5) [OF assms(2) fs_ok_size [OF assms(2,5)]] b(2) by auto
  then show ?thesis
    using assms(4) fs_stepD [OF assms(3)] of_nat_u32_eq [OF assms(7), of b]
      of_nat_u32_eq [OF assms(7), of "bmap_start s + b div BPB"]
    by (auto simp: fview_def allocated_def)
qed

lemma allocated_state:
  assumes "txn s" and "fs_ok s" and "fs_step s t" and "bview t = allocated s b" and "b < unat (log_start s)" and "block_free s b"
  shows "fs_sb t = fs_sb s" and "data_start t = data_start s" and "bmap_start t = bmap_start s" and "fs_ok t"
    and "b' < unat (sb_size (fs_sb s)) \<Longrightarrow> block_free t b' = (b' \<noteq> b \<and> block_free s b')" and "bitmap_keys t = bitmap_keys s"
    and "busy_ok s \<Longrightarrow> busy_ok t"
proof -
  have b: "b < unat (log_start s)" "data_start s \<le> b" using fs_ok_size [OF assms(2,5)] assms(2,5,6) by (auto simp: fs_ok_def)
  have m: "bmap_start s + b div BPB < data_start s" "bmap_start s + b div BPB < unat (log_start s)"
    using fs_ok_nums(5) [OF assms(2) fs_ok_size [OF assms(2,5)]] b by auto
  have len: "length (fview s (bmap_start s + b div BPB)) = BSIZE"
    using fview_length [OF assms(1)] fs_key(2) [OF assms(2) m(2)] by blast
  have v: "\<forall>n<data_start s. fview t n = (if n = bmap_start s + b div BPB then mark_used (b mod BPB) (fview s n) else fview s n)"
    using allocated_fview [OF assms(1-6)] b fs_ok_nums(3) [OF assms(2)] by simp
  have c: "\<forall>k<BPB. bit_clear (mark_used (b mod BPB) (fview s (bmap_start s + b div BPB))) k \<longleftrightarrow>
      (if k = b mod BPB then False else bit_clear (fview s (bmap_start s + b div BPB)) k)"
    using bit_clear_mark(1) [OF _ _ len, of _ "b mod BPB"] by auto
  note ch = fs_bitmap_change [OF assms(2,3) b v c]
  show "fs_sb t = fs_sb s" "data_start t = data_start s" "bmap_start t = bmap_start s" "fs_ok t" "bitmap_keys t = bitmap_keys s"
    using ch(1-4,6) by auto
  show free: "block_free t b' = (b' \<noteq> b \<and> block_free s b')" if "b' < unat (sb_size (fs_sb s))" for b'
    using ch(5) [OF that] by auto
  have le: "unat (log_start s) \<le> unat (sb_size (fs_sb s))" using assms(2) by (simp add: fs_ok_def)
  show "busy_ok t" if "busy_ok s"
    using busy_ok_keep [OF that assms(3) ch(2)] free le by simp
qed

lemma fs1_bfree_law:
  assumes "txn s" and "fs_fits m X s" and "fs_ok s" and "busy_ok s" and "data_start s \<le> b" and "b < unat (log_start s)"
  shows "if block_free s b then fs1_bfree (log_dev s) (of_nat b) s = Panic ''freeing free block''
    else \<exists>t. fs1_bfree (log_dev s) (of_nat b) s = Ret () t \<and> fs_step s t \<and> same_inodes s t
      \<and> bview t = (bview s)((log_dev s, of_nat (bmap_start s + b div BPB)) := mark_free (b mod BPB) (fview s (bmap_start s + b div BPB)))
      \<and> dirty_keys t = insert (log_dev s, of_nat (bmap_start s + b div BPB)) (dirty_keys s)"
proof -
  define n where "n = bmap_start s + b div BPB"
  obtain t where t: "fs1_readsb (log_dev s) s = Ret (fs_sb s) t" "fs_step s t" "same_inodes s t" "bview t = bview s"
      "dirty_keys t = dirty_keys s"
    using fs1_readsb_law [OF assms(1-4)] by blast
  note same = fs_same [OF t(2,4)] and ft = fs_stepD [OF t(2)]
  have lt: "b < unat (sb_size (fs_sb s))" using assms(3,6) by (simp add: fs_ok_def)
  have n: "n < data_start s" "n < unat (log_start s)" using fs_ok_nums(5) [OF assms(3) lt] assms(5,6) by (auto simp: n_def)
  note key = fs_key [OF assms(3) n(2)]
  have nb: "(log_dev t, of_nat n) \<notin> busy_keys t" using busy_ok_meta [OF assms(3,4)] n ft by auto
  have fit: "fs_fits m X t" using fits_step [OF assms(2) t(2)] t(5) by simp
  have ub: "unat (of_nat b :: u32) = b" using assms(6) fs_ok_nums(4) [OF assms(3)] by (intro u32_of_nat_small) simp
  have bb: "BBLOCK b (sb_ninodes (fs_sb s)) = of_nat n" by (simp add: BBLOCK_def n_def bmap_start_def ac_simps)
  have len: "length (fview s n) = BSIZE" using fview_length [OF assms(1)] key(2) by blast
  obtain bp v where v: "bread (log_dev t) (of_nat n) t = Ret bp v" "bdata_of bp v = Ret (fview s n) v"
      "\<exists>u. kthen (bmodify bp (mark_free (b mod BPB))) (kthen (log_write bp) (brelse bp)) v = Ret () u \<and> fs_step t u
        \<and> same_inodes t u \<and> bview u = (bview t)((log_dev t, of_nat n) := mark_free (b mod BPB) (fview s n))
        \<and> dirty_keys u = insert (log_dev t, of_nat n) (dirty_keys t)"
    using fs_open [OF _ fit _ nb] key ft len t(4) unfolding fview_def by auto
  then show ?thesis
    using t ft ub bb fs_step_trans [OF t(2)] same_inodes_trans [OF t(3)]
    by (auto simp: fs1_bfree_def Let_def kbind_Ret block_free_def n_def [symmetric] kpanic_def)
qed

section \<open>A small disk\<close>

text \<open>A disk of 130 sectors: superblock, inode sectors 2 to 4, bitmap sector 5, data from 6 on, the log from 100 on. The
  one empty file, inode 2, is in memory and locked.\<close>

definition fs_disk :: "bool \<times> nat \<Rightarrow> block" where
  "fs_disk = (\<lambda>_. replicate BSIZE 0)(
     (True, 1) := bytes32 130 @ bytes32 94 @ bytes32 8 @ bytes32 30 @ replicate 496 0,
     (True, 2) := replicate 256 0 @ bytes16 T_FILE @ replicate 4 0 @ bytes16 1 @ replicate 248 0,
     (True, 5) := [0x3F] @ replicate 11 0 @ [0xF0, 0xFF, 0xFF, 0xFF, 0x03] @ replicate 495 0)"

definition fs_demo :: fsst where
  "fs_demo = pipest.extend (logst.extend (log_ready\<lparr>disk := fs_disk\<rparr>) \<lparr>pipes = Map.empty\<rparr>)
     \<lparr>fs1_icache = zero_inode\<lparr>idev := 1, inum := 2, iref := 1, ibusy := True, ivalid := True, itype := T_FILE, nlink := 1\<rparr>
         # replicate 49 zero_inode,
      icache = replicate 25 zero_inode, unused_nodes = 25, fsmap = [\<lparr>fs_type = 1, fs_dev = 1, fs_used = 1\<rparr>], ROOT_DEV = 1,
      ext2_sb = replicate 1024 0\<rparr>"

lemma fs_demo_fields [simp]:
  "log_dev fs_demo = 1" "log_start fs_demo = 100" "log_size fs_demo = 30" "outstanding fs_demo = 1" "lh_n fs_demo = 0"
  "lh_sector fs_demo = replicate LOGSIZE 0" "disk fs_demo = fs_disk" "bufs fs_demo = bufs bio_ready" "ptable fs_demo = ptable bio_ready"
  "idequeue fs_demo = idequeue bio_ready" "havedisk1 fs_demo = havedisk1 bio_ready" "ide_err fs_demo = ide_err bio_ready"
  "fs1_icache fs_demo = zero_inode\<lparr>idev := 1, inum := 2, iref := 1, ibusy := True, ivalid := True, itype := T_FILE, nlink := 1\<rparr>
     # replicate 49 zero_inode"
  "icache fs_demo = replicate 25 zero_inode" "fsmap fs_demo = [\<lparr>fs_type = 1, fs_dev = 1, fs_used = 1\<rparr>]" "ROOT_DEV fs_demo = 1"
  by (simp_all add: fs_demo_def pipest.extend_def logst.extend_def log_ready_def bio.extend_def)

lemma fs_disk_ok: "disk_ok fs_disk"
  by (simp add: disk_ok_def fs_disk_def)

lemma fs_demo_bio: "bio_inv fs_demo {}" "busy_keys fs_demo = {}" "dirty_keys fs_demo = {}"
proof -
  have r: "bio_inv bio_ready {}" "busy_keys bio_ready = {}" "dirty_keys bio_ready = {}" "\<forall>i<NBUF. bdev (bufs bio_ready i) = - 1"
    using bio_ready by blast+
  have "buf_ok fs_disk (i \<in> {}) (bufs bio_ready i)" if "i < NBUF" for i
    using bio_inv_buf [OF r(1) that] r(4) that by (simp add: buf_ok_def)
  then show "bio_inv fs_demo {}" using r(1) fs_disk_ok by (simp add: bio_inv_def)
  show "busy_keys fs_demo = {}" "dirty_keys fs_demo = {}" using r(2,3) by (simp_all add: busy_keys_def dirty_keys_def)
qed

lemma fs_demo_view: "n < 0x10000000 \<Longrightarrow> fview fs_demo n = fs_disk (True, n)"
proof -
  assume n: "n < 0x10000000"
  have u: "unat (of_nat n :: u32) = n" using n by (intro u32_of_nat_small) simp
  have k: "ide_key (1, of_nat n :: u32)" using n u by (simp add: ide_key_def word_less_nat_alt)
  have "pkey (bufs bio_ready i) \<noteq> (1, of_nat n)" if "i < NBUF" for i
    using bio_ready that by (auto simp: pkey_def)
  then have "bcached fs_demo (1, of_nat n) = None" by (simp add: bcached_def find_None_iff)
  then have "bview fs_demo (1, of_nat n) = fs_disk (key_loc (1, of_nat n))" using bview_uncached [OF _ k, of fs_demo] by simp
  moreover have "key_loc (1, of_nat n :: u32) = (True, n)" using ide_loc_small k u n by (simp add: ide_key_def)
  ultimately show ?thesis by (simp add: fview_def)
qed

lemma fs_demo_sb: "fs_sb fs_demo = \<lparr>sb_size = 130, sb_nblocks = 94, sb_ninodes = 8, sb_nlog = 30\<rparr>"
  by (simp add: fs_sb_def fs_demo_view fs_disk_def sb_of_def get32_def slice_def)

lemma fs_demo_nums: "bmap_start fs_demo = 5" "data_start fs_demo = 6"
  by (simp_all add: bmap_start_def data_start_def fs_demo_sb)

lemma bit_clear_append: "b div 8 < length xs \<Longrightarrow> bit_clear (xs @ ys) b \<longleftrightarrow> bit_clear xs b"
  by (simp add: bit_clear_def nth_append)

lemma fs_demo_free: "b < 130 \<Longrightarrow> block_free fs_demo b \<longleftrightarrow> 6 \<le> b \<and> b < 100"
proof -
  assume b: "b < 130"
  have "list_all (\<lambda>b. bit_clear ([0x3F] @ replicate 11 0 @ [0xF0, 0xFF, 0xFF, 0xFF, 0x03]) b \<longleftrightarrow> 6 \<le> b \<and> b < 100) [0..<130]"
    by code_simp
  then have *: "bit_clear ([0x3F] @ replicate 11 0 @ [0xF0, 0xFF, 0xFF, 0xFF, 0x03]) b \<longleftrightarrow> 6 \<le> b \<and> b < 100"
    using b by (simp only: list_all_iff) auto
  have "b div 8 < 17" using b by simp
  then have "bit_clear (([0x3F] @ replicate 11 0 @ [0xF0, 0xFF, 0xFF, 0xFF, 0x03]) @ replicate 495 0) b \<longleftrightarrow> 6 \<le> b \<and> b < 100"
    using * by (subst bit_clear_append) simp_all
  then show ?thesis using b by (simp add: block_free_def fs_demo_nums fs_demo_view fs_disk_def)
qed

lemma fs_demo_ok: "txn fs_demo" "fs_ok fs_demo" "busy_ok fs_demo" "fs_fits 20 (bitmap_keys fs_demo) fs_demo"
proof -
  have "head_n (fs_disk (key_loc (head_key fs_demo))) = 0"
    by (simp add: head_key_def ide_loc_def GETDEVNUM_def head_n_def get32_zeros fs_disk_def)
  then have "log_ok fs_demo" using fs_demo_bio by (simp add: log_ok_def log_geom_def)
  then show "txn fs_demo" using fs_demo_bio by (simp add: txn_def)
  show "fs_ok fs_demo" by (simp add: fs_ok_def fs_demo_sb fs_demo_nums fs_demo_free)
  show "busy_ok fs_demo" using fs_demo_bio by (simp add: busy_ok_def)
  have "bitmap_keys fs_demo = {(1, 5)}" by (simp add: bitmap_keys_def fs_demo_sb fs_demo_nums)
  then show "fs_fits 20 (bitmap_keys fs_demo) fs_demo" using fs_demo_bio by (simp add: fs_fits_def)
qed

section \<open>Properties\<close>

text \<open>
  C18: allocation of a block. Inside a transaction with room for it and with a free block below the log, \<open>fs1_balloc\<close>
  returns the lowest block that the bitmap has free. That block lies in the data area, is marked in use and reads as
  zeros; every other bit of the bitmap and every sector but that of the bitmap are as before, the disk stays
  well-formed and nothing is written to it yet. When no block at all is free the kernel panics.
\<close>

theorem balloc_fresh:
  assumes "txn s" and "fs_fits m X s" and "bitmap_keys s \<subseteq> X" and "fs_ok s" and "busy_ok s"
  shows "((\<exists>b<unat (log_start s). block_free s b) \<longrightarrow>
      (\<exists>b t. fs1_balloc (log_dev s) s = Ret (of_nat b) t \<and> block_free s b \<and> (\<forall>b'<b. \<not> block_free s b')
      \<and> data_start s \<le> b \<and> b < unat (log_start s) \<and> fview t b = replicate BSIZE 0 \<and> disk t = disk s
      \<and> (\<forall>b'<unat (sb_size (fs_sb s)). block_free t b' \<longleftrightarrow> b' \<noteq> b \<and> block_free s b')
      \<and> (\<forall>n<0x10000000. n \<noteq> b \<longrightarrow> n \<noteq> bmap_start s + b div BPB \<longrightarrow> fview t n = fview s n)
      \<and> txn t \<and> fs_ok t \<and> busy_keys t = busy_keys s))
    \<and> ((\<forall>b<unat (sb_size (fs_sb s)). \<not> block_free s b) \<longrightarrow> fs1_balloc (log_dev s) s = Panic ''fs1_balloc: out of blocks'')"
proof (intro conjI impI)
  assume ex: "\<exists>b<unat (log_start s). block_free s b"
  define b where "b = (LEAST b. b < unat (log_start s) \<and> block_free s b)"
  have b: "b < unat (log_start s)" "block_free s b"
    using LeastI_ex [OF ex] by (simp_all add: b_def)
  have low: "\<not> block_free s b'" if "b' < b" for b'
    using not_less_Least [of b' "\<lambda>b. b < unat (log_start s) \<and> block_free s b"] that b(1) by (auto simp: b_def)
  obtain t where t: "fs1_balloc (log_dev s) s = Ret (of_nat b) t" "fs_step s t" "bview t = allocated s b"
    using fs1_balloc_law [OF assms(1,2,4,5) b assms(3) low] by blast
  have in_data: "data_start s \<le> b" using fs_ok_size [OF assms(4) b(1)] assms(4) b(2) by (auto simp: fs_ok_def)
  have lim: "b < 0x10000000" using b(1) fs_ok_nums(4) [OF assms(4)] by linarith
  note v = allocated_fview [OF assms(1,4) t(2,3) b] and st = allocated_state [OF assms(1,4) t(2,3) b]
  have "txn t \<and> busy_keys t = busy_keys s \<and> disk t = disk s"
    using t(2) fs_frame_fields(6) by (auto simp: fs_step_def)
  then show "\<exists>b t. fs1_balloc (log_dev s) s = Ret (of_nat b) t \<and> block_free s b \<and> (\<forall>b'<b. \<not> block_free s b')
      \<and> data_start s \<le> b \<and> b < unat (log_start s) \<and> fview t b = replicate BSIZE 0 \<and> disk t = disk s
      \<and> (\<forall>b'<unat (sb_size (fs_sb s)). block_free t b' \<longleftrightarrow> b' \<noteq> b \<and> block_free s b')
      \<and> (\<forall>n<0x10000000. n \<noteq> b \<longrightarrow> n \<noteq> bmap_start s + b div BPB \<longrightarrow> fview t n = fview s n)
      \<and> txn t \<and> fs_ok t \<and> busy_keys t = busy_keys s"
    using t(1) b low in_data v lim st(4,5) by (intro exI [of _ b] exI [of _ t]) simp
next
  assume "\<forall>b<unat (sb_size (fs_sb s)). \<not> block_free s b"
  then show "fs1_balloc (log_dev s) s = Panic ''fs1_balloc: out of blocks''" using fs1_balloc_full [OF assms(1,2,4,5)] by auto
qed

theorem balloc_fresh_witness:
  "\<exists>b t. fs1_balloc (log_dev fs_demo) fs_demo = Ret (of_nat b) t \<and> block_free fs_demo b \<and> \<not> block_free t b"
proof -
  have "\<exists>b<unat (log_start fs_demo). block_free fs_demo b"
    by (rule exI [of _ 6]) (simp add: fs_demo_free)
  note ex = conjunct1 [OF balloc_fresh [OF fs_demo_ok(1,4) order_refl fs_demo_ok(2,3)], rule_format, OF this]
  obtain b t where t: "fs1_balloc (log_dev fs_demo) fs_demo = Ret (of_nat b) t" "block_free fs_demo b"
      "b < unat (log_start fs_demo)"
      "\<forall>b'<unat (sb_size (fs_sb fs_demo)). block_free t b' \<longleftrightarrow> b' \<noteq> b \<and> block_free fs_demo b'"
    using ex by (elim exE conjE) (rule that)
  have "b < unat (sb_size (fs_sb fs_demo))" by (rule fs_ok_size [OF fs_demo_ok(2) t(3)])
  with t(4) have "\<not> block_free t b" by blast
  then show ?thesis using t(1,2) by blast
qed

text \<open>
  C19: release of a block. Inside a transaction with room for one more sector, \<open>fs1_bfree\<close> of a data block panics when the
  block is free already; otherwise it makes exactly this block free: every other bit, every sector but that of the
  bitmap and the disk itself stay as they are. The content of the block is not cleared.
\<close>

theorem bfree_releases:
  assumes "txn s" and "fs_fits m X s" and "fs_ok s" and "busy_ok s" and "data_start s \<le> b" and "b < unat (log_start s)"
  shows "if block_free s b then fs1_bfree (log_dev s) (of_nat b) s = Panic ''freeing free block''
    else \<exists>t. fs1_bfree (log_dev s) (of_nat b) s = Ret () t \<and> disk t = disk s \<and> txn t \<and> fs_ok t
      \<and> (\<forall>b'<unat (sb_size (fs_sb s)). block_free t b' \<longleftrightarrow> b' = b \<or> block_free s b')
      \<and> (\<forall>n<0x10000000. n \<noteq> bmap_start s + b div BPB \<longrightarrow> fview t n = fview s n)"
proof (cases "block_free s b")
  case False
  define n where "n = bmap_start s + b div BPB"
  obtain t where t: "fs1_bfree (log_dev s) (of_nat b) s = Ret () t" "fs_step s t"
      "bview t = (bview s)((log_dev s, of_nat n) := mark_free (b mod BPB) (fview s n))"
    using fs1_bfree_law [OF assms] False by (auto simp: n_def)
  have lt: "b < unat (sb_size (fs_sb s))" using assms(3,6) by (simp add: fs_ok_def)
  have n: "n < data_start s" "n < unat (log_start s)" "data_start s < 0x10000000"
    using fs_ok_nums(3) [OF assms(3)] fs_ok_nums(5) [OF assms(3) lt] assms(5,6) by (auto simp: n_def)
  have v: "fview t i = (if i = n then mark_free (b mod BPB) (fview s n) else fview s i)" if "i < 0x10000000" for i
    using t(3) fs_stepD [OF t(2)] of_nat_u32_eq [OF that, of n] n by (auto simp: fview_def)
  have len: "length (fview s n) = BSIZE" using fview_length [OF assms(1)] fs_key(2) [OF assms(3) n(2)] by blast
  have i: "\<forall>i<data_start s. fview t i = (if i = bmap_start s + b div BPB then mark_free (b mod BPB) (fview s i) else fview s i)"
    using v n(3) by (simp add: n_def)
  have k: "\<forall>k<BPB. bit_clear (mark_free (b mod BPB) (fview s (bmap_start s + b div BPB))) k \<longleftrightarrow>
      (if k = b mod BPB then True else bit_clear (fview s (bmap_start s + b div BPB)) k)"
    using bit_clear_mark(2) [OF _ _ len, of _ "b mod BPB"] by (auto simp: n_def)
  note ch = fs_bitmap_change [OF assms(3) t(2) assms(6,5) i k]
  have "fs_ok t" "\<forall>b'<unat (sb_size (fs_sb s)). block_free t b' \<longleftrightarrow> b' = b \<or> block_free s b'"
    using ch(4,5) by auto
  moreover have "txn t" "disk t = disk s" using t(2) fs_frame_fields(6) by (auto simp: fs_step_def)
  ultimately show ?thesis using False t(1) v by (auto simp: n_def)
next
  case True
  then show ?thesis using fs1_bfree_law [OF assms] by simp
qed

theorem bfree_releases_witness:
  "fs1_bfree (log_dev fs_demo) (of_nat 99) fs_demo = Panic ''freeing free block''
    \<and> (\<exists>t u. fs1_balloc 1 fs_demo = Ret 6 t \<and> fs1_bfree 1 6 t = Ret () u \<and> \<not> block_free t 6 \<and> block_free u 6)"
proof -
  have free: "block_free fs_demo 6" "6 < unat (log_start fs_demo)" "\<And>b. b < 6 \<Longrightarrow> \<not> block_free fs_demo b"
    by (simp_all add: fs_demo_free fs_demo_sb)
  then obtain t where t: "fs1_balloc (log_dev fs_demo) fs_demo = Ret (of_nat 6) t" "fs_step fs_demo t" "bview t = allocated fs_demo 6"
      "dirty_keys t = dirty_keys fs_demo \<union> alloc_keys fs_demo 6"
    using fs1_balloc_law [OF fs_demo_ok(1,4,2,3) free(2,1) order_refl free(3)] by blast
  note st = allocated_state [OF fs_demo_ok(1,2) t(2,3) free(2,1)] and f = fs_stepD [OF t(2)]
  have "fs_fits 18 (bitmap_keys fs_demo) t"
    using fs_demo_bio f t(4) unfolding fs_fits_def alloc_keys_def by (simp add: fs_demo_nums bitmap_keys_def fs_demo_sb)
  moreover have "txn t" using t(2) by (simp add: fs_step_def)
  moreover have "data_start t \<le> 6" "6 < unat (log_start t)" "\<not> block_free t 6" "log_dev t = 1" "6 < unat (sb_size (fs_sb t))"
    using st(1,2) st(5) [of 6] f by (simp_all add: fs_demo_nums fs_demo_sb)
  ultimately have "\<exists>u. fs1_bfree 1 6 t = Ret () u \<and> block_free u 6"
    using bfree_releases [of t 18 "bitmap_keys fs_demo" 6] st(4) st(7) [OF fs_demo_ok(3)] by auto
  moreover have "data_start fs_demo \<le> 99" "99 < unat (log_start fs_demo)" "block_free fs_demo 99"
    by (simp_all add: fs_demo_nums fs_demo_free)
  ultimately show ?thesis
    using bfree_releases [OF fs_demo_ok(1,4,2,3), of 99] t(1) \<open>\<not> block_free t 6\<close> by auto
qed

end
