(* ===== verification/Fs_Inode.thy ===== *)
theory Fs_Inode
  imports Fs_Block
begin

text \<open>
  Inodes and their contents, the files layer of \<open>kernel/fs/fs1.c\<close> with the dispatching functions of \<open>kernel/vfs.c\<close>
  that it calls back, and \<open>kernel/fs/ext2.c\<close>: the on-disk inode, the map from file blocks to disk blocks, reading,
  writing and truncating, locking, and dropping references.

  \<open>vfs.c\<close> chooses a file system by the device of the inode; most functions of \<open>ext2.c\<close> only panic. The table
  \<open>devsw\<close> of device functions holds pointers that the drivers set; it is the argument \<open>devsw\<close> here, by major
  number. A reader returns the bytes it stored in the caller's buffer. The printed dump of \<open>ext2_readinode\<close> is
  left out.

  The loops of \<open>fs1_readi\<close> and \<open>fs1_writei\<close> cut the range into pieces inside one block, which depend on offset and
  length only; \<open>chunks\<close> lists them and the loops run over the list.
\<close>

section \<open>Definitions\<close>

abbreviation (input) FS_TYPE_FS1 :: u16 where "FS_TYPE_FS1 \<equiv> 1"
abbreviation (input) FS_TYPE_EXT2 :: u16 where "FS_TYPE_EXT2 \<equiv> 2"
abbreviation (input) NDEV :: nat where "NDEV \<equiv> 10"

record stat =
  st_type :: u16
  st_dev :: u32
  st_ino :: u32
  st_nlink :: u16
  st_size :: u32

text \<open>The device functions by major number: read (the bytes stored and the result) and write.\<close>

type_synonym 's devtab = "nat \<Rightarrow> (iptr \<Rightarrow> u32 \<Rightarrow> ('s, int \<times> u8 list) kmon) option
   \<times> (iptr \<Rightarrow> u8 list \<Rightarrow> u32 \<Rightarrow> ('s, int) kmon) option"

subsection \<open>Choosing the file system\<close>

definition getfstype :: "u64 \<Rightarrow> ('a fsst_scheme, u16) kmon" where
  "getfstype dev = kget (\<lambda>s. case find (\<lambda>e. fs_used e = 1 \<and> fs_dev e = dev) (fsmap s) of
     Some e \<Rightarrow> fs_type e | None \<Rightarrow> - 1)"

definition setfstype :: "u64 \<Rightarrow> u16 \<Rightarrow> ('a fsst_scheme, int) kmon" where
  "setfstype dev t = kbind (kget fsmap) (\<lambda>es. case find_first (\<lambda>e. fs_used e = 0) es of
     Some i \<Rightarrow> kthen (kmodify (\<lambda>s. s\<lparr>fsmap := es[i := \<lparr>fs_type = t, fs_dev = dev, fs_used = 1\<rparr>]\<rparr>)) (kreturn 1)
   | None \<Rightarrow> kreturn (- 1))"

definition by_fstype :: "u32 \<Rightarrow> ('a fsst_scheme, 'b) kmon \<Rightarrow> ('a fsst_scheme, 'b) kmon \<Rightarrow> ('a fsst_scheme, 'b) kmon" where
  "by_fstype dev ext2 fs1 = kbind (getfstype (ucast dev)) (\<lambda>t.
     if t = FS_TYPE_EXT2 then ext2 else if t = FS_TYPE_FS1 then fs1 else kpanic ''Unknown fs type'')"

subsection \<open>Inodes on disk\<close>

definition put_dinode :: "nat \<Rightarrow> inode \<Rightarrow> block \<Rightarrow> block" where
  "put_dinode o1 i x = put_sectors (o1 + 12) (addrs i) (put32 (o1 + 8) (isize i) (put16 (o1 + 6) (nlink i)
     (put16 (o1 + 4) (iminor i) (put16 (o1 + 2) (imajor i) (put16 o1 (itype i) x)))))"

definition get_dinode :: "nat \<Rightarrow> block \<Rightarrow> inode \<Rightarrow> inode" where
  "get_dinode o1 x i = i\<lparr>itype := get16 o1 x, imajor := get16 (o1 + 2) x, iminor := get16 (o1 + 4) x,
     nlink := get16 (o1 + 6) x, isize := get32 (o1 + 8) x, addrs := map (\<lambda>k. get32 (o1 + 12 + 4 * k) x) [0..<29]\<rparr>"

definition dinode_off :: "u32 \<Rightarrow> nat" where
  "dinode_off n = 128 * (unat n mod IPB)"

definition fs1_iupdate :: "iptr \<Rightarrow> ('a fsst_scheme, unit) kmon" where
  "fs1_iupdate ip = kbind (inode_at ip) (\<lambda>i. kbind (bread (idev i) (IBLOCK (inum i))) (\<lambda>bp.
     kthen (bmodify bp (put_dinode (dinode_off (inum i)) i)) (kthen (log_write bp) (brelse bp))))"

definition fs1_readinode :: "iptr \<Rightarrow> ('a fsst_scheme, unit) kmon" where
  "fs1_readinode ip = kbind (inode_at ip) (\<lambda>i. kbind (bread (idev i) (IBLOCK (inum i))) (\<lambda>bp.
     kbind (bdata_of bp) (\<lambda>x.
       kthen (set_inode ip (get_dinode (dinode_off (inum i)) x)) (brelse bp))))"

definition ext2_iupdate :: "iptr \<Rightarrow> ('a fsst_scheme, unit) kmon" where
  "ext2_iupdate ip = kpanic ''ext2_iupdate not implemented yet''"

definition iupdate :: "iptr \<Rightarrow> ('a fsst_scheme, unit) kmon" where
  "iupdate ip = kbind (inode_at ip) (\<lambda>i. by_fstype (idev i) (ext2_iupdate ip) (fs1_iupdate ip))"

definition fs1_stati :: "inode \<Rightarrow> stat" where
  "fs1_stati i = \<lparr>st_type = itype i, st_dev = idev i, st_ino = inum i, st_nlink = nlink i, st_size = isize i\<rparr>"

definition ext2_stati :: "iptr \<Rightarrow> ('a fsst_scheme, stat) kmon" where
  "ext2_stati ip = kpanic ''ext2_stati not implemented yet''"

definition stati :: "iptr \<Rightarrow> ('a fsst_scheme, stat) kmon" where
  "stati ip = kbind (inode_at ip) (\<lambda>i. by_fstype (idev i) (ext2_stati ip) (kreturn (fs1_stati i)))"

subsection \<open>The blocks of a file\<close>

text \<open>\<open>if ((addr = ip->addrs[k]) == 0) ip->addrs[k] = addr = fs1_balloc(ip->dev);\<close>\<close>

definition addr_or_alloc :: "iptr \<Rightarrow> nat \<Rightarrow> ('a fsst_scheme, u32) kmon" where
  "addr_or_alloc ip k = kbind (inode_at ip) (\<lambda>i.
     if addrs i ! k \<noteq> 0 then kreturn (addrs i ! k)
     else kbind (fs1_balloc (idev i)) (\<lambda>a.
       kthen (set_inode ip (\<lambda>i. i\<lparr>addrs := (addrs i)[k := a]\<rparr>)) (kreturn a)))"

definition fs1_bmap :: "iptr \<Rightarrow> nat \<Rightarrow> ('a fsst_scheme, u32) kmon" where
  "fs1_bmap ip bn =
     (if bn < NDIRECT then addr_or_alloc ip bn
      else if bn - NDIRECT < NINDIRECT then
        kbind (addr_or_alloc ip NDIRECT) (\<lambda>addr. kbind (inode_at ip) (\<lambda>i.
        kbind (bread (idev i) addr) (\<lambda>bp. kbind (bdata_of bp) (\<lambda>x.
          let a = get32 (4 * (bn - NDIRECT)) x in
          kbind (if a \<noteq> 0 then kreturn a
            else kbind (fs1_balloc (idev i)) (\<lambda>a.
              kthen (bmodify bp (put32 (4 * (bn - NDIRECT)) a)) (kthen (log_write bp) (kreturn a))))
          (\<lambda>addr. kthen (brelse bp) (kreturn addr))))))
      else kpanic ''fs1_bmap: out of range'')"

fun itrunc_direct :: "iptr \<Rightarrow> nat list \<Rightarrow> ('a fsst_scheme, unit) kmon" where
  "itrunc_direct ip [] = kreturn ()"
| "itrunc_direct ip (k # ks) = kbind (inode_at ip) (\<lambda>i.
     kthen (if addrs i ! k \<noteq> 0
       then kthen (fs1_bfree (idev i) (addrs i ! k)) (set_inode ip (\<lambda>i. i\<lparr>addrs := (addrs i)[k := 0]\<rparr>))
       else kreturn ())
     (itrunc_direct ip ks))"

fun itrunc_indirect :: "u32 \<Rightarrow> u32 list \<Rightarrow> ('a fsst_scheme, unit) kmon" where
  "itrunc_indirect dev [] = kreturn ()"
| "itrunc_indirect dev (a # as) =
     kthen (if a \<noteq> 0 then fs1_bfree dev a else kreturn ()) (itrunc_indirect dev as)"

definition fs1_itrunc :: "iptr \<Rightarrow> ('a fsst_scheme, unit) kmon" where
  "fs1_itrunc ip =
     kthen (itrunc_direct ip [0..<NDIRECT])
     (kbind (inode_at ip) (\<lambda>i.
       kthen (if addrs i ! NDIRECT \<noteq> 0 then
           kbind (bread (idev i) (addrs i ! NDIRECT)) (\<lambda>bp. kbind (bdata_of bp) (\<lambda>x.
             kthen (itrunc_indirect (idev i) (map (\<lambda>j. get32 (4 * j) x) [0..<NINDIRECT]))
             (kthen (brelse bp)
             (kthen (fs1_bfree (idev i) (addrs i ! NDIRECT))
               (set_inode ip (\<lambda>i. i\<lparr>addrs := (addrs i)[NDIRECT := 0]\<rparr>))))))
         else kreturn ())
       (kthen (set_inode ip (\<lambda>i. i\<lparr>isize := 0\<rparr>)) (iupdate ip))))"

subsection \<open>Reading and writing\<close>

function chunks :: "nat \<Rightarrow> nat \<Rightarrow> (nat \<times> nat) list" where
  "chunks off n = (if n = 0 then [] else
     let m = min n (BSIZE - off mod BSIZE) in (off, m) # chunks (off + m) (n - m))"
  by pat_completeness auto
termination
  by (relation "measure (\<lambda>(off, n). n)") (auto simp: less_Suc_eq_le [symmetric] Let_def)

declare chunks.simps [simp del]

fun readi_loop :: "iptr \<Rightarrow> (nat \<times> nat) list \<Rightarrow> ('a fsst_scheme, u8 list) kmon" where
  "readi_loop ip [] = kreturn []"
| "readi_loop ip ((off, m) # cs) = kbind (inode_at ip) (\<lambda>i.
     kbind (fs1_bmap ip (off div BSIZE)) (\<lambda>a. kbind (bread (idev i) a) (\<lambda>bp. kbind (bdata_of bp) (\<lambda>x.
       kthen (brelse bp)
         (kbind (readi_loop ip cs) (\<lambda>bs. kreturn (slice (off mod BSIZE) m x @ bs)))))))"

definition fs1_readi :: "iptr \<Rightarrow> u32 \<Rightarrow> u32 \<Rightarrow> ('a fsst_scheme, int \<times> u8 list) kmon" where
  "fs1_readi ip off n = kbind (inode_at ip) (\<lambda>i.
     if off > isize i \<or> off + n < off then kreturn (- 1, [])
     else let n = (if off + n > isize i then isize i - off else n) in
       kbind (readi_loop ip (chunks (unat off) (unat n))) (\<lambda>bs. kreturn (sint n, bs)))"

fun writei_loop :: "iptr \<Rightarrow> u8 list \<Rightarrow> (nat \<times> nat) list \<Rightarrow> ('a fsst_scheme, unit) kmon" where
  "writei_loop ip src [] = kreturn ()"
| "writei_loop ip src ((off, m) # cs) = kbind (inode_at ip) (\<lambda>i.
     kbind (fs1_bmap ip (off div BSIZE)) (\<lambda>a. kbind (bread (idev i) a) (\<lambda>bp.
       kthen (bmodify bp (splice (off mod BSIZE) (take m src)))
       (kthen (log_write bp) (kthen (brelse bp) (writei_loop ip (drop m src) cs))))))"

definition fs1_writei :: "iptr \<Rightarrow> u8 list \<Rightarrow> u32 \<Rightarrow> u32 \<Rightarrow> ('a fsst_scheme, int) kmon" where
  "fs1_writei ip src off n = kbind (inode_at ip) (\<lambda>i.
     if off > isize i \<or> off + n < off then kreturn (- 1)
     else if unat (off + n) > MAXFILE * BSIZE then kreturn (- 1)
     else if length src < unat n then kfault ''src''
     else kthen (writei_loop ip src (chunks (unat off) (unat n)))
       (kbind (inode_at ip) (\<lambda>i.
         kthen (if n > 0 \<and> off + n > isize i
           then kthen (set_inode ip (\<lambda>i. i\<lparr>isize := off + n\<rparr>)) (iupdate ip) else kreturn ())
         (kreturn (sint n)))))"

text \<open>\<open>ext2_readi\<close>. The buffer is a page of kernel memory; \<open>readblock\<close> gets its first \<open>n\<close> bytes. The result has the
  bytes moved to \<open>dst\<close>, one inode whatever was asked for.\<close>

definition mem_store :: "u64 \<Rightarrow> u8 list \<Rightarrow> memory \<Rightarrow> memory" where
  "mem_store a bs m = (\<lambda>b. if unat (b - a) < length bs then bs ! unat (b - a) else m b)"

definition ext2_index :: "inode \<Rightarrow> ('a fsst_scheme, int \<times> int \<times> int) kmon" where
  "ext2_index i = kbind (kget ext2_sb) (\<lambda>sb. kbind ext2_blocksize (\<lambda>blocksize.
     let g = get32 40 sb; inodesize = (if get32 76 sb \<ge> 1 then uint (get16 88 sb) else FS_EXT2_OLD_INODE_SIZE) in
     if g = 0 then kfault ''sb.inodes_in_group''
     else let index = sint ((inum i - 1) mod g) in kreturn (index, inodesize, (index * inodesize) div blocksize)))"

definition ext2_readi :: "iptr \<Rightarrow> ('a fsst_scheme, int \<times> u8 list) kmon" where
  "ext2_readi ip = kbind (inode_at ip) (\<lambda>i. kbind (kget ext2_sb) (\<lambda>sb.
     let devt = GETDEVTYPE (idev i); devnum = GETDEVNUM (idev i); bs = get32 24 sb in
     kthen (readblock devt devnum 2 bs (replicate 32 0) 32)
     (kbind (ext2_index i) (\<lambda>(index, inodesize, block). kbind kalloc (\<lambda>buf.
       if buf = 0 then kfault ''kalloc''
       else kbind (kget (\<lambda>s. bytes_at (kmem_mem s) buf (unat bs))) (\<lambda>old.
         kbind (readblock devt devnum (word_of_int (block + 3)) bs old (sint bs)) (\<lambda>new.
         kthen (kmodify (\<lambda>s. s\<lparr>kmem_mem := mem_store buf new (kmem_mem s)\<rparr>))
         (kbind (kget (\<lambda>s. bytes_at (kmem_mem s) (buf + word_of_int (index * inodesize)) (nat inodesize))) (\<lambda>dst.
         kthen (kfree buf) (kreturn (1, dst)))))))))))"

definition ext2_writei :: "iptr \<Rightarrow> ('a fsst_scheme, int) kmon" where
  "ext2_writei ip = kpanic ''ext2_writei not implemented yet''"

definition ext2_itrunc :: "iptr \<Rightarrow> ('a fsst_scheme, unit) kmon" where
  "ext2_itrunc ip = kpanic ''ext2_itrunc not implemented yet''"

text \<open>The pointer addition in \<open>ext2_readinode\<close> scales by the size of an inode twice: the inode is looked for at byte
  \<open>128 * 128 * index\<close> of a sector of 512 bytes.\<close>

definition ext2_readinode :: "iptr \<Rightarrow> ('a fsst_scheme, unit) kmon" where
  "ext2_readinode ip = kbind (inode_at ip) (\<lambda>i. kbind (ext2_index i) (\<lambda>(index, inodesize, block).
     kbind (bread (idev i) (word_of_int (block + 2))) (\<lambda>bp. kbind (bdata_of bp) (\<lambda>x.
       if index \<noteq> 0 then kfault ''ext2i''
       else let t = get16 0 x AND 0xF000 in
         kthen (set_inode ip (\<lambda>i. i\<lparr>itype := (if t = 0x8000 then T_FILE else if t = 0x4000 then T_DIR else 0),
           nlink := get16 26 x, isize := get32 4 x, addrs := splice 0 (map (\<lambda>k. get32 (40 + 4 * k) x) [0..<12]) (addrs i)\<rparr>))
         (brelse bp)))))"

definition readi :: "'a fsst_scheme devtab \<Rightarrow> iptr \<Rightarrow> u32 \<Rightarrow> u32 \<Rightarrow> ('a fsst_scheme, int \<times> u8 list) kmon" where
  "readi devsw ip off n = kbind (inode_at ip) (\<lambda>i.
     if itype i = T_DEV then
       if sint (imajor i) < 0 \<or> sint (imajor i) \<ge> int NDEV then kreturn (- 1, [])
       else case fst (devsw (unat (imajor i))) of None \<Rightarrow> kreturn (- 1, []) | Some rd \<Rightarrow> rd ip n
     else by_fstype (idev i) (ext2_readi ip) (fs1_readi ip off n))"

definition writei :: "'a fsst_scheme devtab \<Rightarrow> iptr \<Rightarrow> u8 list \<Rightarrow> u32 \<Rightarrow> u32 \<Rightarrow> ('a fsst_scheme, int) kmon" where
  "writei devsw ip src off n = kbind (inode_at ip) (\<lambda>i.
     if itype i = T_DEV then
       if sint (imajor i) < 0 \<or> sint (imajor i) \<ge> int NDEV then kreturn (- 1)
       else case snd (devsw (unat (imajor i))) of None \<Rightarrow> kreturn (- 1) | Some wr \<Rightarrow> wr ip src n
     else by_fstype (idev i) (ext2_writei ip) (fs1_writei ip src off n))"

subsection \<open>Locks and references\<close>

definition ilock :: "iptr option \<Rightarrow> ('a fsst_scheme, unit) kmon" where
  "ilock p = (case p of None \<Rightarrow> kpanic ''ilock'' | Some ip \<Rightarrow> kbind (inode_at ip) (\<lambda>i.
     if iref i < 1 then kpanic ''ilock''
     else if ibusy i then kthen (sleep (ChInode (fst ip) (snd ip)) (Some (OtherLock ''vfs''))) (kfault ''while'')
     else kthen (set_inode ip (\<lambda>i. i\<lparr>ibusy := True\<rparr>))
       (if ivalid i then kreturn ()
        else kthen (by_fstype (idev i) (ext2_readinode ip) (fs1_readinode ip))
         (kthen (set_inode ip (\<lambda>i. i\<lparr>ivalid := True\<rparr>))
         (kbind (inode_at ip) (\<lambda>i. if itype i = 0 then kpanic ''ilock: no type'' else kreturn ()))))))"

definition iput :: "iptr \<Rightarrow> ('a fsst_scheme, unit) kmon" where
  "iput ip = kbind (inode_at ip) (\<lambda>i.
     kthen (if iref i = 1 \<and> ivalid i \<and> nlink i = 0 then
         if ibusy i then kpanic ''iput busy''
         else kthen (set_inode ip (\<lambda>i. i\<lparr>ibusy := True\<rparr>))
           (kthen (by_fstype (idev i) (ext2_itrunc ip) (fs1_itrunc ip))
           (kthen (set_inode ip (\<lambda>i. i\<lparr>itype := 0\<rparr>))
           (kthen (iupdate ip)
           (kthen (set_inode ip (\<lambda>i. i\<lparr>ibusy := False, ivalid := False\<rparr>))
             (wakeup (ChInode (fst ip) (snd ip)))))))
       else kreturn ())
     (set_inode ip (\<lambda>i. i\<lparr>iref := iref i - 1\<rparr>)))"

definition iunlock :: "iptr option \<Rightarrow> ('a fsst_scheme, unit) kmon" where
  "iunlock p = (case p of None \<Rightarrow> kpanic ''iunlock'' | Some ip \<Rightarrow> kbind (inode_at ip) (\<lambda>i.
     if \<not> ibusy i \<or> iref i < 1 then kpanic ''iunlock''
     else kthen (set_inode ip (\<lambda>i. i\<lparr>ibusy := False\<rparr>)) (wakeup (ChInode (fst ip) (snd ip)))))"

definition iunlockput :: "iptr \<Rightarrow> ('a fsst_scheme, unit) kmon" where
  "iunlockput ip = kthen (iunlock (Some ip)) (iput ip)"

section \<open>Files as maps from blocks to contents\<close>

text \<open>The in-memory inode behind a pointer, and storing one.\<close>

definition the_inode :: "'a fsst_scheme \<Rightarrow> iptr \<Rightarrow> inode" where
  "the_inode s ip = (if fst ip then icache s else fs1_icache s) ! snd ip"

definition ip_ok :: "'a fsst_scheme \<Rightarrow> iptr \<Rightarrow> bool" where
  "ip_ok s ip \<longleftrightarrow> snd ip < length (if fst ip then icache s else fs1_icache s)"

definition put_inode :: "iptr \<Rightarrow> inode \<Rightarrow> 'a fsst_scheme \<Rightarrow> 'a fsst_scheme" where
  "put_inode ip i s = (if fst ip then s\<lparr>icache := (icache s)[snd ip := i]\<rparr> else s\<lparr>fs1_icache := (fs1_icache s)[snd ip := i]\<rparr>)"

text \<open>The sectors of a file: direct blocks, blocks of the indirect block, and the indirect block itself as slot
  \<open>MAXFILE\<close>; 0 where there is none. A block that is not there reads as zeros.\<close>

definition slot :: "'a fsst_scheme \<Rightarrow> inode \<Rightarrow> nat \<Rightarrow> nat" where
  "slot s i k = unat (if k < NDIRECT then addrs i ! k else if k = MAXFILE then addrs i ! NDIRECT
     else if addrs i ! NDIRECT = 0 then 0 else get32 (4 * (k - NDIRECT)) (bview s (log_dev s, addrs i ! NDIRECT)))"

definition file_block :: "'a fsst_scheme \<Rightarrow> inode \<Rightarrow> nat \<Rightarrow> block" where
  "file_block s i k = (if slot s i k = 0 then replicate BSIZE 0 else fview s (slot s i k))"

definition file_ok :: "'a fsst_scheme \<Rightarrow> inode \<Rightarrow> bool" where
  "file_ok s i \<longleftrightarrow> length (addrs i) = 29 \<and> idev i = log_dev s
     \<and> (\<forall>k\<le>MAXFILE. slot s i k \<noteq> 0 \<longrightarrow> data_start s \<le> slot s i k \<and> slot s i k < unat (log_start s) \<and> \<not> block_free s (slot s i k))
     \<and> (\<forall>k\<le>MAXFILE. \<forall>k'\<le>MAXFILE. slot s i k = slot s i k' \<longrightarrow> slot s i k \<noteq> 0 \<longrightarrow> k = k')"

text \<open>The free blocks of the data area.\<close>

definition free_blocks :: "'a logst_scheme \<Rightarrow> nat set" where
  "free_blocks s = {b. b < unat (log_start s) \<and> block_free s b}"

text \<open>What giving a file more blocks keeps: its contents, its blocks, and every sector that is not free, not of the
  bitmap and not the file's indirect block.\<close>

definition file_grow :: "'a fsst_scheme \<Rightarrow> inode \<Rightarrow> 'a fsst_scheme \<Rightarrow> inode \<Rightarrow> bool" where
  "file_grow s i t i' \<longleftrightarrow> fs_step s t \<and> fs_ok t \<and> file_ok t i' \<and> fs_sb t = fs_sb s \<and> free_blocks t \<subseteq> free_blocks s
     \<and> i' = i\<lparr>addrs := addrs i'\<rparr>
     \<and> (\<forall>k<MAXFILE. file_block t i' k = file_block s i k)
     \<and> (\<forall>k\<le>MAXFILE. slot t i' k = slot s i k \<or> slot s i k = 0 \<and> slot t i' k \<in> free_blocks s)
     \<and> (\<forall>n<unat (log_start s). (n < bmap_start s \<or> data_start s \<le> n) \<longrightarrow> n \<notin> free_blocks s \<longrightarrow> n \<noteq> slot s i MAXFILE
          \<longrightarrow> fview t n = fview s n)"

lemma sb_same:
  assumes "fs_sb t = fs_sb s"
  shows "bmap_start t = bmap_start s" and "data_start t = data_start s"
  using assms by (simp_all add: bmap_start_def data_start_def)

lemma bitmap_keys_same: "fs_step s t \<Longrightarrow> fs_sb t = fs_sb s \<Longrightarrow> bitmap_keys t = bitmap_keys s"
  using sb_same [of t s] fs_stepD [of s t] by (simp add: bitmap_keys_def)

lemma free_blocksD:
  assumes "fs_ok s" and "b \<in> free_blocks s"
  shows "data_start s \<le> b \<and> b < unat (log_start s) \<and> b < 0x10000000 \<and> 0 < b \<and> block_free s b"
proof -
  have b: "b < unat (log_start s)" "block_free s b" using assms(2) by (simp_all add: free_blocks_def)
  have "data_start s \<le> b" using fs_ok_size [OF assms(1) b(1)] b(2) assms(1) by (simp add: fs_ok_def)
  then show ?thesis using b fs_ok_nums(1,4) [OF assms(1)] by auto
qed

lemma free_blocks_eq:
  assumes "fs_ok s" and "log_start t = log_start s" and "\<And>b. b < unat (sb_size (fs_sb s)) \<Longrightarrow> block_free t b = block_free s b"
  shows "free_blocks t = free_blocks s"
  using assms(2,3) fs_ok_size [OF assms(1)] by (auto simp: free_blocks_def)

lemma file_okD:
  assumes "file_ok s i" and "k \<le> MAXFILE" and "slot s i k \<noteq> 0"
  shows "data_start s \<le> slot s i k" and "slot s i k < unat (log_start s)" and "slot s i k \<notin> free_blocks s"
    and "k' \<le> MAXFILE \<Longrightarrow> slot s i k = slot s i k' \<longleftrightarrow> k = k'"
  using assms unfolding file_ok_def free_blocks_def by auto

lemma file_grow_refl: "txn s \<Longrightarrow> fs_ok s \<Longrightarrow> file_ok s i \<Longrightarrow> file_grow s i s i"
  by (simp add: file_grow_def fs_step_refl)

lemma file_grow_trans:
  assumes "fs_ok s" and "file_grow s i t i'" and "file_grow t i' u i''"
  shows "file_grow s i u i''"
proof -
  have pos: "0 \<notin> free_blocks s" using free_blocksD [OF assms(1), of 0] by auto
  note st = sb_same [of t s] and a = assms(2) [unfolded file_grow_def] and b = assms(3) [unfolded file_grow_def]
  have sub: "free_blocks t \<subseteq> free_blocks s" using a by blast
  have sl: "slot u i'' k = slot s i k \<or> slot s i k = 0 \<and> slot u i'' k \<in> free_blocks s" if "k \<le> MAXFILE" for k
    using a b that pos sub by (metis subsetD)
  have "fview u n = fview s n" if n: "n < unat (log_start s)" "n < bmap_start s \<or> data_start s \<le> n" "n \<notin> free_blocks s"
      "n \<noteq> slot s i MAXFILE" for n
  proof -
    have "n \<noteq> slot t i' MAXFILE" using a n(3,4) by (metis order_refl)
    then have "fview u n = fview t n" using b n st a sub fs_stepD [of s t] by auto
    then show ?thesis using a n by auto
  qed
  moreover have "i'' = i\<lparr>addrs := addrs i''\<rparr>"
  proof -
    have "i'' = i'\<lparr>addrs := addrs i''\<rparr>" "i' = i\<lparr>addrs := addrs i'\<rparr>" using a b by blast+
    then show ?thesis by (metis inode.update_convs(11) inode.surjective)
  qed
  moreover have "fs_step s u" using a b fs_step_trans by blast
  ultimately show ?thesis unfolding file_grow_def using a b sl sub by auto
qed

lemma file_grow_alloc:
  assumes "fs_ok s" and "file_ok s i" and "b \<in> free_blocks s" and "fs_step s t" and "fs_ok t" and "fs_sb t = fs_sb s"
    and "free_blocks t = free_blocks s - {b}" and "k \<le> MAXFILE" and "slot s i k = 0"
    and "\<And>k'. k' \<le> MAXFILE \<Longrightarrow> slot t i' k' = (if k' = k then b else slot s i k')" and "fview t b = replicate BSIZE 0"
    and "\<And>n. n < unat (log_start s) \<Longrightarrow> n < bmap_start s \<or> data_start s \<le> n \<Longrightarrow> n \<noteq> b \<Longrightarrow> n \<noteq> slot s i MAXFILE \<Longrightarrow> fview t n = fview s n"
    and "i' = i\<lparr>addrs := addrs i'\<rparr>" and "length (addrs i') = 29"
  shows "file_grow s i t i'"
proof -
  note st = sb_same [OF assms(6)] and ft = fs_stepD [OF assms(4)] and b = free_blocksD [OF assms(1,3)]
  have nf: "b \<noteq> slot s i k'" if "k' \<le> MAXFILE" for k' using file_okD(3) [OF assms(2) that] assms(3) b by (cases "slot s i k' = 0") auto
  have used: "\<not> block_free t n" if "n < unat (log_start s)" "n \<notin> free_blocks s \<or> n = b" for n
  proof -
    have "n \<notin> free_blocks t" using that assms(7) by blast
    then show ?thesis using that(1) ft by (simp add: free_blocks_def)
  qed
  have "file_ok t i'"
    unfolding file_ok_def
  proof (intro conjI allI impI)
    show "idev i' = log_dev t" using assms(2,13) ft by (metis file_ok_def inode.select_convs(1) inode.surjective inode.update_convs(11))
    show "data_start t \<le> slot t i' k'" "slot t i' k' < unat (log_start t)" "\<not> block_free t (slot t i' k')"
      if "k' \<le> MAXFILE" "slot t i' k' \<noteq> 0" for k'
      using assms(10) [OF that(1)] that file_okD [OF assms(2) that(1)] b st ft used [of "slot t i' k'"] by (auto split: if_splits)
    show "k1 = k2" if "k1 \<le> MAXFILE" "k2 \<le> MAXFILE" "slot t i' k1 = slot t i' k2" "slot t i' k1 \<noteq> 0" for k1 k2
      using that assms(10) [OF that(1)] assms(10) [OF that(2)] nf [OF that(1)] nf [OF that(2)] file_okD(4) [OF assms(2) that(1)]
      by (auto split: if_splits)
  qed (use assms(14) in simp)
  moreover have "file_block t i' k' = file_block s i k'" if k': "k' < MAXFILE" for k'
  proof (cases "k' = k \<or> slot s i k' = 0")
    case False
    then have "slot s i k' \<noteq> slot s i MAXFILE" using file_okD(4) [OF assms(2), of k' MAXFILE] k' by simp
    then have "fview t (slot s i k') = fview s (slot s i k')"
      using assms(12) [of "slot s i k'"] file_okD [OF assms(2), of k'] nf [of k'] False k' by simp
    then show ?thesis using assms(10) [of k'] k' False by (simp add: file_block_def)
  qed (use assms(9-11) k' b in \<open>auto simp: file_block_def\<close>)
  moreover have "fview t n = fview s n" if "n < unat (log_start s)" "n < bmap_start s \<or> data_start s \<le> n" "n \<notin> free_blocks s"
      "n \<noteq> slot s i MAXFILE" for n using assms(3,12) that by metis
  ultimately show ?thesis unfolding file_grow_def using assms(3-7,9,10,13) by auto
qed

lemma inode_at_Ret: "ip_ok s ip \<Longrightarrow> inode_at ip s = Ret (the_inode s ip) s"
  by (simp add: inode_at_def the_inode_def ip_ok_def)

lemma set_inode_Ret: "set_inode ip f s = Ret () (put_inode ip (f (the_inode s ip)) s)"
  by (simp add: set_inode_def put_inode_def the_inode_def kmodify_def)

lemma put_inode_fields [simp]:
  "bufs (put_inode ip i s) = bufs s" "disk (put_inode ip i s) = disk s" "hist (put_inode ip i s) = hist s"
  "log_dev (put_inode ip i s) = log_dev s" "log_start (put_inode ip i s) = log_start s" "fsmap (put_inode ip i s) = fsmap s"
  by (simp_all add: put_inode_def)

lemma put_inode_step:
  assumes "txn s"
  shows "fs_step s (put_inode ip i s)" and "bview (put_inode ip i s) = bview s" and "dirty_keys (put_inode ip i s) = dirty_keys s"
proof -
  have "put_inode ip i s = s\<lparr>ptable := ptable s, bufs := bufs s, lh_n := lh_n s, lh_sector := lh_sector s,
      fs1_icache := fs1_icache (put_inode ip i s), icache := icache (put_inode ip i s)\<rparr>" by (simp add: put_inode_def)
  then have fr: "fs_frame s (put_inode ip i s)" unfolding fs_frame_def by blast
  show v: "bview (put_inode ip i s) = bview s" "dirty_keys (put_inode ip i s) = dirty_keys s"
    by (simp_all add: fun_eq_iff bview_def bcached_def dirty_keys_def split: option.split)
  have "txn (put_inode ip i s)"
    using assms by (simp add: txn_def bio_inv_def log_ok_def log_geom_def data_key_def log_region_def home_key_def
      head_key_def dirty_keys_def put_inode_def)
  then show "fs_step s (put_inode ip i s)"
    using fr by (simp add: fs_step_def busy_keys_def holds_def)
qed

lemma the_inode_put:
  "ip_ok s ip \<Longrightarrow> the_inode (put_inode ip i s) ip = i" "ip_ok (put_inode ip i s) ip' = ip_ok s ip'"
  by (auto simp: the_inode_def put_inode_def ip_ok_def)

lemma same_inodesD:
  "same_inodes s t \<Longrightarrow> the_inode t ip = the_inode s ip" "same_inodes s t \<Longrightarrow> ip_ok t ip = ip_ok s ip"
  by (simp_all add: the_inode_def ip_ok_def same_inodes_def)

lemma put_inode_at: "same_inodes (put_inode ip i s) t \<Longrightarrow> ip_ok s ip \<Longrightarrow> ip_ok t ip \<and> the_inode t ip = i"
  by (simp add: same_inodesD the_inode_put)

lemma put_inode_self: "same_inodes (put_inode ip (the_inode s ip) s) s"
  by (simp add: put_inode_def same_inodes_def the_inode_def)

lemma put_inode_trans:
  assumes "same_inodes (put_inode ip i s) t" and "same_inodes (put_inode ip j t) u"
  shows "same_inodes (put_inode ip j s) u"
  using assms by (auto simp: put_inode_def same_inodes_def split: if_splits)

lemma put_inode_same: "same_inodes s t \<Longrightarrow> same_inodes (put_inode ip i s) (put_inode ip i t)"
  by (simp add: put_inode_def same_inodes_def)

lemma slot_bview: "bview t = bview s \<Longrightarrow> log_dev t = log_dev s \<Longrightarrow> slot t i = slot s i"
  by (simp add: slot_def fun_eq_iff)

subsection \<open>Giving a file a block\<close>

lemma balloc_one:
  assumes "txn s" and "fs_fits m X s" and "fs_ok s" and "busy_ok s" and "bitmap_keys s \<subseteq> X" and "free_blocks s \<noteq> {}"
  shows "\<exists>b t. b \<in> free_blocks s \<and> fs1_balloc (log_dev s) s = Ret (of_nat b) t \<and> fs_step s t \<and> same_inodes s t
    \<and> bview t = allocated s b \<and> dirty_keys t \<subseteq> insert (log_dev s, of_nat b) (dirty_keys s \<union> X)
    \<and> fs_sb t = fs_sb s \<and> fs_ok t \<and> busy_ok t \<and> free_blocks t = free_blocks s - {b} \<and> fview t b = replicate BSIZE 0
    \<and> (\<forall>n<unat (log_start s). n < bmap_start s \<or> data_start s \<le> n \<longrightarrow> n \<noteq> b \<longrightarrow> fview t n = fview s n)"
proof -
  define b where "b = (LEAST b. b \<in> free_blocks s)"
  have bf: "b \<in> free_blocks s" using assms(6) LeastI [of "\<lambda>b. b \<in> free_blocks s"] by (auto simp: b_def)
  then have b: "b < unat (log_start s)" "block_free s b" by (simp_all add: free_blocks_def)
  note sz = fs_ok_size [OF assms(3) b(1)]
  have low: "\<not> block_free s b'" if "b' < b" for b'
    using not_less_Least [of b' "\<lambda>b. b \<in> free_blocks s"] that b(1) by (auto simp: b_def free_blocks_def)
  obtain t where t: "fs1_balloc (log_dev s) s = Ret (of_nat b) t" "fs_step s t" "same_inodes s t" "bview t = allocated s b"
      "dirty_keys t = dirty_keys s \<union> alloc_keys s b"
    using fs1_balloc_law [OF assms(1-4) b assms(5) low] by blast
  note v = allocated_fview [OF assms(1,3) t(2,4) b] and st = allocated_state [OF assms(1,3) t(2,4) b]
  have n: "bmap_start s + b div BPB < data_start s" using fs_ok_nums(5) [OF assms(3) sz] .
  have "(log_dev s, of_nat (bmap_start s + b div BPB)) \<in> X"
    using assms(5) sz by (auto simp: bitmap_keys_def div_le_mono)
  then have "dirty_keys t \<subseteq> insert (log_dev s, of_nat b) (dirty_keys s \<union> X)" using t(5) by (auto simp: alloc_keys_def)
  moreover have "free_blocks t = free_blocks s - {b}" using st(5) fs_ok_size [OF assms(3)] fs_stepD [OF t(2)] by (auto simp: free_blocks_def)
  moreover have "\<forall>n<unat (log_start s). n < bmap_start s \<or> data_start s \<le> n \<longrightarrow> n \<noteq> b \<longrightarrow> fview t n = fview s n"
    using v n fs_ok_nums(4) [OF assms(3)] by auto
  moreover have "fview t b = replicate BSIZE 0" using v [of b] free_blocksD [OF assms(3) bf] by simp
  ultimately show ?thesis using bf t(1-4) st(1,4) st(7) [OF assms(4)] by blast
qed

lemma slot_addr:
  assumes "k \<le> NDIRECT" and "length (addrs i) = 29"
  shows "addrs i ! k = of_nat (slot s i (if k < NDIRECT then k else MAXFILE))"
    and "addrs i ! k = 0 \<longleftrightarrow> slot s i (if k < NDIRECT then k else MAXFILE) = 0"
  using assms by (auto simp: slot_def unat_eq_0)

text \<open>A free block becomes an address of the inode: the slot changes, and no other.\<close>

lemma grow_direct:
  assumes "txn s" and "fs_ok s" and "file_ok s i" and "k \<le> NDIRECT" and "addrs i ! k = 0" and "b \<in> free_blocks s"
    and "fs_step s t" and "fs_sb t = fs_sb s" and "fs_ok t" and "free_blocks t = free_blocks s - {b}" and "fview t b = replicate BSIZE 0"
    and "\<forall>n<unat (log_start s). n < bmap_start s \<or> data_start s \<le> n \<longrightarrow> n \<noteq> b \<longrightarrow> fview t n = fview s n"
  shows "file_grow s i t (i\<lparr>addrs := (addrs i)[k := of_nat b]\<rparr>)"
    and "slot t (i\<lparr>addrs := (addrs i)[k := of_nat b]\<rparr>) (if k < NDIRECT then k else MAXFILE) = b"
proof -
  let ?k = "if k < NDIRECT then k else MAXFILE" and ?i = "i\<lparr>addrs := (addrs i)[k := of_nat b]\<rparr>"
  note b = free_blocksD [OF assms(2,6)] and ft = fs_stepD [OF assms(7)]
  have len: "length (addrs i) = 29" using assms(3) by (simp add: file_ok_def)
  have ub: "unat (of_nat b :: u32) = b" using b by (intro u32_of_nat_small) simp
  have zero: "slot s i ?k = 0" using slot_addr(2) [OF assms(4) len] assms(5) by auto
  have sl: "slot t ?i k' = (if k' = ?k then b else slot s i k')" if k': "k' \<le> MAXFILE" for k'
  proof (cases "k' < NDIRECT \<or> k' = MAXFILE")
    case True
    then show ?thesis using len assms(4) ub by (auto simp: slot_def)
  next
    case ind: False
    then have off: "4 * (k' - NDIRECT) + 4 \<le> BSIZE" using k' by arith
    show ?thesis
    proof (cases "k < NDIRECT")
      case True
      let ?n = "unat (addrs i ! NDIRECT)"
      have "bview t (log_dev t, addrs i ! NDIRECT) = bview s (log_dev s, addrs i ! NDIRECT)" if nz: "addrs i ! NDIRECT \<noteq> 0"
      proof -
        have n: "slot s i MAXFILE = ?n" "slot s i MAXFILE \<noteq> 0" using nz by (simp_all add: slot_def unat_eq_0)
        then have "data_start s \<le> ?n" "?n < unat (log_start s)" "?n \<noteq> b" using file_okD [OF assms(3), of MAXFILE] assms(6) by auto
        then have "fview t ?n = fview s ?n" using assms(12) by auto
        then show ?thesis by (simp add: fview_def)
      qed
      then show ?thesis using ind True len by (auto simp: slot_def)
    next
      case False
      then have "k = NDIRECT" "addrs i ! NDIRECT = 0" using assms(4,5) by auto
      moreover have "(of_nat b :: u32) \<noteq> 0" using of_nat_u32_eq [of b 0] b by simp
      moreover have "bview t (log_dev t, of_nat b) = replicate BSIZE 0" using assms(11) by (simp add: fview_def)
      ultimately show ?thesis using ind len off by (simp add: slot_def get32_zeros)
    qed
  qed
  then show "slot t ?i ?k = b" by simp
  have "fview t n = fview s n" if "n < unat (log_start s)" "n < bmap_start s \<or> data_start s \<le> n" "n \<noteq> b" "n \<noteq> slot s i MAXFILE" for n
    using assms(12) that by blast
  then show "file_grow s i t ?i"
    using file_grow_alloc [OF assms(2,3,6,7,9,8,10) _ zero sl assms(11)] len by auto
qed

text \<open>What is common to the ways a file gets a block: the room that the log, the cache and the disk have left.\<close>

definition ind_missing :: "inode \<Rightarrow> nat" where
  "ind_missing i = (if addrs i ! NDIRECT = 0 then 1 else 0)"

definition file_keys :: "'a logst_scheme \<Rightarrow> inode \<Rightarrow> (u32 \<times> u32) set" where
  "file_keys s i = bitmap_keys s \<union> (if addrs i ! NDIRECT = 0 then {} else {(log_dev s, addrs i ! NDIRECT)})"

text \<open>Room to write \<open>n\<close> blocks of a file: a slot of the log for each, for the bitmap and for the indirect block, as many
  buffers and one more, and as many free blocks.\<close>

definition room :: "nat \<Rightarrow> 'a fsst_scheme \<Rightarrow> inode \<Rightarrow> bool" where
  "room n s i \<longleftrightarrow> fs_fits (n + ind_missing i + 1) (file_keys s i) s \<and> n + ind_missing i \<le> card (free_blocks s)"

lemma fits_take:
  assumes "fs_fits (Suc n) X s" and "fs_step s t" and "dirty_keys t \<subseteq> insert k (dirty_keys s \<union> X)"
  shows "fs_fits n (insert k X) t"
proof -
  have "card (dirty_keys t \<union> insert k X) \<le> card (insert k (dirty_keys s \<union> X))"
    using assms by (intro card_mono) (auto simp: fs_fits_def)
  also have "\<dots> \<le> Suc (card (dirty_keys s \<union> X))" by (rule card_insert_le_m1) (auto simp: card_insert_le)
  finally show ?thesis using assms(1) fs_stepD [OF assms(2)] by (simp add: fs_fits_def)
qed

lemma busy_ok_empty: "busy_keys s = {} \<Longrightarrow> busy_ok s"
  by (simp add: busy_ok_def)

lemma addr_or_alloc_law:
  assumes "txn s" and "fs_ok s" and "busy_keys s = {}" and "ip_ok s ip" and "file_ok s (the_inode s ip)" and "k \<le> NDIRECT"
    and "fs_fits (Suc m) X s" and "bitmap_keys s \<subseteq> X" and "free_blocks s \<noteq> {}"
  shows "\<exists>t i'. addr_or_alloc ip k s = Ret (addrs i' ! k) t \<and> addrs i' ! k \<noteq> 0 \<and> file_grow s (the_inode s ip) t i'
    \<and> same_inodes (put_inode ip i' s) t \<and> fs_fits m (insert (log_dev s, addrs i' ! k) X) t
    \<and> (addrs (the_inode s ip) ! k \<noteq> 0 \<longrightarrow> t = s \<and> i' = the_inode s ip)
    \<and> card (free_blocks s) \<le> Suc (card (free_blocks t)) \<and> (\<forall>k'. k' \<noteq> k \<longrightarrow> addrs i' ! k' = addrs (the_inode s ip) ! k')"
proof (cases "addrs (the_inode s ip) ! k = 0")
  case False
  then show ?thesis
    using file_grow_refl [OF assms(1,2,5)] put_inode_self [of ip s] fits_take [OF assms(7) fs_step_refl [OF assms(1)]]
    by (auto simp: addr_or_alloc_def kbind_Ret inode_at_Ret [OF assms(4)] kreturn_def intro!: exI [of _ s] exI [of _ "the_inode s ip"])
next
  case True
  let ?i = "the_inode s ip"
  obtain b t where t: "b \<in> free_blocks s" "fs1_balloc (log_dev s) s = Ret (of_nat b) t" "fs_step s t" "same_inodes s t"
      "dirty_keys t \<subseteq> insert (log_dev s, of_nat b) (dirty_keys s \<union> X)" "fs_sb t = fs_sb s" "fs_ok t" "free_blocks t = free_blocks s - {b}"
      "fview t b = replicate BSIZE 0"
      "\<forall>n<unat (log_start s). n < bmap_start s \<or> data_start s \<le> n \<longrightarrow> n \<noteq> b \<longrightarrow> fview t n = fview s n"
    using balloc_one [OF assms(1,7,2) busy_ok_empty [OF assms(3)] assms(8,9)] by blast
  let ?j = "?i\<lparr>addrs := (addrs ?i)[k := of_nat b]\<rparr>" and ?u = "put_inode ip (?i\<lparr>addrs := (addrs ?i)[k := of_nat b]\<rparr>) t"
  note b = free_blocksD [OF assms(2) t(1)] and ft = fs_stepD [OF t(3)]
  have tt: "txn t" using ft by blast
  note pu = put_inode_step [OF tt, of ip ?j]
  note same = fs_same [OF pu(1,2)]
  have su: "fs_step s ?u" using fs_step_trans t(3) pu(1) by blast
  have free: "free_blocks ?u = free_blocks t" using same by (simp add: free_blocks_def)
  have len: "length (addrs ?i) = 29" using assms(5) by (simp add: file_ok_def)
  have "addr_or_alloc ip k s = Ret (of_nat b) ?u"
    using t(2) True assms(5) same_inodesD(1) [OF t(4), of ip]
    by (simp add: addr_or_alloc_def kbind_Ret inode_at_Ret [OF assms(4)] kreturn_def set_inode_Ret file_ok_def)
  moreover have "file_grow s ?i ?u ?j"
    using grow_direct(1) [OF assms(1,2,5,6) True t(1) su] t(6-10) same free by simp
  moreover have "same_inodes (put_inode ip ?j s) ?u" using put_inode_same [OF t(4)] .
  moreover have "fs_fits m (insert (log_dev s, of_nat b) X) ?u" using fits_take [OF assms(7) su] t(5) pu(3) by simp
  moreover have "(of_nat b :: u32) \<noteq> 0" using of_nat_u32_eq [of b 0] b by simp
  moreover have "card (free_blocks s) \<le> Suc (card (free_blocks ?u))" unfolding free t(8)
    by (cases "card (free_blocks s)") (simp_all add: card_Diff_singleton_if)
  ultimately show ?thesis using True len assms(6)
    by (intro exI [of _ ?u] exI [of _ ?j]) simp
qed

text \<open>A free block becomes an entry of the indirect block.\<close>

lemma grow_indirect:
  assumes "fs_ok s" and "file_ok s i" and "NDIRECT \<le> k" and "k < MAXFILE" and "slot s i k = 0" and "addrs i ! NDIRECT \<noteq> 0"
    and "b \<in> free_blocks s" and "fs_step s t" and "fs_sb t = fs_sb s" and "fs_ok t" and "free_blocks t = free_blocks s - {b}"
    and "fview t b = replicate BSIZE 0" and "length (fview s (slot s i MAXFILE)) = BSIZE"
    and "fview t (slot s i MAXFILE) = put32 (4 * (k - NDIRECT)) (of_nat b) (fview s (slot s i MAXFILE))"
    and "\<And>n. n < unat (log_start s) \<Longrightarrow> n < bmap_start s \<or> data_start s \<le> n \<Longrightarrow> n \<noteq> b \<Longrightarrow> n \<noteq> slot s i MAXFILE \<Longrightarrow> fview t n = fview s n"
  shows "file_grow s i t i" and "slot t i k = b"
proof -
  note b = free_blocksD [OF assms(1,7)] and ft = fs_stepD [OF assms(8)]
  have ub: "unat (of_nat b :: u32) = b" using b by (intro u32_of_nat_small) simp
  have ind: "bview u (log_dev u, addrs i ! NDIRECT) = fview u (slot s i MAXFILE)" for u :: "'a fsst_scheme"
    by (simp add: fview_def slot_def)
  have sl: "slot t i k' = (if k' = k then b else slot s i k')" if k': "k' \<le> MAXFILE" for k'
  proof (cases "k' < NDIRECT \<or> k' = MAXFILE")
    case True
    then show ?thesis using assms(3,4) by (auto simp: slot_def)
  next
    case False
    let ?o = "4 * (k - NDIRECT)" and ?o' = "4 * (k' - NDIRECT)"
    have "?o + 4 \<le> BSIZE" "?o' + 4 \<le> BSIZE" using False k' assms(3,4) by arith+
    moreover have "k' \<noteq> k \<Longrightarrow> ?o' + 4 \<le> ?o \<or> ?o + 4 \<le> ?o'" using False assms(3) by arith
    ultimately have "get32 ?o' (put32 ?o (of_nat b) (fview s (slot s i MAXFILE))) =
        (if k' = k then of_nat b else get32 ?o' (fview s (slot s i MAXFILE)))"
      using assms(13) by (cases "k' = k") (simp_all add: get32_put32_other)
    then show ?thesis using False assms(6,14) ub unfolding slot_def [of t] slot_def [of s i k'] by (simp add: ind)
  qed
  then show "slot t i k = b" using assms(4) by simp
  show "file_grow s i t i"
    by (rule file_grow_alloc [OF assms(1,2,7,8,10,9,11) _ assms(5) sl assms(12,15)])
      (use assms(2,4) in \<open>auto simp: file_ok_def\<close>)
qed

lemma view_eq:
  assumes "bview t = bview s" and "log_dev t = log_dev s" and "log_start t = log_start s"
  shows "fview t = fview s" and "fs_sb t = fs_sb s" and "fs_ok t = fs_ok s" and "free_blocks t = free_blocks s"
    and "bitmap_keys t = bitmap_keys s" and "slot t i = slot s i" and "file_ok t i = file_ok s i"
    and "data_start t = data_start s" and "bmap_start t = bmap_start s" and "block_free t = block_free s"
proof -
  note f = assms(2,3)
  show v: "fview t = fview s" using assms by (simp add: fview_def fun_eq_iff)
  then show sb: "fs_sb t = fs_sb s" by (simp add: fs_sb_def)
  note g = sb_same [OF this]
  show bf: "block_free t = block_free s" using v g by (simp add: block_free_def fun_eq_iff)
  show sl: "slot t i = slot s i" using slot_bview [OF assms(1,2)] .
  show "fs_ok t = fs_ok s" "free_blocks t = free_blocks s" "bitmap_keys t = bitmap_keys s" "file_ok t i = file_ok s i"
    using f sb g bf sl by (simp_all add: fs_ok_def free_blocks_def bitmap_keys_def file_ok_def)
  show "data_start t = data_start s" "bmap_start t = bmap_start s" using g by auto
qed

lemma view_same:
  assumes "fs_frame s t" and "bview t = bview s"
  shows "fview t = fview s" and "fs_sb t = fs_sb s" and "fs_ok t = fs_ok s" and "free_blocks t = free_blocks s"
    and "bitmap_keys t = bitmap_keys s" and "slot t i = slot s i" and "file_ok t i = file_ok s i"
    and "data_start t = data_start s" and "bmap_start t = bmap_start s" and "block_free t = block_free s"
  by (rule view_eq [OF assms(2) fs_frame_fields(1,2) [OF assms(1)]])+

lemma not_holds: "busy_keys s = {} \<Longrightarrow> \<not> holds s b k"
  by (auto simp: busy_keys_def holds_def)

text \<open>The indirect block is held while a block is taken from the bitmap, then it gets the new entry.\<close>

lemma alloc_indirect:
  assumes "txn s" and "fs_ok s" and "busy_keys s = {}" and "data_start s \<le> n" and "n < unat (log_start s)" and "\<not> block_free s n"
    and "fs_fits (Suc (Suc m)) X s" and "bitmap_keys s \<subseteq> X" and "(log_dev s, of_nat n) \<in> X" and "free_blocks s \<noteq> {}" and "off + 4 \<le> BSIZE"
  shows "\<exists>bp v w x b t. bread (log_dev s) (of_nat n) s = Ret bp v \<and> bdata_of bp v = Ret (fview s n) v
    \<and> fs1_balloc (log_dev s) v = Ret (of_nat b) w \<and> b \<in> free_blocks s
    \<and> kthen (bmodify bp (put32 off (of_nat b))) (log_write bp) w = Ret () x \<and> brelse bp x = Ret () t
    \<and> fs_step s t \<and> same_inodes s t \<and> fs_sb t = fs_sb s \<and> fs_ok t \<and> free_blocks t = free_blocks s - {b}
    \<and> fview t b = replicate BSIZE 0 \<and> fview t n = put32 off (of_nat b) (fview s n)
    \<and> (\<forall>k<unat (log_start s). k < bmap_start s \<or> data_start s \<le> k \<longrightarrow> k \<noteq> b \<longrightarrow> k \<noteq> n \<longrightarrow> fview t k = fview s k)
    \<and> fs_fits (Suc m) (insert (log_dev s, of_nat b) X) t"
proof -
  let ?d = "log_dev s"
  note key = fs_key [OF assms(2,5)]
  have nb: "(?d, of_nat n) \<notin> busy_keys s" using assms(3) by simp
  obtain bp v where v: "bread ?d (of_nat n) s = Ret bp v" "bdata_of bp v = Ret (fview s n) v" "holds v bp (?d, of_nat n)"
      "txn v" "fs_frame s v" "same_inodes s v" "busy_keys v = {(?d, of_nat n)}" "bview v = bview s" "dirty_keys v = dirty_keys s"
    using fs_hold [OF assms(1,7) key(2) nb] assms(3) unfolding fview_def by auto
  note sv = view_same [OF v(5,8)] and fv = fs_frame_fields [OF v(5)]
  have fit: "fs_fits (Suc m) X v" using fits_hold [OF assms(7) v(5) _ v(9)] v(7) assms(3) by simp
  have "busy_ok v" using v(7) assms(4-6) sv fv unfolding busy_ok_def by auto
  then obtain b w where w: "b \<in> free_blocks v" "fs1_balloc (log_dev v) v = Ret (of_nat b) w" "fs_step v w" "same_inodes v w"
      "dirty_keys w \<subseteq> insert (log_dev v, of_nat b) (dirty_keys v \<union> X)" "fs_sb w = fs_sb v" "fs_ok w"
      "free_blocks w = free_blocks v - {b}" "fview w b = replicate BSIZE 0"
      "\<forall>n<unat (log_start v). n < bmap_start v \<or> data_start v \<le> n \<longrightarrow> n \<noteq> b \<longrightarrow> fview w n = fview v n"
    using balloc_one [OF v(4) fit] assms(2,8,10) sv by auto
  note fw = fs_stepD [OF w(3)] and b = free_blocksD [OF assms(2), of b]
  have nbw: "n \<noteq> b" using w(1) sv assms(6) by (auto simp: free_blocks_def)
  have vn: "fview w n = fview s n" using w(10) fv sv assms(4,5) nbw by simp
  have bw: "bview w (log_dev w, of_nat n) = fview s n" using vn by (simp add: fview_def)
  have len: "length (fview s n) = BSIZE" using fview_length [OF assms(1) key(2)] .
  have "lh_n w < log_size w - 1" using fits_log [OF _ fits_take [OF fit w(3,5)]] fw by blast
  moreover have "holds w bp (log_dev w, of_nat n)" using w(3) v(3) fw fv by (simp add: fs_step_def)
  moreover have "data_key w (log_dev w, of_nat n)" using key fw fv by simp
  ultimately obtain x where x: "kthen (bmodify bp (put32 off (of_nat b))) (log_write bp) w = Ret () x" "fs_step w x" "same_inodes w x"
      "holds x = holds w" "bview x = (bview w)((log_dev w, of_nat n) := put32 off (of_nat b) (fview s n))"
      "dirty_keys x = insert (log_dev w, of_nat n) (dirty_keys w)"
    using fs_log [of w bp "of_nat n" "put32 off (of_nat b)"] fw len assms(11) unfolding bw by auto
  note fx = fs_stepD [OF x(2)]
  obtain t where t: "brelse bp x = Ret () t" "txn t" "fs_frame x t" "same_inodes x t" "busy_keys t = busy_keys x - {(?d, of_nat n)}"
      "bview t = bview x" "dirty_keys t = dirty_keys x"
    using fs_release [of x bp "(?d, of_nat n)"] fx \<open>holds w bp _\<close> x(4) fw fv by auto
  have dev: "log_dev v = ?d" "log_dev w = ?d" "log_dev x = ?d" "log_dev t = ?d" using fv fw fx fs_frame_fields(1) [OF t(3)] by simp_all
  have "fs_frame s t" using v(5) w(3) x(2) t(3) fs_frame_trans unfolding fs_step_def by metis
  then have st: "fs_step s t" using t(2,5) fx fw v(7) assms(3) not_holds [OF assms(3)] by (auto simp: fs_step_def)
  have vt: "fview t k = (if k = n then put32 off (of_nat b) (fview s n) else fview w k)" if "k < 0x10000000" for k
    using that of_nat_u32_eq [OF that, of n] assms(5) fs_ok_nums(4) [OF assms(2)] t(6) x(5) dev by (auto simp: fview_def)
  have dw: "data_start w = data_start s" using sb_same(2) [OF w(6)] sv by simp
  note tx = view_same [OF t(3,6)]
  have "fview x k = fview w k" if "k < data_start w" for k
    using vt [of k] tx(1) that dw assms(4) fs_ok_nums(3) [OF assms(2)] by simp
  note keep = fs_keep_data [OF w(7) x(2) this]
  have "free_blocks x = free_blocks w" using free_blocks_eq [OF w(7) _ keep(5)] fx by simp
  then have meta: "fs_sb t = fs_sb s" "fs_ok t" "free_blocks t = free_blocks s - {b}" using tx keep(1,4) w(6,8) sv by simp_all
  have "n < 0x10000000" "b < 0x10000000" using assms(5) b w(1) sv fs_ok_nums(4) [OF assms(2)] by simp_all
  then have views: "fview t b = replicate BSIZE 0" "fview t n = put32 off (of_nat b) (fview s n)"
      "\<forall>k<unat (log_start s). k < bmap_start s \<or> data_start s \<le> k \<longrightarrow> k \<noteq> b \<longrightarrow> k \<noteq> n \<longrightarrow> fview t k = fview s k"
    using vt w(9,10) nbw sv fv fs_ok_nums(4) [OF assms(2)] by auto
  have "dirty_keys t \<subseteq> insert (?d, of_nat b) (dirty_keys s \<union> X)" using t(7) x(6) w(5) v(9) dev assms(9) by auto
  then have fit': "fs_fits (Suc m) (insert (?d, of_nat b) X) t" using fits_take [OF assms(7) st] by blast
  have "same_inodes s t" using v(6) w(4) x(3) t(4) same_inodes_trans by blast
  moreover have "fs1_balloc ?d v = Ret (of_nat b) w" "b \<in> free_blocks s" using w(1,2) dev(1) sv(4) by simp_all
  ultimately show ?thesis using v(1,2) x(1) t(1) st meta views fit' by blast
qed

lemma bmap_indirect:
  assumes "txn s" and "fs_ok s" and "busy_keys s = {}" and "file_ok s i"
    and "NDIRECT \<le> k" and "k < MAXFILE" and "addrs i ! NDIRECT \<noteq> 0"
    and "fs_fits (Suc (Suc m)) X s" and "bitmap_keys s \<subseteq> X" and "(log_dev s, addrs i ! NDIRECT) \<in> X" and "free_blocks s \<noteq> {}"
  shows "\<exists>t. (kbind (bread (log_dev s) (addrs i ! NDIRECT)) (\<lambda>bp. kbind (bdata_of bp) (\<lambda>x.
          let a = get32 (4 * (k - NDIRECT)) x in
          kbind (if a \<noteq> 0 then kreturn a
            else kbind (fs1_balloc (log_dev s)) (\<lambda>a.
              kthen (bmodify bp (put32 (4 * (k - NDIRECT)) a)) (kthen (log_write bp) (kreturn a))))
          (\<lambda>addr. kthen (brelse bp) (kreturn addr))))) s = Ret (of_nat (slot t i k)) t
    \<and> slot t i k \<noteq> 0 \<and> file_grow s i t i \<and> same_inodes s t
    \<and> fs_fits (Suc m) (insert (log_dev s, of_nat (slot t i k)) X) t
    \<and> (slot s i k \<noteq> 0 \<longrightarrow> bview t = bview s \<and> dirty_keys t = dirty_keys s)
    \<and> card (free_blocks s) \<le> Suc (card (free_blocks t))"
proof -
  let ?n = "slot s i MAXFILE" and ?o = "4 * (k - NDIRECT)" and ?d = "log_dev s"
  have n: "?n \<noteq> 0" "addrs i ! NDIRECT = of_nat ?n" using assms(7) by (simp_all add: slot_def unat_eq_0)
  have nd: "data_start s \<le> ?n" "?n < unat (log_start s)" "\<not> block_free s ?n" using assms(4) n(1) by (auto simp: file_ok_def)
  note key = fs_key [OF assms(2) nd(2)]
  have len: "length (fview s ?n) = BSIZE" using fview_length [OF assms(1) key(2)] .
  have off: "?o + 4 \<le> BSIZE" using assms(5,6) by arith
  have a: "get32 ?o (fview s ?n) = of_nat (slot s i k)" using assms(5-7) by (simp add: slot_def fview_def)
  show ?thesis
  proof (cases "slot s i k = 0")
    case False
    have nb: "(?d, of_nat ?n) \<notin> busy_keys s" using assms(3) by simp
    obtain bp v u where v: "bread ?d (of_nat ?n) s = Ret bp v" "bdata_of bp v = Ret (fview s ?n) v" "brelse bp v = Ret () u"
        "fs_step s u" "same_inodes s u" "bview u = bview s" "dirty_keys u = dirty_keys s"
      using fs_open [OF assms(1,8) key(2) nb] unfolding fview_def by blast
    have fr: "fs_frame s u" using v(4) by (simp add: fs_step_def)
    note same = view_same [OF fr v(6)]
    have nz: "(of_nat (slot s i k) :: u32) \<noteq> 0"
      using of_nat_u32_eq [of "slot s i k" 0] file_okD(2) [OF assms(4), of k] fs_ok_nums(4) [OF assms(2)] assms(6) False by simp
    have "file_grow s i u i" using v(4) same assms(2,4) by (simp add: file_grow_def file_block_def)
    moreover have "fs_fits (Suc m) (insert (?d, of_nat (slot u i k)) X) u" using fits_take [OF assms(8) v(4)] v(7) by auto
    ultimately show ?thesis
      using v a nz False same unfolding n(2) by (intro exI [of _ u]) (simp add: kbind_Ret Let_def kreturn_def)
  next
    case True
    have inX: "(?d, of_nat ?n) \<in> X" using assms(10) n(2) by simp
    obtain bp v w x b t where t: "bread ?d (of_nat ?n) s = Ret bp v" "bdata_of bp v = Ret (fview s ?n) v"
        "fs1_balloc ?d v = Ret (of_nat b) w" "b \<in> free_blocks s"
        "kthen (bmodify bp (put32 ?o (of_nat b))) (log_write bp) w = Ret () x" "brelse bp x = Ret () t"
        "fs_step s t" "same_inodes s t" "fs_sb t = fs_sb s" "fs_ok t" "free_blocks t = free_blocks s - {b}"
        "fview t b = replicate BSIZE 0" "fview t ?n = put32 ?o (of_nat b) (fview s ?n)"
        "\<forall>k<unat (log_start s). k < bmap_start s \<or> data_start s \<le> k \<longrightarrow> k \<noteq> b \<longrightarrow> k \<noteq> ?n \<longrightarrow> fview t k = fview s k"
        "fs_fits (Suc m) (insert (?d, of_nat b) X) t"
      using alloc_indirect [OF assms(1-3) nd assms(8,9) inX assms(11) off] by (elim exE conjE) (rule that)
    note g = grow_indirect [OF assms(2,4-6) True assms(7) t(4,7,9-12) len t(13) t(14) [rule_format]]
    have "kthen (bmodify bp (put32 ?o (of_nat b))) (kthen (log_write bp) (kreturn (of_nat b :: u32))) w = Ret (of_nat b) x"
      using kbind_Ret [of "kthen (bmodify bp (put32 ?o (of_nat b))) (log_write bp)" w "()" x "\<lambda>_. kreturn (of_nat b :: u32)"] t(5)
      by (simp add: kbind_assoc kreturn_def)
    moreover have "card (free_blocks s) \<le> Suc (card (free_blocks t))" unfolding t(11)
      by (cases "card (free_blocks s)") (simp_all add: card_Diff_singleton_if)
    moreover have "b \<noteq> 0" using free_blocksD [OF assms(2) t(4)] by simp
    ultimately show ?thesis
      using t(1-3,6,8,15) a True g unfolding n(2) by (intro exI [of _ t]) (simp add: kbind_Ret Let_def kreturn_def)
  qed
qed

lemma file_keys_grow:
  assumes "file_grow s i t i'"
  shows "file_keys t i' = bitmap_keys s \<union> (if addrs i' ! NDIRECT = 0 then {} else {(log_dev s, addrs i' ! NDIRECT)})"
proof -
  have "bitmap_keys t = bitmap_keys s" "log_dev t = log_dev s"
    using assms bitmap_keys_same fs_stepD unfolding file_grow_def by blast+
  then show ?thesis by (simp add: file_keys_def)
qed

text \<open>\<open>fs1_bmap\<close> gives every block below \<open>MAXFILE\<close> a sector; blocks that had one keep it.\<close>

lemma bmap_law:
  assumes "txn s" and "fs_ok s" and "busy_keys s = {}" and "ip_ok s ip" and "file_ok s (the_inode s ip)" and "k < MAXFILE"
    and "room (Suc n) s (the_inode s ip)"
  shows "\<exists>t i'. fs1_bmap ip k s = Ret (of_nat (slot t i' k)) t \<and> slot t i' k \<noteq> 0 \<and> file_grow s (the_inode s ip) t i'
    \<and> same_inodes (put_inode ip i' s) t
    \<and> fs_fits (n + ind_missing i' + 1) (insert (log_dev s, of_nat (slot t i' k)) (file_keys t i')) t
    \<and> card (free_blocks s) + ind_missing i' \<le> card (free_blocks t) + Suc (ind_missing (the_inode s ip)) \<and> (slot s (the_inode s ip) k \<noteq> 0 \<longrightarrow> i' = the_inode s ip)"
proof -
  let ?i = "the_inode s ip"
  have fits: "fs_fits (Suc (n + ind_missing ?i + 1)) (file_keys s ?i) s" "Suc n + ind_missing ?i \<le> card (free_blocks s)"
    using assms(7) by (simp_all add: room_def)
  have free: "free_blocks s \<noteq> {}" using fits(2) by auto
  have bm: "bitmap_keys s \<subseteq> file_keys s ?i" by (simp add: file_keys_def)
  show ?thesis
  proof (cases "k < NDIRECT")
    case True
    then obtain t i' where t: "addr_or_alloc ip k s = Ret (addrs i' ! k) t" "addrs i' ! k \<noteq> 0" "file_grow s ?i t i'"
        "same_inodes (put_inode ip i' s) t" "fs_fits (n + ind_missing ?i + 1) (insert (log_dev s, addrs i' ! k) (file_keys s ?i)) t"
        "card (free_blocks s) \<le> Suc (card (free_blocks t))" "addrs i' ! NDIRECT = addrs ?i ! NDIRECT"
        "addrs ?i ! k \<noteq> 0 \<longrightarrow> i' = ?i"
      using addr_or_alloc_law [OF assms(1-5) less_imp_le [OF True] fits(1) bm free] by (metis less_irrefl)
    have "file_keys t i' = file_keys s ?i" "ind_missing i' = ind_missing ?i"
      using file_keys_grow [OF t(3)] t(7) by (simp_all add: file_keys_def ind_missing_def)
    moreover have "addrs i' ! k = of_nat (slot t i' k)" "slot t i' k \<noteq> 0" using True t(2) by (simp_all add: slot_def unat_eq_0)
    moreover have "slot s ?i k \<noteq> 0 \<longrightarrow> addrs ?i ! k \<noteq> 0" using True by (simp add: slot_def unat_eq_0)
    ultimately show ?thesis using t True fits(2) by (intro exI [of _ t] exI [of _ i']) (simp add: fs1_bmap_def)
  next
    case False
    obtain t i' where t: "addr_or_alloc ip NDIRECT s = Ret (addrs i' ! NDIRECT) t" "addrs i' ! NDIRECT \<noteq> 0" "file_grow s ?i t i'"
        "same_inodes (put_inode ip i' s) t" "fs_fits (n + ind_missing ?i + 1) (insert (log_dev s, addrs i' ! NDIRECT) (file_keys s ?i)) t"
        "addrs ?i ! NDIRECT \<noteq> 0 \<longrightarrow> t = s \<and> i' = ?i" "card (free_blocks s) \<le> Suc (card (free_blocks t))"
      using addr_or_alloc_law [OF assms(1-5) order_refl fits(1) bm free] by blast
    have ii: "ip_ok t ip" "the_inode t ip = i'"
      using put_inode_at [OF t(4) assms(4)] by blast+
    have ft: "fs_step s t" "fs_ok t" "file_ok t i'" using t(3) by (simp_all add: file_grow_def)
    note sd = fs_stepD [OF ft(1)]
    have keys: "file_keys t i' = insert (log_dev s, addrs i' ! NDIRECT) (bitmap_keys s)"
      using file_keys_grow [OF t(3)] t(2) by simp
    have room: "fs_fits (Suc (Suc n)) (file_keys t i') t" "Suc n \<le> card (free_blocks t)" "bitmap_keys t \<subseteq> file_keys t i'"
      using t(2,5-7) fits keys by (auto simp: ind_missing_def file_keys_def split: if_splits)
    have h: "free_blocks t \<noteq> {}" "txn t" "busy_keys t = {}" "NDIRECT \<le> k" "(log_dev t, addrs i' ! NDIRECT) \<in> file_keys t i'"
      using room(2) sd assms(3) False keys by auto
    obtain u where u: "(kbind (bread (log_dev t) (addrs i' ! NDIRECT)) (\<lambda>bp. kbind (bdata_of bp) (\<lambda>x.
          let a = get32 (4 * (k - NDIRECT)) x in
          kbind (if a \<noteq> 0 then kreturn a
            else kbind (fs1_balloc (log_dev t)) (\<lambda>a.
              kthen (bmodify bp (put32 (4 * (k - NDIRECT)) a)) (kthen (log_write bp) (kreturn a))))
          (\<lambda>addr. kthen (brelse bp) (kreturn addr))))) t = Ret (of_nat (slot u i' k)) u"
        "slot u i' k \<noteq> 0" "file_grow t i' u i'" "same_inodes t u"
        "fs_fits (Suc n) (insert (log_dev t, of_nat (slot u i' k)) (file_keys t i')) u"
        "card (free_blocks t) \<le> Suc (card (free_blocks u))"
      using bmap_indirect [OF h(2) ft(2) h(3) ft(3) h(4) assms(6) t(2) room(1,3) h(5,1)]
      by (elim exE conjE) (rule that; assumption)
    have "file_keys u i' = file_keys t i'" "ind_missing i' = 0"
      using file_keys_grow [OF u(3)] t(2) by (simp_all add: file_keys_def ind_missing_def)
    moreover have "file_grow s ?i u i'" using file_grow_trans [OF assms(2) t(3) u(3)] .
    moreover have "same_inodes (put_inode ip i' s) u" using same_inodes_trans [OF t(4) u(4)] .
    moreover have "slot s ?i k \<noteq> 0 \<longrightarrow> i' = ?i" using False assms(6) t(6) by (auto simp: slot_def)
    moreover have "card (free_blocks s) \<le> card (free_blocks t) + ind_missing ?i" using t(6,7) by (auto simp: ind_missing_def)
    moreover have dev: "idev i' = log_dev t" using ft(3) by (simp add: file_ok_def)
    have lt: "k - NDIRECT < NINDIRECT" using assms(6) False by arith
    have "fs1_bmap ip k s = Ret (of_nat (slot u i' k)) u"
      using u(1) [folded dev] False lt t(1) inode_at_Ret [OF ii(1)] unfolding ii(2) by (simp add: fs1_bmap_def kbind_Ret)
    ultimately show ?thesis
      using u(2,5,6) sd room(2) by (intro exI [of _ u] exI [of _ i']) simp
  qed
qed

section \<open>Reading and writing the bytes of a file\<close>

definition fbyte :: "'a fsst_scheme \<Rightarrow> inode \<Rightarrow> nat \<Rightarrow> u8" where
  "fbyte s i p = file_block s i (p div BSIZE) ! (p mod BSIZE)"

text \<open>The effect of writing \<open>bs\<close> at \<open>off\<close>: those bytes and no others of the file, and no sector in use that is neither one
  of the file's nor of the bitmap.\<close>

definition wrote :: "'a fsst_scheme \<Rightarrow> inode \<Rightarrow> 'a fsst_scheme \<Rightarrow> inode \<Rightarrow> nat \<Rightarrow> u8 list \<Rightarrow> bool" where
  "wrote s i t i' off bs \<longleftrightarrow> fs_step s t \<and> fs_ok t \<and> file_ok t i' \<and> fs_sb t = fs_sb s \<and> free_blocks t \<subseteq> free_blocks s
     \<and> i' = i\<lparr>addrs := addrs i'\<rparr>
     \<and> (\<forall>p<MAXFILE * BSIZE. fbyte t i' p = (if off \<le> p \<and> p < off + length bs then bs ! (p - off) else fbyte s i p))
     \<and> (\<forall>k\<le>MAXFILE. slot t i' k = slot s i k \<or> slot s i k = 0 \<and> slot t i' k \<in> free_blocks s)
     \<and> (\<forall>p. off \<le> p \<and> p < off + length bs \<longrightarrow> slot t i' (p div BSIZE) \<noteq> 0)
     \<and> (\<forall>n<unat (log_start s). (n < bmap_start s \<or> data_start s \<le> n) \<longrightarrow> n \<notin> free_blocks s
          \<longrightarrow> (\<forall>k\<le>MAXFILE. n \<noteq> slot s i k) \<longrightarrow> fview t n = fview s n)"

lemma wrote_grow: "file_grow s i t i' \<Longrightarrow> wrote s i t i' off []"
  unfolding wrote_def file_grow_def fbyte_def by (auto simp: less_mult_imp_div_less)

lemma wrote_trans:
  assumes "fs_ok s" and "wrote s i t i' off bs" and "wrote t i' u i'' (off + length bs) cs" and "off + length bs + length cs \<le> MAXFILE * BSIZE"
  shows "wrote s i u i'' off (bs @ cs)"
proof -
  have pos: "0 \<notin> free_blocks s" using free_blocksD [OF assms(1), of 0] by auto
  note a = assms(2) [unfolded wrote_def] and b = assms(3) [unfolded wrote_def]
  have sub: "free_blocks t \<subseteq> free_blocks s" and st: "fs_step s t" using a by blast+
  have sl: "slot u i'' k = slot s i k \<or> slot s i k = 0 \<and> slot u i'' k \<in> free_blocks s" if "k \<le> MAXFILE" for k
    using a b that pos sub by (metis subsetD)
  have keep: "slot t i' k \<noteq> 0 \<Longrightarrow> slot u i'' k = slot t i' k" if "k \<le> MAXFILE" for k using b that by metis
  have there: "slot u i'' (p div BSIZE) \<noteq> 0" if p: "off \<le> p" "p < off + length (bs @ cs)" for p
  proof (cases "p < off + length bs")
    case True
    have "p div BSIZE \<le> MAXFILE" using p assms(4) by simp
    then show ?thesis using keep a True p by metis
  qed (use b p in auto)
  have "fview u n = fview s n" if n: "n < unat (log_start s)" "n < bmap_start s \<or> data_start s \<le> n" "n \<notin> free_blocks s"
      "\<forall>k\<le>MAXFILE. n \<noteq> slot s i k" for n
  proof -
    have "\<forall>k\<le>MAXFILE. n \<noteq> slot t i' k" using a n(3,4) by metis
    moreover have "n < unat (log_start t)" "n < bmap_start t \<or> data_start t \<le> n" "n \<notin> free_blocks t"
      using n sub fs_stepD [OF st] sb_same [of t s] a by auto
    ultimately have "fview u n = fview t n" using b by blast
    then show ?thesis using a n by auto
  qed
  moreover have "i'' = i\<lparr>addrs := addrs i''\<rparr>"
  proof -
    have "i'' = i'\<lparr>addrs := addrs i''\<rparr>" "i' = i\<lparr>addrs := addrs i'\<rparr>" using a b by blast+
    then show ?thesis by (metis inode.update_convs(11) inode.surjective)
  qed
  moreover have "fbyte u i'' p = (if off \<le> p \<and> p < off + length (bs @ cs) then (bs @ cs) ! (p - off) else fbyte s i p)"
    if "p < MAXFILE * BSIZE" for p
  proof -
    have "fbyte t i' p = (if off \<le> p \<and> p < off + length bs then bs ! (p - off) else fbyte s i p)"
      "fbyte u i'' p = (if off + length bs \<le> p \<and> p < off + length bs + length cs then cs ! (p - (off + length bs)) else fbyte t i' p)"
      using a b that by blast+
    then show ?thesis by (auto simp: nth_append)
  qed
  moreover have "fs_step s u" using a b fs_step_trans by blast
  moreover have "fs_ok u" "file_ok u i''" "fs_sb u = fs_sb s" "free_blocks u \<subseteq> free_blocks s" using a b by auto
  ultimately show ?thesis unfolding wrote_def using sl there by blast
qed

lemma block_written:
  assumes "fs_ok s" and "file_ok s i" and "k < MAXFILE" and "slot s i k \<noteq> 0" and "fs_step s t"
    and "bview t = (bview s)((log_dev s, of_nat (slot s i k)) := x)"
  shows "fs_ok t" and "file_ok t i" and "fs_sb t = fs_sb s" and "free_blocks t = free_blocks s" and "\<forall>k'\<le>MAXFILE. slot t i k' = slot s i k'"
    and "\<forall>k'<MAXFILE. file_block t i k' = (if k' = k then x else file_block s i k')"
    and "\<forall>n<unat (log_start s). n \<noteq> slot s i k \<longrightarrow> fview t n = fview s n"
proof -
  have kd: "data_start s \<le> slot s i k" "slot s i k < unat (log_start s)" using file_okD [OF assms(2) _ assms(4)] assms(3) by auto
  note ft = fs_stepD [OF assms(5)] and lim = fs_ok_nums(4) [OF assms(1)]
  have v: "fview t n = (if n = slot s i k then x else fview s n)" if "n < unat (log_start s)" for n
    using of_nat_u32_eq [of n "slot s i k"] that kd(2) lim assms(6) ft by (auto simp: fview_def)
  then show "\<forall>n<unat (log_start s). n \<noteq> slot s i k \<longrightarrow> fview t n = fview s n" by auto
  have "fview t n = fview s n" if "n < data_start s" for n using v [of n] that kd by auto
  note keep = fs_keep_data [OF assms(1,5) this]
  show "fs_ok t" "fs_sb t = fs_sb s" "free_blocks t = free_blocks s" using keep(1,4) free_blocks_eq [OF assms(1) _ keep(5)] ft by simp_all
  have "bview t (log_dev t, addrs i ! NDIRECT) = bview s (log_dev s, addrs i ! NDIRECT)" if "addrs i ! NDIRECT \<noteq> 0"
  proof -
    have n: "slot s i MAXFILE = unat (addrs i ! NDIRECT)" "slot s i MAXFILE \<noteq> 0" using that by (simp_all add: slot_def unat_eq_0)
    then have "slot s i MAXFILE \<noteq> slot s i k" "slot s i MAXFILE < unat (log_start s)"
      using file_okD [OF assms(2), of MAXFILE] assms(3) by auto
    then have "fview t (slot s i MAXFILE) = fview s (slot s i MAXFILE)" using v by simp
    then show ?thesis unfolding n(1) by (simp add: fview_def)
  qed
  then have "slot t i k' = slot s i k'" for k' unfolding slot_def by auto
  then have sl: "slot t i = slot s i" by (simp add: fun_eq_iff)
  then show "\<forall>k'\<le>MAXFILE. slot t i k' = slot s i k'" by simp
  have lt: "b < unat (log_start s) \<Longrightarrow> b < unat (sb_size (fs_sb s))" for b using assms(1) by (auto simp: fs_ok_def)
  show "file_ok t i" using assms(2) ft keep(3,5) lt unfolding file_ok_def sl by auto
  show "\<forall>k'<MAXFILE. file_block t i k' = (if k' = k then x else file_block s i k')"
    using v file_okD(2,4) [OF assms(2)] assms(3,4) unfolding file_block_def sl by auto
qed

lemma file_block_length:
  assumes "txn s" and "fs_ok s" and "file_ok s i" and "k < MAXFILE"
  shows "length (file_block s i k) = BSIZE"
proof (cases "slot s i k = 0")
  case False
  then have "slot s i k < unat (log_start s)" using file_okD(2) [OF assms(3)] assms(4) by simp
  then show ?thesis using fview_length [OF assms(1)] fs_key(2) [OF assms(2)] False by (simp add: file_block_def)
qed (simp add: file_block_def)

lemma in_block:
  fixes p off m :: nat
  assumes "off mod BSIZE + m \<le> BSIZE"
  shows "off \<le> p \<and> p < off + m \<longleftrightarrow> p div BSIZE = off div BSIZE \<and> off mod BSIZE \<le> p mod BSIZE \<and> p mod BSIZE < off mod BSIZE + m"
    and "off \<le> p \<Longrightarrow> p < off + m \<Longrightarrow> p - off = p mod BSIZE - off mod BSIZE"
proof -
  define q r q' r' where "q = off div BSIZE" and "r = off mod BSIZE" and "q' = p div BSIZE" and "r' = p mod BSIZE"
  then have o: "off = BSIZE * q + r" "p = BSIZE * q' + r'" "r < BSIZE" "r' < BSIZE" "r + m \<le> BSIZE"
    using assms by simp_all
  have *: "q' = q" if "off \<le> p" "p < off + m"
  proof -
    have "q \<le> q'" "q' \<le> q" using o that by linarith+
    then show ?thesis by simp
  qed
  then have "off \<le> p \<and> p < off + m \<longleftrightarrow> q' = q \<and> r \<le> r' \<and> r' < r + m"
    using o(1,2) by auto
  then show "off \<le> p \<and> p < off + m \<longleftrightarrow> p div BSIZE = off div BSIZE \<and> off mod BSIZE \<le> p mod BSIZE \<and> p mod BSIZE < off mod BSIZE + m"
    by (simp add: q_def r_def q'_def r'_def)
  have "p - off = r' - r" if "off \<le> p" "p < off + m" using * [OF that] o(1,2) by simp
  then show "off \<le> p \<Longrightarrow> p < off + m \<Longrightarrow> p - off = p mod BSIZE - off mod BSIZE" by (simp add: r_def r'_def)
qed

lemma wrote_block:
  assumes "txn s" and "fs_ok s" and "file_ok s i" and "off div BSIZE < MAXFILE" and "slot s i (off div BSIZE) \<noteq> 0"
    and "off mod BSIZE + length bs \<le> BSIZE" and "fs_step s t"
    and "bview t = (bview s)((log_dev s, of_nat (slot s i (off div BSIZE))) := splice (off mod BSIZE) bs (fview s (slot s i (off div BSIZE))))"
  shows "wrote s i t i off bs"
proof -
  note w = block_written [OF assms(2-5,7,8)]
  let ?k = "off div BSIZE"
  have blk: "fview s (slot s i ?k) = file_block s i ?k" using assms(5) by (simp add: file_block_def)
  have len: "length (file_block s i ?k) = BSIZE" by (rule file_block_length [OF assms(1-4)])
  have "fbyte t i p = (if off \<le> p \<and> p < off + length bs then bs ! (p - off) else fbyte s i p)" if p: "p < MAXFILE * BSIZE" for p
  proof -
    have "p div BSIZE < MAXFILE" using p by (rule less_mult_imp_div_less)
    then show ?thesis
      using w(6) in_block [OF assms(6), of p] len assms(6) unfolding fbyte_def blk by (auto simp: nth_splice)
  qed
  moreover have "slot t i (p div BSIZE) \<noteq> 0" if "off \<le> p" "p < off + length bs" for p
    using in_block(1) [OF assms(6), of p] that w(5) assms(4,5) by simp
  moreover have "fview t n = fview s n" if "n < unat (log_start s)" "\<forall>k\<le>MAXFILE. n \<noteq> slot s i k" for n
    using w(7) that assms(4) by auto
  ultimately show ?thesis unfolding wrote_def using w(1-5) assms(7) by auto
qed

lemma kthen_edit:
  assumes "kbind (bread d n) (\<lambda>bp. kthen (bmodify bp f) (kthen (log_write bp) (brelse bp))) s = Ret () t"
  shows "kbind (bread d n) (\<lambda>bp. kthen (bmodify bp f) (kthen (log_write bp) (kthen (brelse bp) k))) s = k t"
  using assms by (auto simp: kbind_def split: outcome.splits)

lemma chunks_Cons:
  assumes "0 < n"
  shows "chunks off n = (off, min n (BSIZE - off mod BSIZE)) # chunks (off + min n (BSIZE - off mod BSIZE)) (n - min n (BSIZE - off mod BSIZE))"
  using assms by (subst chunks.simps) (simp add: Let_def)

lemma chunks_0 [simp]: "chunks off 0 = []"
  by (subst chunks.simps) simp

lemma writei_loop_law:
  assumes "txn s" and "fs_ok s" and "busy_keys s = {}" and "ip_ok s ip" and "file_ok s (the_inode s ip)"
    and "off + n \<le> MAXFILE * BSIZE" and "n \<le> length src" and "room (length (chunks off n)) s (the_inode s ip)"
  shows "\<exists>t i'. writei_loop ip src (chunks off n) s = Ret () t \<and> wrote s (the_inode s ip) t i' off (take n src)
    \<and> same_inodes (put_inode ip i' s) t \<and> room 0 t i'
    \<and> card (free_blocks s) + ind_missing i' \<le> card (free_blocks t) + ind_missing (the_inode s ip) + length (chunks off n)
    \<and> ((\<forall>p. off \<le> p \<and> p < off + n \<longrightarrow> slot s (the_inode s ip) (p div BSIZE) \<noteq> 0) \<longrightarrow> i' = the_inode s ip)"
  using assms
proof (induction off n arbitrary: s src rule: chunks.induct)
  case (1 off n)
  show ?case
  proof (cases "n = 0")
    case True
    then show ?thesis
      using wrote_grow [OF file_grow_refl [OF "1.prems"(1,2,5)]] put_inode_self [of ip s] "1.prems"(8)
      by (auto simp: kreturn_def intro!: exI [of _ s] exI [of _ "the_inode s ip"])
  next
    case False
    define m where "m = min n (BSIZE - off mod BSIZE)"
    let ?k = "off div BSIZE" and ?cs = "chunks (off + m) (n - m)" and ?i = "the_inode s ip"
    have m: "0 < m" "m \<le> n" "off mod BSIZE + m \<le> BSIZE" using False by (auto simp: m_def)
    have ch: "chunks off n = (off, m) # ?cs" using chunks_Cons [of n off] False unfolding m_def by simp
    have k: "?k < MAXFILE" using "1.prems"(6) m by (intro less_mult_imp_div_less) simp
    obtain t i' where t: "fs1_bmap ip ?k s = Ret (of_nat (slot t i' ?k)) t" "slot t i' ?k \<noteq> 0" "file_grow s ?i t i'"
        "same_inodes (put_inode ip i' s) t"
        "fs_fits (length ?cs + ind_missing i' + 1) (insert (log_dev s, of_nat (slot t i' ?k)) (file_keys t i')) t"
        "card (free_blocks s) + ind_missing i' \<le> card (free_blocks t) + Suc (ind_missing ?i)" "slot s ?i ?k \<noteq> 0 \<longrightarrow> i' = ?i"
      using bmap_law [OF "1.prems"(1-5) k, of "length ?cs"] "1.prems"(8) unfolding ch by auto
    have ft: "fs_step s t" "fs_ok t" "file_ok t i'" using t(3) by (simp_all add: file_grow_def)
    note sd = fs_stepD [OF ft(1)]
    have kd: "slot t i' ?k < unat (log_start t)" using file_okD(2) [OF ft(3) _ t(2)] k by simp
    note key = fs_key [OF ft(2) kd]
    have dev: "idev ?i = log_dev s" using "1.prems"(5) by (simp add: file_ok_def)
    have len: "length (fview t (slot t i' ?k)) = BSIZE" using fview_length [OF _ key(2)] sd by blast
    let ?f = "splice (off mod BSIZE) (take m src)"
    have lm: "length (take m src) = m" using m(2) "1.prems"(7) by simp
    obtain u where u: "kbind (bread (log_dev s) (of_nat (slot t i' ?k))) (\<lambda>bp. kthen (bmodify bp ?f) (kthen (log_write bp) (brelse bp))) t = Ret () u"
        "fs_step t u" "same_inodes t u"
        "bview u = (bview t)((log_dev t, of_nat (slot t i' ?k)) := ?f (fview t (slot t i' ?k)))"
        "dirty_keys u = insert (log_dev t, of_nat (slot t i' ?k)) (dirty_keys t)"
      using fs_edit [OF _ t(5) _ key(1), of ?f] sd "1.prems"(3) len lm m(3) unfolding fview_def by auto
    have tt: "txn t" using sd by blast
    note wb = block_written [OF ft(2,3) k t(2) u(2,4)]
    have w2: "wrote t i' u i' off (take m src)" using wrote_block [OF tt ft(2,3) k t(2) _ u(2,4)] lm m(3) by simp
    have "wrote s ?i u i' off ([] @ take m src)"
      using wrote_trans [OF "1.prems"(2) wrote_grow [OF t(3), of off]] w2 lm m(2) "1.prems"(6) by simp
    then have w: "wrote s ?i u i' off (take m src)" by simp
    have "fs_fits (length ?cs + ind_missing i' + 1) (file_keys t i') u"
      using fits_sub [OF fits_step [OF t(5) u(2)], of "file_keys t i'"] u(5) sd by auto
    moreover have "file_keys u i' = file_keys t i'"
      using bitmap_keys_same [OF u(2) wb(3)] fs_stepD [OF u(2)] by (simp add: file_keys_def)
    moreover have "length ?cs + ind_missing i' \<le> card (free_blocks t)" using t(6) "1.prems"(8) unfolding ch by (simp add: room_def)
    ultimately have ru: "room (length ?cs) u i'" using wb(4) by (simp add: room_def)
    have su: "same_inodes (put_inode ip i' s) u" using same_inodes_trans [OF t(4) u(3)] .
    note iu = put_inode_at [OF su "1.prems"(4)]
    have "txn u" "busy_keys u = {}" using fs_stepD [OF u(2)] sd "1.prems"(3) by auto
    moreover have "n - m \<le> length src - m" using "1.prems"(7) by (rule diff_le_mono)
    ultimately obtain v i'' where v: "writei_loop ip (drop m src) ?cs u = Ret () v" "wrote u i' v i'' (off + m) (take (n - m) (drop m src))"
        "same_inodes (put_inode ip i'' u) v" "room 0 v i''"
        "(\<forall>p. off + m \<le> p \<and> p < off + m + (n - m) \<longrightarrow> slot u i' (p div BSIZE) \<noteq> 0) \<longrightarrow> i'' = i'"
        "card (free_blocks u) + ind_missing i'' \<le> card (free_blocks v) + ind_missing i' + length ?cs"
      using "1.IH" [OF False m_def, of u "drop m src"] wb(1,2) iu ru "1.prems"(6,7) m(2) by auto
    have "take m src @ take (n - m) (drop m src) = take n src" using m(2) by (metis take_add le_add_diff_inverse)
    then have "wrote s ?i v i'' off (take n src)"
      using wrote_trans [OF "1.prems"(2) w, of v i'' "take (n - m) (drop m src)"] v(2) lm m(2) "1.prems"(6,7) by simp
    moreover have "same_inodes (put_inode ip i'' s) v" using put_inode_trans [OF su v(3)] .
    moreover have "writei_loop ip src (chunks off n) s = Ret () v"
      using t(1) v(1) kthen_edit [OF u(1), of "writei_loop ip (drop m src) ?cs"]
      unfolding ch by (simp add: kbind_Ret inode_at_Ret [OF "1.prems"(4)] dev)
    moreover have "i'' = ?i" if there: "\<forall>p. off \<le> p \<and> p < off + n \<longrightarrow> slot s ?i (p div BSIZE) \<noteq> 0"
    proof -
      have "i' = ?i" using t(7) there False by simp
      moreover have "slot u i' (p div BSIZE) \<noteq> 0" if p: "off + m \<le> p" "p < off + m + (n - m)" for p
      proof -
        have "p div BSIZE \<le> MAXFILE" using p m(2) "1.prems"(6) by simp
        moreover have "slot s ?i (p div BSIZE) \<noteq> 0" using there p m(2) by simp
        ultimately show ?thesis using w unfolding wrote_def by metis
      qed
      ultimately show ?thesis using v(5) by simp
    qed
    moreover have "card (free_blocks s) + ind_missing i'' \<le> card (free_blocks v) + ind_missing ?i + length (chunks off n)"
      using t(6) v(6) wb(4) unfolding ch by simp
    ultimately show ?thesis using v(4) by blast
  qed
qed

subsection \<open>The inode on disk\<close>

lemma slice_put_sectors_other:
  "off + 4 * length ws \<le> length x \<Longrightarrow> p + n \<le> length x \<Longrightarrow> p + n \<le> off \<or> off + 4 * length ws \<le> p \<Longrightarrow>
   slice p n (put_sectors off ws x) = slice p n x"
proof (induction ws arbitrary: off x)
  case (Cons w ws)
  have "slice p n (put_sectors (off + 4) ws (put32 off w x)) = slice p n (put32 off w x)"
    using Cons.prems by (intro Cons.IH) auto
  also have "\<dots> = slice p n x" using Cons.prems by (auto simp: put32_def intro!: slice_splice_other)
  finally show ?case by simp
qed simp

lemma length_put_dinode: "length x = BSIZE \<Longrightarrow> o1 + 128 \<le> BSIZE \<Longrightarrow> length (addrs i) = 29 \<Longrightarrow> length (put_dinode o1 i x) = BSIZE"
  by (simp add: put_dinode_def length_put_sectors)

lemma slice_put_dinode_other:
  assumes "length x = BSIZE" and "o1 + 128 \<le> BSIZE" and "length (addrs i) = 29" and "p + n \<le> BSIZE" and "p + n \<le> o1 \<or> o1 + 128 \<le> p"
  shows "slice p n (put_dinode o1 i x) = slice p n x"
proof -
  have "slice p n (put_dinode o1 i x) = slice p n (put32 (o1 + 8) (isize i) (put16 (o1 + 6) (nlink i)
     (put16 (o1 + 4) (iminor i) (put16 (o1 + 2) (imajor i) (put16 o1 (itype i) x)))))"
    unfolding put_dinode_def using assms by (intro slice_put_sectors_other) auto
  also have "\<dots> = slice p n x"
    using assms(5)
  proof
    assume "p + n \<le> o1"
    then show ?thesis using assms(1-4) by (simp add: put32_def put16_def slice_splice_other)
  next
    assume "o1 + 128 \<le> p"
    then show ?thesis using assms(1-4) by (simp add: put32_def put16_def slice_splice_other)
  qed
  finally show ?thesis .
qed

lemma get_put_dinode:
  assumes "length x = BSIZE" and "o1 + 128 \<le> BSIZE" and "length (addrs i) = 29"
  shows "get_dinode o1 (put_dinode o1 i x) i = i"
proof -
  let ?y = "put32 (o1 + 8) (isize i) (put16 (o1 + 6) (nlink i) (put16 (o1 + 4) (iminor i) (put16 (o1 + 2) (imajor i)
    (put16 o1 (itype i) x))))"
  have y: "length ?y = BSIZE" "get32 (o1 + 8) ?y = isize i" using assms by simp_all
  have a: "map (\<lambda>k. get32 (o1 + 12 + 4 * k) (put_dinode o1 i x)) [0..<29] = addrs i"
    using assms y(1) by (intro nth_equalityI) (auto simp: put_dinode_def get32_put_sectors)
  have sl: "slice p n (put_dinode o1 i x) = slice p n ?y" if "p + n \<le> o1 + 12" for p n
    unfolding put_dinode_def using that assms y(1) by (intro slice_put_sectors_other) auto
  have "get16 o1 ?y = itype i" "get16 (o1 + 2) ?y = imajor i" "get16 (o1 + 4) ?y = iminor i" "get16 (o1 + 6) ?y = nlink i"
    using assms by (simp_all add: get16_def put16_def put32_def slice_splice_other)
  then have "get16 o1 (put_dinode o1 i x) = itype i" "get16 (o1 + 2) (put_dinode o1 i x) = imajor i"
      "get16 (o1 + 4) (put_dinode o1 i x) = iminor i" "get16 (o1 + 6) (put_dinode o1 i x) = nlink i" "get32 (o1 + 8) (put_dinode o1 i x) = isize i"
    using y(2) sl by (simp_all add: get16_def get32_def)
  then show ?thesis using a by (simp add: get_dinode_def)
qed

lemma get_dinode_slice: "o1 + 128 \<le> length x \<Longrightarrow> o1 + 128 \<le> length y \<Longrightarrow> slice o1 128 x = slice o1 128 y \<Longrightarrow> get_dinode o1 x i = get_dinode o1 y i"
proof -
  assume *: "o1 + 128 \<le> length x" "o1 + 128 \<le> length y" "slice o1 128 x = slice o1 128 y"
  have sub: "slice (o1 + p) n z = slice p n (slice o1 128 z)" if "p + n \<le> 128" for p n and z :: block
    using that by (simp add: slice_def drop_take min_def add.commute)
  have "slice (o1 + p) n x = slice (o1 + p) n y" if "p + n \<le> 128" for p n using sub [OF that] *(3) by simp
  then have "get16 (o1 + p) x = get16 (o1 + p) y" "get32 (o1 + q) x = get32 (o1 + q) y" if "p \<le> 126" "q \<le> 124" for p q
    using that by (simp_all add: get16_def get32_def)
  note g = this
  have "map (\<lambda>k. get32 (o1 + 12 + 4 * k) x) [0..<29] = map (\<lambda>k. get32 (o1 + 12 + 4 * k) y) [0..<29]"
    using g(2) [of 0] by (auto simp: add.assoc)
  then show ?thesis using g(1) [of 0 0] g(1) [of 2 0] g(1) [of 4 0] g(1) [of 6 0] g(2) [of 0 8] by (simp add: get_dinode_def)
qed

definition inode_sector :: "inode \<Rightarrow> nat" where
  "inode_sector i = unat (inum i) div IPB + 2"

text \<open>The device of the log has a file system of the native kind.\<close>

definition fs1_dev :: "'a fsst_scheme \<Rightarrow> bool" where
  "fs1_dev s \<longleftrightarrow> (case find (\<lambda>e. fs_used e = 1 \<and> fs_dev e = ucast (log_dev s)) (fsmap s) of Some e \<Rightarrow> fs_type e = FS_TYPE_FS1 | None \<Rightarrow> False)"

lemma by_fstype_fs1: "fs1_dev s \<Longrightarrow> by_fstype (log_dev s) e f s = f s"
  by (auto simp: fs1_dev_def by_fstype_def getfstype_def kget_def kbind_def split: option.splits)

lemma inode_sector_bounds:
  assumes "inum i < sb_ninodes (fs_sb s)"
  shows "1 < inode_sector i" and "inode_sector i < bmap_start s"
proof -
  have "unat (inum i) \<le> unat (sb_ninodes (fs_sb s))" using assms by (simp add: word_less_nat_alt)
  then show "1 < inode_sector i" "inode_sector i < bmap_start s"
    by (simp_all add: inode_sector_def bmap_start_def div_le_mono less_Suc_eq_le)
qed

lemma dinode_off_bound: "dinode_off n + 128 \<le> BSIZE"
  by (simp add: dinode_off_def)

lemma iupdate_law:
  assumes "txn s" and "fs_ok s" and "busy_keys s = {}" and "ip_ok s ip" and "fs_fits m X s" and "fs1_dev s"
    and "idev (the_inode s ip) = log_dev s" and "length (addrs (the_inode s ip)) = 29" and "inum (the_inode s ip) < sb_ninodes (fs_sb s)"
  shows "\<exists>t. iupdate ip s = Ret () t \<and> fs_step s t \<and> same_inodes s t
    \<and> bview t = (bview s)((log_dev s, of_nat (inode_sector (the_inode s ip))) :=
        put_dinode (dinode_off (inum (the_inode s ip))) (the_inode s ip) (fview s (inode_sector (the_inode s ip))))"
proof -
  let ?i = "the_inode s ip"
  have n: "inode_sector ?i < unat (log_start s)"
    using inode_sector_bounds [OF assms(9)] fs_ok_nums(1) [OF assms(2)] assms(2) by (simp add: fs_ok_def)
  note key = fs_key [OF assms(2) n]
  have len: "length (fview s (inode_sector ?i)) = BSIZE" using fview_length [OF assms(1) key(2)] .
  have ib: "IBLOCK (inum ?i) = of_nat (inode_sector ?i)" by (simp add: IBLOCK_def inode_sector_def)
  show ?thesis
    using fs_edit [OF assms(1,5) _ key(1), of "put_dinode (dinode_off (inum ?i)) ?i"] assms(3,7)
      length_put_dinode [OF len dinode_off_bound assms(8)]
    by (auto simp: by_fstype_fs1 [OF assms(6)] iupdate_def fs1_iupdate_def kbind_Ret inode_at_Ret [OF assms(4)] ib fview_def)
qed

text \<open>A file keeps its blocks and bytes when its sectors do.\<close>

lemma file_same:
  assumes "fs_ok s" and "file_ok s j" and "log_dev t = log_dev s" and "log_start t = log_start s" and "fs_sb t = fs_sb s"
    and "free_blocks t \<subseteq> free_blocks s" and "\<forall>k\<le>MAXFILE. slot s j k \<noteq> 0 \<longrightarrow> fview t (slot s j k) = fview s (slot s j k)"
  shows "slot t j = slot s j" and "file_ok t j" and "p < MAXFILE * BSIZE \<Longrightarrow> fbyte t j p = fbyte s j p"
proof -
  have "bview t (log_dev t, addrs j ! NDIRECT) = bview s (log_dev s, addrs j ! NDIRECT)" if "addrs j ! NDIRECT \<noteq> 0"
  proof -
    have n: "slot s j MAXFILE = unat (addrs j ! NDIRECT)" "slot s j MAXFILE \<noteq> 0" using that by (simp_all add: slot_def unat_eq_0)
    have "fview t (slot s j MAXFILE) = fview s (slot s j MAXFILE)" by (rule assms(7) [rule_format, OF order_refl n(2)])
    then show ?thesis unfolding n(1) by (simp add: fview_def)
  qed
  then have "slot t j k = slot s j k" for k unfolding slot_def by auto
  then show sl: "slot t j = slot s j" by (simp add: fun_eq_iff)
  have "\<not> block_free t (slot s j k)" if "k \<le> MAXFILE" "slot s j k \<noteq> 0" for k
  proof -
    have "slot s j k \<notin> free_blocks t" "slot s j k < unat (log_start t)"
      using file_okD(2,3) [OF assms(2) that] assms(4,6) by auto
    then show ?thesis by (simp add: free_blocks_def)
  qed
  then show "file_ok t j" using assms(2-4) sb_same [OF assms(5)] unfolding file_ok_def sl by auto
  show "fbyte t j p = fbyte s j p" if "p < MAXFILE * BSIZE"
  proof -
    have "p div BSIZE < MAXFILE" using that by (rule less_mult_imp_div_less)
    then show ?thesis using assms(7) unfolding fbyte_def file_block_def sl by simp
  qed
qed

lemma inode_write:
  assumes "fs_ok s" and "fs_step s t" and "1 < n" and "n < bmap_start s" and "bview t = (bview s)((log_dev s, of_nat n) := x)"
  shows "fs_ok t" and "fs_sb t = fs_sb s" and "free_blocks t = free_blocks s"
    and "k < unat (log_start s) \<Longrightarrow> fview t k = (if k = n then x else fview s k)"
proof -
  note lim = fs_ok_nums [OF assms(1)] and ft = fs_stepD [OF assms(2)]
  have le: "data_start s \<le> unat (log_start s)" using assms(1) by (simp add: fs_ok_def)
  have v: "fview t k = (if k = n then x else fview s k)" if "k < unat (log_start s)" for k
    using that of_nat_u32_eq [of k n] assms(4,5) lim(1,3,4) ft by (auto simp: fview_def)
  then show "k < unat (log_start s) \<Longrightarrow> fview t k = (if k = n then x else fview s k)" .
  show sb: "fs_sb t = fs_sb s" using v [of 1] lim(1,2) assms(3) le by (simp add: fs_sb_def)
  note g = sb_same [OF sb]
  have "block_free t b = block_free s b" if "b < unat (sb_size (fs_sb s))" for b
    using v [of "bmap_start s + b div BPB"] lim(5) [OF that] le assms(4) by (simp add: block_free_def g)
  then show "fs_ok t" "free_blocks t = free_blocks s"
    using assms(1) ft sb g free_blocks_eq [OF assms(1)] by (auto simp: fs_ok_def)
qed

text \<open>A file at rest: its blocks are its own, those below its size are there, and the inode on disk is that in memory.\<close>

definition file_wf :: "'a fsst_scheme \<Rightarrow> inode \<Rightarrow> bool" where
  "file_wf s i \<longleftrightarrow> file_ok s i \<and> inum i < sb_ninodes (fs_sb s) \<and> unat (isize i) \<le> MAXFILE * BSIZE
     \<and> (\<forall>p<unat (isize i). slot s i (p div BSIZE) \<noteq> 0)
     \<and> get_dinode (dinode_off (inum i)) (fview s (inode_sector i)) i = i"

definition apart :: "'a fsst_scheme \<Rightarrow> inode \<Rightarrow> inode \<Rightarrow> bool" where
  "apart s i j \<longleftrightarrow> inum i \<noteq> inum j \<and> (\<forall>k\<le>MAXFILE. \<forall>k'\<le>MAXFILE. slot s i k = slot s j k' \<longrightarrow> slot s i k = 0)"

definition file_bytes :: "'a fsst_scheme \<Rightarrow> inode \<Rightarrow> u8 list" where
  "file_bytes s i = map (fbyte s i) [0..<unat (isize i)]"

lemma slot_addrs: "addrs j = addrs i \<Longrightarrow> slot s j = slot s i"
  by (simp add: slot_def fun_eq_iff)

lemma fbyte_addrs: "addrs j = addrs i \<Longrightarrow> fbyte s j = fbyte s i"
  using slot_addrs [of j i s] by (simp add: fbyte_def fun_eq_iff file_block_def)

lemma file_ok_addrs: "addrs j = addrs i \<Longrightarrow> idev j = idev i \<Longrightarrow> file_ok s j = file_ok s i"
  using slot_addrs [of j i s] by (simp add: file_ok_def)

lemma inode_off_apart:
  assumes "inode_sector i = inode_sector j" and "inum i \<noteq> inum j"
  shows "dinode_off (inum j) + 128 \<le> dinode_off (inum i) \<or> dinode_off (inum i) + 128 \<le> dinode_off (inum j)"
proof -
  have "unat (inum i) div IPB = unat (inum j) div IPB" using assms(1) by (simp add: inode_sector_def)
  moreover have "unat (inum i) \<noteq> unat (inum j)" using assms(2) by (simp add: word_unat_eq_iff)
  ultimately have "unat (inum i) mod IPB \<noteq> unat (inum j) mod IPB" by (metis div_mult_mod_eq)
  then show ?thesis unfolding dinode_off_def by linarith
qed

text \<open>Everything that a write leaves behind, with the inode sector.\<close>

definition saved :: "'a fsst_scheme \<Rightarrow> inode \<Rightarrow> 'a fsst_scheme \<Rightarrow> inode \<Rightarrow> nat \<Rightarrow> u8 list \<Rightarrow> bool" where
  "saved s i t j off bs \<longleftrightarrow> fs_step s t \<and> fs_ok t \<and> file_ok t j \<and> fs_sb t = fs_sb s \<and> free_blocks t \<subseteq> free_blocks s
     \<and> j = i\<lparr>addrs := addrs j, isize := (if unat (isize i) < off + length bs then of_nat (off + length bs) else isize i)\<rparr>
     \<and> (\<forall>p<MAXFILE * BSIZE. fbyte t j p = (if off \<le> p \<and> p < off + length bs then bs ! (p - off) else fbyte s i p))
     \<and> (\<forall>k\<le>MAXFILE. slot t j k = slot s i k \<or> slot s i k = 0 \<and> slot t j k \<in> free_blocks s)
     \<and> (\<forall>p. off \<le> p \<and> p < off + length bs \<longrightarrow> slot t j (p div BSIZE) \<noteq> 0)
     \<and> (\<forall>n<unat (log_start s). (n < bmap_start s \<or> data_start s \<le> n) \<longrightarrow> n \<notin> free_blocks s
          \<longrightarrow> (\<forall>k\<le>MAXFILE. n \<noteq> slot s i k) \<longrightarrow> n \<noteq> inode_sector i \<longrightarrow> fview t n = fview s n)
     \<and> get_dinode (dinode_off (inum i)) (fview t (inode_sector i)) j = j
     \<and> (\<forall>o2. o2 + 128 \<le> BSIZE \<longrightarrow> o2 + 128 \<le> dinode_off (inum i) \<or> dinode_off (inum i) + 128 \<le> o2 \<longrightarrow>
          slice o2 128 (fview t (inode_sector i)) = slice o2 128 (fview s (inode_sector i)))"

lemma sector_unused:
  assumes "fs_ok s" and "file_ok s i" and "n < bmap_start s" and "1 < n"
  shows "n < unat (log_start s)" and "n \<notin> free_blocks s" and "\<forall>k\<le>MAXFILE. n \<noteq> slot s i k"
proof -
  note lim = fs_ok_nums(1,2) [OF assms(1)]
  show "n < unat (log_start s)" using lim assms(1,3) by (simp add: fs_ok_def)
  show "n \<notin> free_blocks s" using free_blocksD [OF assms(1), of n] lim assms(3) by auto
  have "n \<noteq> slot s i k" if "k \<le> MAXFILE" for k using file_okD(1) [OF assms(2) that] lim assms(3,4) by auto
  then show "\<forall>k\<le>MAXFILE. n \<noteq> slot s i k" by blast
qed

lemma saved_wrote:
  assumes "fs_ok s" and "file_wf s i" and "wrote s i t i off bs" and "off + length bs \<le> unat (isize i)"
  shows "saved s i t i off bs"
proof -
  have ok: "file_ok s i" "inum i < sb_ninodes (fs_sb s)" "get_dinode (dinode_off (inum i)) (fview s (inode_sector i)) i = i"
    using assms(2) by (simp_all add: file_wf_def)
  note b = inode_sector_bounds [OF ok(2)]
  have "fview t (inode_sector i) = fview s (inode_sector i)"
    using sector_unused [OF assms(1) ok(1) b(2,1)] b(2) assms(3) unfolding wrote_def by blast
  then show ?thesis using assms(3,4) ok(3) unfolding wrote_def saved_def by auto
qed

lemma saved_grown:
  assumes "txn s" and "fs_ok s" and "file_wf s i" and "wrote s i t i' off bs" and "unat (isize i) < off + length bs"
    and "j = i'\<lparr>isize := of_nat (off + length bs)\<rparr>" and "fs_step t u"
    and "bview u = (bview t)((log_dev t, of_nat (inode_sector j)) := put_dinode (dinode_off (inum j)) j (fview t (inode_sector j)))"
  shows "saved s i u j off bs"
proof -
  have ok: "file_ok s i" "inum i < sb_ninodes (fs_sb s)" using assms(3) by (simp_all add: file_wf_def)
  have w: "fs_step s t" "fs_ok t" "file_ok t i'" "fs_sb t = fs_sb s" "free_blocks t \<subseteq> free_blocks s" "i' = i\<lparr>addrs := addrs i'\<rparr>"
    using assms(4) unfolding wrote_def by blast+
  have num: "inum j = inum i" "idev j = idev i'" "addrs j = addrs i'" "inode_sector j = inode_sector i"
    using assms(6) arg_cong [OF w(6), of inum] by (simp_all add: inode_sector_def)
  let ?n = "inode_sector i" and ?o = "dinode_off (inum i)"
  note b = inode_sector_bounds [OF ok(2)] and g = sb_same [OF w(4)]
  have bt: "1 < ?n" "?n < bmap_start t" using b g by simp_all
  have vn: "fview t ?n = fview s ?n"
    using sector_unused [OF assms(2) ok(1) b(2,1)] b(2) assms(4) unfolding wrote_def by blast
  note iw = inode_write [OF w(2) assms(7) bt assms(8) [unfolded num]]
  have ls: "log_start t = log_start s" using fs_stepD [OF w(1)] by blast
  have oj: "file_ok t j" using file_ok_addrs [OF num(3,2), of t] w(3) by simp
  note su = sector_unused [OF w(2) oj bt(2,1)]
  have keep: "\<forall>k\<le>MAXFILE. slot t j k \<noteq> 0 \<longrightarrow> fview u (slot t j k) = fview t (slot t j k)"
    using iw(4) file_okD(2) [OF oj] su(3) by auto
  have eqs: "log_dev u = log_dev t" "log_start u = log_start t" using fs_stepD [OF assms(7)] by blast+
  note fsame = file_same [OF w(2) oj eqs iw(2) equalityD1 [OF iw(3)] keep]
  have len: "length (fview t ?n) = BSIZE" using fview_length fs_key(2) [OF w(2) su(1)] fs_stepD [OF w(1)] by blast
  have la: "length (addrs j) = 29" using oj by (simp add: file_ok_def)
  have un: "fview u ?n = put_dinode ?o j (fview s ?n)" using iw(4) [OF su(1)] num vn by simp
  have "get_dinode ?o (fview u ?n) j = j" using get_put_dinode [OF len dinode_off_bound la] un vn by simp
  moreover have "slice o2 128 (fview u ?n) = slice o2 128 (fview s ?n)"
    if "o2 + 128 \<le> BSIZE" "o2 + 128 \<le> ?o \<or> ?o + 128 \<le> o2" for o2
    using slice_put_dinode_other [OF len dinode_off_bound la that] un vn by simp
  moreover have "fview u n = fview s n" if n: "n < unat (log_start s)" "n < bmap_start s \<or> data_start s \<le> n" "n \<notin> free_blocks s"
      "\<forall>k\<le>MAXFILE. n \<noteq> slot s i k" "n \<noteq> ?n" for n
  proof -
    have "fview u n = fview t n" using iw(4) [of n] n(1,5) ls by simp
    then show ?thesis using assms(4) n unfolding wrote_def by auto
  qed
  moreover have "j = i\<lparr>addrs := addrs j, isize := of_nat (off + length bs)\<rparr>"
    using assms(6) w(6) by (metis inode.update_convs(10,11) inode.surjective num(3))
  moreover have "fbyte u j p = (if off \<le> p \<and> p < off + length bs then bs ! (p - off) else fbyte s i p)" if "p < MAXFILE * BSIZE" for p
    using fsame(3) [OF that] fbyte_addrs [OF num(3), of t] assms(4) that unfolding wrote_def by simp
  moreover have "slot u j = slot t i'" using fsame(1) slot_addrs [OF num(3), of t] by simp
  moreover have "fs_step s u" using fs_step_trans [OF w(1) assms(7)] .
  ultimately show ?thesis unfolding saved_def using assms(4,5) iw(1-3) w(4,5) fsame(2) unfolding wrote_def by auto
qed

lemma writei_law:
  assumes "txn s" and "fs_ok s" and "busy_keys s = {}" and "ip_ok s ip" and "fs1_dev s" and "file_wf s (the_inode s ip)"
    and "off \<le> isize (the_inode s ip)" and "unat off + unat n \<le> MAXFILE * BSIZE" and "unat n \<le> length src"
    and "room (length (chunks (unat off) (unat n))) s (the_inode s ip)"
  shows "\<exists>t j. fs1_writei ip src off n s = Ret (sint n) t \<and> saved s (the_inode s ip) t j (unat off) (take (unat n) src)
    \<and> same_inodes (put_inode ip j s) t
    \<and> card (free_blocks s) + ind_missing j \<le> card (free_blocks t) + ind_missing (the_inode s ip) + length (chunks (unat off) (unat n))"
proof -
  let ?i = "the_inode s ip"
  have wf: "file_ok s ?i" "inum ?i < sb_ninodes (fs_sb s)" "\<forall>p<unat (isize ?i). slot s ?i (p div BSIZE) \<noteq> 0"
    using assms(6) by (simp_all add: file_wf_def)
  have un: "unat (off + n) = unat off + unat n" using assms(8) by (subst unat_add_lem [symmetric]) simp
  have nov: "\<not> off + n < off" using un by (simp add: word_less_nat_alt)
  have le0: "\<not> isize ?i < off" using assms(7) by simp
  obtain t i' where t: "writei_loop ip src (chunks (unat off) (unat n)) s = Ret () t" "wrote s ?i t i' (unat off) (take (unat n) src)"
      "same_inodes (put_inode ip i' s) t" "room 0 t i'"
      "(\<forall>p. unat off \<le> p \<and> p < unat off + unat n \<longrightarrow> slot s ?i (p div BSIZE) \<noteq> 0) \<longrightarrow> i' = ?i"
      "card (free_blocks s) + ind_missing i' \<le> card (free_blocks t) + ind_missing ?i + length (chunks (unat off) (unat n))"
    using writei_loop_law [OF assms(1-4) wf(1) assms(8-10)] by blast
  have lb: "length (take (unat n) src) = unat n" using assms(9) by simp
  have w: "fs_step s t" "fs_ok t" "file_ok t i'" "fs_sb t = fs_sb s" "i' = ?i\<lparr>addrs := addrs i'\<rparr>"
    using t(2) unfolding wrote_def by blast+
  have sz: "isize i' = isize ?i" "inum i' = inum ?i" using arg_cong [OF w(5), of isize] arg_cong [OF w(5), of inum] by simp_all
  note it = put_inode_at [OF t(3) assms(4)]
  have run: "fs1_writei ip src off n s =
      kthen (if n > 0 \<and> off + n > isize ?i then kthen (set_inode ip (\<lambda>i. i\<lparr>isize := off + n\<rparr>)) (iupdate ip) else kreturn ())
         (kreturn (sint n)) t"
    using assms(8,9) le0 nov un t(1) it inode_at_Ret [of t ip] sz(1)
    by (simp add: fs1_writei_def kbind_Ret inode_at_Ret [OF assms(4)])
  show ?thesis
  proof (cases "off + n > isize ?i")
    case False
    then have le: "unat off + unat n \<le> unat (isize ?i)" using un by (simp add: not_less word_le_nat_alt)
    then have "i' = ?i" using t(5) wf(3) by simp
    then have "saved s ?i t ?i (unat off) (take (unat n) src)" using saved_wrote [OF assms(2,6)] t(2) le lb by simp
    then show ?thesis using run False t(3,6) \<open>i' = ?i\<close> by (auto simp: kbind_Ret kreturn_def)
  next
    case True
    have n0: "n > 0" using True assms(7) by (metis add_0_right not_le word_neq_0_conv)
    let ?j = "i'\<lparr>isize := off + n\<rparr>"
    let ?v = "put_inode ip ?j t"
    have tt: "txn t" "busy_keys t = {}" "log_dev t = log_dev s" using fs_stepD [OF w(1)] assms(3) by auto
    note pv = put_inode_step [OF tt(1), of ip ?j]
    have fr: "fs_frame t ?v" using pv(1) by (simp add: fs_step_def)
    note sv = view_same [OF fr pv(2)] and fv = fs_stepD [OF pv(1)]
    have iv: "ip_ok ?v ip" "the_inode ?v ip = ?j" using it by (simp_all add: the_inode_put)
    have fits: "fs_fits (ind_missing i' + 1) (file_keys t i') ?v"
      using t(4) fits_step [OF _ pv(1)] pv(3) by (auto simp: room_def)
    have dev: "fs1_dev ?v" using assms(5) fs_frame_fields(1,13) [of s t] w(1) by (simp add: fs1_dev_def fs_step_def)
    have hyp: "idev ?j = log_dev ?v" "length (addrs ?j) = 29" "inum ?j < sb_ninodes (fs_sb ?v)" "txn ?v" "busy_keys ?v = {}" "fs_ok ?v"
      using w(2-4) fv tt sv sz wf(2) by (simp_all add: file_ok_def)
    obtain u where u: "iupdate ip ?v = Ret () u" "fs_step ?v u" "same_inodes ?v u"
        "bview u = (bview ?v)((log_dev ?v, of_nat (inode_sector ?j)) := put_dinode (dinode_off (inum ?j)) ?j (fview ?v (inode_sector ?j)))"
      using iupdate_law [OF hyp(4,6,5) iv(1) fits dev] hyp(1-3) unfolding iv(2) by blast
    have eq: "off + n = of_nat (unat off + length (take (unat n) src))" using lb by simp
    have lt: "unat (isize ?i) < unat off + length (take (unat n) src)" using True un lb by (simp add: word_less_nat_alt)
    have "saved s ?i u ?j (unat off) (take (unat n) src)"
      using saved_grown [OF assms(1,2,6) t(2) lt _ fs_step_trans [OF pv(1) u(2)], of ?j] u(4) eq sv(1) pv(2) fv by simp
    moreover have "same_inodes (put_inode ip ?j s) u"
      using same_inodes_trans [OF put_inode_trans [OF t(3), of ?j ?v] u(3)] by simp
    moreover have "fs1_writei ip src off n s = Ret (sint n) u"
      using run True n0 u(1) it by (simp add: kbind_Ret set_inode_Ret kreturn_def)
    moreover have "free_blocks u = free_blocks t"
      using inode_write(3) [OF hyp(6) u(2) _ _ u(4)] inode_sector_bounds [OF hyp(3)] sv(4,9) by simp
    moreover have "ind_missing ?j = ind_missing i'" by (simp add: ind_missing_def)
    ultimately show ?thesis using t(6) by (intro exI [of _ u] exI [of _ ?j]) simp
  qed
qed

subsection \<open>Reading\<close>

lemma bmap_hit:
  assumes "txn s" and "fs_ok s" and "busy_keys s = {}" and "ip_ok s ip" and "file_ok s (the_inode s ip)" and "k < MAXFILE"
    and "slot s (the_inode s ip) k \<noteq> 0" and "fs_fits m X s"
  shows "\<exists>t. fs1_bmap ip k s = Ret (of_nat (slot s (the_inode s ip) k)) t \<and> fs_step s t \<and> same_inodes s t \<and> bview t = bview s
    \<and> dirty_keys t = dirty_keys s"
proof -
  let ?i = "the_inode s ip"
  have dev: "idev ?i = log_dev s" using assms(5) by (simp add: file_ok_def)
  show ?thesis
  proof (cases "k < NDIRECT")
    case True
    then have "addrs ?i ! k = of_nat (slot s ?i k)" "addrs ?i ! k \<noteq> 0" using assms(7) by (auto simp: slot_def)
    then show ?thesis using True fs_step_refl [OF assms(1)]
      by (simp add: fs1_bmap_def addr_or_alloc_def kbind_Ret inode_at_Ret [OF assms(4)] kreturn_def)
  next
    case False
    then have ind: "addrs ?i ! NDIRECT \<noteq> 0" using assms(6,7) by (auto simp: slot_def)
    let ?n = "slot s ?i MAXFILE"
    have n: "addrs ?i ! NDIRECT = of_nat ?n" "?n \<noteq> 0" using ind by (simp_all add: slot_def unat_eq_0)
    note key = fs_key [OF assms(2) file_okD(2) [OF assms(5) order_refl n(2)]]
    have a: "get32 (4 * (k - NDIRECT)) (fview s ?n) = of_nat (slot s ?i k)" using False assms(6) ind by (simp add: slot_def fview_def)
    have nz: "(of_nat (slot s ?i k) :: u32) \<noteq> 0"
      using of_nat_u32_eq [of "slot s ?i k" 0] file_okD(2) [OF assms(5), of k] fs_ok_nums(4) [OF assms(2)] assms(6,7) by simp
    obtain bp v u where v: "bread (log_dev s) (of_nat ?n) s = Ret bp v" "bdata_of bp v = Ret (fview s ?n) v" "brelse bp v = Ret () u"
        "fs_step s u" "same_inodes s u" "bview u = bview s" "dirty_keys u = dirty_keys s"
      using fs_open [OF assms(1,8) key(2)] assms(3) unfolding fview_def by auto
    have "k - NDIRECT < NINDIRECT" using False assms(6) by arith
    moreover have "addr_or_alloc ip NDIRECT s = Ret (of_nat ?n) s"
      using ind n(1) by (simp add: addr_or_alloc_def kbind_Ret inode_at_Ret [OF assms(4)] kreturn_def)
    ultimately show ?thesis
      using v a nz False dev by (intro exI [of _ u]) (simp add: fs1_bmap_def kbind_Ret inode_at_Ret [OF assms(4)] Let_def kreturn_def)
  qed
qed

lemma readi_loop_law:
  assumes "txn s" and "fs_ok s" and "busy_keys s = {}" and "ip_ok s ip" and "file_ok s (the_inode s ip)" and "fs_fits m X s"
    and "off + n \<le> MAXFILE * BSIZE" and "\<forall>p. off \<le> p \<and> p < off + n \<longrightarrow> slot s (the_inode s ip) (p div BSIZE) \<noteq> 0"
  shows "\<exists>t. readi_loop ip (chunks off n) s = Ret (map (fbyte s (the_inode s ip)) [off..<off + n]) t \<and> fs_step s t \<and> same_inodes s t
    \<and> bview t = bview s \<and> dirty_keys t = dirty_keys s"
  using assms
proof (induction off n arbitrary: s rule: chunks.induct)
  case (1 off n)
  show ?case
  proof (cases "n = 0")
    case True
    then show ?thesis using fs_step_refl [OF "1.prems"(1)] by (simp add: kreturn_def)
  next
    case False
    define l where "l = min n (BSIZE - off mod BSIZE)"
    let ?k = "off div BSIZE" and ?cs = "chunks (off + l) (n - l)" and ?i = "the_inode s ip"
    have l: "0 < l" "l \<le> n" "off mod BSIZE + l \<le> BSIZE" using False by (auto simp: l_def)
    have ch: "chunks off n = (off, l) # ?cs" using chunks_Cons [of n off] False unfolding l_def by simp
    have k: "?k < MAXFILE" using "1.prems"(7) l by (intro less_mult_imp_div_less) simp
    have nz: "slot s ?i ?k \<noteq> 0" using "1.prems"(8) False by simp
    obtain t where t: "fs1_bmap ip ?k s = Ret (of_nat (slot s ?i ?k)) t" "fs_step s t" "same_inodes s t" "bview t = bview s"
        "dirty_keys t = dirty_keys s"
      using bmap_hit [OF "1.prems"(1-5) k nz "1.prems"(6)] by blast
    have fr: "fs_frame s t" using t(2) by (simp add: fs_step_def)
    note st = view_same [OF fr t(4)] and sd = fs_stepD [OF t(2)]
    note key = fs_key [OF "1.prems"(2) file_okD(2) [OF "1.prems"(5) less_imp_le [OF k] nz]]
    have ft: "txn t" "fs_fits m X t" "(log_dev s, of_nat (slot s ?i ?k)) \<notin> busy_keys t"
      using sd fits_step [OF "1.prems"(6) t(2)] t(5) "1.prems"(3) by auto
    obtain u where u: "kbind (bread (log_dev s) (of_nat (slot s ?i ?k))) (\<lambda>bp. kbind (bdata_of bp) (\<lambda>x. kthen (brelse bp)
          (kbind (readi_loop ip ?cs) (\<lambda>bs. kreturn (slice (off mod BSIZE) l x @ bs))))) t
        = kbind (readi_loop ip ?cs) (\<lambda>bs. kreturn (slice (off mod BSIZE) l (fview s (slot s ?i ?k)) @ bs)) u"
        "fs_step t u" "same_inodes t u" "bview u = bview t" "dirty_keys u = dirty_keys t"
      using fs_look [OF ft(1,2) key(2) ft(3), of "\<lambda>x. kbind (readi_loop ip ?cs) (\<lambda>bs. kreturn (slice (off mod BSIZE) l x @ bs))"] t(4)
      unfolding fview_def by auto
    have su: "fs_step s u" "bview u = bview s" "same_inodes s u" using fs_step_trans [OF t(2) u(2)] t u same_inodes_trans by auto
    have fru: "fs_frame s u" using su(1) by (simp add: fs_step_def)
    note vu = view_same [OF fru su(2)] and du = fs_stepD [OF su(1)] and iu = same_inodesD [OF su(3), of ip]
    have fb: "fbyte u ?i = fbyte s ?i" by (simp add: fbyte_def file_block_def fun_eq_iff vu)
    have "fs_fits m X u" using fits_step [OF "1.prems"(6) su(1)] t(5) u(5) by simp
    moreover have "\<forall>p. off + l \<le> p \<and> p < off + l + (n - l) \<longrightarrow> slot u (the_inode u ip) (p div BSIZE) \<noteq> 0"
      using "1.prems"(8) iu vu l(2) by simp
    ultimately obtain v where v: "readi_loop ip ?cs u = Ret (map (fbyte s ?i) [off + l..<off + l + (n - l)]) v"
        "fs_step u v" "same_inodes u v" "bview v = bview u" "dirty_keys v = dirty_keys u"
      using "1.IH" [OF False l_def, of u] "1.prems"(2-5,7) du vu iu l(2) fb by auto
    have len: "length (file_block s ?i ?k) = BSIZE" by (rule file_block_length [OF "1.prems"(1,2,5) k])
    have fv: "fview s (slot s ?i ?k) = file_block s ?i ?k" using nz by (simp add: file_block_def)
    have "slice (off mod BSIZE) l (file_block s ?i ?k) ! a = fbyte s ?i (off + a)" if a: "a < l" for a
    proof -
      have b: "(off + a) div BSIZE = ?k" "off mod BSIZE \<le> (off + a) mod BSIZE" "a = (off + a) mod BSIZE - off mod BSIZE"
        using in_block [OF l(3), of "off + a"] a by auto
      then have "(off + a) mod BSIZE = off mod BSIZE + a" by (metis le_add_diff_inverse)
      with b(1) show ?thesis using a l(3) len by (simp add: fbyte_def nth_slice)
    qed
    then have "slice (off mod BSIZE) l (file_block s ?i ?k) = map (fbyte s ?i) [off..<off + l]"
      using len l(3) by (intro nth_equalityI) auto
    moreover have "[off..<off + n] = [off..<off + l] @ [off + l..<off + l + (n - l)]"
      using upt_add_eq_append [of off "off + l" "n - l"] l(2) by simp
    ultimately have "readi_loop ip (chunks off n) s = Ret (map (fbyte s ?i) [off..<off + n]) v"
      using t(1) u(1) v(1) "1.prems"(5) fv unfolding ch file_ok_def
      by (simp add: kbind_Ret inode_at_Ret [OF "1.prems"(4)] kreturn_def)
    moreover have "fs_step s v" using fs_step_trans [OF su(1) v(2)] .
    moreover have "same_inodes s v" using same_inodes_trans [OF su(3) v(3)] .
    ultimately show ?thesis using v(4,5) u(4,5) t(4,5) by auto
  qed
qed

subsection \<open>The file that is written, and the others\<close>

lemma saved_self:
  assumes "file_wf s i" and "saved s i t j off bs" and "off \<le> unat (isize i)" and "off + length bs \<le> MAXFILE * BSIZE"
  shows "file_wf t j" and "file_bytes t j = take off (file_bytes s i) @ bs @ drop (off + length bs) (file_bytes s i)"
proof -
  note wf = assms(1) [unfolded file_wf_def] and sv = assms(2) [unfolded saved_def]
  let ?z = "max (unat (isize i)) (off + length bs)"
  have j: "j = i\<lparr>addrs := addrs j, isize := (if unat (isize i) < off + length bs then of_nat (off + length bs) else isize i)\<rparr>"
    using sv by blast
  have num: "inum j = inum i" "isize j = (if unat (isize i) < off + length bs then of_nat (off + length bs) else isize i)"
    using arg_cong [OF j, of inum] arg_cong [OF j, of isize] by simp_all
  have "unat (of_nat (off + length bs) :: u32) = off + length bs" using assms(4) by (intro u32_of_nat_small) simp
  then have size_j: "unat (isize j) = ?z" using num(2) by auto
  have there: "slot t j (p div BSIZE) \<noteq> 0" if p: "p < ?z" for p
  proof (cases "off \<le> p \<and> p < off + length bs")
    case False
    then have "p < unat (isize i)" using p assms(3) by auto
    moreover from this have "p div BSIZE \<le> MAXFILE" using wf by auto
    ultimately show ?thesis using wf sv by metis
  qed (use sv in blast)
  have "file_ok t j" "fs_sb t = fs_sb s" "get_dinode (dinode_off (inum i)) (fview t (inode_sector i)) j = j" using sv by blast+
  then show "file_wf t j"
    using wf num(1) size_j there assms(4) unfolding file_wf_def by (simp add: inode_sector_def)
  have "file_bytes t j ! p = (take off (file_bytes s i) @ bs @ drop (off + length bs) (file_bytes s i)) ! p" if p: "p < ?z" for p
  proof -
    have "p < MAXFILE * BSIZE" using p wf assms(4) by auto
    then have "fbyte t j p = (if off \<le> p \<and> p < off + length bs then bs ! (p - off) else fbyte s i p)" using sv by blast
    then show ?thesis using p size_j assms(3) by (auto simp: file_bytes_def nth_append)
  qed
  then show "file_bytes t j = take off (file_bytes s i) @ bs @ drop (off + length bs) (file_bytes s i)"
    using size_j assms(3) by (intro nth_equalityI) (auto simp: file_bytes_def)
qed

lemma saved_other:
  assumes "fs_ok s" and "txn s" and "file_wf s i" and "saved s i t j off bs" and "file_wf s h" and "apart s i h"
  shows "file_wf t h" and "apart t j h" and "file_bytes t h = file_bytes s h"
proof -
  note wf = assms(5) [unfolded file_wf_def] and sv = assms(4) [unfolded saved_def]
  have ok: "file_ok s i" "inum i < sb_ninodes (fs_sb s)" "file_ok s h" "inum h < sb_ninodes (fs_sb s)"
    using assms(3) wf by (simp_all add: file_wf_def)
  note bi = inode_sector_bounds [OF ok(2)] and bh = inode_sector_bounds [OF ok(4)]
  have frame: "fview t n = fview s n" if "n < unat (log_start s)" "n < bmap_start s \<or> data_start s \<le> n" "n \<notin> free_blocks s"
      "\<forall>k\<le>MAXFILE. n \<noteq> slot s i k" "n \<noteq> inode_sector i" for n
    using sv that by blast
  have st: "fs_step s t" "fs_sb t = fs_sb s" "free_blocks t \<subseteq> free_blocks s" using sv by blast+
  have keep: "\<forall>k\<le>MAXFILE. slot s h k \<noteq> 0 \<longrightarrow> fview t (slot s h k) = fview s (slot s h k)"
  proof (intro allI impI)
    fix k assume k: "k \<le> MAXFILE" "slot s h k \<noteq> 0"
    note d = file_okD [OF ok(3) k]
    have "\<forall>k'\<le>MAXFILE. slot s h k \<noteq> slot s i k'" using assms(6) k unfolding apart_def by metis
    moreover have "slot s h k \<noteq> inode_sector i" using d(1) bi(2) fs_ok_nums(1) [OF assms(1)] by simp
    ultimately show "fview t (slot s h k) = fview s (slot s h k)" using frame d by blast
  qed
  have eqs: "log_dev t = log_dev s" "log_start t = log_start s" using fs_stepD [OF st(1)] by blast+
  note same = file_same [OF assms(1) ok(3) eqs st(2,3) keep]
  have "get_dinode (dinode_off (inum h)) (fview t (inode_sector h)) h = get_dinode (dinode_off (inum h)) (fview s (inode_sector h)) h"
  proof (cases "inode_sector h = inode_sector i")
    case True
    note u = sector_unused [OF assms(1) ok(1) bi(2,1)]
    have ls: "inode_sector i < unat (log_start t)" "fs_ok t" "txn t" using u(1) fs_stepD [OF st(1)] sv by auto
    have len: "length (fview s (inode_sector i)) = BSIZE" "length (fview t (inode_sector i)) = BSIZE"
      using fview_length [OF assms(2) fs_key(2) [OF assms(1) u(1)]] fview_length [OF ls(3) fs_key(2) [OF ls(2,1)]] by auto
    have "slice (dinode_off (inum h)) 128 (fview t (inode_sector i)) = slice (dinode_off (inum h)) 128 (fview s (inode_sector i))"
      using sv inode_off_apart [of i h] True assms(6) dinode_off_bound [of "inum h"] unfolding apart_def by metis
    then show ?thesis using get_dinode_slice len dinode_off_bound [of "inum h"] unfolding True by metis
  next
    case False
    then show ?thesis using frame sector_unused [OF assms(1) ok(1) bh(2,1)] bh(2) by metis
  qed
  then show "file_wf t h" using wf same(1,2) st(2) unfolding file_wf_def by simp
  have "fbyte t h p = fbyte s h p" if "p < unat (isize h)" for p
    using same(3) [of p] that wf by simp
  then show "file_bytes t h = file_bytes s h" by (simp add: file_bytes_def)
  have "inum j = inum i" using sv by (metis inode.select_convs(2) inode.surjective inode.update_convs(10,11))
  moreover have "slot t j k = 0" if "k \<le> MAXFILE" "k' \<le> MAXFILE" "slot t j k = slot t h k'" for k k'
  proof (rule ccontr)
    assume nz: "slot t j k \<noteq> 0"
    then have "slot s h k' \<notin> free_blocks s" "slot t j k = slot s h k'" using that(2,3) same(1) file_okD(3) [OF ok(3) that(2)] by auto
    moreover have "slot t j k = slot s i k \<or> slot s i k = 0 \<and> slot t j k \<in> free_blocks s" using sv that(1) by blast
    ultimately have "slot s i k = slot s h k'" by auto
    then show False using assms(6) that(1,2) nz \<open>slot t j k = slot s h k'\<close> unfolding apart_def by metis
  qed
  ultimately show "apart t j h" using assms(6) unfolding apart_def by simp
qed

text \<open>What is below the log decides about the files.\<close>

lemma view_data:
  assumes "fs_ok s" and "log_dev t = log_dev s" and "log_start t = log_start s" and "\<forall>n<unat (log_start s). fview t n = fview s n"
  shows "fs_sb t = fs_sb s" and "fs_ok t" and "free_blocks t = free_blocks s" and "bitmap_keys t = bitmap_keys s"
    and "file_ok s h \<Longrightarrow> slot t h = slot s h" and "file_wf s h \<Longrightarrow> file_wf t h" and "file_wf s h \<Longrightarrow> file_bytes t h = file_bytes s h"
proof -
  have le: "data_start s \<le> unat (log_start s)" using assms(1) by (simp add: fs_ok_def)
  have "1 < unat (log_start s)" using fs_ok_nums(1,2) [OF assms(1)] le by simp
  then show sb: "fs_sb t = fs_sb s" using assms(4) by (simp add: fs_sb_def)
  note g = sb_same [OF sb]
  show "bitmap_keys t = bitmap_keys s" using g sb assms(2) by (simp add: bitmap_keys_def)
  have "block_free t b = block_free s b" if "b < unat (sb_size (fs_sb s))" for b
    using assms(4) fs_ok_nums(5) [OF assms(1) that] le by (simp add: block_free_def g)
  then show "fs_ok t" and fb: "free_blocks t = free_blocks s" using assms(1-3) sb g free_blocks_eq [OF assms(1)] by (auto simp: fs_ok_def)
  have keep: "\<forall>k\<le>MAXFILE. slot s h k \<noteq> 0 \<longrightarrow> fview t (slot s h k) = fview s (slot s h k)" if "file_ok s h" for h
    using assms(4) file_okD(2) [OF that] by blast
  note same = file_same [OF assms(1) _ assms(2,3) sb equalityD1 [OF fb] keep]
  show "slot t h = slot s h" if "file_ok s h" using same(1) [OF that that] .
  show "file_wf t h" if w: "file_wf s h"
  proof -
    have ok: "file_ok s h" "inum h < sb_ninodes (fs_sb s)" using w by (simp_all add: file_wf_def)
    note b = inode_sector_bounds [OF ok(2)]
    have "fview t (inode_sector h) = fview s (inode_sector h)"
      using assms(4) sector_unused(1) [OF assms(1) ok(1) b(2,1)] by blast
    then show ?thesis using w same(1,2) [OF ok(1) ok(1)] sb unfolding file_wf_def by simp
  qed
  show "file_bytes t h = file_bytes s h" if w: "file_wf s h"
  proof -
    have ok: "file_ok s h" "unat (isize h) \<le> MAXFILE * BSIZE" using w by (simp_all add: file_wf_def)
    then have "fbyte t h p = fbyte s h p" if "p < unat (isize h)" for p using same(3) [OF ok(1) ok(1)] that by simp
    then show ?thesis by (simp add: file_bytes_def)
  qed
qed

lemma file_wf_flags:
  "file_wf s (i\<lparr>ibusy := b\<rparr>) = file_wf s i" "file_bytes s (i\<lparr>ibusy := b\<rparr>) = file_bytes s i" "apart s (i\<lparr>ibusy := b\<rparr>) h = apart s i h"
  "room n s (i\<lparr>ibusy := b\<rparr>) = room n s i" "ind_missing (i\<lparr>ibusy := b\<rparr>) = ind_missing i"
proof -
  have sl: "slot s (i\<lparr>ibusy := b\<rparr>) = slot s i" and fb: "fbyte s (i\<lparr>ibusy := b\<rparr>) = fbyte s i"
    and ok: "file_ok s (i\<lparr>ibusy := b\<rparr>) = file_ok s i"
    by (rule slot_addrs fbyte_addrs file_ok_addrs; simp)+
  have g: "get_dinode o1 x (i\<lparr>ibusy := b\<rparr>) = i\<lparr>ibusy := b\<rparr> \<longleftrightarrow> get_dinode o1 x i = i" for o1 x
    by (cases i) (simp add: get_dinode_def)
  show "file_wf s (i\<lparr>ibusy := b\<rparr>) = file_wf s i" unfolding file_wf_def sl ok by (simp add: g inode_sector_def)
  show "file_bytes s (i\<lparr>ibusy := b\<rparr>) = file_bytes s i" "apart s (i\<lparr>ibusy := b\<rparr>) h = apart s i h"
    unfolding file_bytes_def apart_def fb sl by simp_all
  show "room n s (i\<lparr>ibusy := b\<rparr>) = room n s i" "ind_missing (i\<lparr>ibusy := b\<rparr>) = ind_missing i"
    by (simp_all add: room_def ind_missing_def file_keys_def)
qed

lemma sint_u32_small: "unat (x :: u32) < 0x80000000 \<Longrightarrow> sint x = int (unat x)"
  by (simp add: sint_uint signed_take_bit_int_eq_self uint_nat del: of_nat_unat)

section \<open>Properties\<close>

text \<open>
  C3: writing to a file. Inside a transaction with room for it, \<open>fs1_writei\<close> at an offset of at most the size of the
  file returns the number of bytes asked for. The bytes of the file are then the old ones with the new ones in their
  place, extended when the range goes past the end; its blocks are its own and not free, those below the size are
  there, and its inode on disk is that in memory. Every other file at rest keeps its bytes, its inode and its blocks,
  and no other in-memory inode changes.
\<close>

theorem writei_splices:
  assumes "txn s" and "fs_ok s" and "busy_keys s = {}" and "ip_ok s ip" and "fs1_dev s" and "file_wf s (the_inode s ip)"
    and "off \<le> isize (the_inode s ip)" and "unat off + unat n \<le> MAXFILE * BSIZE" and "unat n \<le> length src"
    and "room (length (chunks (unat off) (unat n))) s (the_inode s ip)"
  shows "\<exists>t. fs1_writei ip src off n s = Ret (sint n) t \<and> file_wf t (the_inode t ip)
    \<and> file_bytes t (the_inode t ip) = take (unat off) (file_bytes s (the_inode s ip)) @ take (unat n) src
        @ drop (unat off + unat n) (file_bytes s (the_inode s ip))
    \<and> (\<forall>j. file_wf s j \<and> apart s (the_inode s ip) j \<longrightarrow>
        file_wf t j \<and> apart t (the_inode t ip) j \<and> file_bytes t j = file_bytes s j)
    \<and> (\<forall>q. q \<noteq> ip \<longrightarrow> the_inode t q = the_inode s q)
    \<and> txn t \<and> fs_ok t \<and> busy_keys t = {} \<and> disk t = disk s"
proof -
  let ?i = "the_inode s ip"
  obtain t j where t: "fs1_writei ip src off n s = Ret (sint n) t" "saved s ?i t j (unat off) (take (unat n) src)"
      "same_inodes (put_inode ip j s) t"
    using writei_law [OF assms] by blast
  have lb: "length (take (unat n) src) = unat n" using assms(9) by simp
  have j: "the_inode t ip = j" using put_inode_at [OF t(3) assms(4)] by blast
  have off: "unat off \<le> unat (isize ?i)" using assms(7) by (simp add: word_le_nat_alt)
  have le: "unat off + length (take (unat n) src) \<le> MAXFILE * BSIZE" using assms(8) lb by simp
  note self = saved_self [OF assms(6) t(2) off le, folded j, unfolded lb] and oth = saved_other [OF assms(2,1,6) t(2), folded j]
  have st: "fs_step s t" "fs_ok t" using t(2) unfolding saved_def by blast+
  have "the_inode t q = the_inode s q" if "q \<noteq> ip" for q
    using that same_inodesD(1) [OF t(3), of q] by (cases q; cases ip) (auto simp: put_inode_def the_inode_def)
  moreover have "txn t" "busy_keys t = {}" "disk t = disk s"
    using fs_stepD [OF st(1)] assms(3) fs_frame_fields(6) [of s t] st(1) by (auto simp: fs_step_def)
  ultimately show ?thesis using t(1) self oth st(2) by (intro exI [of _ t]) simp
qed

text \<open>
  C13: reading from a file. Inside a transaction \<open>fs1_readi\<close> fails when the offset is past the end of the file or offset
  plus length wraps around; otherwise it returns exactly the bytes of the file from the offset on, as many as asked for
  or as there are. It changes nothing that a reader or the disk can see.
\<close>

theorem readi_returns:
  assumes "txn s" and "fs_ok s" and "busy_keys s = {}" and "ip_ok s ip" and "file_wf s (the_inode s ip)" and "fs_fits m X s"
  shows "if off > isize (the_inode s ip) \<or> off + n < off then fs1_readi ip off n s = Ret (- 1, []) s
    else \<exists>t. fs1_readi ip off n s = Ret (int (length (take (unat n) (drop (unat off) (file_bytes s (the_inode s ip))))),
          take (unat n) (drop (unat off) (file_bytes s (the_inode s ip)))) t
      \<and> same_inodes s t \<and> bview t = bview s \<and> disk t = disk s \<and> txn t \<and> busy_keys t = {}"
proof (cases "off > isize (the_inode s ip) \<or> off + n < off")
  case True
  then show ?thesis by (simp add: fs1_readi_def kbind_Ret inode_at_Ret [OF assms(4)] kreturn_def)
next
  case False
  let ?i = "the_inode s ip"
  let ?n = "if off + n > isize ?i then isize ?i - off else n"
  let ?l = "min (unat n) (unat (isize ?i) - unat off)"
  have off: "unat off \<le> unat (isize ?i)" using False by (simp add: not_less word_le_nat_alt)
  have "unat n < 0x100000000" using unsigned_less [of n] by simp
  then have un: "unat (off + n) = unat off + unat n" using False by (auto simp: unat_plus_if' word_less_nat_alt split: if_splits)
  have l: "unat ?n = ?l" using un off by (auto simp: word_less_nat_alt unat_sub word_le_nat_alt not_less)
  have wf: "file_ok s ?i" "unat (isize ?i) \<le> MAXFILE * BSIZE" "\<forall>p<unat (isize ?i). slot s ?i (p div BSIZE) \<noteq> 0"
    using assms(5) by (simp_all add: file_wf_def)
  have range: "unat off + ?l \<le> MAXFILE * BSIZE" "\<forall>p. unat off \<le> p \<and> p < unat off + ?l \<longrightarrow> slot s ?i (p div BSIZE) \<noteq> 0"
    using off wf(2,3) by auto
  obtain t where t: "readi_loop ip (chunks (unat off) ?l) s = Ret (map (fbyte s ?i) [unat off..<unat off + ?l]) t" "fs_step s t"
      "same_inodes s t" "bview t = bview s"
    using readi_loop_law [OF assms(1-4) wf(1) assms(6) range] by blast
  have bs: "map (fbyte s ?i) [unat off..<unat off + ?l] = take (unat n) (drop (unat off) (file_bytes s ?i))"
    by (rule nth_equalityI) (auto simp: file_bytes_def)
  have "?l \<le> MAXFILE * BSIZE" using wf(2) by simp
  then have sn: "sint ?n = int (unat ?n)" using l by (intro sint_u32_small) linarith
  have "fs1_readi ip off n s = Ret (int ?l, map (fbyte s ?i) [unat off..<unat off + ?l]) t"
    using t(1) False sn unfolding l [symmetric]
    by (simp add: fs1_readi_def kbind_Ret inode_at_Ret [OF assms(4)] kreturn_def Let_def)
  moreover have "txn t" "busy_keys t = {}" "disk t = disk s"
    using fs_stepD [OF t(2)] assms(3) fs_frame_fields(6) [of s t] t(2) by (auto simp: fs_step_def)
  ultimately show ?thesis using False t(3,4) unfolding bs by (auto simp: file_bytes_def)
qed

text \<open>The empty file of the small disk.\<close>

lemma fs_demo_file: "ip_ok fs_demo (False, 0)" "fs1_dev fs_demo" "file_wf fs_demo (the_inode fs_demo (False, 0))" "isize (the_inode fs_demo (False, 0)) = 0"
  "room 1 fs_demo (the_inode fs_demo (False, 0))"
proof -
  let ?i = "zero_inode\<lparr>idev := 1, inum := 2, iref := 1, ibusy := True, ivalid := True, itype := T_FILE, nlink := 1\<rparr>"
  have i: "the_inode fs_demo (False, 0) = ?i" by (simp add: the_inode_def)
  have a: "addrs ?i = replicate 29 0" by (simp add: zero_inode_def)
  have sl: "slot fs_demo ?i k = 0" for k unfolding slot_def a by simp
  have "get_dinode 256 (replicate 256 0 @ bytes16 T_FILE @ replicate 4 0 @ bytes16 1 @ replicate 248 0) ?i = ?i" by code_simp
  then have d: "get_dinode (dinode_off (inum ?i)) (fview fs_demo (inode_sector ?i)) ?i = ?i"
    by (simp add: dinode_off_def inode_sector_def fs_demo_view fs_disk_def)
  show "ip_ok fs_demo (False, 0)" "fs1_dev fs_demo" by (simp_all add: ip_ok_def fs1_dev_def)
  show "isize (the_inode fs_demo (False, 0)) = 0" unfolding i by (simp add: zero_inode_def)
  show "file_wf fs_demo (the_inode fs_demo (False, 0))"
    using d sl a unfolding i file_wf_def file_ok_def by (simp add: fs_demo_sb zero_inode_def)
  have "free_blocks fs_demo = {6..<100}" using fs_demo_free by (auto simp: free_blocks_def fs_demo_sb)
  moreover have "file_keys fs_demo ?i = bitmap_keys fs_demo" "ind_missing ?i = 1" unfolding file_keys_def ind_missing_def a by simp_all
  ultimately show "room 1 fs_demo (the_inode fs_demo (False, 0))"
    using fits_mono [OF fs_demo_ok(4), of "Suc (Suc (Suc 0))"] unfolding i room_def by simp
qed

theorem writei_splices_witness:
  "\<exists>t. fs1_writei (False, 0) [104, 105, 33] 0 3 fs_demo = Ret 3 t \<and> file_bytes t (the_inode t (False, 0)) = [104, 105, 33]"
proof -
  have "length (chunks (unat (0 :: u32)) (unat (3 :: u32))) = 1" by code_simp
  then show ?thesis
    using writei_splices [OF fs_demo_ok(1,2) fs_demo_bio(2) fs_demo_file(1-3), of 0 3 "[104, 105, 33]"] fs_demo_file(4,5)
    by (auto simp: file_bytes_def)
qed

theorem readi_returns_witness:
  "fs1_readi (False, 0) 1 3 fs_demo = Ret (- 1, []) fs_demo \<and> (\<exists>t. fs1_readi (False, 0) 0 3 fs_demo = Ret (0, []) t)"
  using readi_returns [OF fs_demo_ok(1,2) fs_demo_bio(2) fs_demo_file(1,3) fs_demo_ok(4), of 1 3]
    readi_returns [OF fs_demo_ok(1,2) fs_demo_bio(2) fs_demo_file(1,3) fs_demo_ok(4), of 0 3] fs_demo_file(4)
  by (auto simp: file_bytes_def)

end
