(* ===== verification/Fs_Path.thy ===== *)
theory Fs_Path
  imports Fs_Inode
begin

text \<open>
  Inode caches, directories and path names: the rest of \<open>kernel/fs/fs1.c\<close> and \<open>kernel/vfs.c\<close>.

  A directory entry is sixteen bytes, an inode number and a name of fourteen bytes that need not end in a zero. A
  path is the list of its bytes before the terminating zero. The loop of \<open>namex\<close> consumes the path with
  \<open>skipelem\<close>; \<open>path_elems\<close> lists what it yields, with the contents of the buffer \<open>name\<close> each time and whether the
  rest of the path is empty, and the loop runs over that list. The loops over a directory run over the list of
  the offsets of its entries.
\<close>

section \<open>Definitions\<close>

subsection \<open>The inode caches\<close>

definition inode_match :: "u32 \<Rightarrow> u32 \<Rightarrow> inode \<Rightarrow> bool" where
  "inode_match dev n i \<longleftrightarrow> iref i > 0 \<and> idev i = dev \<and> inum i = n"

definition claim_inode :: "u32 \<Rightarrow> u32 \<Rightarrow> inode \<Rightarrow> inode" where
  "claim_inode dev n i = i\<lparr>idev := dev, inum := n, iref := 1, ibusy := False, ivalid := False\<rparr>"

definition fs1_iget :: "u32 \<Rightarrow> u32 \<Rightarrow> ('a fsst_scheme, iptr) kmon" where
  "fs1_iget dev n = kbind (kget fs1_icache) (\<lambda>xs.
     case find_first (inode_match dev n) xs of
       Some k \<Rightarrow> kthen (set_inode (False, k) (\<lambda>i. i\<lparr>iref := iref i + 1\<rparr>)) (kreturn (False, k))
     | None \<Rightarrow> (case find_first (\<lambda>i. iref i = 0) xs of
           None \<Rightarrow> kpanic ''fs1_iget: no inodes''
         | Some k \<Rightarrow> kthen (set_inode (False, k) (claim_inode dev n)) (kreturn (False, k))))"

definition fs1_idup :: "iptr \<Rightarrow> ('a fsst_scheme, iptr) kmon" where
  "fs1_idup ip = kthen (inode_at ip) (kthen (set_inode ip (\<lambda>i. i\<lparr>iref := iref i + 1\<rparr>)) (kreturn ip))"

definition ext2_idup :: "iptr \<Rightarrow> ('a fsst_scheme, iptr) kmon" where
  "ext2_idup ip = kpanic ''ext2_idup not implemented yet''"

definition idup :: "iptr \<Rightarrow> ('a fsst_scheme, iptr) kmon" where
  "idup ip = kbind (inode_at ip) (\<lambda>i. by_fstype (idev i) (ext2_idup ip) (fs1_idup ip))"

fun ialloc_loop :: "u32 \<Rightarrow> u16 \<Rightarrow> nat list \<Rightarrow> ('a fsst_scheme, iptr) kmon" where
  "ialloc_loop dev t [] = kpanic ''ialloc: no inodes''"
| "ialloc_loop dev t (n # ns) =
     kbind (bread dev (IBLOCK (of_nat n))) (\<lambda>bp. kbind (bdata_of bp) (\<lambda>x.
       let o1 = dinode_off (of_nat n) in
       if get16 o1 x = 0 then
         kthen (bmodify bp (\<lambda>x. put16 o1 t (splice o1 (replicate 128 0) x)))
         (kthen (log_write bp) (kthen (brelse bp) (fs1_iget dev (of_nat n))))
       else kthen (brelse bp) (ialloc_loop dev t ns)))"

definition fs1_ialloc :: "u32 \<Rightarrow> u16 \<Rightarrow> ('a fsst_scheme, iptr) kmon" where
  "fs1_ialloc dev t = kbind (fs1_readsb dev) (\<lambda>sb. ialloc_loop dev t [1..<unat (sb_ninodes sb)])"

definition ext2_ialloc :: "u32 \<Rightarrow> u16 \<Rightarrow> ('a fsst_scheme, iptr) kmon" where
  "ext2_ialloc dev t = kpanic ''ext2_ialloc not implemented yet''"

definition ialloc :: "u32 \<Rightarrow> u16 \<Rightarrow> ('a fsst_scheme, iptr) kmon" where
  "ialloc dev t = by_fstype dev (ext2_ialloc dev t) (fs1_ialloc dev t)"

text \<open>\<open>sizeof(struct icache_node)\<close> is 160, so a page holds 25 nodes.\<close>

definition inodes_per_page :: nat where
  "inodes_per_page = 4096 div 160"

definition growicache :: "('a fsst_scheme, unit) kmon" where
  "growicache = kbind kalloc (\<lambda>ptr.
     if ptr = 0 then kfault ''memset''
     else kmodify (\<lambda>s. s\<lparr>kmem_mem := sys_memset ptr 0 4096 (kmem_mem s),
       icache := icache s @ replicate inodes_per_page zero_inode,
       unused_nodes := unused_nodes s + of_nat inodes_per_page\<rparr>))"

lemma growicache_empty:
  assumes "growicache s = Ret u t"
  shows "find_first (\<lambda>i. iref i = 0) (butlast (icache t)) \<noteq> None"
proof -
  have "icache t = icache s @ replicate 25 zero_inode"
    using assms by (auto simp: growicache_def kmon_defs kalloc_def Let_def inodes_per_page_def split: outcome.splits if_splits)
  then have "zero_inode \<in> set (butlast (icache t))" by (simp add: butlast_append numeral_eq_Suc)
  then show ?thesis unfolding find_first_None by (force simp: zero_inode_def)
qed

text \<open>\<open>iget\<close> of \<open>vfs.c\<close>: the scan stops before the last node, and an empty list is a null pointer.\<close>

function iget :: "u64 \<Rightarrow> u32 \<Rightarrow> ('a fsst_scheme, iptr) kmon" where
  "iget dev n s =
     (if icache s = [] then Fault ''icache.head'' else
      case find_first (\<lambda>i. iref i > 0 \<and> ucast (idev i) = dev \<and> inum i = n) (butlast (icache s)) of
        Some k \<Rightarrow> kthen (set_inode (True, k) (\<lambda>i. i\<lparr>iref := iref i + 1\<rparr>)) (kreturn (True, k)) s
      | None \<Rightarrow> (case find_first (\<lambda>i. iref i = 0) (butlast (icache s)) of
            Some k \<Rightarrow> kthen (set_inode (True, k) (claim_inode (ucast dev) n)) (kreturn (True, k)) s
          | None \<Rightarrow> (case growicache s of
                Ret _ t \<Rightarrow> iget dev n t
              | Panic e \<Rightarrow> Panic e | Sleep c t \<Rightarrow> Sleep c t | Fault e \<Rightarrow> Fault e)))"
  by pat_completeness auto
termination
  by (relation "measure (\<lambda>(a, b, s). if find_first (\<lambda>i. iref i = 0) (butlast (icache s)) = None then 1 else 0)")
    (auto dest: growicache_empty)

declare iget.simps [simp del]

definition readsb :: "u32 \<Rightarrow> ('a fsst_scheme, block + fs1_superblock) kmon" where
  "readsb dev = kbind (kget ROOT_DEV) (\<lambda>root. by_fstype dev
     (kbind (ext2_readsb (GETDEVTYPE (ucast root)) (GETDEVNUM (ucast root))) (\<lambda>x. kreturn (Inl x)))
     (kbind (fs1_readsb dev) (\<lambda>sb. kreturn (Inr sb))))"

definition vfsinit :: "('a fsst_scheme, unit) kmon" where
  "vfsinit = kthen growicache (kbind (kget ROOT_DEV) (\<lambda>root.
     let devtype = GETDEVTYPE (ucast root); devnum = GETDEVNUM (ucast root) in
     kbind (if devtype \<noteq> DEV_IDE then ext2_init_dev devtype devnum else kreturn 0) (\<lambda>r.
       kthen (setfstype root (if r = 1 then FS_TYPE_EXT2 else FS_TYPE_FS1)) (kreturn ()))))"

subsection \<open>Directories\<close>

text \<open>\<open>strncmp(s, t, DIRSIZ)\<close> and \<open>strncpy(de.name, name, DIRSIZ)\<close> on the bytes of a name; a list that ends is a string
  that ends.\<close>

fun strncmp_bytes :: "nat \<Rightarrow> u8 list \<Rightarrow> u8 list \<Rightarrow> int" where
  "strncmp_bytes 0 xs ys = 0"
| "strncmp_bytes (Suc n) xs ys =
     (let x = (if xs = [] then 0 else hd xs); y = (if ys = [] then 0 else hd ys) in
      if x \<noteq> 0 \<and> x = y then strncmp_bytes n (tl xs) (tl ys) else uint x - uint y)"

definition namecmp :: "u8 list \<Rightarrow> u8 list \<Rightarrow> int" where
  "namecmp xs ys = strncmp_bytes DIRSIZ xs ys"

definition dirent_name :: "u8 list \<Rightarrow> u8 list" where
  "dirent_name xs = take DIRSIZ (takeWhile (\<lambda>c. c \<noteq> 0) xs @ replicate DIRSIZ 0)"

definition dir_offs :: "inode \<Rightarrow> nat list" where
  "dir_offs i = map (\<lambda>k. 16 * k) [0..<(unat (isize i) + 15) div 16]"

fun dirlookup_loop :: "'a fsst_scheme devtab \<Rightarrow> iptr \<Rightarrow> u8 list \<Rightarrow> nat list \<Rightarrow>
    ('a fsst_scheme, (iptr \<times> u32) option) kmon" where
  "dirlookup_loop devsw dp name [] = kreturn None"
| "dirlookup_loop devsw dp name (off # offs) = kbind (readi devsw dp (of_nat off) 16) (\<lambda>(r, de).
     if r \<noteq> 16 then kpanic ''dirlink read''
     else if get16 0 de = 0 then dirlookup_loop devsw dp name offs
     else if namecmp name (drop 2 de) = 0 then
       kbind (inode_at dp) (\<lambda>i. kbind (fs1_iget (idev i) (ucast (get16 0 de))) (\<lambda>ip. kreturn (Some (ip, of_nat off))))
     else dirlookup_loop devsw dp name offs)"

definition fs1_dirlookup :: "'a fsst_scheme devtab \<Rightarrow> iptr \<Rightarrow> u8 list \<Rightarrow>
    ('a fsst_scheme, (iptr \<times> u32) option) kmon" where
  "fs1_dirlookup devsw dp name = kbind (inode_at dp) (\<lambda>i.
     if itype i \<noteq> T_DIR then kpanic ''dirlookup not DIR'' else dirlookup_loop devsw dp name (dir_offs i))"

definition ext2_dirlookup :: "iptr \<Rightarrow> ('a fsst_scheme, (iptr \<times> u32) option) kmon" where
  "ext2_dirlookup dp = kpanic ''ext2_dirlookup not implemented yet''"

definition dirlookup :: "'a fsst_scheme devtab \<Rightarrow> iptr \<Rightarrow> u8 list \<Rightarrow>
    ('a fsst_scheme, (iptr \<times> u32) option) kmon" where
  "dirlookup devsw dp name = kbind (inode_at dp) (\<lambda>i.
     by_fstype (idev i) (ext2_dirlookup dp) (fs1_dirlookup devsw dp name))"

text \<open>The search for a free entry; its result is the value of \<open>off\<close> behind the loop.\<close>

fun dirlink_slot :: "'a fsst_scheme devtab \<Rightarrow> iptr \<Rightarrow> nat \<Rightarrow> nat list \<Rightarrow> ('a fsst_scheme, nat) kmon" where
  "dirlink_slot devsw dp fin [] = kreturn fin"
| "dirlink_slot devsw dp fin (off # offs) = kbind (readi devsw dp (of_nat off) 16) (\<lambda>(r, de).
     if r \<noteq> 16 then kpanic ''dirlink read''
     else if get16 0 de = 0 then kreturn off else dirlink_slot devsw dp fin offs)"

definition fs1_dirlink :: "'a fsst_scheme devtab \<Rightarrow> iptr \<Rightarrow> u8 list \<Rightarrow> u32 \<Rightarrow> ('a fsst_scheme, int) kmon" where
  "fs1_dirlink devsw dp name n = kbind (dirlookup devsw dp name) (\<lambda>r. case r of
       Some (ip, _) \<Rightarrow> kthen (iput ip) (kreturn (- 1))
     | None \<Rightarrow> kbind (inode_at dp) (\<lambda>i.
         kbind (dirlink_slot devsw dp (16 * ((unat (isize i) + 15) div 16)) (dir_offs i)) (\<lambda>off.
         kbind (writei devsw dp (bytes16 (ucast n) @ dirent_name name) (of_nat off) 16) (\<lambda>r.
           if r \<noteq> 16 then kpanic ''dirlink'' else kreturn 0))))"

definition ext2_dirlink :: "iptr \<Rightarrow> ('a fsst_scheme, int) kmon" where
  "ext2_dirlink dp = kpanic ''ext2_dirlink not implemented yet''"

definition dirlink :: "'a fsst_scheme devtab \<Rightarrow> iptr \<Rightarrow> u8 list \<Rightarrow> u32 \<Rightarrow> ('a fsst_scheme, int) kmon" where
  "dirlink devsw dp name n = kbind (inode_at dp) (\<lambda>i.
     by_fstype (idev i) (ext2_dirlink dp) (fs1_dirlink devsw dp name n))"

subsection \<open>Path names\<close>

abbreviation (input) slash :: u8 where "slash \<equiv> 47"

definition skipelem :: "u8 list \<Rightarrow> u8 list \<Rightarrow> (u8 list \<times> u8 list) option" where
  "skipelem path name =
     (let p = dropWhile (\<lambda>c. c = slash) path in
      if p = [] then None
      else let el = takeWhile (\<lambda>c. c \<noteq> slash) p; rest = dropWhile (\<lambda>c. c \<noteq> slash) p;
        name' = (if length el \<ge> DIRSIZ then splice 0 (take DIRSIZ el) name else splice 0 (el @ [0]) name)
        in Some (dropWhile (\<lambda>c. c = slash) rest, name'))"

lemma skipelem_shorter:
  assumes "skipelem path name = Some (rest, name')"
  shows "length rest < length path"
proof -
  let ?p = "dropWhile (\<lambda>c. c = slash) path"
  have ne: "?p \<noteq> []" and rest: "rest = dropWhile (\<lambda>c. c = slash) (dropWhile (\<lambda>c. c \<noteq> slash) ?p)"
    using assms by (auto simp: skipelem_def Let_def split: if_splits)
  have "hd ?p \<noteq> slash" using ne hd_dropWhile [of "\<lambda>c. c = slash" path] by simp
  then have "length (dropWhile (\<lambda>c. c \<noteq> slash) ?p) < length ?p"
    using ne by (cases ?p) (auto intro: le_imp_less_Suc length_dropWhile_le)
  then show ?thesis
    using rest length_dropWhile_le [of "\<lambda>c. c = slash" "dropWhile (\<lambda>c. c \<noteq> slash) ?p"]
      length_dropWhile_le [of "\<lambda>c. c = slash" path] by simp
qed

function path_elems :: "u8 list \<Rightarrow> u8 list \<Rightarrow> (u8 list \<times> bool) list" where
  "path_elems path name = (case skipelem path name of None \<Rightarrow> []
     | Some (rest, name') \<Rightarrow> (name', rest = []) # path_elems rest name')"
  by pat_completeness auto
termination
  by (relation "measure (\<lambda>(path, name). length path)") (auto dest: skipelem_shorter)

declare path_elems.simps [simp del]

text \<open>The result is the inode and the contents of \<open>name\<close>; \<open>None\<close> is the null pointer.\<close>

fun namex_loop :: "'a fsst_scheme devtab \<Rightarrow> bool \<Rightarrow> iptr \<Rightarrow> u8 list \<Rightarrow> (u8 list \<times> bool) list \<Rightarrow>
    ('a fsst_scheme, (iptr \<times> u8 list) option) kmon" where
  "namex_loop devsw np ip name [] =
     (if np then kthen (iput ip) (kreturn None) else kreturn (Some (ip, name)))"
| "namex_loop devsw np ip name ((name', fin) # es) = kthen (ilock (Some ip)) (kbind (inode_at ip) (\<lambda>i.
     if itype i \<noteq> T_DIR then kthen (iunlockput ip) (kreturn None)
     else if np \<and> fin then kthen (iunlock (Some ip)) (kreturn (Some (ip, name')))
     else kbind (dirlookup devsw ip name') (\<lambda>r. case r of
         None \<Rightarrow> kthen (iunlockput ip) (kreturn None)
       | Some (nxt, _) \<Rightarrow> kthen (iunlockput ip) (namex_loop devsw np nxt name' es))))"

definition namex :: "'a fsst_scheme devtab \<Rightarrow> u8 list \<Rightarrow> bool \<Rightarrow> u8 list \<Rightarrow>
    ('a fsst_scheme, (iptr \<times> u8 list) option) kmon" where
  "namex devsw path np name =
     kbind (if path \<noteq> [] \<and> hd path = slash then kbind (kget ROOT_DEV) (\<lambda>dev. iget dev ROOTINO)
       else kbind (kget curproc) (\<lambda>c. case c of
           None \<Rightarrow> kfault ''proc->cwd''
         | Some i \<Rightarrow> kbind (kget (\<lambda>s. cwd (ptable s ! i))) (\<lambda>d. case d of
             None \<Rightarrow> kfault ''proc->cwd'' | Some ip \<Rightarrow> idup ip)))
     (\<lambda>ip. namex_loop devsw np ip name (path_elems path name))"

definition namei :: "'a fsst_scheme devtab \<Rightarrow> u8 list \<Rightarrow> u8 list \<Rightarrow> ('a fsst_scheme, iptr option) kmon" where
  "namei devsw path name = kbind (namex devsw path False name) (\<lambda>r. kreturn (map_option fst r))"

definition nameiparent :: "'a fsst_scheme devtab \<Rightarrow> u8 list \<Rightarrow> u8 list \<Rightarrow>
    ('a fsst_scheme, (iptr \<times> u8 list) option) kmon" where
  "nameiparent devsw path name = namex devsw path True name"

section \<open>Path names and what they stand for\<close>

text \<open>The reference: a path is cut at every slash, and empty parts count for nothing.\<close>

fun split_slash :: "u8 list \<Rightarrow> u8 list list" where
  "split_slash [] = [[]]"
| "split_slash (c # cs) = (if c = slash then [] # split_slash cs else (c # hd (split_slash cs)) # tl (split_slash cs))"

definition path_names :: "u8 list \<Rightarrow> u8 list list" where
  "path_names path = filter (\<lambda>e. e \<noteq> []) (split_slash path)"

lemma split_slash_elem:
  "split_slash p = takeWhile (\<lambda>c. c \<noteq> slash) p # (case dropWhile (\<lambda>c. c \<noteq> slash) p of [] \<Rightarrow> [] | _ # r \<Rightarrow> split_slash r)"
  by (induction p) auto

lemma path_names_slash [simp]: "path_names (slash # p) = path_names p" "path_names [] = []"
  by (simp_all add: path_names_def)

lemma path_names_skip: "path_names (dropWhile (\<lambda>c. c = slash) p) = path_names p"
proof (induction p)
  case (Cons c p)
  then show ?case by (cases "c = slash") simp_all
qed simp

lemma path_names_elem:
  assumes "p \<noteq> []" and "hd p \<noteq> slash"
  shows "path_names p = takeWhile (\<lambda>c. c \<noteq> slash) p # path_names (dropWhile (\<lambda>c. c \<noteq> slash) p)"
proof -
  have ne: "takeWhile (\<lambda>c. c \<noteq> slash) p \<noteq> []" using assms by (cases p) auto
  show ?thesis
  proof (cases "dropWhile (\<lambda>c. c \<noteq> slash) p")
    case Nil
    then show ?thesis using ne split_slash_elem [of p] by (simp add: path_names_def del: dropWhile_eq_Nil_conv)
  next
    case (Cons c r)
    then have "c = slash" using hd_dropWhile [of "\<lambda>c. c \<noteq> slash" p] by simp
    then show ?thesis using Cons ne split_slash_elem [of p] by (simp add: path_names_def)
  qed
qed

lemma path_names_Nil: "path_names p = [] \<longleftrightarrow> dropWhile (\<lambda>c. c = slash) p = []"
proof
  assume n: "path_names p = []"
  show "dropWhile (\<lambda>c. c = slash) p = []"
  proof (rule ccontr)
    assume ne: "dropWhile (\<lambda>c. c = slash) p \<noteq> []"
    then have "path_names (dropWhile (\<lambda>c. c = slash) p) \<noteq> []"
      using path_names_elem hd_dropWhile [OF ne] by simp
    then show False using n by (simp add: path_names_skip)
  qed
next
  assume "dropWhile (\<lambda>c. c = slash) p = []"
  then show "path_names p = []" using path_names_skip [of p] by (simp del: dropWhile_eq_Nil_conv)
qed

lemma skipelem_names:
  assumes "skipelem path name = Some (rest, name')" and "length name = DIRSIZ" and "0 \<notin> set path"
  shows "path_names path = takeWhile (\<lambda>c. c \<noteq> slash) (dropWhile (\<lambda>c. c = slash) path) # path_names rest"
    and "takeWhile (\<lambda>c. c \<noteq> 0) name' = take DIRSIZ (hd (path_names path))" and "length name' = DIRSIZ" and "0 \<notin> set rest"
    and "rest = [] \<longleftrightarrow> path_names rest = []"
proof -
  let ?p = "dropWhile (\<lambda>c. c = slash) path"
  let ?el = "takeWhile (\<lambda>c. c \<noteq> slash) ?p"
  have ne: "?p \<noteq> []" and rest: "rest = dropWhile (\<lambda>c. c = slash) (dropWhile (\<lambda>c. c \<noteq> slash) ?p)"
    and name': "name' = (if length ?el \<ge> DIRSIZ then splice 0 (take DIRSIZ ?el) name else splice 0 (?el @ [0]) name)"
    using assms(1) by (auto simp: skipelem_def Let_def split: if_splits)
  have "hd ?p \<noteq> slash" using ne hd_dropWhile [of "\<lambda>c. c = slash" path] by simp
  then show names: "path_names path = ?el # path_names rest"
    using path_names_elem [OF ne] path_names_skip [of path] path_names_skip [of "dropWhile (\<lambda>c. c \<noteq> slash) ?p"] rest by simp
  have nz: "0 \<notin> set ?el" using assms(3) by (meson set_dropWhileD set_takeWhileD)
  show "length name' = DIRSIZ" using name' assms(2) by simp
  show "0 \<notin> set rest" using assms(3) rest by (meson set_dropWhileD)
  show "rest = [] \<longleftrightarrow> path_names rest = []" unfolding path_names_Nil rest by (simp add: dropWhile_idem)
  have all: "takeWhile (\<lambda>c. c \<noteq> 0) xs = xs" if "0 \<notin> set xs" for xs :: "u8 list" using that by (auto simp: takeWhile_eq_all_conv)
  have "takeWhile (\<lambda>c. c \<noteq> 0) name' = take DIRSIZ ?el"
  proof (cases "length ?el \<ge> DIRSIZ")
    case True
    then have "name' = take DIRSIZ ?el" using name' assms(2) by (simp add: splice_def)
    then show ?thesis using nz all [of "take DIRSIZ ?el"] by (meson in_set_takeD)
  next
    case False
    then show ?thesis using name' nz by (simp add: splice_def takeWhile_append all)
  qed
  then show "takeWhile (\<lambda>c. c \<noteq> 0) name' = take DIRSIZ (hd (path_names path))" using names by simp
qed

section \<open>Names in directories\<close>

definition name_of :: "u8 list \<Rightarrow> u8 list" where
  "name_of xs = take DIRSIZ (takeWhile (\<lambda>c. c \<noteq> 0) xs)"

lemma strncmp_bytes_eq: "strncmp_bytes n xs ys = 0 \<longleftrightarrow> take n (takeWhile (\<lambda>c. c \<noteq> 0) xs) = take n (takeWhile (\<lambda>c. c \<noteq> 0) ys)"
proof (induction n arbitrary: xs ys)
  case (Suc n)
  show ?case
    using Suc.IH [of "tl xs" "tl ys"] by (cases xs; cases ys) (auto simp: Let_def uint_0_iff word_uint_eq_iff [symmetric])
qed simp

lemma namecmp_eq: "namecmp xs ys = 0 \<longleftrightarrow> name_of xs = name_of ys"
  by (simp add: namecmp_def name_of_def strncmp_bytes_eq)

lemma takeWhile_pad:
  assumes "\<forall>c\<in>set w. P c" and "\<not> P z"
  shows "takeWhile P (take d (w @ replicate d z)) = take d w"
proof -
  have "\<forall>c\<in>set (take d w). P c" using assms(1) by (meson in_set_takeD)
  then have "takeWhile P (take d w @ take (d - length w) (replicate d z)) = take d w @ takeWhile P (take (d - length w) (replicate d z))"
    by (simp add: takeWhile_append2)
  moreover have "takeWhile P (take (d - length w) (replicate d z)) = []" using assms(2) by (simp add: take_replicate)
  ultimately show ?thesis by simp
qed

lemma dirent_name_of: "name_of (dirent_name xs) = name_of xs"
proof -
  have "\<forall>c\<in>set (takeWhile (\<lambda>c. c \<noteq> 0) xs). c \<noteq> 0" by (auto dest: set_takeWhileD)
  then have "takeWhile (\<lambda>c. c \<noteq> 0) (dirent_name xs) = take DIRSIZ (takeWhile (\<lambda>c. c \<noteq> 0) xs)"
    unfolding dirent_name_def by (rule takeWhile_pad) simp
  then show ?thesis by (simp add: name_of_def)
qed

section \<open>The caches\<close>

text \<open>In use at most once each, and of the right shape.\<close>

definition inodes_wf :: "inode list \<Rightarrow> bool" where
  "inodes_wf xs \<longleftrightarrow> (\<forall>i\<in>set xs. 0 \<le> iref i \<and> length (addrs i) = 29)
     \<and> (\<forall>k<length xs. \<forall>k'<length xs. 0 < iref (xs ! k) \<longrightarrow> 0 < iref (xs ! k') \<longrightarrow> idev (xs ! k) = idev (xs ! k')
          \<longrightarrow> inum (xs ! k) = inum (xs ! k') \<longrightarrow> k = k')"

lemma inodes_wf_update:
  assumes "inodes_wf xs" and "k < length xs" and "0 \<le> iref i" and "length (addrs i) = 29"
    and "\<And>k'. k' < length xs \<Longrightarrow> k' \<noteq> k \<Longrightarrow> 0 < iref i \<Longrightarrow> 0 < iref (xs ! k') \<Longrightarrow> \<not> (idev (xs ! k') = idev i \<and> inum (xs ! k') = inum i)"
  shows "inodes_wf (xs[k := i])"
proof -
  have "0 \<le> iref j \<and> length (addrs j) = 29" if "j \<in> set (xs[k := i])" for j
    using that assms(1,3,4) set_update_subset_insert [of xs k i] by (auto simp: inodes_wf_def)
  moreover have "k1 = k2" if "k1 < length xs" "k2 < length xs" "0 < iref (xs[k := i] ! k1)" "0 < iref (xs[k := i] ! k2)"
      "idev (xs[k := i] ! k1) = idev (xs[k := i] ! k2)" "inum (xs[k := i] ! k1) = inum (xs[k := i] ! k2)" for k1 k2
  proof (cases "k1 = k \<or> k2 = k")
    case True
    then show ?thesis using that assms(2) assms(5) [of k1] assms(5) [of k2] by (auto simp: nth_list_update split: if_splits)
  next
    case False
    then show ?thesis using that assms(1) unfolding inodes_wf_def by auto
  qed
  ultimately show ?thesis unfolding inodes_wf_def by simp
qed

lemma find_first_butlast_lt: "find_first P (butlast xs) = Some k \<Longrightarrow> Suc k < length xs \<and> P (xs ! k)"
  using find_first_butlast [of P xs k] by auto

lemma fs1_iget_cases:
  "fs1_iget dev n s = (case find_first (inode_match dev n) (fs1_icache s) of
      Some k \<Rightarrow> Ret (False, k) (put_inode (False, k) ((fs1_icache s ! k)\<lparr>iref := iref (fs1_icache s ! k) + 1\<rparr>) s)
    | None \<Rightarrow> (case find_first (\<lambda>i. iref i = 0) (fs1_icache s) of
        None \<Rightarrow> Panic ''fs1_iget: no inodes''
      | Some k \<Rightarrow> Ret (False, k) (put_inode (False, k) (claim_inode dev n (fs1_icache s ! k)) s)))"
  by (simp add: fs1_iget_def kget_def kbind_def set_inode_Ret kreturn_def kpanic_def the_inode_def split: option.split)

lemma ucast_u32_u64: "ucast (ucast (x :: u32) :: u64) = x"
  by (rule bit_word_eqI) (simp add: bit_simps)

text \<open>With a page to be had, \<open>iget\<close> of \<open>vfs.c\<close> comes to an end, and its pointer is to the inode asked for.\<close>

lemma iget_found:
  assumes "icache s \<noteq> []" and "find_first (\<lambda>i. iref i > 0 \<and> ucast (idev i) = dev \<and> inum i = n) (butlast (icache s)) \<noteq> None
    \<or> find_first (\<lambda>i. iref i = 0) (butlast (icache s)) \<noteq> None"
  shows "\<exists>k i. iget dev n s = Ret (True, k) (put_inode (True, k) i s) \<and> Suc k < length (icache s) \<and> idev i = ucast dev \<and> inum i = n \<and> 1 \<le> iref i"
proof (cases "find_first (\<lambda>i. iref i > 0 \<and> ucast (idev i) = dev \<and> inum i = n) (butlast (icache s))")
  case (Some k)
  note k = find_first_butlast_lt [OF Some]
  have "idev (icache s ! k) = ucast dev" using k ucast_u32_u64 by metis
  then show ?thesis using k Some assms(1)
    by (intro exI [of _ k] exI [of _ "(icache s ! k)\<lparr>iref := iref (icache s ! k) + 1\<rparr>"])
      (simp add: iget.simps kbind_Ret set_inode_Ret kreturn_def the_inode_def)
next
  case None
  then obtain k where k: "find_first (\<lambda>i. iref i = 0) (butlast (icache s)) = Some k" using assms(2) by auto
  show ?thesis using k None assms(1) find_first_butlast_lt [OF k]
    by (intro exI [of _ k] exI [of _ "claim_inode (ucast dev) n (icache s ! k)"])
      (simp add: iget.simps kbind_Ret set_inode_Ret kreturn_def the_inode_def claim_inode_def)
qed

lemma iget_law:
  assumes "icache s \<noteq> []" and "kalloc s = Ret a u" and "a \<noteq> 0"
  shows "\<exists>k t. iget dev n s = Ret (True, k) t \<and> Suc k < length (icache t) \<and> idev (icache t ! k) = ucast dev
    \<and> inum (icache t ! k) = n \<and> 1 \<le> iref (icache t ! k) \<and> length (icache t) \<le> length (icache s) + inodes_per_page
    \<and> fs1_icache t = fs1_icache s"
proof -
  have put: "\<exists>k t. iget dev n v = Ret (True, k) t \<and> Suc k < length (icache t) \<and> idev (icache t ! k) = ucast dev
      \<and> inum (icache t ! k) = n \<and> 1 \<le> iref (icache t ! k) \<and> length (icache t) = length (icache v) \<and> fs1_icache t = fs1_icache v"
    if "icache v \<noteq> []" "find_first (\<lambda>i. iref i > 0 \<and> ucast (idev i) = dev \<and> inum i = n) (butlast (icache v)) \<noteq> None
      \<or> find_first (\<lambda>i. iref i = 0) (butlast (icache v)) \<noteq> None" for v :: "'a fsst_scheme"
    using iget_found [OF that] by (auto simp: put_inode_def)
  show ?thesis
  proof (cases "find_first (\<lambda>i. iref i > 0 \<and> ucast (idev i) = dev \<and> inum i = n) (butlast (icache s)) \<noteq> None
      \<or> find_first (\<lambda>i. iref i = 0) (butlast (icache s)) \<noteq> None")
    case True
    then show ?thesis using put [OF assms(1)] by fastforce
  next
    case False
    obtain v where v: "growicache s = Ret () v" "icache v = icache u @ replicate inodes_per_page zero_inode" "fs1_icache v = fs1_icache u"
      using assms(2,3) by (auto simp: growicache_def kbind_def kmodify_def)
    have same: "icache u = icache s" "fs1_icache u = fs1_icache s"
      using assms(2) by (auto simp: kalloc_def kmon_defs Let_def split: if_splits outcome.splits)
    have "iget dev n s = iget dev n v" using False v(1) assms(1) by (subst iget.simps) simp
    moreover have "icache v \<noteq> []" using v(2) same assms(1) by simp
    ultimately show ?thesis using put [of v] growicache_empty [OF v(1)] v(2,3) same by fastforce
  qed
qed

lemma fs1_iget_law:
  assumes "inodes_wf (fs1_icache s)"
  shows "case fs1_iget dev n s of
      Ret p t \<Rightarrow> \<not> fst p \<and> snd p < length (fs1_icache t) \<and> inodes_wf (fs1_icache t)
        \<and> idev (fs1_icache t ! snd p) = dev \<and> inum (fs1_icache t ! snd p) = n
        \<and> iref (fs1_icache t ! snd p) = (if inode_match dev n (fs1_icache s ! snd p) then iref (fs1_icache s ! snd p) + 1 else 1)
        \<and> (\<forall>k. k \<noteq> snd p \<longrightarrow> fs1_icache t ! k = fs1_icache s ! k)
    | Panic e \<Rightarrow> \<forall>i\<in>set (fs1_icache s). 0 < iref i \<and> \<not> inode_match dev n i
    | Sleep c t \<Rightarrow> False | Fault e \<Rightarrow> False"
proof (cases "find_first (inode_match dev n) (fs1_icache s)")
  case (Some k)
  note k = find_first_Some [OF Some]
  have "inodes_wf ((fs1_icache s)[k := (fs1_icache s ! k)\<lparr>iref := iref (fs1_icache s ! k) + 1\<rparr>])"
    using assms k by (intro inodes_wf_update) (auto simp: inodes_wf_def inode_match_def)
  then show ?thesis using Some k by (simp add: fs1_iget_cases put_inode_def inode_match_def)
next
  case None
  then have no: "\<forall>i\<in>set (fs1_icache s). \<not> inode_match dev n i" by (simp add: find_first_None)
  show ?thesis
  proof (cases "find_first (\<lambda>i. iref i = 0) (fs1_icache s)")
    case full: None
    then have "\<forall>i\<in>set (fs1_icache s). 0 < iref i" using assms by (fastforce simp: find_first_None inodes_wf_def)
    then show ?thesis using None full no by (simp add: fs1_iget_cases)
  next
    case (Some k)
    note k = find_first_Some [OF Some]
    have "inodes_wf ((fs1_icache s)[k := claim_inode dev n (fs1_icache s ! k)])"
      using assms k no by (intro inodes_wf_update) (auto simp: inodes_wf_def inode_match_def claim_inode_def)
    then show ?thesis using None Some k by (simp add: fs1_iget_cases put_inode_def inode_match_def claim_inode_def)
  qed
qed

section \<open>Properties\<close>

text \<open>
  C14: path names. For a path without zero bytes, the loop of \<open>namex\<close> with \<open>skipelem\<close> sees exactly the parts of the
  path between slashes, empty ones left out, each cut to fourteen bytes, in order; \<open>*path == '\0'\<close> holds after the last one
  and after no other, so that \<open>nameiparent\<close> stops at the last part whatever slashes follow it. Left-over bytes in the
  buffer never show.
\<close>

theorem path_elems_split:
  assumes "length name = DIRSIZ" and "0 \<notin> set path"
  shows "map (\<lambda>(nm, fin). takeWhile (\<lambda>c. c \<noteq> 0) nm) (path_elems path name) = map (take DIRSIZ) (path_names path)
    \<and> map snd (path_elems path name) = map (\<lambda>k. Suc k = length (path_names path)) [0..<length (path_names path)]"
  using assms
proof (induction path name rule: path_elems.induct)
  case (1 path name)
  show ?case
  proof (cases "skipelem path name")
    case None
    then have "dropWhile (\<lambda>c. c = slash) path = []" by (auto simp: skipelem_def Let_def split: if_splits)
    then have "path_names path = []" by (simp only: path_names_Nil)
    then show ?thesis using None by (subst (1 2) path_elems.simps) simp
  next
    case (Some r)
    obtain rest nm where r: "r = (rest, nm)" by (cases r)
    note sk = skipelem_names [OF Some [unfolded r] "1.prems"]
    have ih: "map (\<lambda>(nm, fin). takeWhile (\<lambda>c. c \<noteq> 0) nm) (path_elems rest nm) = map (take DIRSIZ) (path_names rest)"
      "map snd (path_elems rest nm) = map (\<lambda>k. Suc k = length (path_names rest)) [0..<length (path_names rest)]"
      using "1.IH" [OF Some [unfolded r] refl] sk(3,4) by simp_all
    have el: "path_elems path name = (nm, rest = []) # path_elems rest nm"
      using Some r by (subst path_elems.simps) simp
    have "[0..<Suc (length (path_names rest))] = 0 # map Suc [0..<length (path_names rest)]"
      by (simp add: map_Suc_upt upt_conv_Cons del: upt_Suc)
    then show ?thesis using ih sk(1,2,5) unfolding el by (simp add: comp_def del: upt_Suc)
  qed
qed

theorem path_elems_split_witness:
  "map (\<lambda>(nm, fin). takeWhile (\<lambda>c. c \<noteq> 0) nm) (path_elems [47, 97, 47, 47, 98, 99, 47] (replicate 14 120)) = [[97], [98, 99]]"
  using path_elems_split [of "replicate 14 120" "[47, 97, 47, 47, 98, 99, 47]"] by (simp add: path_names_def)

text \<open>
  C15: the inode cache of \<open>vfs.c\<close> grows when it is full, and the search ends. With a list of nodes and a free page,
  \<open>iget\<close> goes round at most once more and returns a node for the inode asked for with a reference count of at least
  one; the list has grown by at most one page of nodes, and the cache of the native file system is not touched.
\<close>

theorem iget_ends:
  assumes "icache s \<noteq> []" and "kalloc s = Ret a u" and "a \<noteq> 0"
  shows "\<exists>k t. iget dev n s = Ret (True, k) t \<and> Suc k < length (icache t) \<and> idev (icache t ! k) = ucast dev
    \<and> inum (icache t ! k) = n \<and> 1 \<le> iref (icache t ! k) \<and> length (icache t) \<le> length (icache s) + inodes_per_page
    \<and> fs1_icache t = fs1_icache s"
  using iget_law [OF assms] .

theorem iget_ends_witness:
  "\<exists>k t. iget 1 1 (fs_demo\<lparr>freelist := 0x1000, icache := [zero_inode\<lparr>iref := 1\<rparr>]\<rparr>) = Ret (True, k) t \<and> inum (icache t ! k) = 1"
proof -
  let ?s = "fs_demo\<lparr>freelist := 0x1000, icache := [zero_inode\<lparr>iref := 1\<rparr>]\<rparr>"
  have "icache ?s \<noteq> []" "kalloc ?s = Ret 0x1000 (?s\<lparr>freelist := ld64 (kmem_mem ?s) 0x1000\<rparr>)" "(0x1000 :: u64) \<noteq> 0"
    by (simp_all add: kalloc_def)
  then show ?thesis using iget_ends [of ?s] by blast
qed

text \<open>
  C16: the inode cache of the native file system. \<open>fs1_iget\<close> keeps every inode of a device in at most one slot that
  is in use, the reference counts non-negative and the block maps of the right length. It returns the slot of the inode
  asked for, with one reference more than before or one for a new one, and changes no other slot; it panics
  only when every slot is in use, none of them by this inode.
\<close>

theorem fs1_iget_unique:
  assumes "inodes_wf (fs1_icache s)"
  shows "case fs1_iget dev n s of
      Ret p t \<Rightarrow> \<not> fst p \<and> snd p < length (fs1_icache t) \<and> inodes_wf (fs1_icache t)
        \<and> idev (fs1_icache t ! snd p) = dev \<and> inum (fs1_icache t ! snd p) = n
        \<and> iref (fs1_icache t ! snd p) = (if inode_match dev n (fs1_icache s ! snd p) then iref (fs1_icache s ! snd p) + 1 else 1)
        \<and> (\<forall>k. k \<noteq> snd p \<longrightarrow> fs1_icache t ! k = fs1_icache s ! k)
    | Panic e \<Rightarrow> \<forall>i\<in>set (fs1_icache s). 0 < iref i \<and> \<not> inode_match dev n i
    | Sleep c t \<Rightarrow> False | Fault e \<Rightarrow> False"
  using fs1_iget_law [OF assms] .

lemma fs_demo_inodes: "inodes_wf (fs1_icache fs_demo)"
proof -
  let ?i = "zero_inode\<lparr>idev := 1, inum := 2, iref := 1, ibusy := True, ivalid := True, itype := T_FILE, nlink := 1\<rparr>"
  have free: "iref ((?i # replicate 49 zero_inode) ! k) = 0" if "k < 50" "k \<noteq> 0" for k
    using that by (cases k) (simp_all add: zero_inode_def)
  have "k = k'" if "k < 50" "k' < 50" "0 < iref ((?i # replicate 49 zero_inode) ! k)" "0 < iref ((?i # replicate 49 zero_inode) ! k')" for k k'
    using free [OF that(1)] free [OF that(2)] that(3,4) by (cases "k = 0"; cases "k' = 0") simp_all
  moreover have "0 \<le> iref i \<and> length (addrs i) = 29" if "i \<in> set (?i # replicate 49 zero_inode)" for i
    using that by (auto simp: zero_inode_def)
  ultimately show ?thesis unfolding inodes_wf_def by simp
qed

theorem fs1_iget_unique_witness:
  "case fs1_iget 1 2 fs_demo of Ret p t \<Rightarrow> inodes_wf (fs1_icache t) \<and> inum (fs1_icache t ! snd p) = 2
    | Panic e \<Rightarrow> \<forall>i\<in>set (fs1_icache fs_demo). 0 < iref i \<and> \<not> inode_match 1 2 i | Sleep c t \<Rightarrow> False | Fault e \<Rightarrow> False"
  using fs1_iget_unique [OF fs_demo_inodes, of 1 2] by (auto split: outcome.splits)

text \<open>
  C17: one inode, two locks. A path that starts with a slash reaches the root directory through \<open>iget\<close> of \<open>vfs.c\<close>, an
  entry of a directory reaches it through \<open>fs1_iget\<close>, and these have caches of their own. The two pointers are
  different in-memory copies of the same inode of the same device; when both are valid and unlocked, both can be locked
  at the same time, so that the lock of an inode does not exclude.
\<close>

theorem root_locked_twice:
  assumes "icache s \<noteq> []" and "kalloc s = Ret a w" and "a \<noteq> 0" and "inodes_wf (fs1_icache s)"
    and "iget (ucast dev) n s = Ret p t" and "fs1_iget dev n t = Ret q u"
    and "ivalid (the_inode u p)" and "ivalid (the_inode u q)" and "\<not> ibusy (the_inode u p)" and "\<not> ibusy (the_inode u q)"
  shows "p \<noteq> q \<and> idev (the_inode u p) = idev (the_inode u q) \<and> inum (the_inode u p) = inum (the_inode u q)
    \<and> (\<exists>v. kthen (ilock (Some p)) (ilock (Some q)) u = Ret () v)"
proof -
  obtain k where k: "p = (True, k)" "Suc k < length (icache t)" "idev (icache t ! k) = dev" "inum (icache t ! k) = n"
      "1 \<le> iref (icache t ! k)" "fs1_icache t = fs1_icache s"
    using iget_law [OF assms(1-3), of "ucast dev" n] assms(5) ucast_u32_u64 [of dev] by auto
  have q: "\<not> fst q" "snd q < length (fs1_icache u)" "inodes_wf (fs1_icache u)" "idev (fs1_icache u ! snd q) = dev" "inum (fs1_icache u ! snd q) = n"
      "1 \<le> iref (fs1_icache u ! snd q)"
    using fs1_iget_law [of t dev n] assms(4,6) k(6) by (auto simp: inode_match_def split: if_splits)
  have same: "icache u = icache t" using assms(6) by (auto simp: fs1_iget_cases put_inode_def split: option.splits)
  let ?v = "put_inode p ((the_inode u p)\<lparr>ibusy := True\<rparr>) u"
  have ok: "ip_ok u p" "ip_ok u q" "p \<noteq> q" "1 \<le> iref (the_inode u p)" "1 \<le> iref (the_inode u q)"
      "the_inode ?v q = the_inode u q" "ip_ok ?v q"
    using k q(1,2,6) same by (auto simp: ip_ok_def the_inode_def put_inode_def)
  have "ilock (Some p) u = Ret () ?v"
    using ok(1,4) assms(7,9) by (simp add: ilock_def kbind_Ret inode_at_Ret set_inode_Ret kreturn_def)
  moreover have "\<exists>v. ilock (Some q) ?v = Ret () v"
    using ok(5-7) assms(8,10) by (simp add: ilock_def kbind_Ret inode_at_Ret set_inode_Ret kreturn_def)
  ultimately show ?thesis using ok(3) k q same by (auto simp: kbind_Ret the_inode_def)
qed

definition two_roots :: fsst where
  "two_roots = (let r = zero_inode\<lparr>idev := 1, inum := 1, iref := 1, ivalid := True, itype := T_DIR\<rparr> in
     fs_demo\<lparr>freelist := 0x1000, icache := [r, zero_inode], fs1_icache := [r]\<rparr>)"

theorem root_locked_twice_witness:
  "\<exists>p t q u v. iget (ucast (1 :: u32)) 1 two_roots = Ret p t \<and> fs1_iget 1 1 t = Ret q u \<and> p \<noteq> q \<and> kthen (ilock (Some p)) (ilock (Some q)) u = Ret () v"
proof -
  let ?r = "zero_inode\<lparr>idev := 1, inum := 1, iref := 1, ivalid := True, itype := T_DIR\<rparr>"
  let ?t = "put_inode (True, 0) (?r\<lparr>iref := 2\<rparr>) two_roots"
  let ?u = "put_inode (False, 0) (?r\<lparr>iref := 2\<rparr>) ?t"
  have f: "icache two_roots = [?r, zero_inode]" "fs1_icache two_roots = [?r]" "freelist two_roots = 0x1000"
    by (simp_all add: two_roots_def Let_def)
  have i: "iget (ucast (1 :: u32)) 1 two_roots = Ret (True, 0) ?t"
    by (subst iget.simps) (simp add: f kbind_Ret set_inode_Ret kreturn_def the_inode_def)
  have j: "fs1_iget 1 1 ?t = Ret (False, 0) ?u"
    by (simp add: fs1_iget_cases f put_inode_def inode_match_def)
  have "inodes_wf (fs1_icache two_roots)" unfolding f by (simp add: inodes_wf_def zero_inode_def)
  moreover have "kalloc two_roots = Ret 0x1000 (two_roots\<lparr>freelist := ld64 (kmem_mem two_roots) 0x1000\<rparr>)" by (simp add: kalloc_def f)
  moreover have "the_inode ?u (True, 0) = ?r\<lparr>iref := 2\<rparr>" "the_inode ?u (False, 0) = ?r\<lparr>iref := 2\<rparr>"
    by (simp_all add: the_inode_def put_inode_def f)
  ultimately show ?thesis
    using root_locked_twice [OF _ _ _ _ i j] i j f(1) by (auto simp: zero_inode_def)
qed

end
