(* ===== verification/File.thy ===== *)
theory File
  imports Fs_Path
begin

text \<open>
  Open files, \<open>kernel/file.c\<close> with \<open>include/file.h\<close> and \<open>pipealloc\<close> of \<open>kernel/pipe.c\<close>.

  A \<open>struct file *\<close> is an index into the table of \<open>NFILE\<close> files, \<open>None\<close> the null pointer. The functions of \<open>USocket.cc\<close>
  that a file of type \<open>FD_SOCKET\<close> goes to are arguments (\<open>SocketRead\<close>, \<open>SocketWrite\<close>, \<open>DestorySocket\<close>), as is the
  answer of a pipe's lock. An operation that fills a user's buffer returns the bytes.
\<close>

unbundle bit_operations_syntax

section \<open>Definitions\<close>

abbreviation (input) NFILE :: nat where "NFILE \<equiv> 100"
abbreviation (input) LOOP0 :: u16 where "LOOP0 \<equiv> 3"
abbreviation (input) O_RDONLY :: u32 where "O_RDONLY \<equiv> 2"
abbreviation (input) O_WRONLY :: u32 where "O_WRONLY \<equiv> 4"
abbreviation (input) O_RDWR :: u32 where "O_RDWR \<equiv> 8"
abbreviation (input) O_CREATE :: u32 where "O_CREATE \<equiv> 16"

datatype fdtype = FD_NONE | FD_PIPE | FD_INODE | FD_SOCKET

record struct_file =
  ftype :: fdtype
  fref :: int
  readable :: bool
  writable :: bool
  fpipe :: u64
  fip :: iptr
  foff :: u32
  soc_type :: int
  soc_desc :: int

record filest = fsst +
  ftable :: "struct_file list"

definition file_at :: "nat \<Rightarrow> ('a filest_scheme, struct_file) kmon" where
  "file_at f s = (if f < length (ftable s) then Ret (ftable s ! f) s else Fault ''f'')"

definition set_file :: "nat \<Rightarrow> (struct_file \<Rightarrow> struct_file) \<Rightarrow> ('a filest_scheme, unit) kmon" where
  "set_file f g = kmodify (\<lambda>s. s\<lparr>ftable := (ftable s)[f := g (ftable s ! f)]\<rparr>)"

subsection \<open>The file table\<close>

definition filealloc :: "('a filest_scheme, nat option) kmon" where
  "filealloc = kbind (kget (\<lambda>s. find_first (\<lambda>f. fref f = 0) (ftable s))) (\<lambda>r. case r of
       None \<Rightarrow> kreturn None
     | Some f \<Rightarrow> kthen (set_file f (\<lambda>f. f\<lparr>fref := 1\<rparr>)) (kreturn (Some f)))"

definition filedup :: "nat \<Rightarrow> ('a filest_scheme, nat) kmon" where
  "filedup f = kbind (file_at f) (\<lambda>v. if fref v < 1 then kpanic ''filedup''
     else kthen (set_file f (\<lambda>f. f\<lparr>fref := fref f + 1\<rparr>)) (kreturn f))"

definition fileclose :: "(struct_file \<Rightarrow> ('a filest_scheme, unit) kmon) \<Rightarrow> nat \<Rightarrow> ('a filest_scheme, unit) kmon" where
  "fileclose DestorySocket f = kbind (file_at f) (\<lambda>v.
     if fref v < 1 then kpanic ''fileclose''
     else kthen (set_file f (\<lambda>f. f\<lparr>fref := fref f - 1\<rparr>))
       (if fref v - 1 > 0 then kreturn ()
        else kbind (file_at f) (\<lambda>ff.
          kthen (set_file f (\<lambda>f. f\<lparr>fref := 0, ftype := FD_NONE\<rparr>))
          (case ftype ff of
             FD_PIPE \<Rightarrow> pipeclose (fpipe ff) (writable ff)
           | FD_INODE \<Rightarrow> kthen begin_op (kthen (iput (fip ff)) end_op)
           | FD_SOCKET \<Rightarrow> DestorySocket ff
           | FD_NONE \<Rightarrow> kreturn ()))))"

definition filestat :: "nat \<Rightarrow> ('a filest_scheme, int \<times> stat option) kmon" where
  "filestat f = kbind (file_at f) (\<lambda>v. if ftype v = FD_INODE
     then kbind (stati (fip v)) (\<lambda>st. kreturn (0, Some st)) else kreturn (- 1, None))"

definition fileread :: "'a filest_scheme devtab \<Rightarrow> (struct_file \<Rightarrow> int \<Rightarrow> ('a filest_scheme, int \<times> u8 list) kmon) \<Rightarrow> u8 \<Rightarrow>
    nat \<Rightarrow> int \<Rightarrow> ('a filest_scheme, int \<times> u8 list) kmon" where
  "fileread devsw SocketRead success f n = kbind (file_at f) (\<lambda>v.
     if \<not> readable v then kreturn (- 1, [])
     else case ftype v of
       FD_PIPE \<Rightarrow> piperead (fpipe v) n success
     | FD_INODE \<Rightarrow>
        kthen (ilock (Some (fip v))) (kbind (readi devsw (fip v) (foff v) (word_of_int n)) (\<lambda>(r, bs).
          kthen (if r > 0 then set_file f (\<lambda>v. v\<lparr>foff := foff v + word_of_int r\<rparr>) else kreturn ())
          (kthen (iunlock (Some (fip v))) (kreturn (r, bs)))))
     | FD_SOCKET \<Rightarrow> SocketRead v n
     | FD_NONE \<Rightarrow> kpanic ''fileread'')"

definition fileseek :: "nat \<Rightarrow> int \<Rightarrow> ('a filest_scheme, int) kmon" where
  "fileseek f offset = kbind (file_at f) (\<lambda>v.
     if \<not> readable v then kreturn (- 1)
     else if ftype v = FD_PIPE then kreturn (- 2)
     else if ftype v = FD_INODE then
       kthen (set_file f (\<lambda>v. v\<lparr>foff := foff v + word_of_int offset\<rparr>))
         (kreturn (sint (foff v + word_of_int offset)))
     else kpanic ''fileseek'')"

text \<open>The pieces of at most \<open>((LOGSIZE - 1 - 1 - 2) / 2) * 512\<close> bytes that \<open>filewrite\<close> writes one by one.\<close>

abbreviation (input) max_piece :: nat where "max_piece \<equiv> ((LOGSIZE - 1 - 1 - 2) div 2) * 512"

function pieces :: "u8 list \<Rightarrow> u8 list list" where
  "pieces xs = (if xs = [] then [] else take max_piece xs # pieces (drop max_piece xs))"
  by pat_completeness auto
termination by (relation "measure length") (auto simp: length_greater_0_conv [symmetric] simp del: length_greater_0_conv)

declare pieces.simps [simp del]

text \<open>The loop over the pieces still to write: \<open>None\<close> when all are written (\<open>i == n\<close>), else the value to return.\<close>

fun filewrite_loop :: "'a filest_scheme devtab \<Rightarrow> nat \<Rightarrow> u8 list list \<Rightarrow> ('a filest_scheme, int option) kmon" where
  "filewrite_loop devsw f [] = kreturn None"
| "filewrite_loop devsw f (p # ps) =
     kthen begin_op (kbind (file_at f) (\<lambda>v. kthen (ilock (Some (fip v)))
       (kbind (writei devsw (fip v) p (foff v) (of_nat (length p))) (\<lambda>r.
         kthen (if r > 0 then set_file f (\<lambda>v. v\<lparr>foff := foff v + word_of_int r\<rparr>) else kreturn ())
         (kthen (iunlock (Some (fip v)))
         (kthen end_op
         (if r < 0 then kreturn (Some (- 1))
          else if r \<noteq> int (length p) then kreturn (Some r)
          else filewrite_loop devsw f ps)))))))"

definition filewrite :: "'a filest_scheme devtab \<Rightarrow> (struct_file \<Rightarrow> u8 list \<Rightarrow> int \<Rightarrow> ('a filest_scheme, int) kmon) \<Rightarrow> u8 \<Rightarrow>
    nat \<Rightarrow> u8 list \<Rightarrow> int \<Rightarrow> ('a filest_scheme, int) kmon" where
  "filewrite devsw SocketWrite success f addr n = kbind (file_at f) (\<lambda>v.
     if \<not> writable v then kreturn (- 1)
     else case ftype v of
       FD_PIPE \<Rightarrow> pipewrite (fpipe v) addr n success
     | FD_INODE \<Rightarrow>
        if int (length addr) < n then kfault ''addr + i''
        else kbind (filewrite_loop devsw f (pieces (take (nat n) addr))) (\<lambda>r. case r of
            Some e \<Rightarrow> kreturn e
          | None \<Rightarrow> kreturn (if n < 0 then - 1 else n))
     | FD_SOCKET \<Rightarrow> kthen (SocketWrite v addr n) (kpanic ''filewrite'')
     | FD_NONE \<Rightarrow> kpanic ''filewrite'')"

text \<open>\<open>pipealloc\<close>; the result is the return value and the two files.\<close>

definition pipealloc_bad :: "(struct_file \<Rightarrow> ('a filest_scheme, unit) kmon) \<Rightarrow> nat option \<Rightarrow> nat option \<Rightarrow>
    ('a filest_scheme, int \<times> nat option \<times> nat option) kmon" where
  "pipealloc_bad DestorySocket f0 f1 =
     kthen (case f0 of Some f \<Rightarrow> fileclose DestorySocket f | None \<Rightarrow> kreturn ())
     (kthen (case f1 of Some f \<Rightarrow> fileclose DestorySocket f | None \<Rightarrow> kreturn ())
     (kreturn (- 1, f0, f1)))"

definition pipealloc :: "(struct_file \<Rightarrow> ('a filest_scheme, unit) kmon) \<Rightarrow>
    ('a filest_scheme, int \<times> nat option \<times> nat option) kmon" where
  "pipealloc DestorySocket = kbind filealloc (\<lambda>f0. case f0 of
     None \<Rightarrow> pipealloc_bad DestorySocket None None
   | Some r \<Rightarrow> kbind filealloc (\<lambda>f1. case f1 of
       None \<Rightarrow> pipealloc_bad DestorySocket f0 None
     | Some w \<Rightarrow> kbind kalloc (\<lambda>p.
         if p = 0 then pipealloc_bad DestorySocket f0 f1
         else kthen (kmodify (pipe_init p))
           (kthen (set_file r (\<lambda>f. f\<lparr>ftype := FD_PIPE, readable := True, writable := False, fpipe := p\<rparr>))
           (kthen (set_file w (\<lambda>f. f\<lparr>ftype := FD_PIPE, readable := False, writable := True, fpipe := p\<rparr>))
           (kreturn (0, f0, f1)))))))"

section \<open>Writing through an open file\<close>

text \<open>The file system between two operations, and an inode that nobody has locked.\<close>

definition fs_idle :: "'a fsst_scheme \<Rightarrow> bool" where
  "fs_idle s \<longleftrightarrow> bio_inv s {} \<and> busy_keys s = {} \<and> log_ok s \<and> \<not> committing s \<and> outstanding s = 0 \<and> lh_n s = 0 \<and> log_size s = 30
     \<and> fs_ok s \<and> fs1_dev s"

definition inode_idle :: "inode \<Rightarrow> bool" where
  "inode_idle i \<longleftrightarrow> 1 \<le> iref i \<and> \<not> ibusy i \<and> ivalid i \<and> itype i \<noteq> T_DEV"

lemma idle_dirty: "fs_idle s \<Longrightarrow> dirty_keys s = {}"
  by (simp add: fs_idle_def log_okD(6))

lemma idle_disk: "fs_idle s \<Longrightarrow> data_key s k \<Longrightarrow> disk s (key_loc k) = bview s k"
  using bview_clean [of s k] idle_dirty [of s] by (simp add: fs_idle_def data_key_def)

lemma more_fields:
  fixes s t :: "'a filest_scheme"
  shows "fsst.more t = fsst.more s \<Longrightarrow> ftable t = ftable s"
    and "logst.more t = logst.more s \<Longrightarrow> ftable t = ftable s \<and> fs1_icache t = fs1_icache s \<and> icache t = icache s \<and> fsmap t = fsmap s"
  by (cases s; cases t; simp)+

lemma idle_begin:
  assumes "fs_idle s"
  shows "begin_op s = Ret () (s\<lparr>outstanding := 1\<rparr>)" and "txn (s\<lparr>outstanding := 1\<rparr>)" and "bview (s\<lparr>outstanding := 1\<rparr>) = bview s"
    and "dirty_keys (s\<lparr>outstanding := 1\<rparr>) = {}" and "busy_keys (s\<lparr>outstanding := 1\<rparr>) = {}"
proof -
  show "bview (s\<lparr>outstanding := 1\<rparr>) = bview s" by (rule bview_cong) simp_all
  show "dirty_keys (s\<lparr>outstanding := 1\<rparr>) = {}" "busy_keys (s\<lparr>outstanding := 1\<rparr>) = {}"
    using keys_cong [of "s\<lparr>outstanding := 1\<rparr>" s] idle_dirty [OF assms] assms by (simp_all add: fs_idle_def)
  show "begin_op s = Ret () (s\<lparr>outstanding := 1\<rparr>)" using assms by (simp add: begin_op_def fs_idle_def)
  have "log_ok s" using assms by (simp add: fs_idle_def)
  then have "log_ok (s\<lparr>outstanding := 1\<rparr>)"
    by (simp add: log_ok_def log_geom_def data_key_def log_region_def home_key_def head_key_def dirty_keys_def)
  then show "txn (s\<lparr>outstanding := 1\<rparr>)" using assms by (simp add: fs_idle_def txn_def)
qed

text \<open>A piece of \<open>filewrite\<close> fits the log, whatever its offset, as long as the bitmap is not too large.\<close>

lemma chunks_length: "length (chunks off n) \<le> (off mod BSIZE + n + BSIZE - 1) div BSIZE"
proof (induction off n rule: chunks.induct)
  case (1 off n)
  show ?case
  proof (cases "n = 0")
    case False
    define m where "m = min n (BSIZE - off mod BSIZE)"
    have ch: "chunks off n = (off, m) # chunks (off + m) (n - m)" using chunks_Cons [of n off] False unfolding m_def by simp
    have ih: "length (chunks (off + m) (n - m)) \<le> ((off + m) mod BSIZE + (n - m) + BSIZE - 1) div BSIZE"
      using "1.IH" [OF False m_def] by simp
    show ?thesis
    proof (cases "m = n")
      case True
      have "BSIZE \<le> off mod BSIZE + n + BSIZE - 1" using False by simp
      then have "1 \<le> (off mod BSIZE + n + BSIZE - 1) div BSIZE" by (simp add: le_div_geq)
      then show ?thesis unfolding ch using True by simp
    next
      case False
      then have m: "m = BSIZE - off mod BSIZE" "m < n" by (auto simp: m_def min_def split: if_splits)
      have "off mod BSIZE < BSIZE" by simp
      then have "(off mod BSIZE + m) mod BSIZE = 0" using m(1) by simp
      then have z: "(off + m) mod BSIZE = 0" by (simp add: mod_add_left_eq)
      have "off mod BSIZE + n + BSIZE - 1 = ((off + m) mod BSIZE + (n - m) + BSIZE - 1) + BSIZE"
        using m \<open>off mod BSIZE < BSIZE\<close> unfolding z by linarith
      then have "(off mod BSIZE + n + BSIZE - 1) div BSIZE = ((off + m) mod BSIZE + (n - m) + BSIZE - 1) div BSIZE + 1" by simp
      then show ?thesis unfolding ch using ih by simp
    qed
  qed simp
qed

lemma piece_chunks: "n \<le> max_piece \<Longrightarrow> length (chunks off n) \<le> 14"
proof -
  assume "n \<le> max_piece"
  then have "off mod BSIZE + n + BSIZE - 1 < 15 * BSIZE" using mod_less_divisor [of BSIZE off] by simp
  then have "(off mod BSIZE + n + BSIZE - 1) div BSIZE < 15" by (rule less_mult_imp_div_less)
  then show ?thesis using chunks_length [of off n] by linarith
qed

lemma idle_room:
  assumes "dirty_keys s = {}" and "busy_keys s = {}" and "log_size s = 30" and "card (bitmap_keys s) \<le> 12" and "n \<le> 14"
    and "n + ind_missing i \<le> card (free_blocks s)"
  shows "room n s i"
proof -
  have fin: "finite (bitmap_keys s)" by (simp add: bitmap_keys_def)
  have "card (file_keys s i) + ind_missing i \<le> card (bitmap_keys s) + 1"
    using fin card_insert_le_m1 [of "Suc (card (bitmap_keys s))" "bitmap_keys s"] by (auto simp: file_keys_def ind_missing_def)
  moreover have "finite (file_keys s i)" using fin by (simp add: file_keys_def)
  ultimately show ?thesis using assms unfolding room_def fs_fits_def by simp
qed

text \<open>The same bytes below the log, and everything that depends on them.\<close>

definition same_files :: "'a fsst_scheme \<Rightarrow> 'a fsst_scheme \<Rightarrow> bool" where
  "same_files s t \<longleftrightarrow> log_dev t = log_dev s \<and> log_start t = log_start s \<and> fsmap t = fsmap s
     \<and> (\<forall>n<unat (log_start s). fview t n = fview s n)"

lemma same_filesD:
  assumes "same_files s t" and "fs_ok s"
  shows "fs_sb t = fs_sb s" and "fs_ok t" and "free_blocks t = free_blocks s" and "bitmap_keys t = bitmap_keys s"
    and "file_wf s h \<Longrightarrow> file_wf t h" and "file_wf s h \<Longrightarrow> file_bytes t h = file_bytes s h" and "fs1_dev t = fs1_dev s"
    and "file_wf s i \<Longrightarrow> file_wf s h \<Longrightarrow> apart t i h = apart s i h"
proof -
  have e: "log_dev t = log_dev s" "log_start t = log_start s" "\<forall>n<unat (log_start s). fview t n = fview s n"
    using assms(1) by (simp_all add: same_files_def)
  note v = view_data [OF assms(2) e]
  show "fs_sb t = fs_sb s" "fs_ok t" "free_blocks t = free_blocks s" "bitmap_keys t = bitmap_keys s"
    "file_wf s h \<Longrightarrow> file_wf t h" "file_wf s h \<Longrightarrow> file_bytes t h = file_bytes s h"
    by (rule v; assumption?)+
  show "fs1_dev t = fs1_dev s" using assms(1) by (simp add: same_files_def fs1_dev_def)
  show "apart t i h = apart s i h" if "file_wf s i" "file_wf s h"
  proof -
    have ok: "file_ok s i" "file_ok s h" using that unfolding file_wf_def by blast+
    have "slot t i = slot s i" "slot t h = slot s h" by (rule v(5) [OF ok(1)], rule v(5) [OF ok(2)])
    then show ?thesis by (simp add: apart_def)
  qed
qed

lemma same_files_view: "bview t = bview s \<Longrightarrow> log_dev t = log_dev s \<Longrightarrow> log_start t = log_start s \<Longrightarrow> fsmap t = fsmap s \<Longrightarrow> same_files s t"
  using view_eq(1) [of t s] by (simp add: same_files_def)

lemma same_files_trans: "same_files s t \<Longrightarrow> same_files t u \<Longrightarrow> same_files s u"
  by (simp add: same_files_def)

lemma lock_inode:
  fixes s :: "'a filest_scheme"
  assumes "fs_idle s" and "ip_ok s ip" and "inode_idle (the_inode s ip)"
  shows "\<exists>t. begin_op s = Ret () (s\<lparr>outstanding := 1\<rparr>) \<and> ilock (Some ip) (s\<lparr>outstanding := 1\<rparr>) = Ret () t
    \<and> txn t \<and> busy_keys t = {} \<and> dirty_keys t = {} \<and> \<not> committing t \<and> outstanding t = 1 \<and> log_size t = 30 \<and> same_files s t
    \<and> ftable t = ftable s \<and> ip_ok t ip \<and> the_inode t ip = (the_inode s ip)\<lparr>ibusy := True\<rparr>"
proof -
  let ?i = "the_inode s ip" and ?s1 = "s\<lparr>outstanding := 1\<rparr>"
  let ?t = "put_inode ip (?i\<lparr>ibusy := True\<rparr>) ?s1"
  note b = idle_begin [OF assms(1)]
  have i1: "the_inode ?s1 ip = ?i" "ip_ok ?s1 ip" using assms(2) by (auto simp: the_inode_def ip_ok_def)
  note pp = put_inode_step [OF b(2), of ip "?i\<lparr>ibusy := True\<rparr>"]
  have fr: "fs_frame ?s1 ?t" using pp(1) by (simp add: fs_step_def)
  note f = fs_frame_fields [OF fr] and d = fs_stepD [OF pp(1)]
  have "ilock (Some ip) ?s1 = Ret () ?t"
    using assms(3) i1 by (simp add: ilock_def kbind_Ret inode_at_Ret set_inode_Ret inode_idle_def kreturn_def)
  moreover have "same_files s ?t"
    by (rule same_files_view) (simp_all add: pp(2) b(3))
  moreover have "ftable ?t = ftable s" using more_fields(1) [OF f(16)] by simp
  moreover have "ip_ok ?t ip" "the_inode ?t ip = ?i\<lparr>ibusy := True\<rparr>" using i1 by (simp_all add: the_inode_put)
  ultimately show ?thesis using b d f pp(3) assms(1) by (simp add: fs_idle_def)
qed

lemma unlock_commit:
  fixes s :: "'a filest_scheme"
  assumes "txn s" and "busy_keys s = {}" and "\<not> committing s" and "outstanding s = 1" and "log_size s = 30" and "fs_ok s" and "fs1_dev s"
    and "ip_ok s ip" and "ibusy (the_inode s ip)" and "1 \<le> iref (the_inode s ip)"
  shows "\<exists>u t. iunlock (Some ip) s = Ret () u \<and> end_op u = Ret () t \<and> fs_idle t \<and> same_files s t \<and> ftable t = ftable s
    \<and> ip_ok t ip \<and> the_inode t ip = (the_inode s ip)\<lparr>ibusy := False\<rparr>"
proof -
  let ?i = "the_inode s ip"
  let ?v = "put_inode ip (?i\<lparr>ibusy := False\<rparr>) s"
  note pp = put_inode_step [OF assms(1), of ip "?i\<lparr>ibusy := False\<rparr>"]
  have fr: "fs_frame s ?v" using pp(1) by (simp add: fs_step_def)
  note f = fs_frame_fields [OF fr] and d = fs_stepD [OF pp(1)]
  have bv: "bio_inv ?v {}" using d by (simp add: txn_def)
  obtain u where u: "wakeup (ChInode (fst ip) (snd ip)) ?v = Ret () u" "bio_inv u {}" "cache_abs u = cache_abs ?v" "bio_frame ?v u"
    using wakeup_abs [OF bv] by blast
  note g = bio_frame_log [OF u(4)]
  have abs: "bview u = bview s" "dirty_keys u = dirty_keys s" "busy_keys u = {}" "disk u = disk ?v"
    using arg_cong [OF u(3), of cview] arg_cong [OF u(3), of cdirty] arg_cong [OF u(3), of cbusy] arg_cong [OF u(3), of cdisk]
      pp(2,3) d assms(2) by simp_all
  have "log_ok ?v" using d by (simp add: txn_def)
  then have okv: "log_ok u" using log_ok_same [OF _ u(4)] abs pp(3) by simp
  obtain t where t: "end_op u = Ret () t" "bio_inv t {}" "busy_keys t = {}" "log_ok t" "\<not> committing t" "outstanding t = 0" "lh_n t = 0"
      "\<forall>k. data_key u k \<longrightarrow> bview t k = bview u k" "log_dev t = log_dev u" "log_start t = log_start u" "log_size t = log_size u"
      "logst.more t = logst.more u"
    using end_op_law [OF u(2) abs(3) okv] g f assms(3,4) by auto
  note m = more_fields(2) [OF t(12)] more_fields(2) [of u ?v]
  have e: "log_dev t = log_dev s" "log_start t = log_start s" "fsmap t = fsmap s" "ftable t = ftable s"
      "fs1_icache t = fs1_icache ?v" "icache t = icache ?v"
    using t(9,10) g f(1,2,13) m more_fields(1) [OF f(16)] by simp_all
  have "fview t n = fview s n" if "n < unat (log_start s)" for n
  proof -
    have "data_key u (log_dev s, of_nat n)"
      using fs_key(1) [OF assms(6) that] g f by (simp add: data_key_def log_region_def)
    then show ?thesis using t(8) abs(1) e(1) by (simp add: fview_def)
  qed
  then have sf: "same_files s t" using e by (simp add: same_files_def)
  note sfd = same_filesD [OF sf assms(6)]
  have "same_inodes ?v t" using e by (simp add: same_inodes_def)
  then have "ip_ok t ip" "the_inode t ip = ?i\<lparr>ibusy := False\<rparr>" using put_inode_at [of ip "?i\<lparr>ibusy := False\<rparr>" s t] assms(8) by auto
  moreover have "iunlock (Some ip) s = Ret () u"
    using u(1) assms(9,10) by (simp add: iunlock_def kbind_Ret inode_at_Ret [OF assms(8)] set_inode_Ret)
  moreover have "fs_idle t" using t sfd(2,7) g f assms(5,7) by (simp add: fs_idle_def)
  ultimately show ?thesis using t(1) sf e(4) by blast
qed

lemma ftable_upd [simp]:
  fixes s :: "'a filest_scheme"
  shows "txn (s\<lparr>ftable := x\<rparr>) = txn s" "busy_keys (s\<lparr>ftable := x\<rparr>) = busy_keys s" "same_files s (s\<lparr>ftable := x\<rparr>)"
    "the_inode (s\<lparr>ftable := x\<rparr>) ip = the_inode s ip" "ip_ok (s\<lparr>ftable := x\<rparr>) ip = ip_ok s ip"
proof -
  show "txn (s\<lparr>ftable := x\<rparr>) = txn s"
    by (simp add: txn_def bio_inv_def log_ok_def log_geom_def data_key_def log_region_def home_key_def head_key_def dirty_keys_def)
  show "busy_keys (s\<lparr>ftable := x\<rparr>) = busy_keys s" by (simp add: busy_keys_def)
  show "same_files s (s\<lparr>ftable := x\<rparr>)" by (rule same_files_view) (rule bview_cong; simp | simp)+
  show "the_inode (s\<lparr>ftable := x\<rparr>) ip = the_inode s ip" "ip_ok (s\<lparr>ftable := x\<rparr>) ip = ip_ok s ip"
    by (simp_all add: the_inode_def ip_ok_def)
qed

text \<open>One turn of \<open>filewrite\<close>: a transaction of its own, on the disk when it is over.\<close>

lemma piece_run:
  fixes s :: "'a filest_scheme"
  assumes "fs_idle s" and "f < length (ftable s)" and "fip (ftable s ! f) = ip" and "foff (ftable s ! f) = off" and "ip_ok s ip"
    and "inode_idle (the_inode s ip)" and "file_wf s (the_inode s ip)" and "off \<le> isize (the_inode s ip)"
    and "unat off + length p \<le> MAXFILE * BSIZE" and "length p \<le> max_piece" and "p \<noteq> []" and "card (bitmap_keys s) \<le> 12"
    and "length (chunks (unat off) (length p)) + ind_missing (the_inode s ip) \<le> card (free_blocks s)"
  shows "\<exists>u v j t. same_files s u \<and> txn u \<and> the_inode u ip = (the_inode s ip)\<lparr>ibusy := True\<rparr> \<and> saved u (the_inode u ip) v j (unat off) p
    \<and> card (free_blocks u) + ind_missing j \<le> card (free_blocks v) + ind_missing (the_inode u ip) + length (chunks (unat off) (length p))
    \<and> same_files v t \<and> the_inode t ip = j\<lparr>ibusy := False\<rparr> \<and> ip_ok t ip \<and> fs_idle t
    \<and> ftable t = (ftable s)[f := (ftable s ! f)\<lparr>foff := off + of_nat (length p)\<rparr>]
    \<and> filewrite_loop devsw f (p # ps) s = filewrite_loop devsw f ps t"
proof -
  let ?i = "the_inode s ip" and ?n = "of_nat (length p) :: u32"
  have un: "unat ?n = length p" using assms(10) by (intro u32_of_nat_small) simp
  have sn: "sint ?n = int (length p)" using un assms(10) by (subst sint_u32_small) simp_all
  have ok: "fs_ok s" "fs1_dev s" using assms(1) by (simp_all add: fs_idle_def)
  obtain u where u: "begin_op s = Ret () (s\<lparr>outstanding := 1\<rparr>)" "ilock (Some ip) (s\<lparr>outstanding := 1\<rparr>) = Ret () u"
      "txn u" "busy_keys u = {}" "dirty_keys u = {}" "\<not> committing u" "outstanding u = 1" "log_size u = 30" "same_files s u"
      "ftable u = ftable s" "ip_ok u ip" "the_inode u ip = ?i\<lparr>ibusy := True\<rparr>"
    using lock_inode [OF assms(1,5,6)] by blast
  note su = same_filesD [OF u(9) ok(1)]
  have wu: "file_wf u (the_inode u ip)" using su(5) [OF assms(7)] unfolding u(12) by (simp only: file_wf_flags)
  have "room (length (chunks (unat off) (length p))) u (the_inode u ip)"
    using idle_room [OF u(5,4,8)] assms(12,13) su(3,4) piece_chunks [OF assms(10)] unfolding u(12) file_wf_flags by simp
  then obtain v j where v: "fs1_writei ip p off ?n u = Ret (sint ?n) v" "saved u (the_inode u ip) v j (unat off) (take (unat ?n) p)"
      "same_inodes (put_inode ip j u) v"
      "card (free_blocks u) + ind_missing j \<le> card (free_blocks v) + ind_missing (the_inode u ip) + length (chunks (unat off) (unat ?n))"
    using writei_law [OF u(3) su(2) u(4,11) _ wu, of off ?n p] ok(2) su(7) assms(8,9) un u(12) by auto
  have sv: "saved u (the_inode u ip) v j (unat off) p" using v(2) un by simp
  have st: "fs_step u v" "fs_ok v" "j = (the_inode u ip)\<lparr>addrs := addrs j, isize :=
      (if unat (isize (the_inode u ip)) < unat off + length p then of_nat (unat off + length p) else isize (the_inode u ip))\<rparr>"
    using sv unfolding saved_def by blast+
  have fr: "fs_frame u v" using st(1) by (simp add: fs_step_def)
  note f = fs_frame_fields [OF fr] and d = fs_stepD [OF st(1)]
  have jf: "ibusy j" "iref j = iref ?i"
    using arg_cong [OF st(3), of ibusy] arg_cong [OF st(3), of iref] u(12) by simp_all
  note jv = put_inode_at [OF v(3) u(11)]
  have tab: "ftable v = ftable s" using more_fields(1) [OF f(16)] u(10) by simp
  let ?w = "v\<lparr>ftable := (ftable s)[f := (ftable s ! f)\<lparr>foff := off + ?n\<rparr>]\<rparr>"
  have dev: "fs1_dev ?w" using ok(2) su(7) f(1,13) by (simp add: fs1_dev_def)
  have okw: "fs_ok ?w" using same_filesD(2) [OF ftable_upd(3) st(2)] .
  obtain x t where t: "iunlock (Some ip) ?w = Ret () x" "end_op x = Ret () t" "fs_idle t" "same_files ?w t" "ftable t = ftable ?w"
      "ip_ok t ip" "the_inode t ip = (the_inode ?w ip)\<lparr>ibusy := False\<rparr>"
    using unlock_commit [of ?w ip] d f(3-5) u(4,6-8) okw dev jv jf assms(6) by (auto simp: inode_idle_def)
  have dw: "idev (the_inode u ip) = log_dev u" using wu by (simp add: file_wf_def file_ok_def)
  have du: "fs1_dev u" using ok(2) su(7) by simp
  have "writei devsw ip p off ?n u = Ret (int (length p)) v"
    using v(1) sn assms(6) u(12) dw
    by (simp add: by_fstype_fs1 [OF du] writei_def kbind_Ret inode_at_Ret [OF u(11)] inode_idle_def)
  moreover have "file_at f (s\<lparr>outstanding := 1\<rparr>) = Ret (ftable s ! f) (s\<lparr>outstanding := 1\<rparr>)" using assms(2) by (simp add: file_at_def)
  moreover have "set_file f (\<lambda>v. v\<lparr>foff := foff v + word_of_int (int (length p))\<rparr>) v = Ret () ?w"
    using tab assms(4) by (simp add: set_file_def kmodify_def)
  ultimately have "filewrite_loop devsw f (p # ps) s = filewrite_loop devsw f ps t"
    using u(1,2) t(1,2) assms(3,4,11) by (simp add: kbind_Ret)
  moreover have "same_files v t" using same_files_trans [OF ftable_upd(3) t(4)] .
  ultimately show ?thesis using u(3,9,12) sv v(4) un t(3,5-7) jv by (intro exI [of _ u] exI [of _ v] exI [of _ j] exI [of _ t]) simp
qed

lemma piece_law:
  fixes s :: "'a filest_scheme"
  assumes "fs_idle s" and "f < length (ftable s)" and "fip (ftable s ! f) = ip" and "foff (ftable s ! f) = off" and "ip_ok s ip"
    and "inode_idle (the_inode s ip)" and "file_wf s (the_inode s ip)" and "off \<le> isize (the_inode s ip)"
    and "unat off + length p \<le> MAXFILE * BSIZE" and "length p \<le> max_piece" and "p \<noteq> []" and "card (bitmap_keys s) \<le> 12"
    and "length (chunks (unat off) (length p)) + ind_missing (the_inode s ip) \<le> card (free_blocks s)"
  shows "\<exists>t. filewrite_loop devsw f (p # ps) s = filewrite_loop devsw f ps t \<and> fs_idle t
    \<and> ftable t = (ftable s)[f := (ftable s ! f)\<lparr>foff := off + of_nat (length p)\<rparr>] \<and> ip_ok t ip \<and> inode_idle (the_inode t ip)
    \<and> file_wf t (the_inode t ip) \<and> bitmap_keys t = bitmap_keys s
    \<and> file_bytes t (the_inode t ip) = take (unat off) (file_bytes s (the_inode s ip)) @ p @ drop (unat off + length p) (file_bytes s (the_inode s ip))
    \<and> (\<forall>h. file_wf s h \<and> apart s (the_inode s ip) h \<longrightarrow>
        file_wf t h \<and> apart t (the_inode t ip) h \<and> file_bytes t h = file_bytes s h)
    \<and> card (free_blocks s) + ind_missing (the_inode t ip)
        \<le> card (free_blocks t) + ind_missing (the_inode s ip) + length (chunks (unat off) (length p))"
proof -
  let ?i = "the_inode s ip"
  obtain u v j t where t: "same_files s u" "txn u" "the_inode u ip = ?i\<lparr>ibusy := True\<rparr>" "saved u (the_inode u ip) v j (unat off) p"
      "card (free_blocks u) + ind_missing j \<le> card (free_blocks v) + ind_missing (the_inode u ip) + length (chunks (unat off) (length p))"
      "same_files v t" "the_inode t ip = j\<lparr>ibusy := False\<rparr>" "ip_ok t ip" "fs_idle t"
      "ftable t = (ftable s)[f := (ftable s ! f)\<lparr>foff := off + of_nat (length p)\<rparr>]"
      "filewrite_loop devsw f (p # ps) s = filewrite_loop devsw f ps t"
    using piece_run [OF assms, of devsw ps] by (elim exE conjE) (rule that)
  have ok: "fs_ok s" using assms(1) by (simp add: fs_idle_def)
  note su = same_filesD [OF t(1) ok]
  have wu: "file_wf u (the_inode u ip)" using su(5) [OF assms(7)] unfolding t(3) file_wf_flags .
  have okv: "fs_ok v" "fs_step u v" "fs_sb v = fs_sb u" "j = (the_inode u ip)\<lparr>addrs := addrs j, isize :=
      (if unat (isize (the_inode u ip)) < unat off + length p then of_nat (unat off + length p) else isize (the_inode u ip))\<rparr>"
    using t(4) unfolding saved_def by blast+
  note vt = same_filesD [OF t(6) okv(1)]
  have off: "unat off \<le> unat (isize (the_inode u ip))" using assms(8) t(3) by (simp add: word_le_nat_alt)
  note self = saved_self [OF wu t(4) off assms(9)] and oth = saved_other [OF su(2) t(2) wu t(4)]
  have "inode_idle (the_inode t ip)"
    using assms(6) arg_cong [OF okv(4), of iref] arg_cong [OF okv(4), of ivalid] arg_cong [OF okv(4), of itype] t(3)
    unfolding t(7) by (simp add: inode_idle_def)
  moreover have "file_wf t (the_inode t ip)" using vt(5) [OF self(1)] unfolding t(7) file_wf_flags .
  moreover have "file_bytes t (the_inode t ip) = take (unat off) (file_bytes s ?i) @ p @ drop (unat off + length p) (file_bytes s ?i)"
    using vt(6) [OF self(1)] self(2) su(6) [OF assms(7)] unfolding t(7) t(3) file_wf_flags by simp
  moreover have "bitmap_keys t = bitmap_keys s" using vt(4) su(4) bitmap_keys_same [OF okv(2,3)] by simp
  moreover have "file_wf t h \<and> apart t (the_inode t ip) h \<and> file_bytes t h = file_bytes s h" if h: "file_wf s h" "apart s ?i h" for h
  proof -
    have hu: "file_wf u h" "apart u (the_inode u ip) h" using su(5) [OF h(1)] su(8) [OF assms(7) h(1)] h(2) unfolding t(3) file_wf_flags by simp_all
    note o = oth [OF hu]
    show ?thesis using vt(5) [OF o(1)] vt(6) [OF o(1)] vt(8) [OF self(1) o(1)] o(2,3) su(6) [OF h(1)] unfolding t(7) file_wf_flags by simp
  qed
  moreover have "card (free_blocks s) + ind_missing (the_inode t ip)
        \<le> card (free_blocks t) + ind_missing ?i + length (chunks (unat off) (length p))"
    using t(5) su(3) vt(3) unfolding t(7) t(3) file_wf_flags by simp
  ultimately show ?thesis using t(8-11) by blast
qed

text \<open>The number of blocks a sequence of pieces touches, one after the other.\<close>

fun write_blocks :: "nat \<Rightarrow> u8 list list \<Rightarrow> nat" where
  "write_blocks off [] = 0"
| "write_blocks off (p # ps) = length (chunks off (length p)) + write_blocks (off + length p) ps"

lemma pieces_spec: "concat (pieces xs) = xs" "\<forall>p\<in>set (pieces xs). p \<noteq> [] \<and> length p \<le> max_piece"
proof (induction xs rule: pieces.induct)
  case (1 xs)
  have ih: "xs \<noteq> [] \<Longrightarrow> concat (pieces (drop max_piece xs)) = drop max_piece xs"
    "xs \<noteq> [] \<Longrightarrow> \<forall>p\<in>set (pieces (drop max_piece xs)). p \<noteq> [] \<and> length p \<le> max_piece"
    using 1 by blast+
  show "concat (pieces xs) = xs" using ih(1) by (subst pieces.simps) simp
  show "\<forall>p\<in>set (pieces xs). p \<noteq> [] \<and> length p \<le> max_piece" using ih(2) by (subst pieces.simps) simp
qed

lemma splice_twice:
  assumes "off \<le> length B"
  shows "take (off + length p) (take off B @ p @ drop (off + length p) B) @ q
      @ drop (off + length p + length q) (take off B @ p @ drop (off + length p) B)
    = take off B @ (p @ q) @ drop (off + length (p @ q)) B"
  using assms by (simp add: min_def ac_simps)

lemma length_file_bytes [simp]: "length (file_bytes s i) = unat (isize i)"
  by (simp add: file_bytes_def)

lemma filewrite_loop_law:
  fixes s :: "'a filest_scheme"
  assumes "fs_idle s" and "f < length (ftable s)" and "fip (ftable s ! f) = ip" and "foff (ftable s ! f) = off" and "ip_ok s ip"
    and "inode_idle (the_inode s ip)" and "file_wf s (the_inode s ip)" and "off \<le> isize (the_inode s ip)"
    and "unat off + length (concat ps) \<le> MAXFILE * BSIZE" and "\<forall>p\<in>set ps. p \<noteq> [] \<and> length p \<le> max_piece" and "card (bitmap_keys s) \<le> 12"
    and "write_blocks (unat off) ps + ind_missing (the_inode s ip) \<le> card (free_blocks s)"
  shows "\<exists>t. filewrite_loop devsw f ps s = Ret None t \<and> fs_idle t
    \<and> ftable t = (ftable s)[f := (ftable s ! f)\<lparr>foff := off + of_nat (length (concat ps))\<rparr>]
    \<and> file_wf t (the_inode t ip)
    \<and> file_bytes t (the_inode t ip) = take (unat off) (file_bytes s (the_inode s ip)) @ concat ps
        @ drop (unat off + length (concat ps)) (file_bytes s (the_inode s ip))
    \<and> (\<forall>h. file_wf s h \<and> apart s (the_inode s ip) h \<longrightarrow>
        file_wf t h \<and> apart t (the_inode t ip) h \<and> file_bytes t h = file_bytes s h)"
  using assms
proof (induction ps arbitrary: s off)
  case Nil
  have "(ftable s ! f)\<lparr>foff := off\<rparr> = ftable s ! f" using Nil.prems(4) by simp
  then show ?case using Nil.prems by (auto simp: kreturn_def)
next
  case (Cons p ps)
  let ?i = "the_inode s ip" and ?off = "off + of_nat (length p) :: u32"
  have p: "p \<noteq> []" "length p \<le> max_piece" "unat off + length p \<le> MAXFILE * BSIZE"
    "length (chunks (unat off) (length p)) + ind_missing ?i \<le> card (free_blocks s)"
    using Cons.prems(9,10,12) by auto
  obtain t where t: "filewrite_loop devsw f (p # ps) s = filewrite_loop devsw f ps t" "fs_idle t"
      "ftable t = (ftable s)[f := (ftable s ! f)\<lparr>foff := ?off\<rparr>]" "ip_ok t ip" "inode_idle (the_inode t ip)"
      "file_wf t (the_inode t ip)" "bitmap_keys t = bitmap_keys s"
      "file_bytes t (the_inode t ip) = take (unat off) (file_bytes s ?i) @ p @ drop (unat off + length p) (file_bytes s ?i)"
      "\<forall>h. file_wf s h \<and> apart s ?i h \<longrightarrow> file_wf t h \<and> apart t (the_inode t ip) h \<and> file_bytes t h = file_bytes s h"
      "card (free_blocks s) + ind_missing (the_inode t ip) \<le> card (free_blocks t) + ind_missing ?i + length (chunks (unat off) (length p))"
    using piece_law [OF Cons.prems(1-8) p(3,2,1) Cons.prems(11) p(4), of devsw ps] by (elim exE conjE) (rule that)
  have ul: "unat (of_nat (length p) :: u32) = length p" using p(2) by (intro u32_of_nat_small) simp
  have un: "unat ?off = unat off + length p"
    using p(3) ul by (subst unat_add_lem [THEN iffD1]) simp_all
  have le: "unat off \<le> unat (isize ?i)" using Cons.prems(8) by (simp add: word_le_nat_alt)
  have "unat (isize (the_inode t ip)) = length (file_bytes t (the_inode t ip))" by simp
  also have "\<dots> \<ge> unat off + length p" unfolding t(8) using le by simp
  finally have "?off \<le> isize (the_inode t ip)" using un by (simp add: word_le_nat_alt)
  moreover have "ftable t ! f = (ftable s ! f)\<lparr>foff := ?off\<rparr>" "f < length (ftable t)" using t(3) Cons.prems(2) by simp_all
  moreover have "write_blocks (unat ?off) ps + ind_missing (the_inode t ip) \<le> card (free_blocks t)"
    using t(10) Cons.prems(12) un by simp
  ultimately obtain u where u: "filewrite_loop devsw f ps t = Ret None u" "fs_idle u"
      "ftable u = (ftable t)[f := (ftable t ! f)\<lparr>foff := ?off + of_nat (length (concat ps))\<rparr>]" "file_wf u (the_inode u ip)"
      "file_bytes u (the_inode u ip) = take (unat ?off) (file_bytes t (the_inode t ip)) @ concat ps
        @ drop (unat ?off + length (concat ps)) (file_bytes t (the_inode t ip))"
      "\<forall>h. file_wf t h \<and> apart t (the_inode t ip) h \<longrightarrow> file_wf u h \<and> apart u (the_inode u ip) h \<and> file_bytes u h = file_bytes t h"
    using Cons.IH [of t ?off] t(2,4-7) Cons.prems(3,9-11) un by auto
  have "ftable u = (ftable s)[f := (ftable s ! f)\<lparr>foff := off + of_nat (length (concat (p # ps)))\<rparr>]"
    using u(3) t(3) Cons.prems(2) by (simp add: add.assoc)
  moreover have "file_bytes u (the_inode u ip) = take (unat off) (file_bytes s ?i) @ concat (p # ps)
        @ drop (unat off + length (concat (p # ps))) (file_bytes s ?i)"
    using splice_twice [of "unat off" "file_bytes s ?i" p "concat ps"] le unfolding u(5) t(8) un by simp
  moreover have "\<forall>h. file_wf s h \<and> apart s ?i h \<longrightarrow> file_wf u h \<and> apart u (the_inode u ip) h \<and> file_bytes u h = file_bytes s h"
    using t(9) u(6) by auto
  ultimately show ?case using t(1) u(1,2,4) by auto
qed

section \<open>Properties\<close>

text \<open>
  C2: writing through an open file. Between operations, with a bitmap of at most twelve sectors and enough free blocks,
  \<open>filewrite\<close> of any number of bytes to a regular file, up to the largest size of a file, never overfills the log: each of
  its pieces is a transaction that fits. It returns the number of bytes. The bytes are then in the file at the offset
  of the open file, which moved behind them; every other file is as before; and all of it is on the disk itself, in
  the sectors a reader after a crash finds.
\<close>

theorem filewrite_durable:
  fixes s :: "'a filest_scheme"
  assumes "fs_idle s" and "f < length (ftable s)" and "writable (ftable s ! f)" and "ftype (ftable s ! f) = FD_INODE"
    and "fip (ftable s ! f) = ip" and "foff (ftable s ! f) = off" and "ip_ok s ip"
    and "inode_idle (the_inode s ip)" and "file_wf s (the_inode s ip)" and "off \<le> isize (the_inode s ip)" and "0 \<le> n"
    and "unat off + nat n \<le> MAXFILE * BSIZE" and "n \<le> int (length addr)" and "card (bitmap_keys s) \<le> 12"
    and "write_blocks (unat off) (pieces (take (nat n) addr)) + ind_missing (the_inode s ip) \<le> card (free_blocks s)"
  shows "\<exists>t. filewrite devsw SocketWrite success f addr n s = Ret n t \<and> fs_idle t
    \<and> ftable t = (ftable s)[f := (ftable s ! f)\<lparr>foff := off + word_of_int n\<rparr>]
    \<and> file_wf t (the_inode t ip)
    \<and> file_bytes t (the_inode t ip) = take (unat off) (file_bytes s (the_inode s ip)) @ take (nat n) addr
        @ drop (unat off + nat n) (file_bytes s (the_inode s ip))
    \<and> (\<forall>h. file_wf s h \<and> apart s (the_inode s ip) h \<longrightarrow>
        file_wf t h \<and> apart t (the_inode t ip) h \<and> file_bytes t h = file_bytes s h)
    \<and> (\<forall>b<unat (log_start t). disk t (key_loc (log_dev t, of_nat b)) = fview t b)"
proof -
  let ?ps = "pieces (take (nat n) addr)"
  have len: "length (take (nat n) addr) = nat n" using assms(13) by simp
  obtain t where t: "filewrite_loop devsw f ?ps s = Ret None t" "fs_idle t"
      "ftable t = (ftable s)[f := (ftable s ! f)\<lparr>foff := off + of_nat (nat n)\<rparr>]" "file_wf t (the_inode t ip)"
      "file_bytes t (the_inode t ip) = take (unat off) (file_bytes s (the_inode s ip)) @ take (nat n) addr
        @ drop (unat off + nat n) (file_bytes s (the_inode s ip))"
      "\<forall>h. file_wf s h \<and> apart s (the_inode s ip) h \<longrightarrow> file_wf t h \<and> apart t (the_inode t ip) h \<and> file_bytes t h = file_bytes s h"
    using filewrite_loop_law [OF assms(1,2,5-10) _ pieces_spec(2) assms(14,15), of devsw] assms(12) len
    unfolding pieces_spec(1) by auto
  have ok: "fs_ok t" using t(2) by (simp add: fs_idle_def)
  have "disk t (key_loc (log_dev t, of_nat b)) = fview t b" if "b < unat (log_start t)" for b
    using idle_disk [OF t(2) fs_key(1) [OF ok that]] by (simp add: fview_def)
  moreover have "filewrite devsw SocketWrite success f addr n s = Ret n t"
    using t(1) assms(2-4,11,13) by (simp add: filewrite_def kbind_Ret file_at_def kreturn_def)
  moreover have "of_nat (nat n) = (word_of_int n :: u32)" using assms(11) by simp
  ultimately show ?thesis using t(2-6) by (intro exI [of _ t]) simp
qed

text \<open>The empty file of the small disk, opened for writing.\<close>

definition file_demo :: filest where
  "file_demo = fsst.extend (fs_demo\<lparr>outstanding := 0, fs1_icache := (fs1_icache fs_demo)[0 := (fs1_icache fs_demo ! 0)\<lparr>ibusy := False\<rparr>]\<rparr>)
     \<lparr>ftable = [\<lparr>ftype = FD_INODE, fref = 1, readable = False, writable = True, fpipe = 0, fip = (False, 0), foff = 0, soc_type = 0,
       soc_desc = 0\<rparr>]\<rparr>"

lemma file_demo_fields [simp]:
  "log_dev file_demo = 1" "log_start file_demo = 100" "log_size file_demo = 30" "outstanding file_demo = 0" "lh_n file_demo = 0"
  "lh_sector file_demo = lh_sector fs_demo" "disk file_demo = disk fs_demo" "bufs file_demo = bufs fs_demo" "ptable file_demo = ptable fs_demo"
  "idequeue file_demo = idequeue fs_demo" "havedisk1 file_demo = havedisk1 fs_demo" "ide_err file_demo = ide_err fs_demo"
  "fsmap file_demo = fsmap fs_demo" "committing file_demo = committing fs_demo"
  by (simp_all add: file_demo_def fsst.extend_def)

lemma file_demo_ok: "fs_idle file_demo" "fview file_demo = fview fs_demo" "bview file_demo = bview fs_demo"
proof -
  show v: "bview file_demo = bview fs_demo"
    by (rule ext) (simp add: bview_def bcached_def split: option.split)
  show f: "fview file_demo = fview fs_demo" by (simp add: fview_def fun_eq_iff v)
  have "fs_ok file_demo" using fs_demo_ok(2)
    by (simp add: fs_ok_def data_start_def bmap_start_def fs_sb_def block_free_def f)
  moreover have "bio_inv file_demo {}" "busy_keys file_demo = {}" using fs_demo_bio by (simp_all add: bio_inv_def busy_keys_def)
  moreover have "log_ok fs_demo" using fs_demo_ok(1) by (simp add: txn_def)
  then have "log_ok file_demo"
    by (simp add: log_ok_def log_geom_def data_key_def log_region_def home_key_def head_key_def dirty_keys_def)
  moreover have "\<not> committing fs_demo"
    by (simp add: fs_demo_def pipest.extend_def logst.extend_def log_ready_def bio.extend_def)
  moreover have "fs1_dev file_demo" by (simp add: fs1_dev_def)
  ultimately show "fs_idle file_demo" by (simp add: fs_idle_def)
qed

lemma file_demo_file: "ip_ok file_demo (False, 0)" "inode_idle (the_inode file_demo (False, 0))"
  "file_wf file_demo (the_inode file_demo (False, 0))" "file_bytes file_demo (the_inode file_demo (False, 0)) = []"
  "ind_missing (the_inode file_demo (False, 0)) = 1" "card (bitmap_keys file_demo) \<le> 12" "card (free_blocks file_demo) = 94"
proof -
  have i: "the_inode file_demo (False, 0) = (the_inode fs_demo (False, 0))\<lparr>ibusy := False\<rparr>"
    by (simp add: the_inode_def file_demo_def fsst.extend_def)
  have j: "the_inode fs_demo (False, 0) = zero_inode\<lparr>idev := 1, inum := 2, iref := 1, ibusy := True, ivalid := True, itype := T_FILE, nlink := 1\<rparr>"
    by (simp add: the_inode_def)
  note v = view_data [of fs_demo file_demo, OF fs_demo_ok(2), unfolded file_demo_ok(2), simplified]
  show "ip_ok file_demo (False, 0)" by (simp add: ip_ok_def file_demo_def fsst.extend_def)
  show "inode_idle (the_inode file_demo (False, 0))" unfolding i j by (simp add: inode_idle_def zero_inode_def)
  show "file_wf file_demo (the_inode file_demo (False, 0))" using v(6) [OF fs_demo_file(3)] unfolding i file_wf_flags .
  show "file_bytes file_demo (the_inode file_demo (False, 0)) = []" using fs_demo_file(4) unfolding i by (simp add: file_bytes_def)
  show "ind_missing (the_inode file_demo (False, 0)) = 1" unfolding i j by (simp add: ind_missing_def zero_inode_def)
  show "card (bitmap_keys file_demo) \<le> 12" unfolding v(4) by (simp add: bitmap_keys_def fs_demo_sb fs_demo_nums)
  have "free_blocks fs_demo = {6..<100}" using fs_demo_free by (auto simp: free_blocks_def fs_demo_sb)
  then show "card (free_blocks file_demo) = 94" unfolding v(3) by simp
qed

theorem filewrite_durable_witness:
  "\<exists>t. filewrite (\<lambda>_. (None, None)) (\<lambda>_ _ _. kreturn 0) 1 0 [104, 105, 33] 3 file_demo = Ret 3 t
    \<and> file_bytes t (the_inode t (False, 0)) = [104, 105, 33]"
proof -
  have f: "ftable file_demo = [\<lparr>ftype = FD_INODE, fref = 1, readable = False, writable = True, fpipe = 0, fip = (False, 0), foff = 0,
      soc_type = 0, soc_desc = 0\<rparr>]" by (simp add: file_demo_def fsst.extend_def)
  have "write_blocks (unat (0 :: u32)) (pieces (take (nat 3) [104, 105, 33 :: u8])) = 1" by code_simp
  then show ?thesis
    using filewrite_durable [OF file_demo_ok(1), of 0 "(False, 0)" 0 3 "[104, 105, 33]" "\<lambda>_. (None, None)" "\<lambda>_ _ _. kreturn 0" 1]
      file_demo_file f by auto
qed

end
