(* ===== verification/Sysfile.thy ===== *)
theory Sysfile
  imports File
begin

text \<open>
  The system calls on files, \<open>kernel/sysfile.c\<close>.

  A call gets its arguments as \<open>argint\<close>, \<open>argptr\<close> and \<open>argstr\<close> of \<open>kernel/syscall.c\<close> deliver them: \<open>None\<close> when they
  return a negative number, else the value, the bytes behind the pointer, or the string. A call that fills
  a user's buffer returns the bytes; of a call that only checks its buffer the argument is whether \<open>argptr\<close> accepted it.
  The buffer \<open>name\<close> of a call is uninitialised and an argument. \<open>sys_exec\<close> is not here, it hands over to \<open>kernel/exec.c\<close>.
\<close>

unbundle bit_operations_syntax

section \<open>Definitions\<close>

abbreviation (input) dot :: "u8 list" where "dot \<equiv> [46]"
abbreviation (input) dotdot :: "u8 list" where "dotdot \<equiv> [46, 46]"

text \<open>\<open>proc\<close>, where the code uses it.\<close>

definition this_proc :: "('a filest_scheme, nat) kmon" where
  "this_proc s = (case curproc s of None \<Rightarrow> Fault ''proc'' | Some i \<Rightarrow> Ret i s)"

definition set_ofile :: "nat \<Rightarrow> int \<Rightarrow> nat option \<Rightarrow> ('a filest_scheme, unit) kmon" where
  "set_ofile i fd f = kmodify (set_proc i (\<lambda>p. p\<lparr>ofile := (ofile p)[nat fd := f]\<rparr>))"

definition argfd :: "int option \<Rightarrow> ('a filest_scheme, (int \<times> nat) option) kmon" where
  "argfd a = (case a of None \<Rightarrow> kreturn None | Some fd \<Rightarrow> kbind this_proc (\<lambda>i.
     if fd < 0 \<or> fd \<ge> int NOFILE then kreturn None
     else kget (\<lambda>s. map_option (Pair fd) (ofile (ptable s ! i) ! nat fd))))"

definition fdalloc :: "nat \<Rightarrow> ('a filest_scheme, int) kmon" where
  "fdalloc f = kbind this_proc (\<lambda>i. kbind (kget (\<lambda>s. ofile (ptable s ! i))) (\<lambda>fs.
     case find_first (\<lambda>x. x = None) (take NOFILE fs) of
       Some fd \<Rightarrow> kthen (set_ofile i (int fd) (Some f)) (kreturn (int fd))
     | None \<Rightarrow> kreturn (- 1)))"

definition sys_dup :: "int option \<Rightarrow> ('a filest_scheme, int) kmon" where
  "sys_dup a0 = kbind (argfd a0) (\<lambda>r. case r of None \<Rightarrow> kreturn (- 1) | Some (_, f) \<Rightarrow>
     kbind (fdalloc f) (\<lambda>fd. if fd < 0 then kreturn (- 1) else kthen (filedup f) (kreturn fd)))"

definition sys_read :: "'a filest_scheme devtab \<Rightarrow> (struct_file \<Rightarrow> int \<Rightarrow> ('a filest_scheme, int \<times> u8 list) kmon) \<Rightarrow> u8 \<Rightarrow>
    int option \<Rightarrow> bool \<Rightarrow> int option \<Rightarrow> ('a filest_scheme, int \<times> u8 list) kmon" where
  "sys_read devsw SocketRead success a0 p a2 = kbind (argfd a0) (\<lambda>r. case (r, a2) of
       (Some (_, f), Some n) \<Rightarrow> if p then fileread devsw SocketRead success f n else kreturn (- 1, [])
     | _ \<Rightarrow> kreturn (- 1, []))"

definition sys_seek :: "int option \<Rightarrow> int option \<Rightarrow> ('a filest_scheme, int) kmon" where
  "sys_seek a0 a1 = kbind (argfd a0) (\<lambda>r. case (r, a1) of
     (Some (_, f), Some offset) \<Rightarrow> fileseek f offset | _ \<Rightarrow> kreturn (- 666))"

definition sys_write :: "'a filest_scheme devtab \<Rightarrow> (struct_file \<Rightarrow> u8 list \<Rightarrow> int \<Rightarrow> ('a filest_scheme, int) kmon) \<Rightarrow> u8 \<Rightarrow>
    int option \<Rightarrow> u8 list option \<Rightarrow> int option \<Rightarrow> ('a filest_scheme, int) kmon" where
  "sys_write devsw SocketWrite success a0 p a2 = kbind (argfd a0) (\<lambda>r. case (r, a2, p) of
       (Some (_, f), Some n, Some addr) \<Rightarrow> filewrite devsw SocketWrite success f addr n
     | _ \<Rightarrow> kreturn (- 1))"

definition sys_close :: "(struct_file \<Rightarrow> ('a filest_scheme, unit) kmon) \<Rightarrow> int option \<Rightarrow> ('a filest_scheme, int) kmon" where
  "sys_close DestorySocket a0 = kbind (argfd a0) (\<lambda>r. case r of None \<Rightarrow> kreturn (- 1) | Some (fd, f) \<Rightarrow>
     kbind this_proc (\<lambda>i. kthen (set_ofile i fd None) (kthen (fileclose DestorySocket f) (kreturn 0))))"

definition sys_fstat :: "int option \<Rightarrow> bool \<Rightarrow> ('a filest_scheme, int \<times> stat option) kmon" where
  "sys_fstat a0 p = kbind (argfd a0) (\<lambda>r. case r of
     Some (_, f) \<Rightarrow> if p then filestat f else kreturn (- 1, None) | None \<Rightarrow> kreturn (- 1, None))"

text \<open>\<open>sys_link\<close> behind the label \<open>bad\<close>, and the whole.\<close>

definition sys_link_bad :: "iptr \<Rightarrow> ('a filest_scheme, int) kmon" where
  "sys_link_bad ip = kthen (ilock (Some ip)) (kthen (set_inode ip (\<lambda>i. i\<lparr>nlink := nlink i - 1\<rparr>))
     (kthen (iupdate ip) (kthen (iunlockput ip) (kthen end_op (kreturn (- 1))))))"

definition sys_link :: "'a filest_scheme devtab \<Rightarrow> u8 list \<Rightarrow> u8 list option \<Rightarrow> u8 list option \<Rightarrow> ('a filest_scheme, int) kmon" where
  "sys_link devsw name a0 a1 = (case (a0, a1) of
     (Some old, Some new) \<Rightarrow> kthen begin_op (kbind (namei devsw old name) (\<lambda>r. case r of
         None \<Rightarrow> kthen end_op (kreturn (- 1))
       | Some ip \<Rightarrow> kthen (ilock (Some ip)) (kbind (inode_at ip) (\<lambda>i.
           if itype i = T_DIR then kthen (iunlockput ip) (kthen end_op (kreturn (- 1)))
           else kthen (set_inode ip (\<lambda>i. i\<lparr>nlink := nlink i + 1\<rparr>))
             (kthen (iupdate ip) (kthen (iunlock (Some ip))
             (kbind (nameiparent devsw new name) (\<lambda>r. case r of
                None \<Rightarrow> sys_link_bad ip
              | Some (dp, nm) \<Rightarrow> kthen (ilock (Some dp)) (kbind (inode_at dp) (\<lambda>d. kbind (inode_at ip) (\<lambda>i.
                  kbind (if idev d \<noteq> idev i then kreturn (- 1) else dirlink devsw dp nm (inum i)) (\<lambda>l.
                    if l < 0 then kthen (iunlockput dp) (sys_link_bad ip)
                    else kthen (iunlockput dp) (kthen (iput ip) (kthen end_op (kreturn 0)))))))))))))))
   | _ \<Rightarrow> kreturn (- 1))"

fun isdirempty_loop :: "'a filest_scheme devtab \<Rightarrow> iptr \<Rightarrow> nat list \<Rightarrow> ('a filest_scheme, bool) kmon" where
  "isdirempty_loop devsw dp [] = kreturn True"
| "isdirempty_loop devsw dp (off # offs) = kbind (readi devsw dp (of_nat off) 16) (\<lambda>(r, de).
     if r \<noteq> 16 then kpanic ''isdirempty: readi''
     else if get16 0 de \<noteq> 0 then kreturn False else isdirempty_loop devsw dp offs)"

definition isdirempty :: "'a filest_scheme devtab \<Rightarrow> iptr \<Rightarrow> ('a filest_scheme, bool) kmon" where
  "isdirempty devsw dp = kbind (inode_at dp) (\<lambda>i. isdirempty_loop devsw dp (drop 2 (dir_offs i)))"

definition sys_unlink :: "'a filest_scheme devtab \<Rightarrow> u8 list \<Rightarrow> u8 list option \<Rightarrow> ('a filest_scheme, int) kmon" where
  "sys_unlink devsw name a0 = (case a0 of None \<Rightarrow> kreturn (- 1) | Some path \<Rightarrow>
     kthen begin_op (kbind (nameiparent devsw path name) (\<lambda>r. case r of
       None \<Rightarrow> kthen end_op (kreturn (- 1))
     | Some (dp, nm) \<Rightarrow> let bad = kthen (iunlockput dp) (kthen end_op (kreturn (- 1))) in
        kthen (ilock (Some dp))
        (if namecmp nm dot = 0 \<or> namecmp nm dotdot = 0 then bad
         else kbind (dirlookup devsw dp nm) (\<lambda>l. case l of
           None \<Rightarrow> bad
         | Some (ip, off) \<Rightarrow> kthen (ilock (Some ip)) (kbind (inode_at ip) (\<lambda>i.
             if sint (nlink i) < 1 then kpanic ''unlink: nlink < 1''
             else kbind (if itype i = T_DIR then isdirempty devsw ip else kreturn True) (\<lambda>empty.
               if \<not> empty then kthen (iunlockput ip) bad
               else kbind (writei devsw dp (replicate 16 0) off 16) (\<lambda>r.
                 if r \<noteq> 16 then kpanic ''unlink: writei''
                 else kthen (if itype i = T_DIR
                     then kthen (set_inode dp (\<lambda>d. d\<lparr>nlink := nlink d - 1\<rparr>)) (iupdate dp) else kreturn ())
                   (kthen (iunlockput dp)
                   (kthen (set_inode ip (\<lambda>i. i\<lparr>nlink := nlink i - 1\<rparr>))
                   (kthen (iupdate ip) (kthen (iunlockput ip)
                   (kthen end_op (kreturn 0)))))))))))))))"

definition create :: "'a filest_scheme devtab \<Rightarrow> u8 list \<Rightarrow> u8 list \<Rightarrow> u16 \<Rightarrow> u16 \<Rightarrow> u16 \<Rightarrow> ('a filest_scheme, iptr option) kmon" where
  "create devsw name path t major minor = kbind (nameiparent devsw path name) (\<lambda>r. case r of
     None \<Rightarrow> kreturn None
   | Some (dp, nm) \<Rightarrow> kthen (ilock (Some dp)) (kbind (dirlookup devsw dp nm) (\<lambda>l. case l of
       Some (ip, _) \<Rightarrow> kthen (iunlockput dp) (kthen (ilock (Some ip)) (kbind (inode_at ip) (\<lambda>i.
         if t = T_FILE \<and> itype i = T_FILE then kreturn (Some ip)
         else kthen (iunlockput ip) (kreturn None))))
     | None \<Rightarrow> kbind (inode_at dp) (\<lambda>d. kbind (ialloc (idev d) t) (\<lambda>ip.
         kthen (ilock (Some ip))
         (kthen (set_inode ip (\<lambda>i. i\<lparr>imajor := major, iminor := minor, nlink := 1\<rparr>))
         (kthen (iupdate ip)
         (kbind (inode_at ip) (\<lambda>i.
         kthen (if t = T_DIR then
             kthen (set_inode dp (\<lambda>d. d\<lparr>nlink := nlink d + 1\<rparr>)) (kthen (iupdate dp)
             (kbind (dirlink devsw ip dot (inum i)) (\<lambda>l1. if l1 < 0 then kpanic ''create dots''
               else kbind (dirlink devsw ip dotdot (inum d)) (\<lambda>l2.
                 if l2 < 0 then kpanic ''create dots'' else kreturn ()))))
           else kreturn ())
         (kbind (dirlink devsw dp nm (inum i)) (\<lambda>l.
           if l < 0 then kpanic ''create: dirlink''
           else kthen (iunlockput dp) (kreturn (Some ip)))))))))))))"

text \<open>The first part of \<open>sys_open\<close>: the locked inode, or \<open>None\<close> when the call fails.\<close>

definition open_inode :: "'a filest_scheme devtab \<Rightarrow> u8 list \<Rightarrow> u8 list \<Rightarrow> u32 \<Rightarrow> ('a filest_scheme, iptr option) kmon" where
  "open_inode devsw name path omode =
     (if omode AND O_CREATE \<noteq> 0 then create devsw name path T_FILE 0 0
      else kbind (namei devsw path name) (\<lambda>r. case r of
        None \<Rightarrow> kreturn None
      | Some ip \<Rightarrow> kthen (ilock (Some ip)) (kbind (inode_at ip) (\<lambda>i.
          if itype i = T_DIR \<and> omode \<noteq> O_RDONLY then kthen (iunlockput ip) (kreturn None)
          else kreturn (Some ip)))))"

definition open_file :: "iptr \<Rightarrow> u32 \<Rightarrow> struct_file \<Rightarrow> struct_file" where
  "open_file ip omode f = f\<lparr>ftype := FD_INODE, fip := ip, foff := 0, readable := omode AND O_WRONLY = 0,
     writable := omode AND O_WRONLY \<noteq> 0 \<or> omode AND O_RDWR \<noteq> 0\<rparr>"

definition sys_open :: "'a filest_scheme devtab \<Rightarrow> (struct_file \<Rightarrow> ('a filest_scheme, unit) kmon) \<Rightarrow> u8 list \<Rightarrow>
    u8 list option \<Rightarrow> u32 option \<Rightarrow> ('a filest_scheme, int) kmon" where
  "sys_open devsw DestorySocket name a0 a1 = (case (a0, a1) of
     (Some path, Some omode) \<Rightarrow> kthen begin_op (kbind (open_inode devsw name path omode) (\<lambda>r. case r of
         None \<Rightarrow> kthen end_op (kreturn (- 1))
       | Some ip \<Rightarrow> kbind filealloc (\<lambda>f. case f of
           None \<Rightarrow> kthen (iunlockput ip) (kthen end_op (kreturn (- 1)))
         | Some f \<Rightarrow> kbind (fdalloc f) (\<lambda>fd.
             if fd < 0 then kthen (fileclose DestorySocket f) (kthen (iunlockput ip) (kthen end_op (kreturn (- 1))))
             else kthen (iunlock (Some ip)) (kthen end_op
               (kthen (set_file f (open_file ip omode)) (kreturn fd)))))))
   | _ \<Rightarrow> kreturn (- 1))"

text \<open>The common shape of \<open>sys_mkdir\<close>, \<open>sys_mknod\<close> and \<open>sys_mkvdev\<close> behind the check of the arguments.\<close>

definition create_and_close :: "'a filest_scheme devtab \<Rightarrow> u8 list \<Rightarrow> (u8 list \<times> u16 \<times> u16 \<times> u16) option \<Rightarrow>
    ('a filest_scheme, int) kmon" where
  "create_and_close devsw name a = kthen begin_op (kbind (case a of None \<Rightarrow> kreturn None
       | Some (path, t, major, minor) \<Rightarrow> create devsw name path t major minor) (\<lambda>r. case r of
     None \<Rightarrow> kthen end_op (kreturn (- 1))
   | Some ip \<Rightarrow> kthen (iunlockput ip) (kthen end_op (kreturn 0))))"

definition sys_mkdir :: "'a filest_scheme devtab \<Rightarrow> u8 list \<Rightarrow> u8 list option \<Rightarrow> ('a filest_scheme, int) kmon" where
  "sys_mkdir devsw name a0 = create_and_close devsw name (map_option (\<lambda>path. (path, T_DIR, 0, 0)) a0)"

definition sys_mknod :: "'a filest_scheme devtab \<Rightarrow> u8 list \<Rightarrow> u8 list option \<Rightarrow> int option \<Rightarrow> int option \<Rightarrow>
    ('a filest_scheme, int) kmon" where
  "sys_mknod devsw name a0 a1 a2 = create_and_close devsw name (case (a0, a1, a2) of
     (Some path, Some major, Some minor) \<Rightarrow> Some (path, T_DEV, word_of_int major, word_of_int minor) | _ \<Rightarrow> None)"

definition sys_mkvdev :: "'a filest_scheme devtab \<Rightarrow> u8 list \<Rightarrow> u8 list option \<Rightarrow> ('a filest_scheme, int) kmon" where
  "sys_mkvdev devsw name a0 = kbind this_proc (\<lambda>k. kbind (kget (\<lambda>s. ptable s ! k)) (\<lambda>p.
     if blessed p \<noteq> PROC_BLESSED then kreturn (- 1)
     else create_and_close devsw name (map_option (\<lambda>path. (path, T_DEV, LOOP0, word_of_int (pid p))) a0)))"

definition sys_chdir :: "'a filest_scheme devtab \<Rightarrow> u8 list \<Rightarrow> u8 list option \<Rightarrow> ('a filest_scheme, int) kmon" where
  "sys_chdir devsw name a0 = kthen begin_op (kbind (case a0 of None \<Rightarrow> kreturn None | Some path \<Rightarrow> namei devsw path name) (\<lambda>r.
     case r of None \<Rightarrow> kthen end_op (kreturn (- 1))
     | Some ip \<Rightarrow> kthen (ilock (Some ip)) (kbind (inode_at ip) (\<lambda>i.
         if itype i \<noteq> T_DIR then kthen (iunlockput ip) (kthen end_op (kreturn (- 1)))
         else kthen (iunlock (Some ip)) (kbind this_proc (\<lambda>k. kbind (kget (\<lambda>s. cwd (ptable s ! k))) (\<lambda>d.
           kthen (case d of None \<Rightarrow> kfault ''iput'' | Some dp \<Rightarrow> iput dp)
           (kthen end_op
           (kthen (kmodify (set_proc k (\<lambda>p. p\<lparr>cwd := Some ip\<rparr>))) (kreturn 0))))))))))"

definition sys_pipe :: "(struct_file \<Rightarrow> ('a filest_scheme, unit) kmon) \<Rightarrow> bool \<Rightarrow> ('a filest_scheme, int \<times> int list) kmon" where
  "sys_pipe DestorySocket p = (if \<not> p then kreturn (- 1, []) else kbind (pipealloc DestorySocket) (\<lambda>(r, f0, f1).
     case (f0, f1) of
       (Some rfl, Some wfl) \<Rightarrow> if r < 0 then kreturn (- 1, []) else kbind (fdalloc rfl) (\<lambda>fd0.
         let bad = kthen (fileclose DestorySocket rfl) (kthen (fileclose DestorySocket wfl) (kreturn (- 1, []))) in
         if fd0 < 0 then bad
         else kbind (fdalloc wfl) (\<lambda>fd1.
           if fd1 < 0 then kbind this_proc (\<lambda>i. kthen (set_ofile i fd0 None) bad)
           else kreturn (0, [fd0, fd1])))
     | _ \<Rightarrow> kreturn (- 1, [])))"

end
