(* ===== verification/Net_Frame.thy ===== *)
theory Net_Frame
  imports Xv_Prelude
begin

text \<open>
  Ethernet frames, \<open>kernel/UEtherFrame.cc\<close> and \<open>include/UEtherFrame.hh\<close>.

  A frame is the array \<open>Data\<close> of \<open>MaxFrameSize\<close> bytes and the count \<open>FrameSize\<close> of the bytes in use.
  The payload starts behind the fourteen bytes of the header, and the offsets of all accessors count from
  there. \<open>frame_ok\<close> says that the array has its size: a store outside the array breaks it, so the lemmas that
  it is kept are also lemmas about bounds. \<open>GetDataAs\<close> and \<open>SetDataFrom\<close> are templates; their instances for
  one, two and four bytes are \<open>GetDataAs8\<close> and so on. With \<open>Reverse\<close>, the default, they convert between the
  byte order of the network and that of the processor.

  The constructor leaves the header bytes as it finds them; they are an argument of \<open>EthernetFrame_new\<close>.
  The two operations that shift data take a scratch page from \<open>kalloc\<close>; an access through a null page or
  outside the array is the value \<open>None\<close>.
\<close>

unbundle bit_operations_syntax

section \<open>Definitions\<close>

abbreviation (input) HeaderSize :: nat where "HeaderSize \<equiv> 14"
abbreviation (input) MinDataSize :: nat where "MinDataSize \<equiv> 46"
abbreviation (input) MinFrameSize :: nat where "MinFrameSize \<equiv> 64"
abbreviation (input) MaxFrameSize :: nat where "MaxFrameSize \<equiv> 1518"
abbreviation (input) Destination :: nat where "Destination \<equiv> 0"
abbreviation (input) Source :: nat where "Source \<equiv> 6"
abbreviation (input) EType :: nat where "EType \<equiv> 12"
abbreviation (input) Payload :: nat where "Payload \<equiv> 14"

type_synonym mac = "u8 list"

record frame =
  fdata :: "u8 list"
  FrameSize :: nat

definition BroadcastAddr :: mac where
  "BroadcastAddr = [0xFF, 0xFF, 0xFF, 0xFF, 0xFF, 0xFF]"

definition ClearData :: "frame \<Rightarrow> frame" where
  "ClearData f = f\<lparr>fdata := splice Payload (replicate (MaxFrameSize - Payload) 0) (fdata f)\<rparr>"

definition EthernetFrame_new :: "u8 list \<Rightarrow> frame" where
  "EthernetFrame_new junk =
     (ClearData \<lparr>fdata = junk, FrameSize = MinFrameSize\<rparr>)\<lparr>FrameSize := MinDataSize\<rparr>"

definition EthernetFrame_of :: "u8 list \<Rightarrow> u8 list \<Rightarrow> nat \<Rightarrow> frame option" where
  "EthernetFrame_of junk src n =
     (if n \<le> MaxFrameSize \<and> n \<le> length src
      then Some \<lparr>fdata = splice 0 (take n src) junk, FrameSize = (if n \<ge> MinFrameSize then n else MinFrameSize)\<rparr>
      else None)"

definition DataSize :: "frame \<Rightarrow> nat" where
  "DataSize f = FrameSize f - HeaderSize"

definition CopyTo :: "frame \<Rightarrow> frame \<Rightarrow> frame" where
  "CopyTo f dst = \<lparr>fdata = splice 0 (take (FrameSize f) (fdata f)) (fdata dst), FrameSize = FrameSize f\<rparr>"

definition SetDestination :: "mac \<Rightarrow> frame \<Rightarrow> frame" where
  "SetDestination a f = f\<lparr>fdata := splice Destination (take 6 a) (fdata f)\<rparr>"

definition SetSource :: "mac \<Rightarrow> frame \<Rightarrow> frame" where
  "SetSource a f = f\<lparr>fdata := splice Source (take 6 a) (fdata f)\<rparr>"

definition SetEtherType :: "u16 \<Rightarrow> frame \<Rightarrow> frame" where
  "SetEtherType t f = f\<lparr>fdata := (fdata f)[EType := bytes16 t ! 1, EType + 1 := bytes16 t ! 0]\<rparr>"

definition SetData :: "u8 list \<Rightarrow> nat \<Rightarrow> frame \<Rightarrow> frame" where
  "SetData src start f =
     (let NewSize = HeaderSize + start + length src;
          n = (if NewSize > FrameSize f then NewSize else FrameSize f)
      in f\<lparr>FrameSize := (if n < MinFrameSize then MinFrameSize else n),
           fdata := splice (Payload + start) src (fdata f)\<rparr>)"

definition GetData :: "nat \<Rightarrow> nat \<Rightarrow> bool \<Rightarrow> frame \<Rightarrow> u8 list" where
  "GetData start n reverse f =
     map (\<lambda>i. fdata f ! (if reverse then Payload + start + n - i - 1 else Payload + start + i)) [0..<n]"

text \<open>The bytes \<open>start\<close> up to \<open>start + n\<close> of the payload lie in the array.\<close>

definition in_frame :: "nat \<Rightarrow> nat \<Rightarrow> bool" where
  "in_frame start n \<longleftrightarrow> Payload + start + n \<le> MaxFrameSize"

definition InsertData :: "bool \<Rightarrow> u8 list \<Rightarrow> nat \<Rightarrow> frame \<Rightarrow> frame option" where
  "InsertData page src start f =
     (let n = FrameSize f - start in
      if page \<and> in_frame start n \<and> in_frame (start + length src) n
      then Some (SetData src start (SetData (GetData start n False f) (start + length src) f))
      else None)"

definition EraseData :: "bool \<Rightarrow> nat \<Rightarrow> nat \<Rightarrow> frame \<Rightarrow> frame option" where
  "EraseData page start n f =
     (let shrink = (\<lambda>g. g\<lparr>FrameSize := (if FrameSize g - n < MinFrameSize then MinFrameSize else FrameSize g - n)\<rparr>) in
      if start + n = FrameSize f then
        if n \<le> MaxFrameSize
        then Some (shrink (f\<lparr>fdata := splice start (replicate (n - start) 0) (fdata f)\<rparr>))
        else None
      else
        let m = nat (int (FrameSize f) - int start + int n) in
        if page \<and> in_frame (start + n) m \<and> in_frame start m then
          let g = SetData (GetData (start + n) m False f) start f in
          if FrameSize g \<le> MaxFrameSize
          then Some (shrink (g\<lparr>fdata := splice (start + n) (replicate (FrameSize g - (start + n)) 0) (fdata g)\<rparr>))
          else None
        else None)"

definition Resize :: "bool \<Rightarrow> nat \<Rightarrow> frame \<Rightarrow> frame option" where
  "Resize page n f =
     (if FrameSize f < n then Some (f\<lparr>FrameSize := n\<rparr>) else EraseData page n (FrameSize f - n) f)"

definition GetDestination :: "frame \<Rightarrow> mac" where
  "GetDestination f = map (\<lambda>i. fdata f ! (Destination + i)) [0..<6]"

definition GetSource :: "frame \<Rightarrow> mac" where
  "GetSource f = map (\<lambda>i. fdata f ! (Source + i)) [0..<6]"

definition GetEtherType :: "frame \<Rightarrow> u16" where
  "GetEtherType f = word16 [fdata f ! (EType + 1), fdata f ! EType]"

definition GetDataAs8 :: "nat \<Rightarrow> frame \<Rightarrow> u8" where
  "GetDataAs8 start f = GetData start 1 True f ! 0"

definition GetDataAs16 :: "nat \<Rightarrow> bool \<Rightarrow> frame \<Rightarrow> u16" where
  "GetDataAs16 start reverse f = word16 (GetData start 2 reverse f)"

definition GetDataAs32 :: "nat \<Rightarrow> bool \<Rightarrow> frame \<Rightarrow> u32" where
  "GetDataAs32 start reverse f = word32 (GetData start 4 reverse f)"

text \<open>The loop of \<open>SetDataFrom\<close> that swaps the outer bytes, then the next ones.\<close>

definition swap_bytes :: "u8 list \<Rightarrow> u8 list" where
  "swap_bytes bs = foldl (\<lambda>b i. b[i := b ! (length bs - 1 - i), length bs - 1 - i := b ! i]) bs [0..<length bs div 2]"

definition SetDataFrom8 :: "u8 \<Rightarrow> nat \<Rightarrow> frame \<Rightarrow> frame" where
  "SetDataFrom8 v start f = SetData (swap_bytes [v]) start f"

definition SetDataFrom16 :: "u16 \<Rightarrow> nat \<Rightarrow> bool \<Rightarrow> frame \<Rightarrow> frame" where
  "SetDataFrom16 v start reverse f =
     SetData (if reverse then swap_bytes (bytes16 v) else bytes16 v) start f"

definition SetDataFrom32 :: "u32 \<Rightarrow> nat \<Rightarrow> bool \<Rightarrow> frame \<Rightarrow> frame" where
  "SetDataFrom32 v start reverse f =
     SetData (if reverse then swap_bytes (bytes32 v) else bytes32 v) start f"

definition IsBroadcast :: "frame \<Rightarrow> bool" where
  "IsBroadcast f \<longleftrightarrow> GetDestination f = BroadcastAddr"

definition Broadcast :: "frame \<Rightarrow> frame" where
  "Broadcast f = SetDestination BroadcastAddr f"

text \<open>\<open>FrameFilter\<close>: frames for everybody and frames for the adapter with the given address.\<close>

definition FrameFilter :: "mac \<Rightarrow> frame \<Rightarrow> bool" where
  "FrameFilter a f \<longleftrightarrow> IsBroadcast f \<or> a = GetDestination f"

section \<open>Lemmas\<close>

definition frame_ok :: "frame \<Rightarrow> bool" where
  "frame_ok f \<longleftrightarrow> length (fdata f) = MaxFrameSize \<and> FrameSize f \<le> MaxFrameSize"

lemma frame_okD: "frame_ok f \<Longrightarrow> length (fdata f) = MaxFrameSize" "frame_ok f \<Longrightarrow> FrameSize f \<le> MaxFrameSize"
  by (simp_all add: frame_ok_def)

lemma swap_bytes16 [simp]: "swap_bytes (bytes16 v) = rev (bytes16 v)"
  by (simp add: swap_bytes_def bytes16_def)

lemma swap_bytes32 [simp]: "swap_bytes (bytes32 v) = rev (bytes32 v)"
proof -
  have "[0..<2] = [0, 1 :: nat]" by code_simp
  then show ?thesis by (simp add: swap_bytes_def bytes32_def)
qed

lemma swap_bytes8 [simp]: "swap_bytes [v] = [v]"
  by (simp add: swap_bytes_def)

lemma GetData_slice:
  assumes "frame_ok f" and "in_frame start n"
  shows "GetData start n r f = (if r then rev (slice (14 + start) n (fdata f)) else slice (14 + start) n (fdata f))"
  using assms by (intro nth_equalityI) (auto simp: GetData_def frame_ok_def in_frame_def nth_slice rev_nth)

lemma SetData_fdata: "fdata (SetData src start f) = splice (14 + start) src (fdata f)"
  by (simp add: SetData_def Let_def)

lemma SetData_size: "FrameSize (SetData src start f) = max MinFrameSize (max (FrameSize f) (14 + start + length src))"
  by (simp add: SetData_def Let_def)

lemma SetData_ok [intro]: "frame_ok f \<Longrightarrow> in_frame start (length src) \<Longrightarrow> frame_ok (SetData src start f)"
  by (simp add: frame_ok_def in_frame_def SetData_fdata SetData_size)


text \<open>Reading back what was written, and reading elsewhere.\<close>

lemma Get_SetData:
  assumes "frame_ok f" and "in_frame start (length src)"
  shows "GetData start (length src) False (SetData src start f) = src"
  using GetData_slice [OF SetData_ok [OF assms] assms(2)] assms
  by (simp add: SetData_fdata frame_ok_def in_frame_def)

lemma Get_SetData_rev:
  assumes "frame_ok f" and "in_frame start (length src)"
  shows "GetData start (length src) True (SetData src start f) = rev src"
  using GetData_slice [OF SetData_ok [OF assms] assms(2), of True] assms
  by (simp add: SetData_fdata frame_ok_def in_frame_def)

lemma Get_SetData_other:
  assumes "frame_ok f" and "in_frame start (length src)" and "in_frame o2 n"
    and "o2 + n \<le> start \<or> start + length src \<le> o2"
  shows "GetData o2 n r (SetData src start f) = GetData o2 n r f"
  using GetData_slice [OF SetData_ok [OF assms(1,2)] assms(3)] GetData_slice [OF assms(1,3)] assms
  by (simp add: SetData_fdata frame_ok_def in_frame_def slice_splice_other)

text \<open>The header and the payload do not overlap.\<close>

lemma SetEtherType_ok [intro]: "frame_ok f \<Longrightarrow> frame_ok (SetEtherType t f)"
  by (simp add: frame_ok_def SetEtherType_def)

lemma SetDestination_ok [intro]: "frame_ok f \<Longrightarrow> length a = 6 \<Longrightarrow> frame_ok (SetDestination a f)"
  by (simp add: frame_ok_def SetDestination_def)

lemma SetSource_ok [intro]: "frame_ok f \<Longrightarrow> length a = 6 \<Longrightarrow> frame_ok (SetSource a f)"
  by (simp add: frame_ok_def SetSource_def)

lemma EthernetFrame_new_ok [intro]: "length junk = MaxFrameSize \<Longrightarrow> frame_ok (EthernetFrame_new junk)"
  by (simp add: frame_ok_def EthernetFrame_new_def ClearData_def)

lemma EthernetFrame_of_ok:
  "EthernetFrame_of junk src n = Some f \<Longrightarrow> length junk = MaxFrameSize \<Longrightarrow> frame_ok f"
  by (auto simp: frame_ok_def EthernetFrame_of_def split: if_splits)

lemma header_fields:
  assumes "frame_ok f"
  shows "GetEtherType (SetEtherType t f) = t" and "length a = 6 \<Longrightarrow> GetDestination (SetDestination a f) = a"
    and "length a = 6 \<Longrightarrow> GetSource (SetSource a f) = a"
    and "GetDestination (SetEtherType t f) = GetDestination f" and "GetSource (SetEtherType t f) = GetSource f"
    and "length a = 6 \<Longrightarrow> GetEtherType (SetDestination a f) = GetEtherType f"
    and "length a = 6 \<Longrightarrow> GetSource (SetDestination a f) = GetSource f"
    and "length a = 6 \<Longrightarrow> GetEtherType (SetSource a f) = GetEtherType f"
    and "length a = 6 \<Longrightarrow> GetDestination (SetSource a f) = GetDestination f"
proof -
  have len: "length (fdata f) = 1518" using assms by (simp add: frame_ok_def)
  have "word16 [bytes16 t ! 0, bytes16 t ! Suc 0] = t"
    using word16_bytes16 [of t] by (simp add: bytes16_def)
  then show "GetEtherType (SetEtherType t f) = t"
    using len by (simp add: GetEtherType_def SetEtherType_def)
  show "GetDestination (SetEtherType t f) = GetDestination f" "GetSource (SetEtherType t f) = GetSource f"
    using len by (simp_all add: GetDestination_def GetSource_def SetEtherType_def)
  show "GetDestination (SetDestination a f) = a" "GetEtherType (SetDestination a f) = GetEtherType f"
      "GetSource (SetDestination a f) = GetSource f" if "length a = 6"
    using len that by (auto simp: GetDestination_def GetEtherType_def GetSource_def SetDestination_def nth_splice
      intro!: nth_equalityI)
  show "GetSource (SetSource a f) = a" "GetEtherType (SetSource a f) = GetEtherType f"
      "GetDestination (SetSource a f) = GetDestination f" if "length a = 6"
    using len that by (auto simp: GetDestination_def GetEtherType_def GetSource_def SetSource_def nth_splice
      intro!: nth_equalityI)
qed

lemma data_header:
  assumes "frame_ok f" and "in_frame start n"
  shows "GetData start n r (SetEtherType t f) = GetData start n r f"
    and "length a = 6 \<Longrightarrow> GetData start n r (SetDestination a f) = GetData start n r f"
    and "length a = 6 \<Longrightarrow> GetData start n r (SetSource a f) = GetData start n r f"
  using assms by (auto simp: GetData_def SetEtherType_def SetDestination_def SetSource_def nth_splice frame_ok_def in_frame_def)

lemma header_data:
  assumes "frame_ok f" and "in_frame start (length src)"
  shows "GetEtherType (SetData src start f) = GetEtherType f"
    and "GetDestination (SetData src start f) = GetDestination f" and "GetSource (SetData src start f) = GetSource f"
  using assms by (simp_all add: GetEtherType_def GetDestination_def GetSource_def SetData_fdata nth_splice frame_ok_def in_frame_def)

end
