(* ===== verification/Net_List.thy ===== *)
theory Net_List
  imports Xv_Prelude "HOL-Library.Multiset"
begin

text \<open>
  The fixed-size array list and the algorithms of \<open>include/UArrayList.tcc\<close>.

  An \<open>ArrayList<Tp, MaxNm>\<close> is the list of its \<open>CurrentSize\<close> live elements. The array behind it has \<open>MaxNm\<close>
  elements; those past the live ones have the value \<open>value_type()\<close>. An iterator is an index. \<open>elem_at\<close> reads
  through an iterator: past the live elements it gives the default value, outside the array \<open>None\<close>.
  \<open>push_back\<close> on a full list stores outside the array and is \<open>None\<close>.

  \<open>qsort\<close> calls itself on the two parts of its range. Whether it comes to an end is a property of \<open>partition\<close>,
  so it is a \<open>partial_function\<close> whose value is \<open>None\<close> where it does not.
\<close>

section \<open>Definitions\<close>

definition push_back :: "nat \<Rightarrow> 'a \<Rightarrow> 'a list \<Rightarrow> 'a list option" where
  "push_back MaxNm x xs = (if length xs < MaxNm then Some (xs @ [x]) else None)"

definition erase :: "nat \<Rightarrow> 'a list \<Rightarrow> 'a list" where
  "erase i xs = take i xs @ drop (Suc i) xs"

definition elem_at :: "nat \<Rightarrow> 'a \<Rightarrow> 'a list \<Rightarrow> nat \<Rightarrow> 'a option" where
  "elem_at MaxNm dflt xs i = (if i < length xs then Some (xs ! i) else if i < MaxNm then Some dflt else None)"

text \<open>\<open>find_if(First, Last, Pr)\<close>: the test for the end is \<open>First != Last\<close>, so a first iterator behind the last one
  runs on.\<close>

function find_if :: "(nat \<Rightarrow> 'a option) \<Rightarrow> nat \<Rightarrow> nat \<Rightarrow> nat \<Rightarrow> ('a \<Rightarrow> bool) \<Rightarrow> nat option" where
  "find_if el MaxNm i lst P =
     (if i = lst then Some i
      else if i \<ge> MaxNm then None
      else case el i of
        None \<Rightarrow> None
      | Some x \<Rightarrow> if P x then Some i else find_if el MaxNm (Suc i) lst P)"
  by pat_completeness auto
termination by (relation "measure (\<lambda>(el, m, i, lst, P). m - i)") auto

declare find_if.simps [simp del]

text \<open>\<open>find_if\<close> over a whole list, as the table look-ups use it.\<close>

definition list_find :: "('a \<Rightarrow> bool) \<Rightarrow> 'a list \<Rightarrow> nat" where
  "list_find P xs = length (takeWhile (\<lambda>x. \<not> P x) xs)"

definition find_if_not :: "('a \<Rightarrow> bool) \<Rightarrow> 'a list \<Rightarrow> nat" where
  "find_if_not P xs = length (takeWhile P xs)"

definition swap_at :: "nat \<Rightarrow> nat \<Rightarrow> 'a list \<Rightarrow> 'a list" where
  "swap_at i j xs = xs[i := xs ! j, j := xs ! i]"

function partition_loop :: "('a \<Rightarrow> bool) \<Rightarrow> nat \<Rightarrow> nat \<Rightarrow> 'a list \<Rightarrow> 'a list \<times> nat" where
  "partition_loop P first i xs =
     (if i \<ge> length xs then (xs, first)
      else if P (xs ! i) then partition_loop P (Suc first) (Suc i) (swap_at i first xs)
      else partition_loop P first (Suc i) xs)"
  by pat_completeness auto
termination by (relation "measure (\<lambda>(P, first, i, xs). length xs - i)") (auto simp: swap_at_def)

declare partition_loop.simps [simp del]

text \<open>\<open>partition\<close> on a range, with the iterator it returns as an index into the range.\<close>

definition partition_range :: "('a \<Rightarrow> bool) \<Rightarrow> 'a list \<Rightarrow> 'a list \<times> nat" where
  "partition_range P xs =
     (let first = find_if_not P xs in
      if first = length xs then (xs, first)
      else partition_loop P (Suc first) (Suc first) xs)"

partial_function (option) qsort :: "('a \<Rightarrow> 'a \<Rightarrow> bool) \<Rightarrow> 'a list \<Rightarrow> 'a list option" where
  "qsort Pr xs =
     (if xs = [] then Some []
      else let pivot = xs ! (length xs div 2);
               p1 = partition_range (\<lambda>e. Pr e pivot) xs;
               p2 = partition_range (\<lambda>e. \<not> Pr pivot e) (drop (snd p1) (fst p1))
           in Option.bind (qsort Pr (take (snd p1) (fst p1))) (\<lambda>a.
              Option.bind (qsort Pr (drop (snd p2) (fst p2))) (\<lambda>b.
              Some (a @ take (snd p2) (fst p2) @ b))))"

section \<open>Lemmas\<close>

lemma list_find_bound: "list_find P xs \<le> length xs"
  by (simp add: list_find_def length_takeWhile_le)

lemma list_find_nth: "list_find P xs < length xs \<Longrightarrow> P (xs ! list_find P xs)"
  using nth_length_takeWhile [of "\<lambda>x. \<not> P x" xs] by (simp add: list_find_def)

lemma list_find_before: "j < list_find P xs \<Longrightarrow> \<not> P (xs ! j)"
  by (metis list_find_def nth_mem set_takeWhileD takeWhile_nth)

lemma list_find_none: "list_find P xs = length xs \<longleftrightarrow> (\<forall>x\<in>set xs. \<not> P x)"
  unfolding list_find_def by (metis takeWhile_eq_all_conv takeWhile_eq_take take_all order_refl length_takeWhile_le)

lemma list_find_eq: "i < length xs \<Longrightarrow> P (xs ! i) \<Longrightarrow> (\<forall>j<i. \<not> P (xs ! j)) \<Longrightarrow> list_find P xs = i"
  by (metis linorder_neqE_nat list_find_before list_find_nth order.strict_trans2 list_find_bound le_neq_implies_less
      list_find_none nth_mem)

text \<open>\<open>find_if\<close> between the ends of the list is the search of the list.\<close>

lemma find_if_range:
  assumes "i \<le> length xs" and "length xs \<le> MaxNm"
  shows "find_if (elem_at MaxNm d xs) MaxNm i (length xs) P = Some (i + list_find P (drop i xs))"
  using assms
proof (induction "length xs - i" arbitrary: i)
  case 0
  then show ?case by (simp add: find_if.simps list_find_def)
next
  case (Suc n)
  then have i: "i < length xs" by simp
  then have "drop i xs = xs ! i # drop (Suc i) xs" by (rule Cons_nth_drop_Suc [symmetric])
  moreover have "find_if (elem_at MaxNm d xs) MaxNm (Suc i) (length xs) P = Some (Suc i + list_find P (drop (Suc i) xs))"
    using Suc by (intro Suc.hyps) auto
  ultimately show ?case
    using i Suc.prems by (subst find_if.simps) (simp add: elem_at_def list_find_def)
qed

lemma find_if_bound: "find_if el MaxNm i lst P = Some j \<Longrightarrow> i \<le> j \<and> (j = lst \<or> j < MaxNm)"
proof (induction el MaxNm i lst P rule: find_if.induct)
  case (1 el MaxNm i lst P)
  then show ?case by (subst (asm) find_if.simps) (auto split: if_splits option.splits)
qed

text \<open>The partition always ends behind its first misfit.\<close>

lemma partition_loop_first: "first \<le> i \<Longrightarrow> first \<le> snd (partition_loop P first i xs)"
proof (induction P first i xs rule: partition_loop.induct)
  case (1 P first i xs)
  then show ?case by (subst partition_loop.simps) (auto simp: Suc_le_eq dest: Suc_leD)
qed

lemma partition_loop_length: "length (fst (partition_loop P first i xs)) = length xs"
proof (induction P first i xs rule: partition_loop.induct)
  case (1 P first i xs)
  then show ?case by (subst partition_loop.simps) (auto simp: swap_at_def)
qed

lemma partition_misfit:
  assumes "x \<in> set xs" and "\<not> P x"
  shows "0 < snd (partition_range P xs)" and "length (fst (partition_range P xs)) = length xs"
proof -
  have "find_if_not P xs < length xs"
    using assms unfolding find_if_not_def by (metis le_neq_implies_less length_takeWhile_le takeWhile_eq_all_conv
      takeWhile_eq_take take_all order_refl)
  then show "0 < snd (partition_range P xs)" "length (fst (partition_range P xs)) = length xs"
    using partition_loop_first [of "Suc (find_if_not P xs)" "Suc (find_if_not P xs)" P xs] partition_loop_length
    by (auto simp: partition_range_def Let_def Suc_le_eq)
qed

text \<open>So \<open>qsort\<close> never returns from a range that is not empty: its first call is on a range that is not empty
  either.\<close>

lemma qsort_diverges:
  assumes "\<And>x. \<not> Pr x x" and "xs \<noteq> []"
  shows "qsort Pr xs = None"
proof -
  have "(\<forall>x. \<not> Pr x x) \<longrightarrow> xs = []" if "qsort Pr xs = Some ys" for ys
  proof (rule qsort.raw_induct [where P = "\<lambda>Pr xs ys. (\<forall>x. \<not> Pr x x) \<longrightarrow> xs = []", OF _ that])
    fix rec and Pr' :: "'b \<Rightarrow> 'b \<Rightarrow> bool" and zs :: "'b list" and ys' :: "'b list"
    assume IH: "\<And>Pr zs ys. rec Pr zs = Some ys \<Longrightarrow> (\<forall>x. \<not> Pr x x) \<longrightarrow> zs = []"
      and body: "(if zs = [] then Some []
        else let pivot = zs ! (length zs div 2);
                 p1 = partition_range (\<lambda>e. Pr' e pivot) zs;
                 p2 = partition_range (\<lambda>e. \<not> Pr' pivot e) (drop (snd p1) (fst p1))
             in Option.bind (rec Pr' (take (snd p1) (fst p1))) (\<lambda>a.
                Option.bind (rec Pr' (drop (snd p2) (fst p2))) (\<lambda>b.
                Some (a @ take (snd p2) (fst p2) @ b)))) = Some ys'"
    show "(\<forall>x. \<not> Pr' x x) \<longrightarrow> zs = []"
    proof (rule impI, rule ccontr)
      assume irr: "\<forall>x. \<not> Pr' x x" and ne: "zs \<noteq> []"
      let ?p = "zs ! (length zs div 2)"
      let ?p1 = "partition_range (\<lambda>e. Pr' e ?p) zs"
      from body ne obtain a where "rec Pr' (take (snd ?p1) (fst ?p1)) = Some a"
        by (auto simp: Let_def bind_eq_Some_conv)
      with IH irr have "take (snd ?p1) (fst ?p1) = []" by blast
      moreover have "?p \<in> set zs" using ne by (intro nth_mem) simp
      ultimately show False
        using partition_misfit [of ?p zs "\<lambda>e. Pr' e ?p"] irr ne by simp
    qed
  qed
  then show ?thesis using assms by (cases "qsort Pr xs") auto
qed

end
