(* ===== verification/Net_Adapter.thy ===== *)
theory Net_Adapter
  imports Kalloc Net_Frame
begin

text \<open>
  The driver of the Intel 8254x network adapter, \<open>kernel/UNetworkAdapter.cc\<close> and
  \<open>include/UNetworkAdapter.hh\<close>.

  The state of an adapter is its register file and the two rings of descriptors in memory. The driver
  reads and writes registers with \<open>GetRegister\<close> and \<open>SetRegister\<close>; the effects of the controller are those
  of its manual: reading the interrupt cause clears it, a write to \<open>IMS\<close> sets and one to \<open>IMC\<close> clears bits of the
  interrupt mask, a reset clears its own bit, and the transmit engine (\<open>tx_engine\<close>), when it is enabled, sends the
  descriptors between head and tail in order and marks them done. While the driver waits for a
  transmission the engine takes its turns.

  Receive buffers are pages of the kernel's memory. A transmit descriptor holds the bytes of the frame
  it points to in place of their address. The bytes of a received frame behind its length are what is on the
  stack, \<open>stack_junk\<close>. Which lines have been passed to \<open>picenable\<close> and \<open>ioapicenable\<close> is
  recorded in \<open>irq_lines\<close>.
\<close>

unbundle bit_operations_syntax

section \<open>Definitions\<close>

subsection \<open>Registers and descriptors\<close>

abbreviation (input) CTRL :: u16 where "CTRL \<equiv> 0x00000"
abbreviation (input) ICR :: u16 where "ICR \<equiv> 0x000C0"
abbreviation (input) IMS :: u16 where "IMS \<equiv> 0x000D0"
abbreviation (input) IMC :: u16 where "IMC \<equiv> 0x000D8"
abbreviation (input) RCTL :: u16 where "RCTL \<equiv> 0x00100"
abbreviation (input) RDBAL :: u16 where "RDBAL \<equiv> 0x02800"
abbreviation (input) RDBAH :: u16 where "RDBAH \<equiv> 0x02804"
abbreviation (input) RDLEN :: u16 where "RDLEN \<equiv> 0x02808"
abbreviation (input) RDH :: u16 where "RDH \<equiv> 0x02810"
abbreviation (input) RDT :: u16 where "RDT \<equiv> 0x02818"
abbreviation (input) MTA :: u16 where "MTA \<equiv> 0x05200"
abbreviation (input) RAL0 :: u16 where "RAL0 \<equiv> 0x05400"
abbreviation (input) RAH0 :: u16 where "RAH0 \<equiv> 0x05404"
abbreviation (input) TCTL :: u16 where "TCTL \<equiv> 0x00400"
abbreviation (input) TDBAL :: u16 where "TDBAL \<equiv> 0x03800"
abbreviation (input) TDBAH :: u16 where "TDBAH \<equiv> 0x03804"
abbreviation (input) TDLEN :: u16 where "TDLEN \<equiv> 0x03808"
abbreviation (input) TDH :: u16 where "TDH \<equiv> 0x03810"
abbreviation (input) TDT :: u16 where "TDT \<equiv> 0x03818"

abbreviation (input) ASDE :: u32 where "ASDE \<equiv> 0x20"
abbreviation (input) SLU :: u32 where "SLU \<equiv> 0x40"
abbreviation (input) RST :: u32 where "RST \<equiv> 0x4000000"
abbreviation (input) RXT0 :: u32 where "RXT0 \<equiv> 0x80"
abbreviation (input) EN :: u32 where "EN \<equiv> 0x2"
abbreviation (input) PSP :: u32 where "PSP \<equiv> 0x8"
abbreviation (input) SBP :: u32 where "SBP \<equiv> 0x4"
abbreviation (input) UPE :: u32 where "UPE \<equiv> 0x8"
abbreviation (input) MPE :: u32 where "MPE \<equiv> 0x10"
abbreviation (input) LPE :: u32 where "LPE \<equiv> 0x20"
abbreviation (input) RDMTSHalf :: u32 where "RDMTSHalf \<equiv> 0"
abbreviation (input) BAM :: u32 where "BAM \<equiv> 0x8000"
abbreviation (input) BSIZE2K :: u32 where "BSIZE2K \<equiv> 0"
abbreviation (input) SECRC :: u32 where "SECRC \<equiv> 0x4000000"
abbreviation (input) RDescLayoutMaxSize :: nat where "RDescLayoutMaxSize \<equiv> 16"
abbreviation (input) TDescLayoutMaxSize :: nat where "TDescLayoutMaxSize \<equiv> 16"
abbreviation (input) RX_DD :: u8 where "RX_DD \<equiv> 1"
abbreviation (input) RX_EOP :: u8 where "RX_EOP \<equiv> 2"
abbreviation (input) TX_EOP :: u8 where "TX_EOP \<equiv> 1"
abbreviation (input) TX_RS :: u8 where "TX_RS \<equiv> 8"

record rdesc =
  rBufferAddress :: u64
  rLength :: u16
  rStatus :: u8
  rErrors :: u8

record tdesc =
  tBuffer :: "u8 list"
  tLength :: u16
  tCommand :: u8
  tStatus :: u8

record pci_func =
  dev_id :: u32
  reg_base :: "u32 list"
  reg_size :: "u32 list"
  irq_line :: u8

record nic =
  regs :: "u16 \<Rightarrow> u32"
  PortBaseAddress :: u64
  MMIOBaseAddress :: u64
  MACAddress :: mac
  IRQLine :: u8
  RDescLayout :: "rdesc list"
  TDescLayout :: "tdesc list"
  wire :: "u8 list list"    \<comment> \<open>what the controller has put on the cable\<close>

record netdev = kmem +
  NetworkAdapterList :: u64
  adapters :: "nic list"    \<comment> \<open>the entries of \<open>NetworkAdapterList\<close>\<close>
  irq_lines :: "u8 list"
  stack_junk :: "u8 list"

definition GetRegister :: "u16 \<Rightarrow> nic \<Rightarrow> u32 \<times> nic" where
  "GetRegister r n = (regs n r, if r = ICR then n\<lparr>regs := (regs n)(ICR := 0)\<rparr> else n)"

definition SetRegister :: "u16 \<Rightarrow> u32 \<Rightarrow> nic \<Rightarrow> nic" where
  "SetRegister r v n =
     (if r = IMS then n\<lparr>regs := (regs n)(IMS := regs n IMS OR v)\<rparr>
      else if r = IMC then n\<lparr>regs := (regs n)(IMS := regs n IMS AND NOT v)\<rparr>
      else n\<lparr>regs := (regs n)(r := v)\<rparr>)"

subsection \<open>The controller\<close>

definition tx_engine :: "nic \<Rightarrow> nic" where
  "tx_engine n =
     (let h = unat (regs n TDH); d = TDescLayout n ! h in
      if regs n TCTL AND EN \<noteq> 0 \<and> regs n TDH \<noteq> regs n TDT \<and> h < length (TDescLayout n)
      then n\<lparr>wire := wire n @ [take (unat (tLength d)) (tBuffer d)],
             TDescLayout := (TDescLayout n)[h := d\<lparr>tStatus := 1\<rparr>],
             regs := (regs n)(TDH := of_nat ((h + 1) mod (unat (regs n TDLEN) div 16)))\<rparr>
      else n)"

definition reset_done :: "nic \<Rightarrow> nic" where
  "reset_done n = n\<lparr>regs := (regs n)(CTRL := regs n CTRL AND NOT RST)\<rparr>"

subsection \<open>Setting up\<close>

definition EnableAutoSpeed :: "nic \<Rightarrow> nic" where
  "EnableAutoSpeed n = SetRegister CTRL (fst (GetRegister CTRL n) OR ASDE OR SLU) n"

definition DisableAutoSpeed :: "nic \<Rightarrow> nic" where
  "DisableAutoSpeed n = SetRegister CTRL (fst (GetRegister CTRL n) AND NOT SLU) n"

definition EnableTransmission :: "nic \<Rightarrow> nic" where
  "EnableTransmission n = SetRegister TCTL (fst (GetRegister TCTL n) OR EN) n"

definition DisableTransmission :: "nic \<Rightarrow> nic" where
  "DisableTransmission n = SetRegister TCTL (fst (GetRegister TCTL n) AND NOT EN) n"

definition EnableReception :: "nic \<Rightarrow> nic" where
  "EnableReception n = SetRegister RCTL (fst (GetRegister RCTL n) OR EN) n"

definition DisableReception :: "nic \<Rightarrow> nic" where
  "DisableReception n = SetRegister RCTL (fst (GetRegister RCTL n) AND NOT EN) n"

definition EnableInterrupts :: "nic \<Rightarrow> nic" where
  "EnableInterrupts n = SetRegister IMS (fst (GetRegister IMS n) OR RXT0) n"

definition DisableInterrupts :: "nic \<Rightarrow> nic" where
  "DisableInterrupts n = SetRegister IMC (fst (GetRegister IMC n) OR RXT0) n"

definition HasInterrupt :: "nic \<Rightarrow> bool \<times> nic" where
  "HasInterrupt n = (let (v, n') = GetRegister ICR n in (v AND RXT0 \<noteq> 0, n'))"

definition ClearInterrupt :: "nic \<Rightarrow> nic" where
  "ClearInterrupt n = snd (GetRegister ICR n)"

definition Open :: "nic \<Rightarrow> nic" where
  "Open n = EnableAutoSpeed (EnableReception (EnableTransmission (snd (GetRegister ICR (EnableInterrupts n)))))"

definition Close :: "nic \<Rightarrow> nic" where
  "Close n = DisableAutoSpeed (DisableReception (DisableTransmission (snd (GetRegister ICR (DisableInterrupts n)))))"

fun reset_wait :: "nat \<Rightarrow> nic \<Rightarrow> nic option" where
  "reset_wait 0 n = None"
| "reset_wait (Suc k) n = (if fst (GetRegister CTRL n) AND RST = 0 then Some n else reset_wait k (reset_done n))"

definition Reset_nic :: "nic \<Rightarrow> nic option" where
  "Reset_nic n = reset_wait 2 (SetRegister CTRL (fst (GetRegister CTRL n) OR RST) n)"

fun load_bases :: "nat list \<Rightarrow> pci_func \<Rightarrow> nic \<Rightarrow> (string, nic) sum" where
  "load_bases [] p n = Inr n"
| "load_bases (i # is) p n =
     (let b = reg_base p ! i; sz = reg_size p ! i in
      if b \<le> 0xFFFF then
        if sz = 64 then Inr (n\<lparr>PortBaseAddress := ucast b\<rparr>) else Inl ''Size == 64''
      else if b > 0 then
        if sz = 0x20000 then load_bases is p (n\<lparr>MMIOBaseAddress := ucast b\<rparr>) else Inl ''Size == (1 << 17)''
      else load_bases is p n)"

definition LoadBaseAddresses :: "pci_func \<Rightarrow> nic \<Rightarrow> (string, nic) sum" where
  "LoadBaseAddresses p n = (case load_bases [0..<6] p n of
       Inl e \<Rightarrow> Inl e
     | Inr m \<Rightarrow> if PortBaseAddress m = 0 then Inl ''PortBaseAddress''
                else if MMIOBaseAddress m = 0 then Inl ''MMIOBaseAddress'' else Inr m)"

definition LoadFromPCI :: "pci_func \<Rightarrow> nic \<Rightarrow> (string, nic) sum" where
  "LoadFromPCI p n = (case LoadBaseAddresses p n of
       Inl e \<Rightarrow> Inl e | Inr m \<Rightarrow> Inr (m\<lparr>IRQLine := irq_line p\<rparr>))"

definition LoadMACAddress :: "nic \<Rightarrow> nic" where
  "LoadMACAddress n = n\<lparr>MACAddress := bytes32 (fst (GetRegister RAL0 n)) @ bytes16 (ucast (fst (GetRegister RAH0 n)))\<rparr>"

definition InitMulticastTableArray :: "nic \<Rightarrow> nic" where
  "InitMulticastTableArray n = foldl (\<lambda>m i. SetRegister (MTA + push_bit 2 (of_nat i)) 0 m) n [0..<128]"

definition Detect :: "pci_func \<Rightarrow> bool" where
  "Detect p \<longleftrightarrow> dev_id p AND 0xFFFF = 0x8086 \<and> drop_bit 16 (dev_id p) AND 0xFFFF = 0x100E"

text \<open>\<open>operator new\<close> of \<open>kernel/CXXInit.cc\<close> is a page of \<open>kalloc\<close>; it is used without a test for null.\<close>

definition operator_new :: "('a netdev_scheme, u64) kmon" where
  "operator_new = kbind kalloc (\<lambda>p. if p = 0 then kfault ''operator new'' else kreturn p)"

definition operator_delete :: "u64 \<Rightarrow> ('a netdev_scheme, unit) kmon" where
  "operator_delete p = kfree p"

definition SetupPacketTransmission :: "nic \<Rightarrow> ('a netdev_scheme, nic) kmon" where
  "SetupPacketTransmission n = kbind kalloc (\<lambda>p.
     if p = 0 then kfault ''TDescLayout''
     else let n1 = n\<lparr>TDescLayout := replicate TDescLayoutMaxSize \<lparr>tBuffer = [], tLength = 0, tCommand = 0, tStatus = 0\<rparr>\<rparr>;
              n2 = SetRegister TDBAH (ucast (drop_bit 32 (v2p p))) n1;
              n3 = SetRegister TDBAL (ucast (v2p p)) n2;
              n4 = SetRegister TDLEN (of_nat (TDescLayoutMaxSize * 16)) n3;
              n5 = SetRegister TDT 0 (SetRegister TDH 0 n4);
              n6 = SetRegister TCTL (fst (GetRegister TCTL n5) OR PSP) n5
          in kreturn (EnableTransmission n6))"

fun alloc_rdescs :: "nat \<Rightarrow> ('a netdev_scheme, rdesc list) kmon" where
  "alloc_rdescs 0 = kreturn []"
| "alloc_rdescs (Suc k) = kbind kalloc (\<lambda>p. kbind (alloc_rdescs k) (\<lambda>ds.
     kreturn (\<lparr>rBufferAddress = v2p p, rLength = 0, rStatus = 0, rErrors = 0\<rparr> # ds)))"

definition AllocateReceiveDescrBuffer :: "nic \<Rightarrow> ('a netdev_scheme, u64 \<times> nic) kmon" where
  "AllocateReceiveDescrBuffer n = kbind kalloc (\<lambda>p.
     if p = 0 then kfault ''RDescLayout''
     else kbind (alloc_rdescs RDescLayoutMaxSize) (\<lambda>ds. kreturn (p, n\<lparr>RDescLayout := ds\<rparr>)))"

definition SetupPacketReception :: "nic \<Rightarrow> ('a netdev_scheme, nic) kmon" where
  "SetupPacketReception n = kbind (AllocateReceiveDescrBuffer n) (\<lambda>(p, n1).
     let n2 = SetRegister RDBAH (ucast (drop_bit 32 (v2p p))) n1;
         n3 = SetRegister RDBAL (ucast (v2p p)) n2;
         n4 = SetRegister RDLEN (of_nat (RDescLayoutMaxSize * 16)) n3;
         n5 = SetRegister RDT (of_nat (RDescLayoutMaxSize - 1)) (SetRegister RDH 0 n4);
         c = fst (GetRegister RCTL n5) OR SBP OR UPE OR MPE OR LPE OR RDMTSHalf OR BAM OR BSIZE2K OR SECRC
     in kreturn (EnableReception (SetRegister RCTL c n5)))"

definition RegisterInterruptHandler :: "nic \<Rightarrow> ('a netdev_scheme, nic) kmon" where
  "RegisterInterruptHandler n =
     kthen (kmodify (\<lambda>s. s\<lparr>irq_lines := irq_lines s @ [IRQLine n]\<rparr>)) (kreturn (EnableInterrupts n))"

text \<open>\<open>Start\<close>: the members of the new object and the registers start as they are in \<open>n0\<close>.\<close>

definition Start :: "pci_func \<Rightarrow> nic \<Rightarrow> ('a netdev_scheme, nic) kmon" where
  "Start p n0 = kthen operator_new (case LoadFromPCI p n0 of
       Inl e \<Rightarrow> kpanic e
     | Inr n1 \<Rightarrow> (case Reset_nic n1 of
         None \<Rightarrow> kfault ''Reset''
       | Some n2 \<Rightarrow>
          kbind (RegisterInterruptHandler (LoadMACAddress (EnableAutoSpeed n2))) (\<lambda>n3.
          kbind (SetupPacketTransmission (InitMulticastTableArray n3)) (\<lambda>n4.
          SetupPacketReception n4))))"

definition NetworkAdapterSetup :: "pci_func \<Rightarrow> nic \<Rightarrow> ('a netdev_scheme, unit) kmon" where
  "NetworkAdapterSetup p n0 = kbind (kget NetworkAdapterList) (\<lambda>l.
     kthen (if l = 0
            then kbind kalloc (\<lambda>a. kmodify (\<lambda>s. s\<lparr>NetworkAdapterList := a\<rparr>)) else kreturn ())
     (if Detect p
      then kbind (Start p n0) (\<lambda>n. kbind (kget NetworkAdapterList) (\<lambda>l.
             if l = 0 then kfault ''NetworkAdapterList''
             else kmodify (\<lambda>s. s\<lparr>adapters := adapters s @ [n]\<rparr>)))
      else kreturn ()))"

subsection \<open>Sending and receiving\<close>

definition nic_of :: "nat \<Rightarrow> 'a netdev_scheme \<Rightarrow> nic" where
  "nic_of d s = adapters s ! d"

definition set_nic :: "nat \<Rightarrow> nic \<Rightarrow> 'a netdev_scheme \<Rightarrow> 'a netdev_scheme" where
  "set_nic d n s = s\<lparr>adapters := (adapters s)[d := n]\<rparr>"

fun tx_wait :: "nat \<Rightarrow> nat \<Rightarrow> nic \<Rightarrow> nic option" where
  "tx_wait 0 t n = None"
| "tx_wait (Suc k) t n = (if tStatus (TDescLayout n ! t) AND 0xF \<noteq> 0 then Some n else tx_wait k t (tx_engine n))"

definition Transmit_nic :: "frame \<Rightarrow> nic \<Rightarrow> (string, u16 \<times> nic) sum" where
  "Transmit_nic f n =
     (let t = unat (fst (GetRegister TDT n)) in
      if t \<ge> length (TDescLayout n) then Inl ''TDescLayout''
      else let n1 = n\<lparr>TDescLayout := (TDescLayout n)[t := \<lparr>tBuffer = fdata f, tLength = of_nat (FrameSize f),
                       tCommand = TX_EOP OR TX_RS, tStatus = 0\<rparr>]\<rparr>;
               n2 = SetRegister TDT (of_nat ((t + 1) mod TDescLayoutMaxSize)) n1
           in (case tx_wait (Suc TDescLayoutMaxSize) t n2 of
                 None \<Rightarrow> Inl ''Transmit: no completion''
               | Some n3 \<Rightarrow> Inr (tLength (TDescLayout n3 ! t), n3)))"

definition Transmit :: "nat \<Rightarrow> frame \<Rightarrow> ('a netdev_scheme, u16) kmon" where
  "Transmit d f s = (if d \<ge> length (adapters s) then Fault ''NetworkAdapterList''
     else case Transmit_nic f (nic_of d s) of
       Inl e \<Rightarrow> Fault e
     | Inr (len, n) \<Rightarrow> Ret len (set_nic d n s))"

definition ToDevice :: "nat \<Rightarrow> frame \<Rightarrow> ('a netdev_scheme, u16) kmon" where
  "ToDevice d f s = Transmit d (SetSource (MACAddress (nic_of d s)) f) s"

text \<open>What \<open>Receive\<close> returns: the frames it has copied, or a negative error code.\<close>

datatype rx_result = Frames "frame list" | ShortPacket | NotEOP | RxError u8

fun Receive_loop :: "nat \<Rightarrow> u8 list \<Rightarrow> memory \<Rightarrow> frame list \<Rightarrow> nic \<Rightarrow> (string, rx_result \<times> nic) sum" where
  "Receive_loop 0 junk m acc n = Inl ''Receive''"
| "Receive_loop (Suc k) junk m acc n =
     (let t = (unat (fst (GetRegister RDT n)) + 1) mod RDescLayoutMaxSize; d = RDescLayout n ! t in
      if rStatus d AND RX_DD = 0 then Inr (Frames acc, n)
      else if rLength d < 60 then Inr (ShortPacket, n)
      else if rStatus d AND RX_EOP = 0 then Inr (NotEOP, n)
      else if rErrors d \<noteq> 0 then Inr (RxError (rErrors d), n)
      else case EthernetFrame_of junk
          (map (\<lambda>i. m (p2v (rBufferAddress d) + of_nat i)) [0..<unat (rLength d)]) (unat (rLength d)) of
        None \<Rightarrow> Inl ''EthernetFrame::Data''
      | Some f \<Rightarrow> Receive_loop k junk m (acc @ [f])
          (SetRegister RDT (of_nat t) (n\<lparr>RDescLayout := (RDescLayout n)[t := d\<lparr>rStatus := 0\<rparr>]\<rparr>)))"

definition Receive :: "nat \<Rightarrow> ('a netdev_scheme, rx_result) kmon" where
  "Receive d s = (case Receive_loop (Suc RDescLayoutMaxSize) (stack_junk s) (kmem_mem s) [] (nic_of d s) of
       Inl e \<Rightarrow> Fault e
     | Inr (r, n) \<Rightarrow> Ret r (set_nic d n s))"

section \<open>Sending\<close>

text \<open>The transmit ring between two transmissions: sixteen descriptors, none of them pending, the engine enabled.\<close>

definition tx_idle :: "nic \<Rightarrow> bool" where
  "tx_idle n \<longleftrightarrow> length (TDescLayout n) = 16 \<and> regs n TDLEN = 256 \<and> regs n TDH = regs n TDT
     \<and> unat (regs n TDT) < 16 \<and> regs n TCTL AND EN \<noteq> 0"

lemma Transmit_nic_sends:
  assumes "tx_idle n" and "FrameSize f < 65536"
  shows "\<exists>m. Transmit_nic f n = Inr (of_nat (FrameSize f), m) \<and> tx_idle m \<and> wire m = wire n @ [take (FrameSize f) (fdata f)]
    \<and> unat (regs m TDT) = (unat (regs n TDT) + 1) mod 16 \<and> MACAddress m = MACAddress n
    \<and> RDescLayout m = RDescLayout n \<and> (\<forall>r. r \<noteq> TDH \<longrightarrow> r \<noteq> TDT \<longrightarrow> regs m r = regs n r)"
proof -
  let ?t = "unat (regs n TDT)"
  let ?d = "\<lparr>tBuffer = fdata f, tLength = of_nat (FrameSize f), tCommand = TX_EOP OR TX_RS, tStatus = 0\<rparr>"
  let ?u = "of_nat ((?t + 1) mod 16) :: u32"
  let ?n2 = "n\<lparr>TDescLayout := (TDescLayout n)[?t := ?d], regs := (regs n)(TDT := ?u)\<rparr>"
  have t: "?t < 16" "length (TDescLayout n) = 16" "regs n TDH = regs n TDT" "regs n TDLEN = 256"
    using assms(1) by (simp_all add: tx_idle_def)
  have u: "unat ?u = (?t + 1) mod 16" by (rule u32_of_nat_small) (use t(1) in simp)
  have "(?t + 1) mod 16 \<noteq> ?t" using t(1) by (cases "?t = 15") simp_all
  then have ne: "regs n TDT \<noteq> ?u" using u by metis
  have len: "unat (of_nat (FrameSize f) :: u16) = FrameSize f" using assms(2) by (simp add: unat_of_nat)
  define m where "m = tx_engine ?n2"
  have m: "m = ?n2\<lparr>wire := wire n @ [take (FrameSize f) (fdata f)], TDescLayout := (TDescLayout n)[?t := ?d\<lparr>tStatus := 1\<rparr>],
      regs := (regs n)(TDT := ?u, TDH := ?u)\<rparr>"
    using assms(1) t ne len by (simp add: m_def tx_engine_def tx_idle_def Let_def)
  have st: "tStatus (TDescLayout ?n2 ! ?t) AND 0xF = 0" "tStatus (TDescLayout m ! ?t) AND 0xF = 1" using t m by simp_all
  have "tx_wait (Suc (Suc k)) ?t ?n2 = Some m" for k
    unfolding tx_wait.simps st m_def [symmetric] by simp
  from this [of 15] have "tx_wait 17 ?t ?n2 = Some m" by simp
  then have "Transmit_nic f n = Inr (of_nat (FrameSize f), m)"
    using t m by (simp add: Transmit_nic_def GetRegister_def SetRegister_def Let_def)
  moreover have "tx_idle m" using assms(1) u m t(1) by (simp add: tx_idle_def)
  ultimately show ?thesis using u m by simp
qed

lemma Transmit_sends:
  assumes "d < length (adapters s)" and "tx_idle (nic_of d s)" and "FrameSize f < 65536"
  shows "\<exists>m. Transmit d f s = Ret (of_nat (FrameSize f)) (set_nic d m s) \<and> tx_idle m
    \<and> wire m = wire (nic_of d s) @ [take (FrameSize f) (fdata f)] \<and> MACAddress m = MACAddress (nic_of d s)
    \<and> RDescLayout m = RDescLayout (nic_of d s) \<and> (\<forall>r. r \<noteq> TDH \<longrightarrow> r \<noteq> TDT \<longrightarrow> regs m r = regs (nic_of d s) r)"
  using Transmit_nic_sends [OF assms(2,3)] assms(1) by (auto simp: Transmit_def)

section \<open>Receiving\<close>

text \<open>A descriptor with a complete packet, the frame in it, and the slot after the tail.\<close>

definition rx_good :: "rdesc \<Rightarrow> bool" where
  "rx_good d \<longleftrightarrow> rStatus d AND RX_DD \<noteq> 0 \<and> rStatus d AND RX_EOP \<noteq> 0 \<and> rErrors d = 0
     \<and> 60 \<le> unat (rLength d) \<and> unat (rLength d) \<le> MaxFrameSize"

definition rx_bad :: "rdesc \<Rightarrow> bool" where
  "rx_bad d \<longleftrightarrow> rStatus d AND RX_DD \<noteq> 0 \<and> (unat (rLength d) < 60 \<or> rStatus d AND RX_EOP = 0 \<or> rErrors d \<noteq> 0)"

definition rx_frame :: "u8 list \<Rightarrow> memory \<Rightarrow> rdesc \<Rightarrow> frame" where
  "rx_frame junk m d = \<lparr>fdata = splice 0 (map (\<lambda>i. m (p2v (rBufferAddress d) + of_nat i)) [0..<unat (rLength d)]) junk,
     FrameSize = max MinFrameSize (unat (rLength d))\<rparr>"

definition rx_slot :: "nic \<Rightarrow> nat \<Rightarrow> nat" where
  "rx_slot n i = (unat (regs n RDT) + 1 + i) mod 16"

lemma rx_good_frame: "rx_good d \<Longrightarrow> EthernetFrame_of junk
    (map (\<lambda>i. m (p2v (rBufferAddress d) + of_nat i)) [0..<unat (rLength d)]) (unat (rLength d)) = Some (rx_frame junk m d)"
  by (simp add: EthernetFrame_of_def rx_good_def rx_frame_def max_def)

definition rx_idle :: "nic \<Rightarrow> bool" where
  "rx_idle n \<longleftrightarrow> length (RDescLayout n) = 16 \<and> unat (regs n RDT) < 16"

text \<open>The adapter after taking the next \<open>k\<close> packets.\<close>

definition rx_taken :: "nat \<Rightarrow> nic \<Rightarrow> nic" where
  "rx_taken k n = n\<lparr>RDescLayout := map (\<lambda>i. let d = RDescLayout n ! i in
       if i \<in> rx_slot n ` {..<k} then d\<lparr>rStatus := 0\<rparr> else d) [0..<16],
     regs := (regs n)(RDT := of_nat ((unat (regs n RDT) + k) mod 16))\<rparr>"

lemma rx_take_one:
  assumes "rx_idle n"
  defines "t \<equiv> rx_slot n 0"
  defines "n1 \<equiv> SetRegister RDT (of_nat t) (n\<lparr>RDescLayout := (RDescLayout n)[t := (RDescLayout n ! t)\<lparr>rStatus := 0\<rparr>]\<rparr>)"
  shows "rx_idle n1" and "rx_slot n1 i = rx_slot n (Suc i)" and "t < 16"
    and "j < 16 \<Longrightarrow> RDescLayout n1 ! j = (if j = t then (RDescLayout n ! t)\<lparr>rStatus := 0\<rparr> else RDescLayout n ! j)"
proof -
  show t: "t < 16" by (simp add: t_def rx_slot_def)
  have u: "unat (of_nat t :: u32) = t" using t by (intro u32_of_nat_small) simp
  then show "rx_idle n1" using assms(1) t by (simp add: rx_idle_def n1_def SetRegister_def)
  show "rx_slot n1 i = rx_slot n (Suc i)" 
  proof -
    have "rx_slot n1 i = (t + 1 + i) mod 16" using u by (simp add: rx_slot_def n1_def SetRegister_def)
    also have "\<dots> = (unat (regs n RDT) + 1 + (1 + i)) mod 16"
      unfolding t_def rx_slot_def
      using mod_add_left_eq [of "unat (regs n RDT) + 1 + 0" 16 "1 + i"] by (simp only: add.assoc add_0_right)
    finally show ?thesis by (simp add: rx_slot_def)
  qed
  show "RDescLayout n1 ! j = (if j = t then (RDescLayout n ! t)\<lparr>rStatus := 0\<rparr> else RDescLayout n ! j)" if "j < 16"
    using assms(1) that by (simp add: rx_idle_def n1_def SetRegister_def)
qed

lemma rx_slot_inj: "rx_slot n i = rx_slot n j \<Longrightarrow> i < 16 \<Longrightarrow> j < 16 \<Longrightarrow> i = j"
proof -
  have le: "p = q" if "(a + p) mod 16 = (a + q) mod 16" "p \<le> q" "q < 16" for a p q :: nat
  proof -
    have "16 dvd (a + q) - (a + p)" using that mod_eq_dvd_iff_nat [of "a + p" "a + q" 16] by simp
    then show "p = q" using that(2,3) dvd_imp_le [of 16 "q - p"] by (cases "q - p = 0") auto
  qed
  show "rx_slot n i = rx_slot n j \<Longrightarrow> i < 16 \<Longrightarrow> j < 16 \<Longrightarrow> i = j"
    unfolding rx_slot_def by (metis le nat_le_linear)
qed

lemma rx_slot_lt [simp]: "rx_slot n i < 16"
  by (simp add: rx_slot_def)

lemma rx_taken_0: "rx_idle n \<Longrightarrow> rx_taken 0 n = n"
proof -
  assume "rx_idle n"
  then have "map (\<lambda>i. RDescLayout n ! i) [0..<16] = RDescLayout n" "regs n RDT = of_nat (unat (regs n RDT) mod 16)"
    by (auto simp: rx_idle_def intro!: nth_equalityI)
  then show ?thesis by (simp add: rx_taken_def Let_def)
qed

lemma rx_taken_Suc:
  assumes "rx_idle n" and "k < 16"
  defines "t \<equiv> rx_slot n 0"
  defines "n1 \<equiv> SetRegister RDT (of_nat t) (n\<lparr>RDescLayout := (RDescLayout n)[t := (RDescLayout n ! t)\<lparr>rStatus := 0\<rparr>]\<rparr>)"
  shows "rx_taken k n1 = rx_taken (Suc k) n"
proof -
  note one = rx_take_one [OF assms(1)]
  have slots: "rx_slot n ` {..<Suc k} = insert t (rx_slot n1 ` {..<k})"
    using one(2) by (auto simp: lessThan_Suc_eq_insert_0 image_image t_def n1_def)
  have "RDescLayout (rx_taken k n1) = RDescLayout (rx_taken (Suc k) n)"
    unfolding rx_taken_def
    by (simp only: nic.simps slots Let_def) (use one(4) in \<open>auto simp: n1_def t_def\<close>)
  moreover have "regs (rx_taken k n1) = regs (rx_taken (Suc k) n)"
  proof -
    have "unat (regs n1 RDT) = t" using u32_of_nat_small [of t] rx_slot_lt [of n 0] by (simp add: n1_def SetRegister_def t_def)
    moreover have "(t + k) mod 16 = (unat (regs n RDT) + Suc k) mod 16"
      unfolding t_def rx_slot_def using mod_add_left_eq [of "unat (regs n RDT) + 1 + 0" 16 k] by simp
    ultimately show ?thesis by (simp add: rx_taken_def n1_def SetRegister_def)
  qed
  ultimately show ?thesis by (simp add: rx_taken_def n1_def SetRegister_def)
qed

lemma Receive_loop_takes:
  assumes "rx_idle n" and "k \<le> 16" and "\<And>i. i < k \<Longrightarrow> rx_good (RDescLayout n ! rx_slot n i)"
  shows "Receive_loop (k + e) junk m acc n
    = Receive_loop e junk m (acc @ map (\<lambda>i. rx_frame junk m (RDescLayout n ! rx_slot n i)) [0..<k]) (rx_taken k n)"
  using assms
proof (induction k arbitrary: n acc)
  case 0
  then show ?case by (simp add: rx_taken_0)
next
  case (Suc k)
  define t where "t = rx_slot n 0"
  define n1 where "n1 = SetRegister RDT (of_nat t) (n\<lparr>RDescLayout := (RDescLayout n)[t := (RDescLayout n ! t)\<lparr>rStatus := 0\<rparr>]\<rparr>)"
  note one = rx_take_one [OF Suc.prems(1), folded t_def, folded n1_def]
  have other: "rx_slot n (Suc i) \<noteq> t" if "i < k" for i
    using rx_slot_inj [of n "Suc i" 0] that Suc.prems(2) by (auto simp: t_def)
  have desc: "RDescLayout n1 ! rx_slot n1 i = RDescLayout n ! rx_slot n (Suc i)" if "i < k" for i
    using one(2,4) other [OF that] by simp
  have "[0..<Suc k] = 0 # map Suc [0..<k]" by (simp add: map_Suc_upt upt_conv_Cons del: upt_Suc)
  then have all: "map (\<lambda>i. rx_frame junk m (RDescLayout n ! rx_slot n i)) [0..<Suc k]
      = rx_frame junk m (RDescLayout n ! t) # map (\<lambda>i. rx_frame junk m (RDescLayout n ! rx_slot n (Suc i))) [0..<k]"
    by (simp add: t_def del: upt_Suc)
  have g: "rx_good (RDescLayout n ! t)" using Suc.prems(3) [of 0] by (simp add: t_def)
  then have "Receive_loop (Suc (k + e)) junk m acc n = Receive_loop (k + e) junk m (acc @ [rx_frame junk m (RDescLayout n ! t)]) n1"
    using rx_good_frame [OF g, of junk m]
    by (simp add: rx_good_def GetRegister_def Let_def t_def rx_slot_def n1_def word_less_nat_alt)
  also have "\<dots> = Receive_loop e junk m ((acc @ [rx_frame junk m (RDescLayout n ! t)])
      @ map (\<lambda>i. rx_frame junk m (RDescLayout n1 ! rx_slot n1 i)) [0..<k]) (rx_taken k n1)"
    using Suc.prems desc one(1) by (intro Suc.IH) auto
  also have "map (\<lambda>i. rx_frame junk m (RDescLayout n1 ! rx_slot n1 i)) [0..<k]
      = map (\<lambda>i. rx_frame junk m (RDescLayout n ! rx_slot n (Suc i))) [0..<k]"
    using desc by (intro map_cong) auto
  also have "rx_taken k n1 = rx_taken (Suc k) n"
    using rx_taken_Suc [OF Suc.prems(1)] Suc.prems(2) by (simp add: t_def n1_def)
  finally show ?case by (simp add: all del: upt_Suc)
qed

lemma Receive_loop_stops:
  assumes "rx_idle n" and "k \<le> 16" and "k = 16 \<or> rStatus (RDescLayout n ! rx_slot n k) AND RX_DD = 0"
  shows "Receive_loop (Suc e) junk m acc (rx_taken k n) = Inr (Frames acc, rx_taken k n)"
proof -
  have u: "unat (regs (rx_taken k n) RDT) = (unat (regs n RDT) + k) mod 16"
    using u32_of_nat_small [of "(unat (regs n RDT) + k) mod 16"] by (simp add: rx_taken_def)
  have t: "(unat (regs (rx_taken k n) RDT) + 1) mod 16 = rx_slot n k"
    unfolding u rx_slot_def using mod_add_left_eq [of "unat (regs n RDT) + k" 16 1] by (simp add: ac_simps)
  have "rStatus (RDescLayout (rx_taken k n) ! rx_slot n k) AND RX_DD = 0"
  proof (cases "rx_slot n k \<in> rx_slot n ` {..<k}")
    case True
    then show ?thesis by (simp add: rx_taken_def Let_def)
  next
    case False
    have "rx_slot n 16 = rx_slot n 0" using mod_add_self2 [of "unat (regs n RDT) + 1" 16] unfolding rx_slot_def by (simp only: add_0_right)
    then have "k \<noteq> 16" using False by auto
    then show ?thesis using False assms(3) by (simp add: rx_taken_def Let_def)
  qed
  then show ?thesis using t by (simp add: GetRegister_def Let_def)
qed

text \<open>A descriptor that is not accepted ends the loop at once and is left as it is.\<close>

lemma Receive_loop_bad:
  assumes "rx_bad (RDescLayout n ! rx_slot n 0)"
  shows "\<exists>r. (\<forall>fs. r \<noteq> Frames fs) \<and> Receive_loop (Suc e) junk m acc n = Inr (r, n)"
  using assms by (auto simp: rx_bad_def GetRegister_def Let_def rx_slot_def word_less_nat_alt)

lemma rx_taken_next: "rx_idle n \<Longrightarrow> k < 16 \<Longrightarrow> rx_idle (rx_taken k n) \<and> rx_slot (rx_taken k n) 0 = rx_slot n k
    \<and> RDescLayout (rx_taken k n) ! rx_slot n k = RDescLayout n ! rx_slot n k"
proof -
  assume n: "rx_idle n" "k < 16"
  have u: "unat (regs (rx_taken k n) RDT) = (unat (regs n RDT) + k) mod 16"
    using u32_of_nat_small [of "(unat (regs n RDT) + k) mod 16"] by (simp add: rx_taken_def)
  have "rx_slot (rx_taken k n) 0 = rx_slot n k"
    unfolding rx_slot_def u using mod_add_left_eq [of "unat (regs n RDT) + k" 16 1] by (simp add: ac_simps)
  moreover have "rx_slot n k \<notin> rx_slot n ` {..<k}" using rx_slot_inj [of n k] n(2) by fastforce
  then have "RDescLayout (rx_taken k n) ! rx_slot n k = RDescLayout n ! rx_slot n k"
    by (simp add: rx_taken_def Let_def)
  moreover have "rx_idle (rx_taken k n)" using u by (simp add: rx_idle_def) (simp add: rx_taken_def)
  ultimately show ?thesis by simp
qed

section \<open>Starting\<close>

definition fresh_rdesc :: "u64 \<Rightarrow> rdesc" where
  "fresh_rdesc p = \<lparr>rBufferAddress = v2p p, rLength = 0, rStatus = 0, rErrors = 0\<rparr>"

lemma alloc_rdescs_pool:
  "pool s (ps @ qs) \<Longrightarrow> k = length ps \<Longrightarrow>
     \<exists>p. alloc_rdescs k s = Ret (map fresh_rdesc ps) (s\<lparr>freelist := p\<rparr>) \<and> pool (s\<lparr>freelist := p\<rparr>) qs"
proof (induction ps arbitrary: k s)
  case Nil
  then show ?case by (intro exI [of _ "freelist s"]) (simp add: kreturn_def)
next
  case (Cons x ps)
  let ?t = "s\<lparr>freelist := ld64 (kmem_mem s) x\<rparr>"
  note c = pool_Cons [of s x "ps @ qs"]
  have a: "kalloc s = Ret x ?t" and "pool ?t (ps @ qs)" using c Cons.prems by auto
  then obtain p where "alloc_rdescs (length ps) ?t = Ret (map fresh_rdesc ps) (?t\<lparr>freelist := p\<rparr>)"
    and "pool (?t\<lparr>freelist := p\<rparr>) qs" using Cons.IH by blast
  then show ?case using a Cons.prems(2) by (intro exI [of _ p]) (simp add: kmon_defs fresh_rdesc_def)
qed

text \<open>Clearing the multicast table writes no other register.\<close>

lemma MTA_entry:
  assumes "i < 128" and "r < MTA"
  shows "MTA + push_bit 2 (of_nat i) \<noteq> r"
proof -
  have "unat (push_bit 2 (of_nat i) :: u16) = 4 * i"
    using assms(1) by (simp add: push_bit_eq_mult unat_word_ariths unat_of_nat take_bit_eq_mod)
  then have "unat (MTA + push_bit 2 (of_nat i)) = 0x5200 + 4 * i" using assms(1) by (simp add: unat_word_ariths)
  then show ?thesis using assms(2) by (auto simp: word_less_nat_alt)
qed

lemma InitMulticast_fold:
  assumes "set js \<subseteq> {..<128}" and "m = foldl (\<lambda>m i. SetRegister (MTA + push_bit 2 (of_nat i)) 0 m) n js"
  shows "(\<forall>r < MTA. regs m r = regs n r) \<and> MACAddress m = MACAddress n"
  using assms
proof (induction js arbitrary: n)
  case (Cons i js)
  let ?n = "SetRegister (MTA + push_bit 2 (of_nat i)) 0 n"
  have "regs ?n r = regs n r" if "r < MTA" for r
    using MTA_entry [of i r] MTA_entry [of i IMS] MTA_entry [of i IMC] that Cons.prems by (auto simp: SetRegister_def)
  moreover have "MACAddress ?n = MACAddress n" by (simp add: SetRegister_def)
  ultimately show ?case using Cons.IH [of ?n] Cons.prems by auto
qed simp

lemma InitMulticast_keeps:
  "regs (InitMulticastTableArray n) IMS = regs n IMS" "MACAddress (InitMulticastTableArray n) = MACAddress n"
proof -
  have "set [0..<128] \<subseteq> {..<128}" by auto
  from InitMulticast_fold [OF this refl, of n]
  show "regs (InitMulticastTableArray n) IMS = regs n IMS" "MACAddress (InitMulticastTableArray n) = MACAddress n"
    by (simp_all only: InitMulticastTableArray_def) simp
qed

lemma EnableInterrupts_on: "regs (EnableInterrupts n) IMS AND RXT0 \<noteq> 0"
proof
  assume "regs (EnableInterrupts n) IMS AND RXT0 = 0"
  then have "\<not> bit (regs (EnableInterrupts n) IMS AND RXT0) 7" by simp
  then show False by (simp add: EnableInterrupts_def SetRegister_def bit_simps)
qed

lemma before_setup:
  "MACAddress (EnableInterrupts (LoadMACAddress (EnableAutoSpeed n))) = bytes32 (regs n RAL0) @ bytes16 (ucast (regs n RAH0))"
  "IRQLine (LoadMACAddress (EnableAutoSpeed n)) = IRQLine n"
  by (simp_all add: EnableInterrupts_def LoadMACAddress_def EnableAutoSpeed_def SetRegister_def GetRegister_def)

definition nic_ready :: "u64 list \<Rightarrow> nic \<Rightarrow> bool" where
  "nic_ready ps n \<longleftrightarrow> tx_idle n \<and> rx_idle n \<and> RDescLayout n = map fresh_rdesc ps \<and> regs n RDH = 0 \<and> regs n RDT = 15
     \<and> regs n RDLEN = 256 \<and> regs n RCTL AND EN \<noteq> 0 \<and> regs n IMS AND RXT0 \<noteq> 0"

lemma SetupPacketTransmission_spec:
  assumes "pool s (p # qs)"
  shows "\<exists>m t. SetupPacketTransmission n s = Ret m t \<and> pool t qs \<and> tx_idle m \<and> MACAddress m = MACAddress n
    \<and> regs m IMS = regs n IMS \<and> irq_lines t = irq_lines s \<and> adapters t = adapters s"
proof -
  have "p \<noteq> 0" using assms page_ok_nonzero [OF assms] by (simp add: pool_def)
  then show ?thesis
    using pool_Cons [OF assms]
    by (auto simp: SetupPacketTransmission_def kmon_defs Let_def EnableTransmission_def SetRegister_def GetRegister_def tx_idle_def)
qed

lemma SetupPacketReception_spec:
  assumes "pool s (p # ps @ qs)" and "length ps = 16"
  shows "\<exists>m t. SetupPacketReception n s = Ret m t \<and> pool t qs \<and> RDescLayout m = map fresh_rdesc ps
    \<and> regs m RDH = 0 \<and> regs m RDT = 15 \<and> regs m RDLEN = 256 \<and> regs m RCTL AND EN \<noteq> 0
    \<and> MACAddress m = MACAddress n \<and> regs m IMS = regs n IMS \<and> TDescLayout m = TDescLayout n
    \<and> (\<forall>r \<in> {TDH, TDT, TDLEN, TCTL}. regs m r = regs n r) \<and> irq_lines t = irq_lines s \<and> adapters t = adapters s"
proof -
  let ?t = "s\<lparr>freelist := ld64 (kmem_mem s) p\<rparr>"
  have "p \<noteq> 0" using assms page_ok_nonzero [OF assms(1)] by (simp add: pool_def)
  moreover note pool_Cons [OF assms(1)]
  moreover obtain q where "alloc_rdescs 16 ?t = Ret (map fresh_rdesc ps) (?t\<lparr>freelist := q\<rparr>)" "pool (?t\<lparr>freelist := q\<rparr>) qs"
    using alloc_rdescs_pool [OF pool_Cons(2) [OF assms(1)], of 16] assms(2) by auto
  ultimately show ?thesis
    by (auto simp: SetupPacketReception_def AllocateReceiveDescrBuffer_def kmon_defs Let_def EnableReception_def
        SetRegister_def GetRegister_def)
qed

lemma Reset_nic_spec: "\<exists>m. Reset_nic n = Some m \<and> m = n\<lparr>regs := (regs n)(CTRL := regs m CTRL)\<rparr> \<and> regs m CTRL AND RST = 0"
proof -
  have 1: "(c OR RST) AND RST \<noteq> 0" for c :: u32
  proof
    assume "(c OR RST) AND RST = 0"
    then have "bit ((c OR RST) AND RST) 26 = False" by simp
    then show False by (simp add: bit_simps)
  qed
  have 2: "(c AND NOT RST) AND RST = 0" for c :: u32 by (simp add: and.assoc)
  have 3: "reset_wait 2 x = (if fst (GetRegister CTRL x) AND RST = 0 then Some x
      else if fst (GetRegister CTRL (reset_done x)) AND RST = 0 then Some (reset_done x) else None)" for x
    by (simp only: numeral_2_eq_2 reset_wait.simps)
  show ?thesis
    using 1 2 by (simp add: Reset_nic_def 3 GetRegister_def SetRegister_def reset_done_def)
qed

lemma Start_spec:
  assumes "LoadFromPCI p n0 = Inr n1" and "pool s (a # b # c # ps @ qs)" and "length ps = 16"
  shows "\<exists>n t. Start p n0 s = Ret n t \<and> nic_ready ps n \<and> pool t qs \<and> irq_lines t = irq_lines s @ [irq_line p]
    \<and> MACAddress n = bytes32 (regs n1 RAL0) @ bytes16 (ucast (regs n1 RAH0)) \<and> adapters t = adapters s"
proof -
  obtain n2 where n2: "Reset_nic n1 = Some n2" "n2 = n1\<lparr>regs := (regs n1)(CTRL := regs n2 CTRL)\<rparr>"
    using Reset_nic_spec by blast
  have same: "IRQLine n2 = IRQLine n1" "regs n2 RAL0 = regs n1 RAL0" "regs n2 RAH0 = regs n1 RAH0"
    by (subst n2(2), simp)+
  have line: "IRQLine n1 = irq_line p" using assms(1) by (auto simp: LoadFromPCI_def split: sum.splits)
  let ?s1 = "s\<lparr>freelist := ld64 (kmem_mem s) a\<rparr>"
  have new: "operator_new s = Ret a ?s1" and p1: "pool ?s1 (b # c # ps @ qs)"
    using pool_Cons [OF assms(2)] page_ok_nonzero [OF assms(2)] assms(2)
    by (auto simp: operator_new_def kmon_defs pool_def)
  let ?n3 = "EnableInterrupts (LoadMACAddress (EnableAutoSpeed n2))"
  let ?s2 = "?s1\<lparr>irq_lines := irq_lines s @ [irq_line p]\<rparr>"
  have reg: "RegisterInterruptHandler (LoadMACAddress (EnableAutoSpeed n2)) ?s1 = Ret ?n3 ?s2"
    using line before_setup(2) same(1) by (simp add: RegisterInterruptHandler_def kmon_defs)
  have p2: "pool ?s2 (b # c # ps @ qs)" using p1 by (simp add: pool_def page_ok_def list_all_iff)
  let ?n4 = "InitMulticastTableArray ?n3"
  obtain n5 s3 where s3: "SetupPacketTransmission ?n4 ?s2 = Ret n5 s3" "pool s3 (c # ps @ qs)" "tx_idle n5"
    "MACAddress n5 = MACAddress ?n4" "regs n5 IMS = regs ?n4 IMS" "irq_lines s3 = irq_lines ?s2" "adapters s3 = adapters ?s2"
    using SetupPacketTransmission_spec [OF p2] by blast
  obtain n6 s4 where s4: "SetupPacketReception n5 s3 = Ret n6 s4" "pool s4 qs" "RDescLayout n6 = map fresh_rdesc ps"
    "regs n6 RDH = 0" "regs n6 RDT = 15" "regs n6 RDLEN = 256" "regs n6 RCTL AND EN \<noteq> 0" "MACAddress n6 = MACAddress n5"
    "regs n6 IMS = regs n5 IMS" "TDescLayout n6 = TDescLayout n5" "\<forall>r \<in> {TDH, TDT, TDLEN, TCTL}. regs n6 r = regs n5 r"
    "irq_lines s4 = irq_lines s3" "adapters s4 = adapters s3"
    using SetupPacketReception_spec [OF s3(2) assms(3)] by blast
  have run: "Start p n0 s = Ret n6 s4"
    using new reg s3(1) s4(1) n2(1) assms(1) by (simp add: Start_def kbind_def)
  have "nic_ready ps n6" using s3 s4 EnableInterrupts_on InitMulticast_keeps(1) assms(3) by (simp add: nic_ready_def tx_idle_def rx_idle_def)
  with run s3 s4 show ?thesis using before_setup(1) same by (simp add: InitMulticast_keeps(2))
qed

section \<open>Properties\<close>


definition nic_demo :: "rdesc \<Rightarrow> nic" where
  "nic_demo x = \<lparr>regs = (\<lambda>_. 0)(RDT := 14, TDLEN := 256, TCTL := 2, TDT := 15, TDH := 15), PortBaseAddress = 0, MMIOBaseAddress = 0,
     MACAddress = [2, 0, 0, 0, 0, 1], IRQLine = 11,
     RDescLayout = [\<lparr>rBufferAddress = 4096, rLength = 60, rStatus = 3, rErrors = 0\<rparr>, x]
       @ replicate 13 \<lparr>rBufferAddress = 0, rLength = 0, rStatus = 0, rErrors = 0\<rparr>
       @ [\<lparr>rBufferAddress = 8192, rLength = 100, rStatus = 3, rErrors = 0\<rparr>],
     TDescLayout = replicate 16 \<lparr>tBuffer = [], tLength = 0, tCommand = 0, tStatus = 0\<rparr>, wire = []\<rparr>"

definition netdev_demo :: "rdesc \<Rightarrow> netdev" where
  "netdev_demo x = \<lparr>kmem_mem = (\<lambda>_. 7), kend = 0xFFFFFFFF80100000, freelist = 0, use_lock = True, kalloc_fullysetup = True,
     NetworkAdapterList = 4096, adapters = [nic_demo x], irq_lines = [], stack_junk = replicate 1518 0\<rparr>"


text \<open>C34: When the next \<open>k\<close> descriptors of the receive ring hold complete packets of at most 1518 bytes and the one
  behind them is empty (or the whole ring is full), \<open>Receive\<close> returns the \<open>k\<close> frames in ring order, across the
  wrap of the ring, each with the bytes of its buffer, gives the descriptors back and moves the tail by \<open>k\<close>.\<close>

theorem receive_batch:
  assumes "rx_idle (nic_of d s)" and "k \<le> 16"
    and "\<forall>i<k. rx_good (RDescLayout (nic_of d s) ! rx_slot (nic_of d s) i)"
    and "k = 16 \<or> rStatus (RDescLayout (nic_of d s) ! rx_slot (nic_of d s) k) AND RX_DD = 0"
  shows "Receive d s = Ret (Frames (map (\<lambda>i. rx_frame (stack_junk s) (kmem_mem s)
      (RDescLayout (nic_of d s) ! rx_slot (nic_of d s) i)) [0..<k])) (set_nic d (rx_taken k (nic_of d s)) s)"
proof -
  obtain e where e: "17 = k + Suc e" using assms(2) less_imp_Suc_add [of k 17] by auto
  then show ?thesis
    using Receive_loop_takes [OF assms(1,2), of "Suc e"] Receive_loop_stops [OF assms(1,2,4)] assms(3)
    by (simp add: Receive_def)
qed

theorem receive_batch_witness:
  "\<exists>s :: netdev. rx_idle (nic_of 0 s) \<and> rx_slot (nic_of 0 s) 0 = 15 \<and> rx_slot (nic_of 0 s) 1 = 0 \<and>
     Receive 0 s = Ret (Frames [rx_frame (stack_junk s) (kmem_mem s) (RDescLayout (nic_of 0 s) ! 15),
       rx_frame (stack_junk s) (kmem_mem s) (RDescLayout (nic_of 0 s) ! 0)]) (set_nic 0 (rx_taken 2 (nic_of 0 s)) s)"
proof -
  define s where "s = netdev_demo \<lparr>rBufferAddress = 0, rLength = 0, rStatus = 0, rErrors = 0\<rparr>"
  have i: "rx_idle (nic_of 0 s)" and slot: "rx_slot (nic_of 0 s) 0 = 15" "rx_slot (nic_of 0 s) 1 = 0" "rx_slot (nic_of 0 s) 2 = 1"
    by (simp_all add: s_def netdev_demo_def nic_demo_def rx_idle_def nic_of_def rx_slot_def)
  have "rx_good (RDescLayout (nic_of 0 s) ! 15)" "rx_good (RDescLayout (nic_of 0 s) ! 0)"
    and e: "rStatus (RDescLayout (nic_of 0 s) ! 1) AND RX_DD = 0"
    by (simp_all add: s_def netdev_demo_def nic_demo_def nic_of_def rx_good_def nth_append)
  then have "\<forall>i<2. rx_good (RDescLayout (nic_of 0 s) ! rx_slot (nic_of 0 s) i)"
    using slot by (simp add: numeral_2_eq_2 less_Suc_eq)
  moreover have "[0..<2] = [0, 1::nat]" by code_simp
  ultimately show ?thesis
    using receive_batch [of 0 s 2] i slot e by (intro exI [of _ s]) simp
qed

text \<open>C35: A descriptor that holds a packet shorter than 60 bytes, one without end-of-packet or one with an error
  stops reception for good. \<open>Receive\<close> returns an error and neither gives the descriptor back nor moves the tail
  past it, so that every later call meets the same descriptor and returns the same error with the adapter unchanged;
  the complete packets in front of it in the same batch are given back to the ring and lost.\<close>

theorem receive_stuck:
  assumes "rx_idle (nic_of d s)" and "k < 16" and "d < length (adapters s)"
    and "\<forall>i<k. rx_good (RDescLayout (nic_of d s) ! rx_slot (nic_of d s) i)"
    and "rx_bad (RDescLayout (nic_of d s) ! rx_slot (nic_of d s) k)"
  shows "\<exists>r. (\<forall>fs. r \<noteq> Frames fs) \<and> Receive d s = Ret r (set_nic d (rx_taken k (nic_of d s)) s)
    \<and> Receive d (set_nic d (rx_taken k (nic_of d s)) s) = Ret r (set_nic d (rx_taken k (nic_of d s)) s)"
proof -
  let ?n = "nic_of d s" and ?j = "stack_junk s" and ?m = "kmem_mem s"
  obtain e where e: "17 = k + Suc e" using assms(2) less_imp_Suc_add [of k 17] by auto
  note next' = rx_taken_next [OF assms(1,2)]
  have bad: "rx_bad (RDescLayout (rx_taken k ?n) ! rx_slot (rx_taken k ?n) 0)" using next' assms(5) by simp
  have r: "\<exists>r. (\<forall>fs. r \<noteq> Frames fs) \<and> (\<forall>e acc. Receive_loop (Suc e) ?j ?m acc (rx_taken k ?n) = Inr (r, rx_taken k ?n))"
    using bad by (auto simp: rx_bad_def GetRegister_def Let_def rx_slot_def word_less_nat_alt)
  then obtain r where r: "\<forall>fs. r \<noteq> Frames fs" "\<And>e acc. Receive_loop (Suc e) ?j ?m acc (rx_taken k ?n) = Inr (r, rx_taken k ?n)"
    by blast
  have "Receive d s = Ret r (set_nic d (rx_taken k ?n) s)"
    using Receive_loop_takes [OF assms(1), of k "Suc e" ?j ?m "[]"] r(2) e assms(2,4) by (simp add: Receive_def del: Receive_loop.simps)
  moreover have "Receive_loop 17 ?j ?m [] (rx_taken k ?n) = Inr (r, rx_taken k ?n)"
    using r(2) [of 16] by (simp del: Receive_loop.simps)
  then have "Receive d (set_nic d (rx_taken k ?n) s) = Ret r (set_nic d (rx_taken k ?n) s)"
    using assms(3) by (simp add: Receive_def nic_of_def set_nic_def del: Receive_loop.simps)
  ultimately show ?thesis using r(1) by blast
qed

theorem receive_stuck_witness:
  "\<exists>s t :: netdev. rx_good (RDescLayout (nic_of 0 s) ! 0) \<and> rLength (RDescLayout (nic_of 0 s) ! 1) = 42
     \<and> (\<exists>r. (\<forall>fs. r \<noteq> Frames fs) \<and> Receive 0 s = Ret r t \<and> Receive 0 t = Ret r t)"
proof -
  define s where "s = netdev_demo \<lparr>rBufferAddress = 0, rLength = 42, rStatus = 3, rErrors = 0\<rparr>"
  have i: "rx_idle (nic_of 0 s)" and slot: "rx_slot (nic_of 0 s) 0 = 15" "rx_slot (nic_of 0 s) (Suc 0) = 0" "rx_slot (nic_of 0 s) 2 = 1"
    by (simp_all add: s_def netdev_demo_def nic_demo_def rx_idle_def nic_of_def rx_slot_def)
  have g: "rx_good (RDescLayout (nic_of 0 s) ! 15)" "rx_good (RDescLayout (nic_of 0 s) ! 0)"
    and b: "rx_bad (RDescLayout (nic_of 0 s) ! 1)" "rLength (RDescLayout (nic_of 0 s) ! 1) = 42" and l: "0 < length (adapters s)"
    by (simp_all add: s_def netdev_demo_def nic_demo_def nic_of_def rx_good_def rx_bad_def nth_append)
  have all: "\<forall>i<2. rx_good (RDescLayout (nic_of 0 s) ! rx_slot (nic_of 0 s) i)"
    using slot g by (simp add: numeral_2_eq_2 less_Suc_eq)
  have "rx_bad (RDescLayout (nic_of 0 s) ! rx_slot (nic_of 0 s) 2)" using slot b by simp
  from receive_stuck [OF i _ l all this] g(2) b(2) show ?thesis by (metis (no_types, lifting) numeral_less_iff semiring_norm(76,78,79))
qed

text \<open>\<open>Start\<close> with nineteen free pages and a device whose base addresses are accepted returns an adapter that is
  ready: transmission enabled on an empty ring of sixteen descriptors, reception enabled on a ring of sixteen empty
  descriptors, each with a page of its own, the tail at the last of them, the receive interrupt unmasked and its line
  routed, and the hardware address of the receive-address registers.\<close>

theorem start_ready:
  assumes "LoadFromPCI p n0 = Inr n1" and "pool s (a # b # c # ps @ qs)" and "length ps = 16"
  shows "\<exists>n t. Start p n0 s = Ret n t \<and> nic_ready ps n \<and> pool t qs \<and> irq_lines t = irq_lines s @ [irq_line p]
    \<and> MACAddress n = bytes32 (regs n1 RAL0) @ bytes16 (ucast (regs n1 RAH0))"
  using Start_spec [OF assms] by blast

definition pci_demo :: pci_func where
  "pci_demo = \<lparr>dev_id = 0x100E8086, reg_base = [0xF0000000, 0xC000, 0, 0, 0, 0], reg_size = [0x20000, 64, 0, 0, 0, 0], irq_line = 11\<rparr>"

theorem start_ready_witness:
  "\<exists>(s :: netdev) ps n t. Start pci_demo (nic_demo \<lparr>rBufferAddress = 0, rLength = 0, rStatus = 0, rErrors = 0\<rparr>) s = Ret n t
     \<and> nic_ready ps n \<and> length ps = 16 \<and> irq_lines t = irq_lines s @ [11]"
proof -
  let ?z = "netdev_demo \<lparr>rBufferAddress = 0, rLength = 0, rStatus = 0, rErrors = 0\<rparr>"
  let ?n = "nic_demo \<lparr>rBufferAddress = 0, rLength = 0, rStatus = 0, rErrors = 0\<rparr>"
  have "pool ?z []" by (simp add: pool_def netdev_demo_def)
  moreover have "kend ?z \<le> p2v 0x200000" by (simp add: netdev_demo_def p2v_def)
  ultimately obtain s :: netdev where s: "pool s (rev (page_list (p2v 0x200000) 19) @ [])"
    using freerange_range [of ?z "[]" "0x200000" 19] by auto
  have three: "\<exists>a b c ps. xs = a # b # c # ps \<and> length ps = k" if "length xs = Suc (Suc (Suc k))" for xs :: "u64 list" and k
    using that by (auto simp: length_Suc_conv)
  have "length (rev (page_list (p2v 0x200000) 19)) = 19" unfolding page_list_def by simp
  then obtain a b c ps where "rev (page_list (p2v 0x200000) 19) = a # b # c # ps" and ps: "length ps = 16"
    using three [of "rev (page_list (p2v 0x200000) 19)" 16] by (simp del: rev_eq_Cons_iff) blast
  then have pool: "pool s (a # b # c # ps @ [])" using s by simp
  have "[0..<6] = [0, 1, 2, 3, 4, 5::nat]" by code_simp
  then have "LoadFromPCI pci_demo ?n = Inr (?n\<lparr>PortBaseAddress := 0xC000, MMIOBaseAddress := 0xF0000000, IRQLine := 11\<rparr>)"
    by (simp add: LoadFromPCI_def LoadBaseAddresses_def pci_demo_def nic_demo_def)
  from start_ready [OF this pool ps] ps show ?thesis by (auto simp: pci_demo_def)
qed

end
