(* ===== verification/Net_Checksum.thy ===== *)
theory Net_Checksum
  imports Xv_Prelude
begin

text \<open>
  The checksum of the Internet protocols, as \<open>IPv4::VerifyChecksum\<close> and \<open>ICMPv4::VerifyChecksum\<close> of
  \<open>kernel/UProtocols.cc\<close> compute it, and the random numbers of \<open>include/URandom.tcc\<close>.

  Both functions add up the 16-bit words of their part of a packet in a \<open>DWORD\<close>, leaving out the checksum field
  when they compute it, fold the carries back in until none is left and return the complement. The loop of the
  fold is \<open>fold16\<close>, with its termination proof. The locale \<open>checksum_field\<close> is what a packet format has to provide for
  the checksum to work: words, and a field for the sum that can be set without changing the other words.
\<close>

unbundle bit_operations_syntax

section \<open>Definitions\<close>

lemma fold_step:
  "unat ((x AND 0xFFFF) + drop_bit 16 x) = unat x mod 65536 + unat x div 65536" for x :: u32
proof -
  have m: "x AND 0xFFFF = take_bit 16 x" by (simp add: take_bit_eq_mask mask_eq_exp_minus_1)
  have lo: "unat (x AND 0xFFFF) = unat x mod 65536" unfolding m by (simp add: take_bit_eq_mod unat_mod_word)
  have hi: "unat (drop_bit 16 x) = unat x div 65536" by (simp add: unat_div drop_bit_eq_div)
  have "unat x < 4294967296" using unsigned_less [of x] by simp
  then have "unat x div 65536 < 65536" by (simp add: less_mult_imp_div_less)
  then have "unat x mod 65536 + unat x div 65536 < 4294967296" using mod_less_divisor [of 65536 "unat x"] by linarith
  then show ?thesis using lo hi by (simp add: unat_word_ariths)
qed

lemma drop16_zero: "drop_bit 16 x = 0 \<longleftrightarrow> unat x < 65536" for x :: u32
proof -
  have "unat (drop_bit 16 x) = unat x div 65536" by (simp add: unat_div drop_bit_eq_div)
  then show ?thesis by (metis div_eq_0_iff unat_eq_zero zero_neq_numeral)
qed

text \<open>The loop that adds the upper half of the sum to the lower one.\<close>

function fold16 :: "u32 \<Rightarrow> u32" where
  "fold16 x = (if drop_bit 16 x \<noteq> 0 then fold16 ((x AND 0xFFFF) + drop_bit 16 x) else x)"
  by pat_completeness auto
termination
proof (relation "measure unat")
  fix x :: u32 assume "drop_bit 16 x \<noteq> 0"
  then have "0 < unat x div 65536" using drop16_zero [of x] by (simp add: div_greater_zero_iff)
  moreover have "unat x = 65536 * (unat x div 65536) + unat x mod 65536" by simp
  ultimately have "unat x mod 65536 + unat x div 65536 < unat x" by linarith
  then show "((x AND 0xFFFF) + drop_bit 16 x, x) \<in> measure unat" by (simp only: in_measure fold_step)
qed simp

declare fold16.simps [simp del]

definition checksum16 :: "u32 \<Rightarrow> u16" where
  "checksum16 x = ucast (NOT (fold16 x))"

definition word_sum :: "bool \<Rightarrow> nat \<Rightarrow> nat \<Rightarrow> (nat \<Rightarrow> u16) \<Rightarrow> u32" where
  "word_sum ComputeOnly pos n w =
     foldl (\<lambda>a i. if ComputeOnly \<and> i = pos then a else a + ucast (w i)) 0 [0..<n]"

subsection \<open>Random numbers\<close>

record mt19937l =
  MT :: "u32 list"
  Index :: nat

fun mt_init :: "nat \<Rightarrow> u32 list \<Rightarrow> u32 list" where
  "mt_init 0 mt = mt"
| "mt_init (Suc k) mt =
     (let p = last mt in mt_init k (mt @ [0x6C078965 * (p XOR drop_bit 30 p) + of_nat (length mt)]))"

definition MT_Init :: "u32 \<Rightarrow> mt19937l" where
  "MT_Init Seed = \<lparr>MT = mt_init 623 [Seed], Index = 0\<rparr>"

definition Gen :: "mt19937l \<Rightarrow> u32 \<times> mt19937l" where
  "Gen e =
     (let Index2 = (Index e + 1) mod 624;
          Mask = push_bit 31 1 - 1 :: u64;
          Yp = (ucast (MT e ! Index e) AND NOT Mask) OR (ucast (MT e ! Index2) AND Mask);
          Index3 = (Index e + 397) mod 624;
          v = ucast (ucast (MT e ! Index3) XOR drop_bit 1 Yp XOR (0x9908B0DF * (Yp AND 1))) :: u32;
          Z = ucast (v XOR (drop_bit 11 v AND 0xFFFFFFFF)) :: u64;
          Z1 = Z XOR (push_bit 7 Z AND 0x9D2C5680);
          Z2 = Z1 XOR (push_bit 15 Z1 AND 0xEFC60000)
      in (ucast (Z2 XOR drop_bit 18 Z2), \<lparr>MT = (MT e)[Index e := v], Index = Index2\<rparr>))"

section \<open>The folded sum\<close>

text \<open>Folding keeps the sum modulo \<open>2^16 - 1\<close>, and it is zero only for zero.\<close>

lemma fold16_spec:
  "unat (fold16 x) < 65536 \<and> unat (fold16 x) mod 65535 = unat x mod 65535 \<and> (unat (fold16 x) = 0 \<longleftrightarrow> unat x = 0)
    \<and> unat (fold16 x) \<le> unat x"
proof (induction x rule: fold16.induct)
  case (1 x)
  show ?case
  proof (cases "drop_bit 16 x = 0")
    case True
    then show ?thesis by (simp add: fold16.simps [of x] drop16_zero)
  next
    case False
    let ?y = "(x AND 0xFFFF) + drop_bit 16 x"
    define q r where "q = unat x div 65536" and "r = unat x mod 65536"
    have x: "unat x = 65535 * q + (r + q)" using mult_div_mod_eq [of 65536 "unat x"] by (simp add: q_def r_def)
    have y: "unat ?y = r + q" using fold_step [of x] by (simp add: q_def r_def)
    have "unat ?y mod 65535 = unat x mod 65535" unfolding x y by (rule mod_mult_self4 [symmetric])
    moreover have "unat ?y = 0 \<longleftrightarrow> unat x = 0" "unat ?y \<le> unat x" unfolding x y by auto
    ultimately show ?thesis using 1 [OF False] False by (simp add: fold16.simps [of x])
  qed
qed

lemma unat_not16: "unat (NOT z) = 65535 - unat z" for z :: u16
proof -
  have "NOT z = - 1 - z" by (simp add: not_eq_complement)
  moreover have "z \<le> - 1" by (rule word_order.extremum)
  moreover have "unat (- 1 :: u16) = 65535" by (simp add: unsigned_minus_1_eq_mask mask_eq_exp_minus_1)
  ultimately show ?thesis by (simp add: unat_sub)
qed

lemma checksum16_nat: "unat (checksum16 x) = 65535 - unat (fold16 x)"
proof -
  let ?y = "fold16 x"
  have "ucast (NOT ?y) = NOT (ucast ?y :: u16)" by (rule bit_word_eqI) (simp add: bit_simps)
  moreover have "unat (ucast ?y :: u16) = unat ?y"
    using fold16_spec [of x] by (simp add: unsigned_ucast_eq take_bit_eq_mod)
  ultimately show ?thesis by (simp add: checksum16_def unat_not16)
qed

lemma checksum16_zero: "checksum16 x = 0 \<longleftrightarrow> unat x mod 65535 = 0 \<and> x \<noteq> 0"
proof -
  have f: "unat (fold16 x) < 65536" "unat (fold16 x) mod 65535 = unat x mod 65535" "unat (fold16 x) = 0 \<longleftrightarrow> x = 0"
    using fold16_spec [of x] by (auto simp: unat_eq_zero)
  have "checksum16 x = 0 \<longleftrightarrow> unat (checksum16 x) = 0" by (simp add: unat_eq_zero)
  also have "\<dots> \<longleftrightarrow> unat (fold16 x) = 65535" using f(1) unfolding checksum16_nat by linarith
  also have "\<dots> \<longleftrightarrow> unat x mod 65535 = 0 \<and> x \<noteq> 0"
  proof (cases "unat (fold16 x) = 65535")
    case True
    then show ?thesis using f(2,3) by auto
  next
    case False
    then have "unat (fold16 x) mod 65535 = unat (fold16 x)" using f(1) by simp
    then show ?thesis using f False by auto
  qed
  finally show ?thesis .
qed

section \<open>Adding up\<close>

lemma u16_bound: "unat (a :: u16) < 65536"
  using unsigned_less [where 'a = nat, of a] by simp

lemma word_sum_nat_upto:
  "m \<le> 65536 \<Longrightarrow> unat (foldl (\<lambda>a i. if c \<and> i = pos then a else a + ucast (w i)) 0 [0..<m] :: u32)
    = (\<Sum>i<m. if c \<and> i = pos then 0 else unat (w i)) \<and> (\<Sum>i<m. if c \<and> i = pos then 0 else unat (w i)) \<le> m * 65535"
  for w :: "nat \<Rightarrow> u16"
proof (induction m)
  case (Suc m)
  have b: "unat (w m) \<le> 65535" using u16_bound [of "w m"] by simp
  have u: "unat (ucast (w m) :: u32) = unat (w m)" by (simp add: unsigned_ucast_eq take_bit_eq_mod) (use b in simp)
  have "(\<Sum>i<m. if c \<and> i = pos then 0 else unat (w i)) + unat (w m) < 4294967296" using Suc b by simp
  then show ?case using Suc b u by (auto simp: unat_word_ariths)
qed simp

lemma word_sum_nat:
  "n \<le> 65536 \<Longrightarrow> unat (word_sum c pos n w) = (\<Sum>i<n. if c \<and> i = pos then 0 else unat (w i))"
  using word_sum_nat_upto [of n c pos w] by (simp add: word_sum_def)

text \<open>A computed checksum, put into its field, makes the sum verify.\<close>

lemma checksum_verifies:
  assumes "n \<le> 65536" and "pos < n"
    and "\<And>i. i < n \<Longrightarrow> v i = (if i = pos then checksum16 (word_sum True pos n w) else w i)"
  shows "checksum16 (word_sum False pos n v) = 0"
proof -
  let ?s = "word_sum True pos n w" and ?r = "unat (fold16 (word_sum True pos n w))"
  have r: "?r < 65536" "?r mod 65535 = unat ?s mod 65535" "?r \<le> unat ?s" using fold16_spec [of ?s] by auto
  have "unat (word_sum False pos n v) = (\<Sum>i<n. unat (v i))" using word_sum_nat [OF assms(1), of False] by simp
  also have "\<dots> = unat (v pos) + (\<Sum>i\<in>{..<n} - {pos}. unat (v i))"
    using assms(2) by (intro sum.remove) auto
  also have "(\<Sum>i\<in>{..<n} - {pos}. unat (v i)) = (\<Sum>i\<in>{..<n} - {pos}. if True \<and> i = pos then 0 else unat (w i))"
    using assms(3) by (intro sum.cong) auto
  also have "\<dots> = (\<Sum>i<n. if True \<and> i = pos then 0 else unat (w i))"
    using assms(2) by (subst (2) sum.remove [of _ pos]) auto
  also have "\<dots> = unat ?s" using word_sum_nat [OF assms(1), of True] by simp
  finally have t: "unat (word_sum False pos n v) = 65535 - ?r + unat ?s"
    using assms(3) [of pos] assms(2) checksum16_nat [of ?s] by simp
  have "unat (word_sum False pos n v) = 65535 + (unat ?s - ?r)" using t r by linarith
  moreover have "(unat ?s - ?r) mod 65535 = 0" using r(2) mod_eq_dvd_iff_nat [OF r(3), of 65535] by (metis dvd_imp_mod_0)
  ultimately have "unat (word_sum False pos n v) mod 65535 = 0" "unat (word_sum False pos n v) \<noteq> 0" by auto
  then show ?thesis unfolding checksum16_zero by auto
qed

text \<open>Two sums that both verify differ nowhere, if they differ in at most one word; zero and its complement apart.\<close>

lemma checksum_one_word:
  assumes "n \<le> 65536" and "j < n" and "\<And>i. i < n \<Longrightarrow> i \<noteq> j \<Longrightarrow> v i = w i"
    and "checksum16 (word_sum False pos n v) = 0" and "checksum16 (word_sum False pos n w) = 0"
  shows "unat (v j) mod 65535 = unat (w j) mod 65535"
proof -
  let ?rest = "\<lambda>u :: nat \<Rightarrow> u16. \<Sum>i\<in>{..<n} - {j}. unat (u i)"
  have s: "unat (word_sum False pos n u) = unat (u j) + ?rest u" for u
    using word_sum_nat [OF assms(1), of False] assms(2) sum.remove [of "{..<n}" j "\<lambda>i. unat (u i)"] by simp
  have "?rest v = ?rest w" using assms(3) by (intro sum.cong) auto
  moreover have "unat (word_sum False pos n v) mod 65535 = 0" "unat (word_sum False pos n w) mod 65535 = 0"
    using assms(4,5) by (simp_all add: checksum16_zero)
  ultimately have "(unat (v j) + ?rest v) mod 65535 = (unat (w j) + ?rest v) mod 65535" by (simp add: s)
  then obtain p q where "unat (v j) + ?rest v + 65535 * p = unat (w j) + ?rest v + 65535 * q"
    unfolding nat_mod_eq_iff by blast
  then have "unat (v j) + 65535 * p = unat (w j) + 65535 * q" by linarith
  then show ?thesis unfolding nat_mod_eq_iff by blast
qed

section \<open>Packets with a checksum\<close>

locale checksum_field =
  fixes words :: "'f \<Rightarrow> nat \<Rightarrow> u16" and count :: "'f \<Rightarrow> nat" and pos :: nat and put :: "u16 \<Rightarrow> 'f \<Rightarrow> 'f"
    and ok :: "'f \<Rightarrow> bool"
  assumes put_words: "ok f \<Longrightarrow> i < count f \<Longrightarrow> words (put c f) i = (if i = pos then c else words f i)"
    and put_count: "ok f \<Longrightarrow> count (put c f) = count f"
    and count_small: "ok f \<Longrightarrow> count f \<le> 65536"
    and pos_in: "ok f \<Longrightarrow> pos < count f"
begin

lemma sealed:
  assumes "ok f" and "g = put (checksum16 (word_sum True pos (count f) (words f))) f"
  shows "checksum16 (word_sum False pos (count g) (words g)) = 0"
  using assms put_words put_count count_small pos_in
  by (intro checksum_verifies [where w = "words f"]) auto

lemma damaged:
  assumes "ok f" and "count g = count f" and "j < count f" and "\<And>i. i < count f \<Longrightarrow> i \<noteq> j \<Longrightarrow> words g i = words f i"
    and "checksum16 (word_sum False pos (count f) (words f)) = 0"
    and "unat (words g j) mod 65535 \<noteq> unat (words f j) mod 65535"
  shows "checksum16 (word_sum False pos (count g) (words g)) \<noteq> 0"
  using checksum_one_word [OF count_small [OF assms(1)] assms(3), of "words g" "words f" pos] assms by auto

end

end
