(* ===== verification/Net_Ip.thy ===== *)
theory Net_Ip
  imports Net_Adapter Net_List Net_Checksum
begin

text \<open>
  IPv4: the packet class, the address table and the routing table of \<open>kernel/UProtocols.cc\<close> and
  \<open>include/UProtocols.hh\<close>. Sending and dispatch, which need ARP, are in \<open>Net_Icmp\<close>.

  An \<open>IPv4\<close> is an Ethernet frame. Its own \<open>GetData\<close>, \<open>SetData\<close> and \<open>DataSize\<close> count behind the IP header; they have the suffix
  \<open>_IP\<close>, and a call of \<open>Mybase::GetData\<close> is one of the functions of \<open>Net_Frame\<close>. The setters of the fields that share a
  byte read the old byte with the class's own \<open>GetDataAs\<close>, hence from the payload and not from the header, as the source does.

  An adapter is named by its index in \<open>NetworkAdapterList\<close>; the interface of a route may be null. An iterator of a table is
  an index, and the end of the table its length. Addresses are in the byte order of the network, as the source keeps them.
  \<open>RouteTableMatch\<close> is \<open>None\<close> where it does not return, and an error where it reads outside the array of the table.
\<close>

unbundle bit_operations_syntax

section \<open>Definitions\<close>

subsection \<open>Fields\<close>

abbreviation (input) EtherType_IP :: u16 where "EtherType_IP \<equiv> 0x0800"
abbreviation (input) IPTableSize :: nat where "IPTableSize \<equiv> 100"
abbreviation (input) RouteTableSize :: nat where "RouteTableSize \<equiv> 30"
abbreviation (input) ProtocolTableSize :: nat where "ProtocolTableSize \<equiv> 0xFF"
abbreviation (input) HeaderSizeMin :: nat where "HeaderSizeMin \<equiv> 20"
abbreviation (input) Version :: nat where "Version \<equiv> 0"
abbreviation (input) VersionMask :: u8 where "VersionMask \<equiv> 0xF0"
abbreviation (input) InternetHeaderLength :: nat where "InternetHeaderLength \<equiv> 0"
abbreviation (input) IHLMask :: u8 where "IHLMask \<equiv> 0x0F"
abbreviation (input) DifferentiatedServicesCodePoint :: nat where "DifferentiatedServicesCodePoint \<equiv> 1"
abbreviation (input) DSCPMask :: u8 where "DSCPMask \<equiv> 0xFC"
abbreviation (input) ExplicitCongestionNotification :: nat where "ExplicitCongestionNotification \<equiv> 1"
abbreviation (input) ECNMask :: u8 where "ECNMask \<equiv> 0x03"
abbreviation (input) TotalLength :: nat where "TotalLength \<equiv> 2"
abbreviation (input) Identification :: nat where "Identification \<equiv> 4"
abbreviation (input) IPFlags :: nat where "IPFlags \<equiv> 6"
abbreviation (input) FlagsMask :: u16 where "FlagsMask \<equiv> 0xE000"
abbreviation (input) FragmentOffset :: nat where "FragmentOffset \<equiv> 6"
abbreviation (input) FragmentOffsetMask :: u16 where "FragmentOffsetMask \<equiv> 0x1FFF"
abbreviation (input) TimeToLive :: nat where "TimeToLive \<equiv> 8"
abbreviation (input) Protocol :: nat where "Protocol \<equiv> 9"
abbreviation (input) HeaderChecksum :: nat where "HeaderChecksum \<equiv> 10"
abbreviation (input) SourceAddress :: nat where "SourceAddress \<equiv> 12"
abbreviation (input) DestinationAddress :: nat where "DestinationAddress \<equiv> 16"
abbreviation (input) Options :: nat where "Options \<equiv> 20"
abbreviation (input) FlagDF :: u16 where "FlagDF \<equiv> 2"
abbreviation (input) P_ICMP :: u8 where "P_ICMP \<equiv> 1"
abbreviation (input) P_TCP :: u8 where "P_TCP \<equiv> 6"
abbreviation (input) P_UDP :: u8 where "P_UDP \<equiv> 17"
abbreviation (input) RTF_UP :: u16 where "RTF_UP \<equiv> 1"
abbreviation (input) RTF_GATEWAY :: u16 where "RTF_GATEWAY \<equiv> 2"
abbreviation (input) RTF_HOST :: u16 where "RTF_HOST \<equiv> 4"

definition GetVersion :: "frame \<Rightarrow> u8" where
  "GetVersion f = drop_bit 4 (GetDataAs8 Version f AND VersionMask)"

definition GetInternetHeaderLength :: "frame \<Rightarrow> u8" where
  "GetInternetHeaderLength f = GetDataAs8 InternetHeaderLength f AND IHLMask"

definition GetDifferentiatedServicesCodePoint :: "frame \<Rightarrow> u8" where
  "GetDifferentiatedServicesCodePoint f = drop_bit 2 (GetDataAs8 DifferentiatedServicesCodePoint f AND DSCPMask)"

definition GetExplicitCongestionNotification :: "frame \<Rightarrow> u8" where
  "GetExplicitCongestionNotification f = GetDataAs8 ExplicitCongestionNotification f AND ECNMask"

definition GetTotalLength :: "frame \<Rightarrow> u16" where
  "GetTotalLength f = GetDataAs16 TotalLength True f"

definition GetIdentification :: "frame \<Rightarrow> u16" where
  "GetIdentification f = GetDataAs16 Identification True f"

definition GetFlags :: "frame \<Rightarrow> u8" where
  "GetFlags f = ucast (drop_bit 13 (GetDataAs16 IPFlags True f AND FlagsMask))"

definition GetFragmentOffset :: "frame \<Rightarrow> u16" where
  "GetFragmentOffset f = GetDataAs16 FragmentOffset True f AND FragmentOffsetMask"

definition GetTimeToLive :: "frame \<Rightarrow> u8" where
  "GetTimeToLive f = GetDataAs8 TimeToLive f"

definition GetProtocol :: "frame \<Rightarrow> u8" where
  "GetProtocol f = GetDataAs8 Protocol f"

definition GetHeaderChecksum :: "frame \<Rightarrow> u16" where
  "GetHeaderChecksum f = GetDataAs16 HeaderChecksum True f"

definition GetSourceAddress :: "frame \<Rightarrow> u32" where
  "GetSourceAddress f = GetDataAs32 SourceAddress False f"

definition GetSourceAddressBE :: "frame \<Rightarrow> u32" where
  "GetSourceAddressBE f = GetDataAs32 SourceAddress True f"

definition GetDestinationAddress :: "frame \<Rightarrow> u32" where
  "GetDestinationAddress f = GetDataAs32 DestinationAddress False f"

definition GetDestinationAddressBE :: "frame \<Rightarrow> u32" where
  "GetDestinationAddressBE f = GetDataAs32 DestinationAddress True f"

text \<open>The size of the header in bytes, \<open>GetInternetHeaderLength() * sizeof(DWORD)\<close>.\<close>

definition header_bytes :: "frame \<Rightarrow> nat" where
  "header_bytes f = unat (GetInternetHeaderLength f) * 4"

definition GetOptions :: "frame \<Rightarrow> u8 list" where
  "GetOptions f = GetData Options (header_bytes f - HeaderSizeMin) False f"

definition GetData_IP :: "nat \<Rightarrow> nat \<Rightarrow> bool \<Rightarrow> frame \<Rightarrow> u8 list" where
  "GetData_IP start n reverse f = GetData (header_bytes f + start) n reverse f"

definition GetDataAs8_IP :: "nat \<Rightarrow> frame \<Rightarrow> u8" where
  "GetDataAs8_IP start f = GetData_IP start 1 True f ! 0"

definition GetDataAs16_IP :: "nat \<Rightarrow> bool \<Rightarrow> frame \<Rightarrow> u16" where
  "GetDataAs16_IP start reverse f = word16 (GetData_IP start 2 reverse f)"

definition SetVersion :: "u8 \<Rightarrow> frame \<Rightarrow> frame" where
  "SetVersion NewVersion f =
     SetDataFrom8 ((GetDataAs8_IP Version f AND NOT VersionMask) OR (push_bit 4 NewVersion AND VersionMask)) Version f"

definition SetInternetHeaderLength :: "u8 \<Rightarrow> frame \<Rightarrow> frame" where
  "SetInternetHeaderLength NewIHL f =
     SetDataFrom8 ((GetDataAs8_IP InternetHeaderLength f AND NOT IHLMask) OR (NewIHL AND IHLMask)) InternetHeaderLength f"

definition SetDifferentiatedServicesCodePoint :: "u8 \<Rightarrow> frame \<Rightarrow> frame" where
  "SetDifferentiatedServicesCodePoint NewDSCP f =
     SetDataFrom8 ((GetDataAs8_IP DifferentiatedServicesCodePoint f AND NOT DSCPMask) OR (push_bit 2 NewDSCP AND DSCPMask)) Version f"

definition SetExplicitCongestionNotification :: "u8 \<Rightarrow> frame \<Rightarrow> frame" where
  "SetExplicitCongestionNotification NewECN f =
     SetDataFrom8 ((GetDataAs8_IP ExplicitCongestionNotification f AND NOT ECNMask) OR (NewECN AND ECNMask)) Version f"

definition SetTotalLength :: "u16 \<Rightarrow> frame \<Rightarrow> frame" where
  "SetTotalLength v f = SetDataFrom16 v TotalLength True f"

definition SetIdentification :: "u16 \<Rightarrow> frame \<Rightarrow> frame" where
  "SetIdentification v f = SetDataFrom16 v Identification True f"

definition SetFlags :: "u16 \<Rightarrow> frame \<Rightarrow> frame" where
  "SetFlags NewFlags f =
     SetDataFrom16 ((GetDataAs16_IP IPFlags True f AND NOT FlagsMask) OR (push_bit 13 NewFlags AND FlagsMask)) IPFlags True f"

definition SetFragmentOffset :: "u16 \<Rightarrow> frame \<Rightarrow> frame" where
  "SetFragmentOffset v f =
     SetDataFrom16 ((GetDataAs16_IP FragmentOffset True f AND NOT FragmentOffsetMask) OR (v AND FragmentOffsetMask))
       FragmentOffset True f"

definition SetTimeToLive :: "u8 \<Rightarrow> frame \<Rightarrow> frame" where
  "SetTimeToLive v f = SetDataFrom8 v TimeToLive f"

definition SetProtocol :: "u8 \<Rightarrow> frame \<Rightarrow> frame" where
  "SetProtocol v f = SetDataFrom8 v Protocol f"

definition SetHeaderChecksum :: "u16 \<Rightarrow> frame \<Rightarrow> frame" where
  "SetHeaderChecksum v f = SetDataFrom16 v HeaderChecksum True f"

definition SetSourceAddress :: "u32 \<Rightarrow> frame \<Rightarrow> frame" where
  "SetSourceAddress v f = SetDataFrom32 v SourceAddress False f"

definition SetDestinationAddress :: "u32 \<Rightarrow> frame \<Rightarrow> frame" where
  "SetDestinationAddress v f = SetDataFrom32 v DestinationAddress False f"

text \<open>With a header length below the minimum the sizes in \<open>SetOptions\<close> are negative; there it is \<open>None\<close>.\<close>

definition SetOptions :: "bool \<Rightarrow> u8 list \<Rightarrow> frame \<Rightarrow> frame option" where
  "SetOptions page src f =
     (let r = header_bytes f - HeaderSizeMin;
          total = HeaderSizeMin + length src;
          words = (if total mod 4 \<noteq> 0 then total div 4 + 1 else total div 4)
      in Option.bind (if header_bytes f < HeaderSizeMin then None
           else if r \<noteq> 0 then EraseData page Options r f else Some f) (\<lambda>g.
         map_option (SetInternetHeaderLength (of_nat words)) (InsertData page src Options g)))"

subsection \<open>Packets\<close>

definition VerifyChecksum_IP :: "bool \<Rightarrow> frame \<Rightarrow> u16" where
  "VerifyChecksum_IP ComputeOnly f =
     checksum16 (word_sum ComputeOnly (HeaderChecksum div 2) (HeaderSizeMin div 2) (\<lambda>i. GetDataAs16 (i * 2) True f))"

definition IsValid_IP :: "frame \<Rightarrow> bool" where
  "IsValid_IP f \<longleftrightarrow> DataSize f \<ge> 20 \<and> VerifyChecksum_IP False f = 0 \<and> GetVersion f = 4 \<and> DataSize f \<ge> header_bytes f
     \<and> DataSize f \<ge> unat (GetTotalLength f) \<and> GetTimeToLive f \<noteq> 0"

definition DataSize_IP :: "frame \<Rightarrow> int" where
  "DataSize_IP f = int (unat (GetTotalLength f)) - int (header_bytes f)"

definition Resize_IP :: "bool \<Rightarrow> u16 \<Rightarrow> frame \<Rightarrow> frame option" where
  "Resize_IP page n f = map_option (SetTotalLength n) (Resize page (HeaderSize + unat n) f)"

definition SetData_IP :: "u8 list \<Rightarrow> nat \<Rightarrow> frame \<Rightarrow> frame" where
  "SetData_IP src start f =
     (let g = SetData src (header_bytes f + start) f in SetTotalLength (of_nat (DataSize g)) g)"

definition SetDataFrom8_IP :: "u8 \<Rightarrow> nat \<Rightarrow> frame \<Rightarrow> frame" where
  "SetDataFrom8_IP v start f = SetData_IP (swap_bytes [v]) start f"

definition SetDataFrom16_IP :: "u16 \<Rightarrow> nat \<Rightarrow> bool \<Rightarrow> frame \<Rightarrow> frame" where
  "SetDataFrom16_IP v start reverse f = SetData_IP (if reverse then swap_bytes (bytes16 v) else bytes16 v) start f"

text \<open>The constructor. The total length is that of \<open>IPv4::DataSize()\<close> on the empty header, converted to a \<open>WORD\<close>.\<close>

definition IPv4_new :: "u8 list \<Rightarrow> frame" where
  "IPv4_new junk =
     (let f = SetFlags FlagDF (SetInternetHeaderLength 5 (SetVersion 4 (SetEtherType EtherType_IP (EthernetFrame_new junk))))
      in SetTotalLength (of_int (DataSize_IP f)) f)"

subsection \<open>Addresses\<close>

definition IPSplit :: "u32 \<Rightarrow> nat \<times> nat \<times> nat \<times> nat" where
  "IPSplit a = (let i = bytes32 a in (unat (i ! 0), unat (i ! 1), unat (i ! 2), unat (i ! 3)))"

function mask_loop :: "u32 \<Rightarrow> nat \<Rightarrow> nat" where
  "mask_loop m n = (if m \<noteq> 0 then mask_loop (drop_bit 1 m) (n + 1) else n)"
  by pat_completeness auto
termination
proof (relation "measure (\<lambda>(m, n). unat m)")
  fix m :: u32 and n :: nat assume "m \<noteq> 0"
  then have "0 < unat m" by (simp add: unat_gt_0)
  moreover have "unat (drop_bit 1 m) = unat m div 2" by (simp add: drop_bit_eq_div unat_div)
  ultimately show "((drop_bit 1 m, n + 1), m, n) \<in> measure (\<lambda>(m, n). unat m)" by simp
qed simp

declare mask_loop.simps [simp del]

definition MaskToNum :: "u32 \<Rightarrow> nat" where
  "MaskToNum m = (if m = 0 then 32 else mask_loop m 0)"

definition GetNetAddress :: "u32 \<Rightarrow> u32 \<Rightarrow> u32" where
  "GetNetAddress a m = a AND m"

definition GetBroadcastAddress :: "u32 \<Rightarrow> u32 \<Rightarrow> u32" where
  "GetBroadcastAddress a m = a OR NOT m"

subsection \<open>Tables\<close>

record ip_item =
  ipAdapter :: nat
  IPAddress :: u32
  SubnetMask :: u32

record route_item =
  rDestination :: u32
  Gateway :: u32
  Genmask :: u32
  rFlags :: u16
  Metric :: u32
  Ref :: u32
  Use :: u32
  Iface :: "nat option"

record netip = netdev +
  AdapterIPAddressTable :: "ip_item list"
  RouteTable :: "route_item list"
  net_ticks :: u32

definition IPFind :: "nat \<Rightarrow> 'a netip_scheme \<Rightarrow> nat" where
  "IPFind d s = list_find (\<lambda>v. d = ipAdapter v) (AdapterIPAddressTable s)"

definition IPFind_addr :: "u32 \<Rightarrow> 'a netip_scheme \<Rightarrow> nat" where
  "IPFind_addr a s = list_find (\<lambda>v. a = IPAddress v) (AdapterIPAddressTable s)"

definition IPAllocate :: "nat \<Rightarrow> u32 \<Rightarrow> u32 \<Rightarrow> ('a netip_scheme, unit) kmon" where
  "IPAllocate d a m s =
     (case push_back IPTableSize \<lparr>ipAdapter = d, IPAddress = a, SubnetMask = m\<rparr> (AdapterIPAddressTable s) of
        None \<Rightarrow> Fault ''AdapterIPAddressTable''
      | Some t \<Rightarrow> Ret () (s\<lparr>AdapterIPAddressTable := t\<rparr>))"

definition IPDelete :: "nat \<Rightarrow> ('a netip_scheme, unit) kmon" where
  "IPDelete d s =
     (let it = IPFind d s in
      if it = length (AdapterIPAddressTable s) then Ret () s
      else Ret () (s\<lparr>AdapterIPAddressTable := erase it (AdapterIPAddressTable s)\<rparr>))"

definition RouteTableAdd :: "route_item \<Rightarrow> ('a netip_scheme, unit) kmon" where
  "RouteTableAdd r s = (case push_back RouteTableSize r (RouteTable s) of
       None \<Rightarrow> Fault ''RouteTable''
     | Some t \<Rightarrow> Ret () (s\<lparr>RouteTable := t\<rparr>))"

definition RouteTableFind :: "(route_item \<Rightarrow> bool) \<Rightarrow> 'a netip_scheme \<Rightarrow> nat" where
  "RouteTableFind Pr s = list_find Pr (RouteTable s)"

definition RouteTableRemove :: "(route_item \<Rightarrow> bool) \<Rightarrow> ('a netip_scheme, unit) kmon" where
  "RouteTableRemove Pr s =
     (let it = RouteTableFind Pr s in
      if it = length (RouteTable s) then Ret () s else Ret () (s\<lparr>RouteTable := erase it (RouteTable s)\<rparr>))"

definition RouteTableUpdate :: "(route_item \<Rightarrow> bool) \<Rightarrow> route_item \<Rightarrow> ('a netip_scheme, unit) kmon" where
  "RouteTableUpdate Pr r s =
     (let it = RouteTableFind Pr s in
      if it = length (RouteTable s) then Ret () s else Ret () (s\<lparr>RouteTable := (RouteTable s)[it := r]\<rparr>))"

definition route_matches :: "u32 \<Rightarrow> route_item \<Rightarrow> bool" where
  "route_matches Target v \<longleftrightarrow> rDestination v AND Genmask v = Target AND Genmask v"

definition no_route :: route_item where
  "no_route = \<lparr>rDestination = 0, Gateway = 0, Genmask = 0, rFlags = 0, Metric = 0, Ref = 0, Use = 0, Iface = None\<rparr>"

function match_loop :: "u32 \<Rightarrow> route_item list \<Rightarrow> nat \<Rightarrow> nat list \<Rightarrow> nat list option" where
  "match_loop Target t First MatchTable =
     (if First = length t then Some MatchTable
      else case find_if (elem_at RouteTableSize no_route t) RouteTableSize First (length t) (route_matches Target) of
        None \<Rightarrow> None
      | Some i \<Rightarrow> match_loop Target t (i + 1) (if i \<noteq> length t then MatchTable @ [i] else MatchTable))"
  by pat_completeness auto
termination
proof (relation "measure (\<lambda>(x, t, first, acc). (RouteTableSize + length t + 1) - first)")
  fix Target t First and i :: nat and MatchTable :: "nat list"
  assume "First \<noteq> length t"
    and "find_if (elem_at RouteTableSize no_route t) RouteTableSize First (length t) (route_matches Target) = Some i"
  then have "First \<le> i" "i = length t \<or> i < RouteTableSize" using find_if_bound by blast+
  then show "((Target, t, i + 1, if i \<noteq> length t then MatchTable @ [i] else MatchTable), Target, t, First, MatchTable)
      \<in> measure (\<lambda>(x, t, first, acc). (RouteTableSize + length t + 1) - first)" by auto
qed simp

declare match_loop.simps [simp del]

definition route_before :: "route_item list \<Rightarrow> nat \<Rightarrow> nat \<Rightarrow> bool" where
  "route_before t i j \<longleftrightarrow> MaskToNum (Genmask (t ! j)) \<le> MaskToNum (Genmask (t ! i)) \<and> Metric (t ! i) < Metric (t ! j)"

definition RouteTableMatch :: "u32 \<Rightarrow> 'a netip_scheme \<Rightarrow> (string, nat) sum option" where
  "RouteTableMatch Target s =
     (let t = RouteTable s in
      case match_loop Target t 0 [] of
        None \<Rightarrow> Some (Inl ''RouteTable'')
      | Some [] \<Rightarrow> Some (Inr (length t))
      | Some [i] \<Rightarrow> Some (Inr i)
      | Some is \<Rightarrow> map_option (\<lambda>sorted. Inr (hd sorted)) (qsort (route_before t) is))"

section \<open>Fields\<close>

lemma Get_same: "frame_ok f \<Longrightarrow> in_frame start n \<Longrightarrow> n = length src \<Longrightarrow> GetData start n r (SetData src start f) = (if r then rev src else src)"
  using Get_SetData [of f start src] Get_SetData_rev [of f start src] by simp

lemma SetData_frame_ok: "frame_ok f \<Longrightarrow> in_frame start (length src) \<Longrightarrow> frame_ok (SetData src start f)"
  by (rule SetData_ok)

lemma bytes_length [simp]: "length (bytes16 v) = 2" "length (bytes32 w) = 4"
  by (simp_all add: bytes16_def bytes32_def)

lemmas net_access = GetDataAs8_def GetDataAs16_def GetDataAs32_def SetDataFrom8_def SetDataFrom16_def SetDataFrom32_def

lemmas net_field = net_access Get_same Get_SetData_other SetData_frame_ok data_header header_data header_fields
  in_frame_def word16_bytes16 word32_bytes32

lemma ip_header_words:
  assumes "frame_ok f" and "i < 10"
  shows "GetDataAs16 (i * 2) True (SetHeaderChecksum c f) = (if i = 5 then c else GetDataAs16 (i * 2) True f)"
proof (cases "i = 5")
  case False
  then have "i * 2 + 2 \<le> 10 \<or> 12 \<le> i * 2" by auto
  then show ?thesis using assms False by (simp add: SetHeaderChecksum_def net_field)
qed (use assms in \<open>simp add: SetHeaderChecksum_def net_field\<close>)

lemma ip_length_words:
  assumes "frame_ok f" and "i < 10"
  shows "GetDataAs16 (i * 2) True (SetTotalLength c f) = (if i = 1 then c else GetDataAs16 (i * 2) True f)"
proof (cases "i = 1")
  case False
  then have "i * 2 + 2 \<le> 2 \<or> 4 \<le> i * 2" by auto
  then show ?thesis using assms False by (simp add: SetTotalLength_def net_field)
qed (use assms in \<open>simp add: SetTotalLength_def net_field\<close>)

lemma ip_set_ok:
  assumes "frame_ok f"
  shows "frame_ok (SetVersion a f)" "frame_ok (SetInternetHeaderLength a f)" "frame_ok (SetFlags b f)"
    "frame_ok (SetTotalLength b f)" "frame_ok (SetIdentification b f)" "frame_ok (SetTimeToLive a f)"
    "frame_ok (SetProtocol a f)" "frame_ok (SetHeaderChecksum b f)" "frame_ok (SetSourceAddress c f)"
    "frame_ok (SetDestinationAddress c f)" "frame_ok (SetFragmentOffset b f)"
    "frame_ok (SetDifferentiatedServicesCodePoint a f)" "frame_ok (SetExplicitCongestionNotification a f)"
  using assms by (simp_all add: SetVersion_def SetInternetHeaderLength_def SetFlags_def SetTotalLength_def SetIdentification_def
      SetTimeToLive_def SetProtocol_def SetHeaderChecksum_def SetSourceAddress_def SetDestinationAddress_def SetFragmentOffset_def
      SetDifferentiatedServicesCodePoint_def SetExplicitCongestionNotification_def net_field)

lemma IPv4_new_ok: "length junk = MaxFrameSize \<Longrightarrow> frame_ok (IPv4_new junk)"
  unfolding IPv4_new_def Let_def by (intro ip_set_ok SetEtherType_ok EthernetFrame_new_ok)

interpretation ip_sum: checksum_field "\<lambda>f i. GetDataAs16 (i * 2) True f" "\<lambda>_. 10" 5 SetHeaderChecksum frame_ok
  by unfold_locales (simp_all add: ip_header_words)

lemma VerifyChecksum_IP_sum: "VerifyChecksum_IP c f = checksum16 (word_sum c 5 10 (\<lambda>i. GetDataAs16 (i * 2) True f))"
  by (simp add: VerifyChecksum_IP_def)

section \<open>Masks\<close>

text \<open>For a mask that is not zero \<open>MaskToNum\<close> is the position of its highest bit.\<close>

lemma mask_loop_spec:
  "m \<noteq> 0 \<Longrightarrow> \<exists>k. mask_loop m n = n + Suc k \<and> 2 ^ k \<le> unat m \<and> unat m < 2 ^ Suc k"
proof (induction m n rule: mask_loop.induct)
  case (1 m n)
  have h: "unat (drop_bit 1 m) = unat m div 2" by (simp add: drop_bit_eq_div unat_div)
  show ?case
  proof (cases "drop_bit 1 m = 0")
    case True
    then have "unat m div 2 = 0" using h by simp
    then have "unat m = 1" using "1.prems" by (simp add: unat_gt_0 [symmetric])
    then show ?thesis using "1.prems" True
      by (intro exI [of _ 0]) (simp add: mask_loop.simps [of m] mask_loop.simps [of 0])
  next
    case False
    obtain k where k: "mask_loop (drop_bit 1 m) (n + 1) = n + 1 + Suc k" "2 ^ k \<le> unat m div 2" "unat m div 2 < 2 ^ Suc k"
      using "1.IH" [OF "1.prems" False] h by auto
    have "mask_loop m n = n + Suc (Suc k)" using k(1) "1.prems" by (simp add: mask_loop.simps [of m n])
    moreover have "2 ^ Suc k \<le> unat m" "unat m < 2 ^ Suc (Suc k)" using k(2,3) by auto
    ultimately show ?thesis by blast
  qed
qed

lemma MaskToNum_unique:
  assumes "2 ^ k \<le> unat m" and "unat m < 2 ^ Suc k"
  shows "MaskToNum m = Suc k"
proof -
  have "m \<noteq> 0" using assms(1) by (intro notI) simp
  from mask_loop_spec [OF this, of 0] obtain j where j: "mask_loop m 0 = Suc j" "2 ^ j \<le> unat m" "unat m < 2 ^ Suc j" by auto
  have "(2::nat) ^ k < 2 ^ Suc j" "(2::nat) ^ j < 2 ^ Suc k" using assms j by linarith+
  then have "k = j" by (simp only: power_strict_increasing_iff)
  then show ?thesis using j(1) \<open>m \<noteq> 0\<close> by (simp add: MaskToNum_def)
qed

section \<open>Routes\<close>

text \<open>Once the search is behind the end of the table it meets the default entries, which match everything, and then
  leaves the array.\<close>

lemma match_loop_past: "length t < First \<Longrightarrow> match_loop Target t First acc = None"
proof (induction "30 - First" arbitrary: First acc)
  case 0
  then show ?case by (subst match_loop.simps, subst find_if.simps) simp
next
  case (Suc n)
  have "find_if (elem_at RouteTableSize no_route t) RouteTableSize First (length t) (route_matches Target) = Some First"
    using Suc.hyps(2) Suc.prems by (subst find_if.simps) (simp add: elem_at_def no_route_def route_matches_def)
  moreover have "match_loop Target t (First + 1) (acc @ [First]) = None" using Suc by simp
  ultimately show ?case using Suc.prems by (subst match_loop.simps) simp
qed

lemma match_loop_table:
  assumes "First < length t" and "length t \<le> 30"
  shows "match_loop Target t First acc
    = (if route_matches Target (last t) then Some (acc @ filter (\<lambda>i. route_matches Target (t ! i)) [First..<length t]) else None)"
  using assms
proof (induction "length t - First" arbitrary: First acc rule: less_induct)
  case less
  define i where "i = First + list_find (route_matches Target) (drop First t)"
  have find: "find_if (elem_at RouteTableSize no_route t) RouteTableSize First (length t) (route_matches Target) = Some i"
    using find_if_range [of First t 30] less.prems by (simp add: i_def)
  have le: "First \<le> i" "i \<le> length t" using list_find_bound [of "route_matches Target" "drop First t"] less.prems by (auto simp: i_def)
  have before: "\<not> route_matches Target (t ! j)" if "First \<le> j" "j < i" for j
    using list_find_before [of "j - First" "route_matches Target" "drop First t"] that less.prems le by (auto simp: i_def)
  have lst: "last t = t ! (length t - 1)" using less.prems by (intro last_conv_nth) auto
  show ?case
  proof (cases "i = length t")
    case True
    then have "\<not> route_matches Target (last t)" using before [of "length t - 1"] less.prems lst by auto
    moreover have "match_loop Target t (i + 1) acc = None" using True by (intro match_loop_past) simp
    ultimately show ?thesis using find True less.prems by (subst match_loop.simps) simp
  next
    case False
    then have i: "i < length t" "route_matches Target (t ! i)"
      using list_find_nth [of "route_matches Target" "drop First t"] le by (auto simp: i_def)
    have "[First..<length t] = [First..<i] @ i # [Suc i..<length t]"
      using upt_add_eq_append [of First i "length t - i"] upt_conv_Cons [of i "length t"] le i by simp
    moreover have "filter (\<lambda>i. route_matches Target (t ! i)) [First..<i] = []" using before by (auto simp: filter_empty_conv)
    ultimately have all: "filter (\<lambda>i. route_matches Target (t ! i)) [First..<length t]
        = i # filter (\<lambda>i. route_matches Target (t ! i)) [Suc i..<length t]" using i by simp
    have step: "match_loop Target t First acc = match_loop Target t (Suc i) (acc @ [i])"
      using find False less.prems by (subst match_loop.simps) simp
    show ?thesis
    proof (cases "Suc i = length t")
      case True
      then have "last t = t ! i" using lst by (metis diff_Suc_1)
      then show ?thesis using step all True i by (simp add: match_loop.simps [of _ _ "length t"])
    next
      case f: False
      then show ?thesis
        using less.hyps [of "Suc i" "acc @ [i]"] step all le i less.prems by simp
    qed
  qed
qed

section \<open>Properties\<close>



text \<open>C37: \<open>RouteTableMatch\<close> finds a route exactly when the only entry that matches is the last one of the table. On a
  table whose last entry does not match the loop steps over the end and reads outside the array; with two or more
  matching entries the sort does not return. Only an empty table is reported as having no route.\<close>

theorem route_match_exact:
  assumes "length (RouteTable s) \<le> RouteTableSize"
  shows "RouteTableMatch Target s =
    (let t = RouteTable s; matches = filter (route_matches Target) t in
     if t = [] then Some (Inr 0)
     else if \<not> route_matches Target (last t) then Some (Inl ''RouteTable'')
     else if length matches = 1 then Some (Inr (length t - 1))
     else None)"
proof (cases "RouteTable s = []")
  case True
  then show ?thesis by (simp add: RouteTableMatch_def match_loop.simps [of _ "[]" 0])
next
  case False
  let ?t = "RouteTable s"
  let ?is = "filter (\<lambda>i. route_matches Target (?t ! i)) [0..<length ?t]"
  have loop: "match_loop Target ?t 0 [] = (if route_matches Target (last ?t) then Some ?is else None)"
    using match_loop_table [of 0 ?t Target "[]"] False assms by simp
  show ?thesis
  proof (cases "route_matches Target (last ?t)")
    case True
    have n: "length ?is = length (filter (route_matches Target) ?t)"
      by (metis (no_types, lifting) comp_def filter_map length_map map_nth filter_cong)
    have last_in: "length ?t - 1 \<in> set ?is" using True False by (simp add: last_conv_nth)
    have div: "qsort (route_before ?t) js = None" if "js \<noteq> []" for js
      using that by (intro qsort_diverges) (auto simp: route_before_def)
    consider "?is = [length ?t - 1]" | i j js where "?is = i # j # js"
      using last_in by (cases ?is rule: list.exhaust) (metis list.distinct(1) list.set_cases list.set_intros(1) neq_Nil_conv set_ConsD empty_iff list.set(1))+
    then show ?thesis
    proof cases
      case 1
      then show ?thesis using loop True False n by (simp add: RouteTableMatch_def Let_def)
    next
      case 2
      then show ?thesis using loop True False n div [of ?is] by (simp add: RouteTableMatch_def Let_def)
    qed
  qed (use loop False in \<open>simp add: RouteTableMatch_def Let_def\<close>)
qed

definition netip_demo :: "ip_item list \<Rightarrow> route_item list \<Rightarrow> netip" where
  "netip_demo a t = netdev.extend (netdev_demo \<lparr>rBufferAddress = 0, rLength = 0, rStatus = 0, rErrors = 0\<rparr>)
     (netip.fields a t 0)"

lemma netip_demo_tables [simp]: "RouteTable (netip_demo a t) = t" "AdapterIPAddressTable (netip_demo a t) = a"
  by (simp_all add: netip_demo_def netdev.defs netip.defs)

text \<open>10.0.0.1 with routes for 192.168.1.0/24, for 10.0.0.0/8 and for everything.\<close>

theorem route_match_exact_witness:
  "let lan = no_route\<lparr>rDestination := 0x0001A8C0, Genmask := 0x00FFFFFF\<rparr>; ten = no_route\<lparr>rDestination := 0x0000000A, Genmask := 0x000000FF\<rparr>
   in RouteTableMatch 0x0100000A (netip_demo [] [lan, ten]) = Some (Inr 1)
    \<and> RouteTableMatch 0x0100000A (netip_demo [] [ten, lan]) = Some (Inl ''RouteTable'')
    \<and> RouteTableMatch 0x0100000A (netip_demo [] [ten, no_route]) = None"
  using route_match_exact [of "netip_demo [] [no_route\<lparr>rDestination := 0x0001A8C0, Genmask := 0x00FFFFFF\<rparr>,
      no_route\<lparr>rDestination := 0x0000000A, Genmask := 0x000000FF\<rparr>]" "0x0100000A"]
    route_match_exact [of "netip_demo [] [no_route\<lparr>rDestination := 0x0000000A, Genmask := 0x000000FF\<rparr>,
      no_route\<lparr>rDestination := 0x0001A8C0, Genmask := 0x00FFFFFF\<rparr>]" "0x0100000A"]
    route_match_exact [of "netip_demo [] [no_route\<lparr>rDestination := 0x0000000A, Genmask := 0x000000FF\<rparr>, no_route]" "0x0100000A"]
  by (simp add: Let_def route_matches_def no_route_def)

text \<open>\<open>MaskToNum\<close> is the length of the prefix for the masks that end on a byte, but not for the others, whose
  significant bits it does not count, and the mask of the default route counts as the longest of all.\<close>

theorem mask_to_num:
  "MaskToNum 0x000000FF = 8 \<and> MaskToNum 0x0000FFFF = 16 \<and> MaskToNum 0x00FFFFFF = 24 \<and> MaskToNum 0xFFFFFFFF = 32
   \<and> (0x00800000 \<le> m \<and> m \<le> 0x00FFFFFF \<longrightarrow> MaskToNum m = 24) \<and> MaskToNum 0 = 32"
proof -
  have "MaskToNum m = 24" if "0x00800000 \<le> m" "m \<le> 0x00FFFFFF" for m
    using MaskToNum_unique [where k = 23 and m = m] that by (simp add: word_le_nat_alt)
  then show ?thesis
    using MaskToNum_unique [where k = 7 and m = "0xFF"] MaskToNum_unique [where k = 15 and m = "0xFFFF"]
      MaskToNum_unique [where k = 31 and m = "0xFFFFFFFF"]
      MaskToNum_unique [where k = 23 and m = "0x00FFFFFF"] MaskToNum_def [of 0]
    by simp
qed

theorem mask_to_num_witness: "MaskToNum 0x00F0FFFF = 24"    \<comment> \<open>255.255.240.0\<close>
  using mask_to_num [of "0x00F0FFFF"] by simp

text \<open>Setting the code point of a packet writes the first byte of the header, which holds version and header length, and
  takes the other two bits of it from the payload.\<close>

lemma dscp_overwrites_version:
  assumes "frame_ok f"
  shows "GetDataAs8 Version (SetDifferentiatedServicesCodePoint v f) = (GetDataAs8_IP 1 f AND NOT 0xFC) OR (push_bit 2 v AND 0xFC)"
    and "GetDifferentiatedServicesCodePoint (SetDifferentiatedServicesCodePoint v f) = GetDifferentiatedServicesCodePoint f"
  using assms by (simp_all add: SetDifferentiatedServicesCodePoint_def GetDifferentiatedServicesCodePoint_def net_field)

text \<open>A new packet has version four, a header of five words and the flag against fragmentation; its length is that of
  \<open>0 - 20\<close>, until data is put into it.\<close>

lemma new_payload: "length junk = MaxFrameSize \<Longrightarrow> in_frame start n \<Longrightarrow> GetData start n r (EthernetFrame_new junk) = replicate n 0"
  by (intro nth_equalityI) (auto simp: GetData_def EthernetFrame_new_def ClearData_def nth_splice in_frame_def)

lemma word16_zero: "word16 (replicate 2 0) = 0"
  by (simp add: word16_def numeral_2_eq_2)

lemma IPv4_new_header:
  assumes "length junk = MaxFrameSize"
  shows "GetDataAs8 0 (IPv4_new junk) = 0x45" "GetTotalLength (IPv4_new junk) = 0xFFEC" "GetFlags (IPv4_new junk) = 2"
    "GetEtherType (IPv4_new junk) = EtherType_IP" "GetIdentification (IPv4_new junk) = 0" "GetTimeToLive (IPv4_new junk) = 0"
proof -
  define f0 where "f0 = SetEtherType EtherType_IP (EthernetFrame_new junk)"
  have ok0: "frame_ok f0" using assms by (auto simp: f0_def)
  have z: "GetData start n r f0 = replicate n 0" if "in_frame start n" for start n r
    using data_header(1) [OF EthernetFrame_new_ok [OF assms] that] new_payload [OF assms that] by (simp add: f0_def)
  define f1 where "f1 = SetDataFrom8 0x40 0 f0"
  have f1: "SetVersion 4 f0 = f1"
    using z [of 0 1] by (simp add: f1_def SetVersion_def GetDataAs8_IP_def GetData_IP_def header_bytes_def GetInternetHeaderLength_def
        GetDataAs8_def in_frame_def)
  have ok1: "frame_ok f1" using ok0 by (simp add: f1_def net_field)
  define f2 where "f2 = SetDataFrom8 0x45 0 f1"
  have f2: "SetInternetHeaderLength 5 f1 = f2"
    using ok0 by (simp add: f2_def f1_def SetInternetHeaderLength_def GetDataAs8_IP_def GetData_IP_def header_bytes_def
        GetInternetHeaderLength_def net_field)
  have ok2: "frame_ok f2" using ok1 by (simp add: f2_def net_field)
  define f3 where "f3 = SetDataFrom16 0x4000 6 True f2"
  have f3: "SetFlags FlagDF f2 = f3"
    using ok0 ok1 z [of 26 2] by (simp add: f3_def f2_def f1_def SetFlags_def GetDataAs16_IP_def GetData_IP_def header_bytes_def
        GetInternetHeaderLength_def net_field word16_zero)
  have ok3: "frame_ok f3" using ok2 by (simp add: f3_def net_field)
  have "DataSize_IP f3 = - 20"
    using ok0 ok1 ok2 z [of 2 2] by (simp add: f3_def f2_def f1_def DataSize_IP_def header_bytes_def GetInternetHeaderLength_def
        GetTotalLength_def net_field word16_zero)
  moreover have "(of_int (- 20) :: u16) = 0xFFEC" by simp
  ultimately have new: "IPv4_new junk = SetTotalLength 0xFFEC f3"
    by (simp only: IPv4_new_def Let_def f0_def [symmetric] f1 f2 f3)
  show "GetDataAs8 0 (IPv4_new junk) = 0x45" "GetTotalLength (IPv4_new junk) = 0xFFEC" "GetFlags (IPv4_new junk) = 2"
    "GetEtherType (IPv4_new junk) = EtherType_IP" "GetIdentification (IPv4_new junk) = 0" "GetTimeToLive (IPv4_new junk) = 0"
    unfolding new using ok0 ok1 ok2 ok3 z [of 4 2] z [of 8 1] EthernetFrame_new_ok [OF assms]
    by (simp_all add: f3_def f2_def f1_def f0_def SetTotalLength_def GetTotalLength_def GetFlags_def GetIdentification_def
        GetTimeToLive_def net_field word16_zero)
qed

end
