(* ===== verification/Net_Arp.thy ===== *)
theory Net_Arp
  imports Net_Ip
begin

text \<open>
  ARP: the packet class, the address table, the resolution of addresses and the handler of received packets, of
  \<open>kernel/UProtocols.cc\<close> and \<open>include/UProtocols.hh\<close>.

  A frame made with \<open>new\<close> takes a page of the allocator; its bytes are kept as a value beside the memory, and start as what
  the page held. The loops that wait for an answer look at the table again and again while interrupts arrive. What
  happens between two looks is the argument \<open>irq\<close>: nothing, or the handling of received frames. The table lock is
  not part of the state, since every section it guards runs to its end.

  After the last look \<open>RequestFrom\<close> compares the iterator it has with the end of the table as it is then; \<open>arp_poll\<close>
  does the same.
\<close>

unbundle bit_operations_syntax

section \<open>Definitions\<close>

abbreviation (input) EtherType_ARP :: u16 where "EtherType_ARP \<equiv> 0x0806"
abbreviation (input) ARPTableSize :: nat where "ARPTableSize \<equiv> 4096"
abbreviation (input) HardwareType :: nat where "HardwareType \<equiv> 0"
abbreviation (input) ProtocolType :: nat where "ProtocolType \<equiv> 2"
abbreviation (input) HardwareLength :: nat where "HardwareLength \<equiv> 4"
abbreviation (input) ProtocolLength :: nat where "ProtocolLength \<equiv> 5"
abbreviation (input) Operation :: nat where "Operation \<equiv> 6"
abbreviation (input) SenderHardwareAddr :: nat where "SenderHardwareAddr \<equiv> 8"
abbreviation (input) SenderProtocolAddr :: nat where "SenderProtocolAddr \<equiv> 14"
abbreviation (input) TargetHardwareAddr :: nat where "TargetHardwareAddr \<equiv> 18"
abbreviation (input) TargetProtocolAddr :: nat where "TargetProtocolAddr \<equiv> 24"
abbreviation (input) Flag_COM :: u8 where "Flag_COM \<equiv> 2"
abbreviation (input) ARPRequest :: u16 where "ARPRequest \<equiv> 1"
abbreviation (input) ARPReply :: u16 where "ARPReply \<equiv> 2"
abbreviation (input) MaxDelay_ARP :: nat where "MaxDelay_ARP \<equiv> 30000000"

subsection \<open>Packets\<close>

definition ARP_new :: "u8 list \<Rightarrow> frame" where
  "ARP_new junk = SetEtherType EtherType_ARP (EthernetFrame_new junk)"

definition GetHardwareType :: "frame \<Rightarrow> u16" where
  "GetHardwareType f = GetDataAs16 HardwareType True f"

definition GetProtocolType :: "frame \<Rightarrow> u16" where
  "GetProtocolType f = GetDataAs16 ProtocolType True f"

definition GetHardwareLength :: "frame \<Rightarrow> u8" where
  "GetHardwareLength f = GetDataAs8 HardwareLength f"

definition GetProtocolLength :: "frame \<Rightarrow> u8" where
  "GetProtocolLength f = GetDataAs8 ProtocolLength f"

definition GetOperation :: "frame \<Rightarrow> u16" where
  "GetOperation f = GetDataAs16 Operation True f"

definition GetSenderHardwareAddress :: "frame \<Rightarrow> mac" where
  "GetSenderHardwareAddress f = GetData SenderHardwareAddr 6 False f"

definition GetSenderProtocolAddress :: "frame \<Rightarrow> u32" where
  "GetSenderProtocolAddress f = GetDataAs32 SenderProtocolAddr False f"

definition GetTargetHardwareAddress :: "frame \<Rightarrow> mac" where
  "GetTargetHardwareAddress f = GetData TargetHardwareAddr 6 False f"

definition GetTargetProtocolAddress :: "frame \<Rightarrow> u32" where
  "GetTargetProtocolAddress f = GetDataAs32 TargetProtocolAddr False f"

definition SetHardwareType :: "u16 \<Rightarrow> frame \<Rightarrow> frame" where
  "SetHardwareType v f = SetDataFrom16 v HardwareType True f"

definition SetProtocolType :: "u16 \<Rightarrow> frame \<Rightarrow> frame" where
  "SetProtocolType v f = SetDataFrom16 v ProtocolType True f"

definition SetHardwareLength :: "u8 \<Rightarrow> frame \<Rightarrow> frame" where
  "SetHardwareLength v f = SetDataFrom8 v HardwareLength f"

definition SetProtocolLength :: "u8 \<Rightarrow> frame \<Rightarrow> frame" where
  "SetProtocolLength v f = SetDataFrom8 v ProtocolLength f"

definition SetOperation :: "u16 \<Rightarrow> frame \<Rightarrow> frame" where
  "SetOperation v f = SetDataFrom16 v Operation True f"

definition SetSenderHardwareAddress :: "mac \<Rightarrow> frame \<Rightarrow> frame" where
  "SetSenderHardwareAddress a f = SetData a SenderHardwareAddr f"

definition SetSenderProtocolAddress :: "u32 \<Rightarrow> frame \<Rightarrow> frame" where
  "SetSenderProtocolAddress v f = SetDataFrom32 v SenderProtocolAddr False f"

definition SetTargetHardwareAddress :: "mac \<Rightarrow> frame \<Rightarrow> frame" where
  "SetTargetHardwareAddress a f = SetData a TargetHardwareAddr f"

definition SetTargetProtocolAddress :: "u32 \<Rightarrow> frame \<Rightarrow> frame" where
  "SetTargetProtocolAddress v f = SetDataFrom32 v TargetProtocolAddr False f"

definition IsValid_ARP :: "frame \<Rightarrow> bool" where
  "IsValid_ARP f \<longleftrightarrow> DataSize f > 28 \<and> GetHardwareType f = 1 \<and> GetProtocolType f = EtherType_IP
     \<and> GetHardwareLength f = 6 \<and> GetProtocolLength f = 4"

definition Prepare :: "u16 \<Rightarrow> frame \<Rightarrow> frame" where
  "Prepare op f = SetOperation op (SetProtocolLength 4 (SetHardwareLength 6 (SetProtocolType EtherType_IP
     (SetHardwareType 1 (SetEtherType EtherType_ARP f)))))"

subsection \<open>The table\<close>

record arp_item =
  Address :: u32
  HWType :: u32
  arpFlags :: u8
  arpMAC :: mac
  arpAdapter :: nat

record netarp = netip +
  ARPTable :: "arp_item list"
  ARPTimestamp :: u64
  ARPingIsTesting :: bool
  ARPingIsReceived :: bool

definition ARPTableFind :: "u32 \<Rightarrow> 'a netarp_scheme \<Rightarrow> nat" where
  "ARPTableFind ip s = list_find (\<lambda>v. Address v = ip) (ARPTable s)"

definition ARPTableAdd :: "arp_item \<Rightarrow> ('a netarp_scheme, unit) kmon" where
  "ARPTableAdd x s = (case push_back ARPTableSize x (ARPTable s) of
       None \<Rightarrow> Fault ''ARPTable''
     | Some t \<Rightarrow> Ret () (s\<lparr>ARPTable := t\<rparr>))"

definition ARPTableRemove :: "u32 \<Rightarrow> ('a netarp_scheme, unit) kmon" where
  "ARPTableRemove ip s =
     (let it = ARPTableFind ip s in
      if it = length (ARPTable s) then Ret () s else Ret () (s\<lparr>ARPTable := erase it (ARPTable s)\<rparr>))"

definition ARPTableUpdate :: "u32 \<Rightarrow> arp_item \<Rightarrow> ('a netarp_scheme, unit) kmon" where
  "ARPTableUpdate ip x s =
     (let it = ARPTableFind ip s in
      if it = length (ARPTable s) then Ret () s else Ret () (s\<lparr>ARPTable := (ARPTable s)[it := x]\<rparr>))"

definition Register_ARP :: "('a netarp_scheme, unit) kmon" where
  "Register_ARP s = Ret () (s\<lparr>ARPTimestamp := ucast (net_ticks s div 100)\<rparr>)"

subsection \<open>Resolution\<close>

text \<open>\<open>new\<close> of a frame object: the page and the bytes it starts with.\<close>

definition new_frame :: "('a netdev_scheme, u64 \<times> u8 list) kmon" where
  "new_frame = kbind operator_new (\<lambda>p. kbind (kget (\<lambda>s. map (\<lambda>i. kmem_mem s (p + of_nat i)) [0..<MaxFrameSize])) (\<lambda>j.
     kreturn (p, j)))"

definition ARPRequestFrame :: "mac \<Rightarrow> u32 \<Rightarrow> u32 \<Rightarrow> frame \<Rightarrow> frame" where
  "ARPRequestFrame a src ip f = Broadcast (SetTargetProtocolAddress ip (SetSenderProtocolAddress src
     (SetSenderHardwareAddress a (Prepare ARPRequest f))))"

fun arp_poll :: "('a netarp_scheme, unit) kmon \<Rightarrow> nat \<Rightarrow> u32 \<Rightarrow> nat \<Rightarrow> ('a netarp_scheme, mac option) kmon" where
  "arp_poll irq 0 ip it s =
     Ret (if it = length (ARPTable s) then None else Some (arpMAC (ARPTable s ! it))) s"
| "arp_poll irq (Suc Delay) ip it s =
     (let i = ARPTableFind ip s in
      if i \<noteq> length (ARPTable s) then Ret (Some (arpMAC (ARPTable s ! i))) s
      else kthen irq (arp_poll irq Delay ip i) s)"

definition RequestFrom :: "('a netarp_scheme, unit) kmon \<Rightarrow> nat \<Rightarrow> u32 \<Rightarrow> ('a netarp_scheme, mac option) kmon" where
  "RequestFrom irq d ip s =
     (let sa = IPFind d s; it = ARPTableFind ip s in
      if sa = length (AdapterIPAddressTable s) then Ret None s
      else if it = length (ARPTable s) then
        kbind new_frame (\<lambda>(p, j).
        kthen (ToDevice d (ARPRequestFrame (MACAddress (nic_of d s)) (IPAddress (AdapterIPAddressTable s ! sa)) ip (ARP_new j)))
       (kthen (operator_delete p)
              (arp_poll irq MaxDelay_ARP ip it))) s
      else Ret (Some (arpMAC (ARPTable s ! it))) s)"

subsection \<open>Received packets\<close>

definition ARPReplyFrame :: "mac \<Rightarrow> u32 \<Rightarrow> mac \<Rightarrow> u32 \<Rightarrow> frame \<Rightarrow> frame" where
  "ARPReplyFrame a src b dst f = SetDestination b (SetTargetProtocolAddress dst (SetTargetHardwareAddress b
     (SetSenderProtocolAddress src (SetSenderHardwareAddress a (Prepare ARPReply f)))))"

definition Main_ARP :: "nat \<Rightarrow> frame \<Rightarrow> ('a netarp_scheme, unit) kmon" where
  "Main_ARP d f =
     (if \<not> IsValid_ARP f then kreturn ()
      else
        let spa = GetSenderProtocolAddress f; sha = GetSenderHardwareAddress f in
        kthen (kmodify (\<lambda>s. if ARPingIsTesting s \<and> GetOperation f = ARPReply then s\<lparr>ARPingIsReceived := True\<rparr> else s))
       (kbind (kget (\<lambda>s. ARPTableFind spa s)) (\<lambda>it.
        kthen (kmodify (\<lambda>s. if it \<noteq> length (ARPTable s)
                 then s\<lparr>ARPTable := (ARPTable s)[it := (ARPTable s ! it)\<lparr>arpMAC := sha\<rparr>]\<rparr> else s))
       (kbind (kget (\<lambda>s. (IPFind d s, AdapterIPAddressTable s, MACAddress (nic_of d s)))) (\<lambda>(ai, t, mac).
        if ai \<noteq> length t \<and> IPAddress (t ! ai) = GetTargetProtocolAddress f then
          kthen (kbind (kget ARPTable) (\<lambda>at. if it = length at
                   then ARPTableAdd \<lparr>Address = spa, HWType = ucast (GetHardwareType f), arpFlags = Flag_COM, arpMAC = sha, arpAdapter = d\<rparr>
                   else kreturn ()))
         (if GetOperation f = ARPRequest then
            kbind new_frame (\<lambda>(p, j).
            kthen (ToDevice d (ARPReplyFrame mac (IPAddress (t ! ai)) sha spa (ARP_new j)))
                  (operator_delete p))
          else kreturn ())
        else kreturn ())))))"

subsection \<open>Testing\<close>

datatype arping = Passed | IPNotFound | Timeout

fun wait_irqs :: "('s, unit) kmon \<Rightarrow> nat \<Rightarrow> ('s, unit) kmon" where
  "wait_irqs irq 0 = kreturn ()"
| "wait_irqs irq (Suc k) = kthen irq (wait_irqs irq k)"

definition ARPing :: "('a netarp_scheme, unit) kmon \<Rightarrow> u32 \<Rightarrow> 'a netarp_scheme \<Rightarrow> (arping, 'a netarp_scheme) outcome option" where
  "ARPing irq ip s0 =
     (let s1 = s0\<lparr>ARPingIsTesting := True, ARPingIsReceived := False\<rparr>;
          found = (\<lambda>d. case d of None \<Rightarrow> False | Some d \<Rightarrow> IPFind d s1 \<noteq> length (AdapterIPAddressTable s1))
      in map_option (\<lambda>r. kbind new_frame (\<lambda>(p, j).
           case r of
             Inl e \<Rightarrow> kfault e
           | Inr i \<Rightarrow>
             if i = length (RouteTable s1) \<or> \<not> found (Iface (RouteTable s1 ! i))
             then kthen (operator_delete p) (kreturn IPNotFound)
             else
               let d = the (Iface (RouteTable s1 ! i)); a = AdapterIPAddressTable s1 ! IPFind d s1 in
               kthen (ToDevice d (ARPRequestFrame (MACAddress (nic_of d s1)) (IPAddress a) ip (ARP_new j)))
              (kthen (wait_irqs irq MaxDelay_ARP)
              (kbind (kget ARPingIsReceived) (\<lambda>received.
               kthen (operator_delete p)
              (kthen (kmodify (\<lambda>s. s\<lparr>ARPingIsTesting := False, ARPingIsReceived := False\<rparr>))
                     (kreturn (if received then Passed else Timeout))))))) s1)
         (RouteTableMatch ip s1))"

section \<open>Sending a new frame\<close>

definition frame_bytes :: "frame \<Rightarrow> u8 list" where
  "frame_bytes f = take (FrameSize f) (fdata f)"

definition page_bytes :: "'a kmem_scheme \<Rightarrow> u64 \<Rightarrow> u8 list" where
  "page_bytes s p = map (\<lambda>i. kmem_mem s (p + of_nat i)) [0..<MaxFrameSize]"

lemma page_bytes_length [simp]: "length (page_bytes s p) = 1518"
  by (simp add: page_bytes_def)

lemma new_frame_pool:
  assumes "pool s (p # ps)"
  shows "new_frame s = Ret (p, page_bytes s p) (s\<lparr>freelist := ld64 (kmem_mem s) p\<rparr>)"
    and "pool (s\<lparr>freelist := ld64 (kmem_mem s) p\<rparr>) ps"
  using pool_Cons [OF assms] page_ok_nonzero [OF assms] assms
  by (auto simp: new_frame_def operator_new_def kmon_defs page_bytes_def pool_def)

lemma delete_pool:
  assumes "pool t ps" and "page_ok t p" and "p \<notin> set ps"
  shows "\<exists>M. operator_delete p t = Ret () (t\<lparr>kmem_mem := M, freelist := p\<rparr>) \<and> pool (t\<lparr>kmem_mem := M, freelist := p\<rparr>) (p # ps)
    \<and> (\<forall>b. PGROUNDDOWN b \<noteq> p \<longrightarrow> M b = kmem_mem t b)"
proof -
  obtain u where u: "kfree p t = Ret () u" "pool u (p # ps)" using kfree_pool [OF assms] by blast
  have "u = t\<lparr>kmem_mem := kmem_mem u, freelist := p\<rparr>" using u(1) by (auto simp: kfree_eq split: if_splits)
  then show ?thesis using u kfree_mem_other [OF u(1)] by (intro exI [of _ "kmem_mem u"]) (simp add: operator_delete_def)
qed

text \<open>A frame is made, sent and deleted: the page goes back, the frame is on the cable.\<close>

definition sent :: "nat \<Rightarrow> u8 list \<Rightarrow> 'a netdev_scheme \<Rightarrow> nic \<Rightarrow> bool" where
  "sent d bs s m \<longleftrightarrow> tx_idle m \<and> wire m = wire (nic_of d s) @ [bs] \<and> MACAddress m = MACAddress (nic_of d s)
     \<and> RDescLayout m = RDescLayout (nic_of d s) \<and> (\<forall>r. r \<noteq> TDH \<longrightarrow> r \<noteq> TDT \<longrightarrow> regs m r = regs (nic_of d s) r)"

definition can_send :: "nat \<Rightarrow> 'a netdev_scheme \<Rightarrow> bool" where
  "can_send d s \<longleftrightarrow> d < length (adapters s) \<and> tx_idle (nic_of d s) \<and> length (MACAddress (nic_of d s)) = 6"

lemma send_new_frame:
  assumes "pool s (p # ps)" and "can_send d s" and "frame_ok (g (page_bytes s p))"
  shows "\<exists>M m t. t = s\<lparr>kmem_mem := M, freelist := p, adapters := (adapters s)[d := m]\<rparr> \<and> pool t (p # ps) \<and> can_send d t
    \<and> sent d (frame_bytes (SetSource (MACAddress (nic_of d s)) (g (page_bytes s p)))) s m
    \<and> (\<forall>K. kbind new_frame (\<lambda>(p, j). kthen (ToDevice d (g j)) (kthen (operator_delete p) K)) s = K t)"
proof -
  let ?mac = "MACAddress (nic_of d s)" and ?j = "page_bytes s p" and ?s1 = "s\<lparr>freelist := ld64 (kmem_mem s) p\<rparr>"
  let ?f = "SetSource ?mac (g ?j)"
  have mac: "length ?mac = 6" using assms(2) by (simp add: can_send_def)
  have f: "frame_ok ?f" using SetSource_ok [OF assms(3) mac] .
  have n1: "nic_of d ?s1 = nic_of d s" by (simp add: nic_of_def)
  have "d < length (adapters ?s1)" "tx_idle (nic_of d ?s1)" "FrameSize ?f < 65536"
    using assms(2) frame_okD(2) [OF f] n1 by (auto simp: can_send_def)
  then obtain m where m: "Transmit d ?f ?s1 = Ret (of_nat (FrameSize ?f)) (set_nic d m ?s1)" "sent d (frame_bytes ?f) s m"
    using Transmit_sends [of d ?s1 ?f] n1 by (auto simp: sent_def frame_bytes_def)
  let ?s2 = "set_nic d m ?s1"
  have todev: "ToDevice d (g ?j) ?s1 = Ret (of_nat (FrameSize ?f)) ?s2" using m(1) n1 by (simp add: ToDevice_def)
  have p2: "pool ?s2 ps" "page_ok ?s2 p" "p \<notin> set ps"
    using new_frame_pool(2) [OF assms(1)] assms(1) by (auto simp: pool_def page_ok_def set_nic_def list_all_iff)
  obtain M where M: "operator_delete p ?s2 = Ret () (?s2\<lparr>kmem_mem := M, freelist := p\<rparr>)" "pool (?s2\<lparr>kmem_mem := M, freelist := p\<rparr>) (p # ps)"
    using delete_pool [OF p2] by blast
  have t: "?s2\<lparr>kmem_mem := M, freelist := p\<rparr> = s\<lparr>kmem_mem := M, freelist := p, adapters := (adapters s)[d := m]\<rparr>"
    by (simp add: set_nic_def)
  have "can_send d (?s2\<lparr>kmem_mem := M, freelist := p\<rparr>)"
    using assms(2) m(2) by (simp add: can_send_def sent_def set_nic_def nic_of_def)
  then show ?thesis
    using M m(2) todev new_frame_pool(1) [OF assms(1)] unfolding t
    by (intro exI [of _ M] exI [of _ m] exI conjI refl allI) (auto simp: kbind_def sent_def)
qed

section \<open>The table as a map\<close>

definition arp_map :: "arp_item list \<Rightarrow> u32 \<rightharpoonup> mac" where
  "arp_map t = map_of (map (\<lambda>v. (Address v, arpMAC v)) t)"

lemma arp_map_find:
  "arp_map t ip = (let i = list_find (\<lambda>v. Address v = ip) t in if i = length t then None else Some (arpMAC (t ! i)))"
  by (induction t) (auto simp: arp_map_def list_find_def Let_def)

lemma arp_map_update:
  "i = list_find (\<lambda>v. Address v = ip) t \<Longrightarrow> i \<noteq> length t \<Longrightarrow>
     arp_map (t[i := (t ! i)\<lparr>arpMAC := m\<rparr>]) = (arp_map t)(ip \<mapsto> m)
     \<and> map Address (t[i := (t ! i)\<lparr>arpMAC := m\<rparr>]) = map Address t"
proof (induction t arbitrary: i)
  case (Cons x t)
  show ?case
  proof (cases "Address x = ip")
    case True
    then show ?thesis using Cons.prems by (auto simp: list_find_def arp_map_def)
  next
    case False
    then obtain k where "i = Suc k" "k = list_find (\<lambda>v. Address v = ip) t" using Cons.prems by (auto simp: list_find_def)
    then show ?thesis using Cons False by (auto simp: arp_map_def)
  qed
qed (simp add: list_find_def)

lemma arp_map_add:
  "list_find (\<lambda>v. Address v = Address x) t = length t \<Longrightarrow> arp_map (t @ [x]) = (arp_map t)(Address x \<mapsto> arpMAC x)"
proof -
  assume "list_find (\<lambda>v. Address v = Address x) t = length t"
  then have "arp_map t (Address x) = None" by (simp add: arp_map_find)
  then show ?thesis by (auto simp: arp_map_def map_add_def fun_eq_iff split: option.splits)
qed

section \<open>Packets\<close>

lemmas arp_access = GetHardwareType_def GetProtocolType_def GetHardwareLength_def GetProtocolLength_def GetOperation_def
  GetSenderHardwareAddress_def GetSenderProtocolAddress_def GetTargetHardwareAddress_def GetTargetProtocolAddress_def
  SetHardwareType_def SetProtocolType_def SetHardwareLength_def SetProtocolLength_def SetOperation_def
  SetSenderHardwareAddress_def SetSenderProtocolAddress_def SetTargetHardwareAddress_def SetTargetProtocolAddress_def

lemma Prepare_fields:
  assumes "frame_ok f"
  shows "frame_ok (Prepare op f)" "GetHardwareType (Prepare op f) = 1" "GetProtocolType (Prepare op f) = EtherType_IP"
    "GetHardwareLength (Prepare op f) = 6" "GetProtocolLength (Prepare op f) = 4" "GetOperation (Prepare op f) = op"
    "GetEtherType (Prepare op f) = EtherType_ARP" "FrameSize (Prepare op f) = max 64 (FrameSize f)"
  using assms SetEtherType_ok [OF assms, of EtherType_ARP]
  by (simp_all add: Prepare_def arp_access net_field SetData_size) (simp add: SetEtherType_def)

definition arp_packet :: "u16 \<Rightarrow> mac \<Rightarrow> u32 \<Rightarrow> u32 \<Rightarrow> frame \<Rightarrow> bool" where
  "arp_packet op sha spa tpa f \<longleftrightarrow> frame_ok f \<and> FrameSize f = 64 \<and> IsValid_ARP f \<and> GetOperation f = op \<and> GetSenderHardwareAddress f = sha
     \<and> GetSenderProtocolAddress f = spa \<and> GetTargetProtocolAddress f = tpa \<and> GetEtherType f = EtherType_ARP"

lemma ARP_new_ok: "length j = MaxFrameSize \<Longrightarrow> frame_ok (ARP_new j) \<and> FrameSize (ARP_new j) = 46"
  by (auto simp: ARP_new_def EthernetFrame_new_def SetEtherType_def ClearData_def frame_ok_def)

lemma request_packet:
  fixes src ip :: u32
  assumes "length j = MaxFrameSize" and "length a = 6" and "length b = 6"
  defines "f \<equiv> SetSource b (ARPRequestFrame a src ip (ARP_new j))"
  shows "arp_packet ARPRequest a src ip f" and "GetDestination f = BroadcastAddr" and "GetSource f = b"
    and "frame_ok (ARPRequestFrame a src ip (ARP_new j))"
proof -
  let ?p = "Prepare ARPRequest (ARP_new j)"
  note p = Prepare_fields [of "ARP_new j" ARPRequest]
  have ok: "frame_ok (ARP_new j)" and size: "FrameSize (ARP_new j) = 46" using ARP_new_ok [OF assms(1)] by auto
  define g where "g = SetTargetProtocolAddress ip (SetSenderProtocolAddress src (SetSenderHardwareAddress a ?p))"
  have g: "frame_ok g" "FrameSize g = 64" "GetHardwareType g = 1" "GetProtocolType g = EtherType_IP" "GetHardwareLength g = 6"
    "GetProtocolLength g = 4" "GetOperation g = ARPRequest" "GetSenderHardwareAddress g = a" "GetSenderProtocolAddress g = src"
    "GetTargetProtocolAddress g = ip" "GetEtherType g = EtherType_ARP"
    using p [OF ok] size assms(2) by (simp_all add: g_def arp_access net_field SetData_size)
  have ba: "length BroadcastAddr = 6" by (simp add: BroadcastAddr_def)
  have f: "f = SetSource b (SetDestination BroadcastAddr g)" by (simp add: f_def ARPRequestFrame_def Broadcast_def g_def)
  have ok': "frame_ok (SetDestination BroadcastAddr g)" using SetDestination_ok [OF g(1) ba] .
  then show "frame_ok (ARPRequestFrame a src ip (ARP_new j))" by (simp add: ARPRequestFrame_def Broadcast_def g_def)
  have sz: "FrameSize f = 64" using g(2) by (simp add: f SetSource_def SetDestination_def)
  show "arp_packet ARPRequest a src ip f"
    using g ok' ba assms(3) sz SetSource_ok [OF ok' assms(3)]
    by (simp add: arp_packet_def f IsValid_ARP_def DataSize_def arp_access net_access in_frame_def data_header header_fields)
  show "GetDestination f = BroadcastAddr" "GetSource f = b"
    using g(1) ok' ba assms(3) by (simp_all add: f header_fields)
qed

lemma reply_packet:
  fixes src dst :: u32
  assumes "length j = MaxFrameSize" and "length a = 6" and "length b = 6"
  defines "f \<equiv> SetSource a (ARPReplyFrame a src b dst (ARP_new j))"
  shows "arp_packet ARPReply a src dst f" and "GetDestination f = b" and "GetSource f = a" and "GetTargetHardwareAddress f = b"
    and "frame_ok (ARPReplyFrame a src b dst (ARP_new j))"
proof -
  let ?p = "Prepare ARPReply (ARP_new j)"
  note p = Prepare_fields [of "ARP_new j" ARPReply]
  have ok: "frame_ok (ARP_new j)" and size: "FrameSize (ARP_new j) = 46" using ARP_new_ok [OF assms(1)] by auto
  define g where "g = SetTargetProtocolAddress dst (SetTargetHardwareAddress b (SetSenderProtocolAddress src (SetSenderHardwareAddress a ?p)))"
  have g: "frame_ok g" "FrameSize g = 64" "GetHardwareType g = 1" "GetProtocolType g = EtherType_IP" "GetHardwareLength g = 6"
    "GetProtocolLength g = 4" "GetOperation g = ARPReply" "GetSenderHardwareAddress g = a" "GetSenderProtocolAddress g = src"
    "GetTargetProtocolAddress g = dst" "GetEtherType g = EtherType_ARP" "GetTargetHardwareAddress g = b"
    using p [OF ok] size assms(2,3) by (simp_all add: g_def arp_access net_field SetData_size)
  have f: "f = SetSource a (SetDestination b g)" by (simp add: f_def ARPReplyFrame_def g_def)
  have ok': "frame_ok (SetDestination b g)" using SetDestination_ok [OF g(1) assms(3)] .
  then show "frame_ok (ARPReplyFrame a src b dst (ARP_new j))" by (simp add: ARPReplyFrame_def g_def)
  have sz: "FrameSize f = 64" using g(2) by (simp add: f SetSource_def SetDestination_def)
  show "arp_packet ARPReply a src dst f"
    using g ok' assms(2,3) sz SetSource_ok [OF ok' assms(2)]
    by (simp add: arp_packet_def f IsValid_ARP_def DataSize_def arp_access net_access in_frame_def data_header header_fields)
  show "GetDestination f = b" "GetSource f = a" "GetTargetHardwareAddress f = b"
    using g ok' assms(2,3) by (simp_all add: f header_fields arp_access data_header in_frame_def)
qed

text \<open>A frame of at least 64 bytes arrives as it was sent.\<close>

lemma transit:
  assumes "frame_ok f" and "64 \<le> FrameSize f" and "length junk = MaxFrameSize"
  shows "\<exists>g. EthernetFrame_of junk (frame_bytes f) (FrameSize f) = Some g \<and> frame_ok g \<and> FrameSize g = FrameSize f
    \<and> (\<forall>o' n r. 14 + o' + n \<le> FrameSize f \<longrightarrow> GetData o' n r g = GetData o' n r f)
    \<and> GetDestination g = GetDestination f \<and> GetSource g = GetSource f \<and> GetEtherType g = GetEtherType f"
proof -
  have f: "length (fdata f) = 1518" "FrameSize f \<le> 1518" using assms(1) by (simp_all add: frame_ok_def)
  let ?g = "\<lparr>fdata = splice 0 (frame_bytes f) junk, FrameSize = FrameSize f\<rparr>"
  have nth: "fdata ?g ! i = fdata f ! i" if "i < FrameSize f" for i
    using that f assms(3) by (simp add: frame_bytes_def nth_splice)
  have "EthernetFrame_of junk (frame_bytes f) (FrameSize f) = Some ?g"
    using f assms(2) by (simp add: EthernetFrame_of_def frame_bytes_def)
  moreover have "frame_ok ?g" using f assms(3) by (simp add: frame_ok_def frame_bytes_def)
  moreover have "GetData o' n r ?g = GetData o' n r f" if "14 + o' + n \<le> FrameSize f" for o' n r
    unfolding GetData_def using that nth by (intro map_cong refl) auto
  moreover have "GetDestination ?g = GetDestination f" "GetSource ?g = GetSource f" "GetEtherType ?g = GetEtherType f"
    using nth assms(2) by (simp_all add: GetDestination_def GetSource_def GetEtherType_def)
  ultimately show ?thesis by auto
qed

lemma arp_packet_transit:
  assumes "arp_packet op sha spa tpa f" and "length junk = MaxFrameSize"
  shows "\<exists>g. EthernetFrame_of junk (frame_bytes f) 64 = Some g \<and> arp_packet op sha spa tpa g
    \<and> GetDestination g = GetDestination f \<and> GetSource g = GetSource f"
proof -
  have f: "frame_ok f" "FrameSize f = 64" using assms(1) by (simp_all add: arp_packet_def)
  obtain g where g: "EthernetFrame_of junk (frame_bytes f) 64 = Some g" "frame_ok g" "FrameSize g = 64"
    "\<forall>o' n r. 14 + o' + n \<le> 64 \<longrightarrow> GetData o' n r g = GetData o' n r f"
    "GetDestination g = GetDestination f" "GetSource g = GetSource f" "GetEtherType g = GetEtherType f"
    using transit [OF f(1) _ assms(2)] f(2) by auto
  have "arp_packet op sha spa tpa g"
    using assms(1) g by (simp add: arp_packet_def IsValid_ARP_def arp_access net_access DataSize_def)
  then show ?thesis using g by blast
qed

section \<open>The handler\<close>

definition for_us :: "nat \<Rightarrow> frame \<Rightarrow> 'a netip_scheme \<Rightarrow> bool" where
  "for_us d f s \<longleftrightarrow> IPFind d s \<noteq> length (AdapterIPAddressTable s)
     \<and> IPAddress (AdapterIPAddressTable s ! IPFind d s) = GetTargetProtocolAddress f"

definition arp_noted :: "frame \<Rightarrow> 'a netarp_scheme \<Rightarrow> 'a netarp_scheme" where
  "arp_noted f s = (if ARPingIsTesting s \<and> GetOperation f = ARPReply then s\<lparr>ARPingIsReceived := True\<rparr> else s)"

definition arp_learn :: "nat \<Rightarrow> frame \<Rightarrow> 'a netarp_scheme \<Rightarrow> 'a netarp_scheme" where
  "arp_learn d f s =
     (let it = ARPTableFind (GetSenderProtocolAddress f) s; s1 = arp_noted f s in
      if it \<noteq> length (ARPTable s)
      then s1\<lparr>ARPTable := (ARPTable s)[it := (ARPTable s ! it)\<lparr>arpMAC := GetSenderHardwareAddress f\<rparr>]\<rparr>
      else if for_us d f s
      then s1\<lparr>ARPTable := ARPTable s @ [\<lparr>Address = GetSenderProtocolAddress f, HWType = ucast (GetHardwareType f), arpFlags = Flag_COM,
             arpMAC = GetSenderHardwareAddress f, arpAdapter = d\<rparr>]\<rparr>
      else s1)"

definition arp_answer :: "nat \<Rightarrow> frame \<Rightarrow> ('a netarp_scheme, unit) kmon" where
  "arp_answer d f = kbind (kget (\<lambda>s. (MACAddress (nic_of d s), IPAddress (AdapterIPAddressTable s ! IPFind d s)))) (\<lambda>(mac, ip).
     kbind new_frame (\<lambda>(p, j). kthen (ToDevice d (ARPReplyFrame mac ip (GetSenderHardwareAddress f) (GetSenderProtocolAddress f) (ARP_new j)))
       (operator_delete p)))"

lemma arp_noted_fields [simp]:
  "ARPTable (arp_noted f s) = ARPTable s" "ARPTableFind ip (arp_noted f s) = ARPTableFind ip s" "IPFind d (arp_noted f s) = IPFind d s"
  "AdapterIPAddressTable (arp_noted f s) = AdapterIPAddressTable s" "nic_of d (arp_noted f s) = nic_of d s"
  by (simp_all add: arp_noted_def ARPTableFind_def IPFind_def nic_of_def)

lemma arp_learn_fields [simp]:
  "IPFind d (arp_learn d' f s) = IPFind d s" "AdapterIPAddressTable (arp_learn d' f s) = AdapterIPAddressTable s"
  "nic_of d (arp_learn d' f s) = nic_of d s" "adapters (arp_learn d' f s) = adapters s" "RouteTable (arp_learn d' f s) = RouteTable s"
  "kmem_mem (arp_learn d' f s) = kmem_mem s" "kend (arp_learn d' f s) = kend s" "freelist (arp_learn d' f s) = freelist s"
  by (simp_all add: arp_learn_def Let_def arp_noted_def IPFind_def nic_of_def)

lemma kstep:
  "kbind (kget g) h s = h (g s) s" "kbind (kmodify q) k s = k () (q s)" "kbind (kreturn x) l s = l x s"
  "kbind (if b then m1 else m2) h s = (if b then kbind m1 h s else kbind m2 h s)" "(if b then n1 else n2) s = (if b then n1 s else n2 s)"
  by (simp_all add: kmon_defs)

lemma Main_ARP_eq:
  assumes "IsValid_ARP f" and "ARPTableFind (GetSenderProtocolAddress f) s = length (ARPTable s) \<Longrightarrow> for_us d f s \<Longrightarrow> length (ARPTable s) < ARPTableSize"
  shows "Main_ARP d f s = (if for_us d f s \<and> GetOperation f = ARPRequest then arp_answer d f (arp_learn d f s) else Ret () (arp_learn d f s))"
proof -
  have noted: "(if ARPingIsTesting s \<and> GetOperation f = ARPReply then s\<lparr>ARPingIsReceived := True\<rparr> else s) = arp_noted f s"
    by (simp add: arp_noted_def)
  show ?thesis
  proof (cases "ARPTableFind (GetSenderProtocolAddress f) s = length (ARPTable s)")
    case True
    then show ?thesis
      using assms
      unfolding Main_ARP_def Let_def kstep noted
      by (auto simp: kstep arp_answer_def arp_learn_def for_us_def Let_def ARPTableAdd_def push_back_def kbind_Ret kreturn_def IPFind_def nic_of_def)
  next
    case False
    then show ?thesis
      using assms(1)
      unfolding Main_ARP_def Let_def kstep noted
      by (auto simp: kstep arp_answer_def arp_learn_def for_us_def Let_def kbind_Ret kreturn_def IPFind_def nic_of_def)
  qed
qed

lemma kthen_unit: "kbind m kreturn = m"
  by (auto simp: kmon_defs fun_eq_iff split: outcome.splits)

lemma arp_learn_map:
  fixes s :: "'a netarp_scheme"
  defines "spa \<equiv> \<lambda>f. GetSenderProtocolAddress f"
  shows "arp_map (ARPTable (arp_learn d f s)) =
      (if spa f \<in> dom (arp_map (ARPTable s)) \<or> for_us d f s
       then (arp_map (ARPTable s))(spa f \<mapsto> GetSenderHardwareAddress f) else arp_map (ARPTable s))"
    and "distinct (map Address (ARPTable s)) \<Longrightarrow> distinct (map Address (ARPTable (arp_learn d f s)))"
proof -
  let ?it = "ARPTableFind (spa f) s"
  have dom: "spa f \<in> dom (arp_map (ARPTable s)) \<longleftrightarrow> ?it \<noteq> length (ARPTable s)"
    by (auto simp: arp_map_find ARPTableFind_def Let_def dom_def)
  have both: "arp_map (ARPTable (arp_learn d f s)) =
      (if spa f \<in> dom (arp_map (ARPTable s)) \<or> for_us d f s
       then (arp_map (ARPTable s))(spa f \<mapsto> GetSenderHardwareAddress f) else arp_map (ARPTable s))
    \<and> (distinct (map Address (ARPTable s)) \<longrightarrow> distinct (map Address (ARPTable (arp_learn d f s))))"
  proof (cases "?it = length (ARPTable s)")
    case False
    then show ?thesis
      using arp_map_update [of ?it "spa f" "ARPTable s" "GetSenderHardwareAddress f"] dom
      by (simp add: arp_learn_def Let_def ARPTableFind_def spa_def)
  next
    case True
    have "spa f \<notin> Address ` set (ARPTable s)" using True by (auto simp: ARPTableFind_def list_find_none)
    then show ?thesis
      using True dom arp_map_add [of _ "ARPTable s"] by (auto simp: arp_learn_def Let_def ARPTableFind_def spa_def)
  qed
  then show "arp_map (ARPTable (arp_learn d f s)) =
      (if spa f \<in> dom (arp_map (ARPTable s)) \<or> for_us d f s
       then (arp_map (ARPTable s))(spa f \<mapsto> GetSenderHardwareAddress f) else arp_map (ARPTable s))"
    and "distinct (map Address (ARPTable s)) \<Longrightarrow> distinct (map Address (ARPTable (arp_learn d f s)))" by blast+
qed

lemma arp_learn_pool: "pool (arp_learn d f s) ps = pool s ps" "can_send e (arp_learn d f s) = can_send e s"
    "page_bytes (arp_learn d f s) p = page_bytes s p"
  by (simp_all add: pool_def page_ok_def can_send_def page_bytes_def list_all_iff)

text \<open>The answer to a request: what is on the cable afterwards, and that nothing else changes.\<close>

lemma arp_answer_sent:
  fixes s :: "'a netarp_scheme"
  assumes "pool s (p # ps)" and "can_send d s" and "length (GetSenderHardwareAddress f) = 6"
  shows "\<exists>M m r. arp_answer d f s = Ret () (s\<lparr>kmem_mem := M, freelist := p, adapters := (adapters s)[d := m]\<rparr>)
    \<and> pool (s\<lparr>kmem_mem := M, freelist := p, adapters := (adapters s)[d := m]\<rparr>) (p # ps)
    \<and> can_send d (s\<lparr>kmem_mem := M, freelist := p, adapters := (adapters s)[d := m]\<rparr>) \<and> sent d (frame_bytes r) s m
    \<and> arp_packet ARPReply (MACAddress (nic_of d s)) (IPAddress (AdapterIPAddressTable s ! IPFind d s)) (GetSenderProtocolAddress f) r
    \<and> GetDestination r = GetSenderHardwareAddress f \<and> GetSource r = MACAddress (nic_of d s)
    \<and> GetTargetHardwareAddress r = GetSenderHardwareAddress f"
proof -
  let ?mac = "MACAddress (nic_of d s)" and ?ip = "IPAddress (AdapterIPAddressTable s ! IPFind d s)"
  let ?g = "\<lambda>j. ARPReplyFrame ?mac ?ip (GetSenderHardwareAddress f) (GetSenderProtocolAddress f) (ARP_new j)"
  have mac: "length ?mac = 6" using assms(2) by (simp add: can_send_def)
  note rp = reply_packet [where j = "page_bytes s p", OF page_bytes_length mac assms(3), where src = ?ip and dst = "GetSenderProtocolAddress f"]
  obtain M m t where t: "t = s\<lparr>kmem_mem := M, freelist := p, adapters := (adapters s)[d := m]\<rparr>" "pool t (p # ps)" "can_send d t"
    "sent d (frame_bytes (SetSource ?mac (?g (page_bytes s p)))) s m"
    "\<And>K :: ('a netarp_scheme, unit) kmon. kbind new_frame (\<lambda>(p, j). kthen (ToDevice d (?g j)) (kthen (operator_delete p) K)) s = K t"
    using send_new_frame [OF assms(1,2), of ?g] rp(5) by blast
  have "arp_answer d f s = Ret () t"
    using t(5) [of "kreturn ()"] by (simp add: arp_answer_def kstep kthen_unit) (simp add: kreturn_def)
  then show ?thesis using t rp by blast
qed

lemma Main_ARP_spec:
  fixes s :: "'a netarp_scheme"
  assumes "pool s (p # ps)" and "can_send d s" and "length (ARPTable s) < ARPTableSize" and "IsValid_ARP f"
  defines "asked \<equiv> for_us d f s \<and> GetOperation f = ARPRequest"
  shows "\<exists>t r. Main_ARP d f s = Ret () t \<and> pool t (p # ps) \<and> can_send d t \<and> ARPTable t = ARPTable (arp_learn d f s)
    \<and> AdapterIPAddressTable t = AdapterIPAddressTable s \<and> RouteTable t = RouteTable s \<and> MACAddress (nic_of d t) = MACAddress (nic_of d s)
    \<and> wire (nic_of d t) = wire (nic_of d s) @ (if asked then [frame_bytes r] else [])
    \<and> arp_packet ARPReply (MACAddress (nic_of d s)) (IPAddress (AdapterIPAddressTable s ! IPFind d s)) (GetSenderProtocolAddress f) r
    \<and> GetDestination r = GetSenderHardwareAddress f \<and> GetSource r = MACAddress (nic_of d s)"
proof -
  let ?s1 = "arp_learn d f s"
  have six: "length (GetSenderHardwareAddress f) = 6" by (simp add: GetSenderHardwareAddress_def GetData_def)
  have main: "Main_ARP d f s = (if asked then arp_answer d f ?s1 else Ret () ?s1)"
    using Main_ARP_eq [OF assms(4), of s d] assms(3) by (simp add: asked_def)
  obtain M m r where t: "arp_answer d f ?s1 = Ret () (?s1\<lparr>kmem_mem := M, freelist := p, adapters := (adapters ?s1)[d := m]\<rparr>)"
    "pool (?s1\<lparr>kmem_mem := M, freelist := p, adapters := (adapters ?s1)[d := m]\<rparr>) (p # ps)"
    "can_send d (?s1\<lparr>kmem_mem := M, freelist := p, adapters := (adapters ?s1)[d := m]\<rparr>)" "sent d (frame_bytes r) ?s1 m"
    "arp_packet ARPReply (MACAddress (nic_of d ?s1)) (IPAddress (AdapterIPAddressTable ?s1 ! IPFind d ?s1)) (GetSenderProtocolAddress f) r"
    "GetDestination r = GetSenderHardwareAddress f" "GetSource r = MACAddress (nic_of d ?s1)"
    using arp_answer_sent [of ?s1 p ps d f] assms(1,2) six by (simp add: arp_learn_pool) blast
  have d: "d < length (adapters s)" using assms(2) by (simp add: can_send_def)
  show ?thesis
  proof (cases asked)
    case True
    then show ?thesis
      using main t d by (intro exI [of _ "?s1\<lparr>kmem_mem := M, freelist := p, adapters := (adapters ?s1)[d := m]\<rparr>"] exI [of _ r])
        (simp add: sent_def nic_of_def)
  next
    case False
    then show ?thesis using main t(5-7) assms(1,2) by (intro exI [of _ ?s1] exI [of _ r]) (simp add: arp_learn_pool)
  qed
qed

section \<open>Resolution\<close>

lemma arp_poll_answer:
  assumes "ARPTableFind ip s = length (ARPTable s)" and "irq s = Ret () t" and "arp_map (ARPTable t) ip = Some a"
  shows "arp_poll irq (Suc (Suc k)) ip it s = Ret (Some a) t"
proof -
  have "ARPTableFind ip t \<noteq> length (ARPTable t)" "arpMAC (ARPTable t ! ARPTableFind ip t) = a"
    using assms(3) by (auto simp: arp_map_find ARPTableFind_def Let_def split: if_splits)
  then show ?thesis using assms(1,2) by (simp add: kbind_def Let_def)
qed

lemma arp_poll_silence:
  "ARPTableFind ip s = length (ARPTable s) \<Longrightarrow> it = length (ARPTable s) \<Longrightarrow> arp_poll (kreturn ()) k ip it s = Ret None s"
  by (induction k arbitrary: it) (simp_all add: kmon_defs Let_def)

text \<open>When an entry for another host arrives between the last look and the test, its address is returned.\<close>

lemma arp_poll_stale:
  assumes "ARPTableFind ip s = length (ARPTable s)" and "irq s = Ret () (s\<lparr>ARPTable := ARPTable s @ [x]\<rparr>)"
  shows "arp_poll irq 1 ip it s = Ret (Some (arpMAC x)) (s\<lparr>ARPTable := ARPTable s @ [x]\<rparr>)"
  using assms by (simp add: kbind_def Let_def)

lemma RequestFrom_asks:
  fixes s :: "'a netarp_scheme"
  assumes "pool s (p # ps)" and "can_send d s" and "IPFind d s \<noteq> length (AdapterIPAddressTable s)"
    and "ARPTableFind ip s = length (ARPTable s)"
  shows "\<exists>M m r t. t = s\<lparr>kmem_mem := M, freelist := p, adapters := (adapters s)[d := m]\<rparr> \<and> pool t (p # ps) \<and> can_send d t
    \<and> sent d (frame_bytes r) s m \<and> GetDestination r = BroadcastAddr \<and> GetSource r = MACAddress (nic_of d s)
    \<and> arp_packet ARPRequest (MACAddress (nic_of d s)) (IPAddress (AdapterIPAddressTable s ! IPFind d s)) ip r
    \<and> (\<forall>irq. RequestFrom irq d ip s = arp_poll irq MaxDelay_ARP ip (length (ARPTable s)) t)"
proof -
  let ?mac = "MACAddress (nic_of d s)" and ?src = "IPAddress (AdapterIPAddressTable s ! IPFind d s)"
  let ?g = "\<lambda>j. ARPRequestFrame ?mac ?src ip (ARP_new j)"
  have mac: "length ?mac = 6" using assms(2) by (simp add: can_send_def)
  note rp = request_packet [where j = "page_bytes s p", OF page_bytes_length mac mac, where src = ?src and ip = ip]
  obtain M m t where t: "t = s\<lparr>kmem_mem := M, freelist := p, adapters := (adapters s)[d := m]\<rparr>" "pool t (p # ps)" "can_send d t"
    "sent d (frame_bytes (SetSource ?mac (?g (page_bytes s p)))) s m"
    "\<And>K :: ('a netarp_scheme, mac option) kmon.
       kbind new_frame (\<lambda>(p, j). kthen (ToDevice d (?g j)) (kthen (operator_delete p) K)) s = K t"
    using send_new_frame [OF assms(1,2), of ?g] rp(4) by blast
  have "RequestFrom irq d ip s = arp_poll irq MaxDelay_ARP ip (length (ARPTable s)) t" for irq
    using assms(3,4) t(5) [of "arp_poll irq MaxDelay_ARP ip (length (ARPTable s))"] unfolding RequestFrom_def Let_def
    by (simp del: arp_poll.simps)
  then show ?thesis using t rp by blast
qed

lemma MaxDelay_two: "MaxDelay_ARP = Suc (Suc 29999998)"
  by simp

section \<open>Properties\<close>

text \<open>C39: The handler implements the address map. Whatever frame arrives, \<open>ARP::Main\<close> returns; a valid packet updates the
  address of a sender that is known, and adds that of an unknown one exactly when the packet is for this host; nothing
  else of the map changes and no address gets a second entry. A reply goes out exactly for a request for this host: a
  packet of 64 bytes with both address pairs, sent to the asker. The page of the reply is returned.\<close>

theorem arp_refines:
  assumes "pool s (p # ps)" and "can_send d s" and "length (ARPTable s) < ARPTableSize" and "distinct (map Address (ARPTable s))"
  shows "\<exists>t r. Main_ARP d f s = Ret () t \<and> pool t (p # ps) \<and> can_send d t \<and> distinct (map Address (ARPTable t))
    \<and> arp_map (ARPTable t) =
        (if IsValid_ARP f \<and> (GetSenderProtocolAddress f \<in> dom (arp_map (ARPTable s)) \<or> for_us d f s)
         then (arp_map (ARPTable s))(GetSenderProtocolAddress f \<mapsto> GetSenderHardwareAddress f) else arp_map (ARPTable s))
    \<and> wire (nic_of d t) = wire (nic_of d s)
        @ (if IsValid_ARP f \<and> for_us d f s \<and> GetOperation f = ARPRequest then [frame_bytes r] else [])
    \<and> (IsValid_ARP f \<longrightarrow> arp_packet ARPReply (MACAddress (nic_of d s)) (IPAddress (AdapterIPAddressTable s ! IPFind d s))
         (GetSenderProtocolAddress f) r \<and> GetDestination r = GetSenderHardwareAddress f)"
proof (cases "IsValid_ARP f")
  case True
  from Main_ARP_spec [OF assms(1-3) True] obtain t r where
    "Main_ARP d f s = Ret () t" "pool t (p # ps)" "can_send d t" "ARPTable t = ARPTable (arp_learn d f s)"
    "wire (nic_of d t) = wire (nic_of d s) @ (if for_us d f s \<and> GetOperation f = ARPRequest then [frame_bytes r] else [])"
    "arp_packet ARPReply (MACAddress (nic_of d s)) (IPAddress (AdapterIPAddressTable s ! IPFind d s)) (GetSenderProtocolAddress f) r"
    "GetDestination r = GetSenderHardwareAddress f" by blast
  then show ?thesis using True arp_learn_map [where d = d and f = f and s = s] assms(4)
    by (intro exI [of _ t] exI [of _ r]) simp
next
  case False
  then have "Main_ARP d f s = Ret () s" by (simp add: Main_ARP_def kreturn_def)
  then show ?thesis using False assms by auto
qed

text \<open>Two hosts with one adapter each, two free pages and empty tables.\<close>

definition host_demo :: "mac \<Rightarrow> u32 \<Rightarrow> netarp" where
  "host_demo a ip = \<lparr>kmem_mem = kmem_mem kmem_two, kend = kend kmem_two, freelist = freelist kmem_two, use_lock = True,
     kalloc_fullysetup = True, NetworkAdapterList = 4096,
     adapters = [(nic_demo \<lparr>rBufferAddress = 0, rLength = 0, rStatus = 0, rErrors = 0\<rparr>)\<lparr>MACAddress := a\<rparr>], irq_lines = [],
     stack_junk = replicate 1518 0, AdapterIPAddressTable = [\<lparr>ipAdapter = 0, IPAddress = ip, SubnetMask = 0x00FFFFFF\<rparr>],
     RouteTable = [], net_ticks = 0, ARPTable = [], ARPTimestamp = 0, ARPingIsTesting = False, ARPingIsReceived = False\<rparr>"

lemma host_demo_pool: "pool (host_demo a ip) [0xFFFFFFFF83201000, 0xFFFFFFFF83200000]"
  using pool_two by (simp add: pool_def page_ok_def host_demo_def)

lemma host_demo_facts:
  "length a = 6 \<Longrightarrow> can_send 0 (host_demo a ip)" "IPFind 0 (host_demo a ip) = 0" "ARPTable (host_demo a ip) = []"
  "AdapterIPAddressTable (host_demo a ip) = [\<lparr>ipAdapter = 0, IPAddress = ip, SubnetMask = 0x00FFFFFF\<rparr>]"
  "MACAddress (nic_of 0 (host_demo a ip)) = a" "wire (nic_of 0 (host_demo a ip)) = []" "stack_junk (host_demo a ip) = replicate 1518 0"
  by (simp_all add: can_send_def host_demo_def nic_of_def nic_demo_def tx_idle_def IPFind_def list_find_def)

theorem arp_refines_witness:
  "\<exists>t. Main_ARP 0 (ARPRequestFrame [2, 0, 0, 0, 0, 9] 0x0900000A 0x0100000A (ARP_new (replicate 1518 0)))
        (host_demo [2, 0, 0, 0, 0, 1] 0x0100000A) = Ret () t
     \<and> arp_map (ARPTable t) = [0x0900000A \<mapsto> [2, 0, 0, 0, 0, 9]] \<and> length (wire (nic_of 0 t)) = 1"
proof -
  let ?f = "ARPRequestFrame [2, 0, 0, 0, 0, 9] 0x0900000A 0x0100000A (ARP_new (replicate 1518 0))"
  let ?s = "host_demo [2, 0, 0, 0, 0, 1] 0x0100000A"
  have "arp_packet ARPRequest [2, 0, 0, 0, 0, 9] 0x0900000A 0x0100000A (SetSource [2, 0, 0, 0, 0, 9] ?f)" "frame_ok ?f"
    using request_packet [of "replicate 1518 0" "[2, 0, 0, 0, 0, 9]" "[2, 0, 0, 0, 0, 9]"] by auto
  then have f: "IsValid_ARP ?f" "GetSenderProtocolAddress ?f = 0x0900000A" "GetSenderHardwareAddress ?f = [2, 0, 0, 0, 0, 9]"
    "GetTargetProtocolAddress ?f = 0x0100000A" "GetOperation ?f = ARPRequest"
    by (simp_all add: arp_packet_def IsValid_ARP_def arp_access net_access in_frame_def data_header DataSize_def)
      (simp_all add: SetSource_def)
  then have "for_us 0 ?f ?s" by (simp add: for_us_def host_demo_facts)
  then show ?thesis
    using arp_refines [OF host_demo_pool, of 0 "[2, 0, 0, 0, 0, 1]" "0x0100000A" ?f] f
    by (auto simp: host_demo_facts arp_map_def)
qed

text \<open>C38: Resolution between two hosts. Host A, which does not know B, calls \<open>RequestFrom\<close> for B's address. The broadcast
  that goes out passes B's filter and B's handler answers it; the answer passes A's filter, and once A's handler has seen it, the call
  returns B's hardware address. Then A knows B and B knows A.\<close>

theorem arp_exchange:
  fixes A B :: netarp
  assumes A: "pool A (p # ps)" "can_send a A" "IPFind a A \<noteq> length (AdapterIPAddressTable A)" "length (ARPTable A) < ARPTableSize"
      "ARPTableFind ipB A = length (ARPTable A)" "IPAddress (AdapterIPAddressTable A ! IPFind a A) = ipA"
    and B: "pool B (q # qs)" "can_send b B" "IPFind b B \<noteq> length (AdapterIPAddressTable B)" "length (ARPTable B) < ARPTableSize"
      "IPAddress (AdapterIPAddressTable B ! IPFind b B) = ipB"
    and junk: "length (stack_junk A) = MaxFrameSize" "length (stack_junk B) = MaxFrameSize"
  shows "\<exists>request reply f g A' B'.
      Main_ARP b f B = Ret () B' \<and> wire (nic_of b B') = wire (nic_of b B) @ [reply]
    \<and> RequestFrom (Main_ARP a g) a ipB A = Ret (Some (MACAddress (nic_of b B))) A'
    \<and> wire (nic_of a A') = wire (nic_of a A) @ [request]
    \<and> EthernetFrame_of (stack_junk B) request 64 = Some f \<and> FrameFilter (MACAddress (nic_of b B)) f
    \<and> EthernetFrame_of (stack_junk A) reply 64 = Some g \<and> FrameFilter (MACAddress (nic_of a A)) g
    \<and> arp_map (ARPTable A') ipB = Some (MACAddress (nic_of b B)) \<and> arp_map (ARPTable B') ipA = Some (MACAddress (nic_of a A))"
proof -
  obtain M m r t where t: "t = A\<lparr>kmem_mem := M, freelist := p, adapters := (adapters A)[a := m]\<rparr>" "pool t (p # ps)" "can_send a t"
    "sent a (frame_bytes r) A m" "GetDestination r = BroadcastAddr" "arp_packet ARPRequest (MACAddress (nic_of a A)) ipA ipB r"
    "\<And>irq. RequestFrom irq a ipB A = arp_poll irq MaxDelay_ARP ipB (length (ARPTable A)) t"
    using RequestFrom_asks [OF A(1-3,5)] A(6) by metis
  obtain f where f: "EthernetFrame_of (stack_junk B) (frame_bytes r) 64 = Some f" "arp_packet ARPRequest (MACAddress (nic_of a A)) ipA ipB f"
    "GetDestination f = BroadcastAddr"
    using arp_packet_transit [OF t(6) junk(2)] t(5) by metis
  have usB: "for_us b f B" using B f(2) by (simp add: for_us_def arp_packet_def)
  have vB: "IsValid_ARP f" "GetOperation f = ARPRequest" using f(2) by (simp_all add: arp_packet_def)
  obtain B' r2 where B': "Main_ARP b f B = Ret () B'" "ARPTable B' = ARPTable (arp_learn b f B)"
    "wire (nic_of b B') = wire (nic_of b B) @ [frame_bytes r2]" "arp_packet ARPReply (MACAddress (nic_of b B)) ipB ipA r2"
    "GetDestination r2 = MACAddress (nic_of a A)"
    using Main_ARP_spec [OF B(1,2,4) vB(1)] usB vB(2) B(5) f(2) by (auto simp: arp_packet_def)
  obtain g where g: "EthernetFrame_of (stack_junk A) (frame_bytes r2) 64 = Some g" "arp_packet ARPReply (MACAddress (nic_of b B)) ipB ipA g"
    "GetDestination g = MACAddress (nic_of a A)"
    using arp_packet_transit [OF B'(4) junk(1)] B'(5) by metis
  have nic: "nic_of a t = m" "MACAddress m = MACAddress (nic_of a A)" "wire m = wire (nic_of a A) @ [frame_bytes r]"
    using t(1,4) A(2) by (simp_all add: nic_of_def can_send_def sent_def)
  have usA: "for_us a g t" using A(3,6) g(2) t(1) by (simp add: for_us_def arp_packet_def IPFind_def)
  have vA: "IsValid_ARP g" "GetOperation g \<noteq> ARPRequest" using g(2) by (simp_all add: arp_packet_def)
  obtain A' where A': "Main_ARP a g t = Ret () A'" "ARPTable A' = ARPTable (arp_learn a g t)" "wire (nic_of a A') = wire (nic_of a t)"
    using Main_ARP_spec [OF t(2,3) _ vA(1)] A(4) vA(2) t(1) by auto
  have mapA: "arp_map (ARPTable A') ipB = Some (MACAddress (nic_of b B))"
    using arp_learn_map(1) [of a g t] usA g(2) A'(2) by (simp add: arp_packet_def)
  have mapB: "arp_map (ARPTable B') ipA = Some (MACAddress (nic_of a A))"
    using arp_learn_map(1) [of b f B] usB f(2) B'(2) by (simp add: arp_packet_def)
  have miss: "ARPTableFind ipB t = length (ARPTable t)" using A(5) t(1) by (simp add: ARPTableFind_def)
  have "RequestFrom (Main_ARP a g) a ipB A = Ret (Some (MACAddress (nic_of b B))) A'"
    unfolding t(7) MaxDelay_two by (rule arp_poll_answer [where irq = "Main_ARP a g", OF miss A'(1) mapA])
  then show ?thesis
    using B' f g A' nic mapA mapB by (intro exI [of _ "frame_bytes r"] exI [of _ "frame_bytes r2"] exI [of _ f] exI [of _ g]
        exI [of _ A'] exI [of _ B']) (simp add: FrameFilter_def IsBroadcast_def)
qed

theorem arp_exchange_witness:
  "\<exists>g A'. RequestFrom (Main_ARP 0 g) 0 0x0200000A (host_demo [2, 0, 0, 0, 0, 1] 0x0100000A) = Ret (Some [2, 0, 0, 0, 0, 2]) A'
     \<and> arp_map (ARPTable A') 0x0200000A = Some [2, 0, 0, 0, 0, 2]"
proof -
  have "can_send 0 (host_demo [2, 0, 0, 0, 0, 1] 0x0100000A)" "can_send 0 (host_demo [2, 0, 0, 0, 0, 2] 0x0200000A)"
    by (simp_all add: host_demo_facts)
  then show ?thesis
    using arp_exchange [OF host_demo_pool _ _ _ _ _ host_demo_pool, of 0 "[2, 0, 0, 0, 0, 1]" "0x0100000A" "0x0200000A" "0x0100000A" 0
        "[2, 0, 0, 0, 0, 2]" "0x0200000A"]
    by (simp add: host_demo_facts ARPTableFind_def list_find_def) blast
qed

end
