(* ===== verification/Net_Icmp.thy ===== *)
theory Net_Icmp
  imports Net_Arp
begin

text \<open>
  Sending IP packets, ICMP, the dispatch of received frames and the system calls of the network, of
  \<open>kernel/UProtocols.cc\<close>, \<open>kernel/UEtherFrame.cc\<close> and \<open>kernel/UNetworkAdapter.cc\<close>.

  As in \<open>Net_Arp\<close>, \<open>irq\<close> is what interrupts do while a loop waits. \<open>ToDevice_IP\<close> changes the packet it sends, so it returns
  it beside its result. The handlers of TCP and UDP are arguments of \<open>Main_IP\<close>. The arguments of a system call are the
  results of \<open>argint\<close>, \<open>None\<close> where it fails. An access to an entry of \<open>NetworkAdapterList\<close> that is not in use is a fault.
\<close>

unbundle bit_operations_syntax

section \<open>Definitions\<close>

abbreviation (input) TypeI :: nat where "TypeI \<equiv> 0"
abbreviation (input) CodeI :: nat where "CodeI \<equiv> 1"
abbreviation (input) ChecksumI :: nat where "ChecksumI \<equiv> 2"
abbreviation (input) RestOfHeader :: nat where "RestOfHeader \<equiv> 4"
abbreviation (input) TEchoReply :: u8 where "TEchoReply \<equiv> 0"
abbreviation (input) TDestinationUnreachable :: u8 where "TDestinationUnreachable \<equiv> 3"
abbreviation (input) TSourceQuench :: u8 where "TSourceQuench \<equiv> 4"
abbreviation (input) TRedirectMessage :: u8 where "TRedirectMessage \<equiv> 5"
abbreviation (input) TEchoRequest :: u8 where "TEchoRequest \<equiv> 8"
abbreviation (input) TTimeExceeded :: u8 where "TTimeExceeded \<equiv> 11"
abbreviation (input) MaxDelay_Ping :: nat where "MaxDelay_Ping \<equiv> 300000000"

subsection \<open>Sending an IP packet\<close>

record neticmp = netarp +
  IsTesting :: bool
  IsReceived :: bool
  CurrentID :: u16
  CurrentSN :: u16

definition random16 :: "('a netip_scheme, u16) kmon" where
  "random16 = kbind operator_new (\<lambda>p. kbind (kget net_ticks) (\<lambda>tk.
     kthen (operator_delete p) (kreturn (ucast (fst (Gen (MT_Init (tk div 100))))))))"

definition NextIdentification :: "frame \<Rightarrow> ('a netip_scheme, frame) kmon" where
  "NextIdentification f =
     (if GetIdentification f = 0 then kbind random16 (\<lambda>v. kreturn (SetIdentification v f))
      else kreturn (SetIdentification (GetIdentification f + 1) f))"

definition ToDevice_IP :: "('a netarp_scheme, unit) kmon \<Rightarrow> nat \<Rightarrow> u16 \<Rightarrow> frame \<Rightarrow> ('a netarp_scheme, int \<times> frame) kmon" where
  "ToDevice_IP irq d ResizeTo f =
     kbind (kget (\<lambda>s. (IPFind d s, length (AdapterIPAddressTable s)))) (\<lambda>(it, last).
     if it = last then kreturn (- 1, f)
     else kbind (RequestFrom irq d (GetDestinationAddress f)) (\<lambda>DstMACAddr.
       case DstMACAddr of
         None \<Rightarrow> kreturn (- 2, f)
       | Some a \<Rightarrow>
         kbind (kget (\<lambda>s. (IPAddress (AdapterIPAddressTable s ! it), MACAddress (nic_of d s)))) (\<lambda>(ip, mac).
         kbind (NextIdentification (SetDestination a (SetSourceAddress ip f))) (\<lambda>f1.
         let f2 = SetTimeToLive 128 f1;
             f3 = (if ResizeTo \<noteq> 0
                   then Resize_IP True (if unat ResizeTo < header_bytes f2 then of_nat (header_bytes f2) else ResizeTo) f2
                   else Some f2)
         in case f3 of
              None \<Rightarrow> kfault ''EthernetFrame::Data''
            | Some f4 \<Rightarrow>
              let f5 = SetHeaderChecksum (VerifyChecksum_IP True f4) f4
              in kbind (ToDevice d f5) (\<lambda>n. kreturn (int (unat n), SetSource mac f5))))))"

subsection \<open>ICMP packets\<close>

definition GetType :: "frame \<Rightarrow> u8" where
  "GetType f = GetDataAs8_IP TypeI f"

definition GetCode :: "frame \<Rightarrow> u8" where
  "GetCode f = GetDataAs8_IP CodeI f"

definition GetChecksum :: "frame \<Rightarrow> u16" where
  "GetChecksum f = GetDataAs16_IP ChecksumI True f"

definition GetData_ICMP :: "nat \<Rightarrow> nat \<Rightarrow> bool \<Rightarrow> frame \<Rightarrow> u8 list" where
  "GetData_ICMP start n reverse f = GetData_IP (RestOfHeader + start) n reverse f"

definition GetDataAs8_ICMP :: "nat \<Rightarrow> frame \<Rightarrow> u8" where
  "GetDataAs8_ICMP start f = GetData_ICMP start 1 True f ! 0"

definition GetDataAs16_ICMP :: "nat \<Rightarrow> frame \<Rightarrow> u16" where
  "GetDataAs16_ICMP start f = word16 (GetData_ICMP start 2 True f)"

definition GetDataAs32_ICMP :: "nat \<Rightarrow> frame \<Rightarrow> u32" where
  "GetDataAs32_ICMP start f = word32 (GetData_ICMP start 4 True f)"

definition SetType :: "u8 \<Rightarrow> frame \<Rightarrow> frame" where
  "SetType v f = SetDataFrom8_IP v TypeI f"

definition SetCode :: "u8 \<Rightarrow> frame \<Rightarrow> frame" where
  "SetCode v f = SetDataFrom8_IP v CodeI f"

definition SetChecksum :: "u16 \<Rightarrow> frame \<Rightarrow> frame" where
  "SetChecksum v f = SetDataFrom16_IP v ChecksumI True f"

definition SetData_ICMP :: "u8 list \<Rightarrow> nat \<Rightarrow> frame \<Rightarrow> frame" where
  "SetData_ICMP src start f = SetData_IP src (RestOfHeader + start) f"

definition SetDataFrom8_ICMP :: "u8 \<Rightarrow> nat \<Rightarrow> frame \<Rightarrow> frame" where
  "SetDataFrom8_ICMP v start f = SetData_ICMP (swap_bytes [v]) start f"

definition SetDataFrom16_ICMP :: "u16 \<Rightarrow> nat \<Rightarrow> frame \<Rightarrow> frame" where
  "SetDataFrom16_ICMP v start f = SetData_ICMP (swap_bytes (bytes16 v)) start f"

definition SetDataFrom32_ICMP :: "u32 \<Rightarrow> nat \<Rightarrow> frame \<Rightarrow> frame" where
  "SetDataFrom32_ICMP v start f = SetData_ICMP (swap_bytes (bytes32 v)) start f"

text \<open>The number of words that are added up. A remainder of a negative size is not positive in C++.\<close>

definition icmp_words :: "frame \<Rightarrow> nat" where
  "icmp_words f =
     (let TotalSize = DataSize_IP f in
      nat (if 0 \<le> TotalSize \<and> TotalSize mod 2 = 1 then TotalSize div 2 + 1 else TotalSize div 2))"

definition VerifyChecksum_ICMP :: "bool \<Rightarrow> frame \<Rightarrow> u16" where
  "VerifyChecksum_ICMP ComputeOnly f =
     checksum16 (word_sum ComputeOnly (ChecksumI div 2) (icmp_words f) (\<lambda>i. GetDataAs16_IP (i * 2) True f))"

definition IsValid_ICMP :: "frame \<Rightarrow> bool" where
  "IsValid_ICMP f \<longleftrightarrow> VerifyChecksum_ICMP False f = 0"

definition ICMPv4_new :: "u8 list \<Rightarrow> frame" where
  "ICMPv4_new junk = SetProtocol P_ICMP (IPv4_new junk)"

definition ToDevice_ICMP :: "('a netarp_scheme, unit) kmon \<Rightarrow> nat \<Rightarrow> frame \<Rightarrow> ('a netarp_scheme, int \<times> frame) kmon" where
  "ToDevice_ICMP irq d f = ToDevice_IP irq d 0 (SetChecksum (VerifyChecksum_ICMP True f) f)"

subsection \<open>The kinds of ICMP packets\<close>

definition PingEcho_new :: "u8 list \<Rightarrow> frame" where
  "PingEcho_new junk = SetCode 0 (ICMPv4_new junk)"

definition GetIdentifier_Echo :: "frame \<Rightarrow> u16" where
  "GetIdentifier_Echo f = GetDataAs16_ICMP 0 f"

definition SetIdentifier_Echo :: "u16 \<Rightarrow> frame \<Rightarrow> frame" where
  "SetIdentifier_Echo v f = SetDataFrom16_ICMP v 0 f"

definition GetSequenceNumber_Echo :: "frame \<Rightarrow> u16" where
  "GetSequenceNumber_Echo f = GetDataAs16_ICMP 2 f"

definition SetSequenceNumber_Echo :: "u16 \<Rightarrow> frame \<Rightarrow> frame" where
  "SetSequenceNumber_Echo v f = SetDataFrom16_ICMP v 2 f"

definition GetData_Echo :: "nat \<Rightarrow> nat \<Rightarrow> frame \<Rightarrow> u8 list" where
  "GetData_Echo start n f = GetData_ICMP (4 + start) n False f"

definition SetData_Echo :: "u8 list \<Rightarrow> nat \<Rightarrow> frame \<Rightarrow> frame" where
  "SetData_Echo src start f = SetData_ICMP src (4 + start) f"

definition SourceQuench_new :: "u8 list \<Rightarrow> frame" where
  "SourceQuench_new junk = SetCode 0 (SetType TSourceQuench (ICMPv4_new junk))"

definition GetIPData_Quench :: "nat \<Rightarrow> nat \<Rightarrow> frame \<Rightarrow> u8 list" where
  "GetIPData_Quench start n f = GetData_ICMP (4 + start) n False f"

definition SetIPData_Quench :: "u8 list \<Rightarrow> nat \<Rightarrow> frame \<Rightarrow> frame" where
  "SetIPData_Quench src start f = SetData_ICMP src (4 + start) f"

definition Redirect_new :: "u8 list \<Rightarrow> frame" where
  "Redirect_new junk = SetType TRedirectMessage (ICMPv4_new junk)"

definition GetIPAddress_Redirect :: "frame \<Rightarrow> u32" where
  "GetIPAddress_Redirect f = GetDataAs32_ICMP 0 f"

definition SetIPAddress_Redirect :: "u32 \<Rightarrow> frame \<Rightarrow> frame" where
  "SetIPAddress_Redirect v f = SetDataFrom32_ICMP v 0 f"

definition GetIPData_Redirect :: "nat \<Rightarrow> nat \<Rightarrow> frame \<Rightarrow> u8 list" where
  "GetIPData_Redirect start n f = GetData_ICMP (4 + start) n False f"

definition SetIPData_Redirect :: "u8 list \<Rightarrow> nat \<Rightarrow> frame \<Rightarrow> frame" where
  "SetIPData_Redirect src start f = SetData_ICMP src (4 + start) f"

definition TimeExceeded_new :: "u8 list \<Rightarrow> frame" where
  "TimeExceeded_new junk = SetType TTimeExceeded (ICMPv4_new junk)"

definition GetIPData_Time :: "nat \<Rightarrow> nat \<Rightarrow> frame \<Rightarrow> u8 list" where
  "GetIPData_Time start n f = GetData_ICMP (4 + start) n False f"

definition SetIPData_Time :: "u8 list \<Rightarrow> nat \<Rightarrow> frame \<Rightarrow> frame" where
  "SetIPData_Time src start f = SetData_ICMP src (4 + start) f"

definition Timestamp_new :: "u8 list \<Rightarrow> frame" where
  "Timestamp_new junk = SetCode 0 (ICMPv4_new junk)"

definition GetIdentifier_Stamp :: "frame \<Rightarrow> u16" where
  "GetIdentifier_Stamp f = GetDataAs16_ICMP 0 f"

definition SetIdentifier_Stamp :: "u16 \<Rightarrow> frame \<Rightarrow> frame" where
  "SetIdentifier_Stamp v f = SetDataFrom16_ICMP v 0 f"

definition GetSequenceNumber_Stamp :: "frame \<Rightarrow> u16" where
  "GetSequenceNumber_Stamp f = GetDataAs16_ICMP 2 f"

definition SetSequenceNumber_Stamp :: "u16 \<Rightarrow> frame \<Rightarrow> frame" where
  "SetSequenceNumber_Stamp v f = SetDataFrom16_ICMP v 2 f"

definition GetOriginateTime :: "frame \<Rightarrow> u32" where
  "GetOriginateTime f = GetDataAs32_ICMP 4 f"

definition SetOriginateTime :: "u32 \<Rightarrow> frame \<Rightarrow> frame" where
  "SetOriginateTime v f = SetDataFrom32_ICMP v 4 f"

definition GetReceiveTime :: "frame \<Rightarrow> u32" where
  "GetReceiveTime f = GetDataAs32_ICMP 8 f"

definition SetReceiveTime :: "u32 \<Rightarrow> frame \<Rightarrow> frame" where
  "SetReceiveTime v f = SetDataFrom32_ICMP v 8 f"

definition GetTransmitTime :: "frame \<Rightarrow> u32" where
  "GetTransmitTime f = GetDataAs32_ICMP 12 f"

definition SetTransmitTime :: "u32 \<Rightarrow> frame \<Rightarrow> frame" where
  "SetTransmitTime v f = SetDataFrom32_ICMP v 12 f"

definition AddressMask_new :: "u8 list \<Rightarrow> frame" where
  "AddressMask_new junk = SetCode 0 (ICMPv4_new junk)"

definition GetIdentifier_Mask :: "frame \<Rightarrow> u16" where
  "GetIdentifier_Mask f = GetDataAs16_ICMP 0 f"

definition SetIdentifier_Mask :: "u16 \<Rightarrow> frame \<Rightarrow> frame" where
  "SetIdentifier_Mask v f = SetDataFrom16_ICMP v 0 f"

definition GetSequenceNumber_Mask :: "frame \<Rightarrow> u16" where
  "GetSequenceNumber_Mask f = GetDataAs16_ICMP 2 f"

definition SetSequenceNumber_Mask :: "u16 \<Rightarrow> frame \<Rightarrow> frame" where
  "SetSequenceNumber_Mask v f = SetDataFrom16_ICMP v 2 f"

definition GetSubnetMask :: "frame \<Rightarrow> u32" where
  "GetSubnetMask f = GetDataAs32_ICMP 4 f"

definition SetSubnetMask :: "u32 \<Rightarrow> frame \<Rightarrow> frame" where
  "SetSubnetMask v f = SetDataFrom32_ICMP v 4 f"

definition DestinationUnreachable_new :: "u8 list \<Rightarrow> frame" where
  "DestinationUnreachable_new junk = SetType TDestinationUnreachable (ICMPv4_new junk)"

definition GetLength :: "frame \<Rightarrow> u8" where
  "GetLength f = GetDataAs8_ICMP 1 f"

definition SetLength :: "u8 \<Rightarrow> frame \<Rightarrow> frame" where
  "SetLength v f = SetDataFrom8_ICMP v 1 f"

definition GetNextHopMTU :: "frame \<Rightarrow> u16" where
  "GetNextHopMTU f = GetDataAs16_ICMP 2 f"

definition SetNextHopMTU :: "u16 \<Rightarrow> frame \<Rightarrow> frame" where
  "SetNextHopMTU v f = SetDataFrom16_ICMP v 2 f"

definition GetIPData_Unreachable :: "nat \<Rightarrow> nat \<Rightarrow> frame \<Rightarrow> u8 list" where
  "GetIPData_Unreachable start n f = GetData_ICMP (4 + start) n False f"

definition SetIPData_Unreachable :: "u8 list \<Rightarrow> nat \<Rightarrow> frame \<Rightarrow> frame" where
  "SetIPData_Unreachable src start f = SetData_ICMP src (4 + start) f"

text \<open>\<open>what\<close>: the descriptions of the sixteen codes; any other code is outside the array.\<close>

definition what :: "frame \<Rightarrow> string option" where
  "what f =
     (let Descriptions = [''Network unreachable error.'', ''Host unreachable error.'',
         ''The designated transport protocol is not supported'',
         ''The designated protocol is unable to inform the host of the incoming message'',
         ''The datagram is too big. Packet fragmentation is required but the \"don't fragment\" (DF) flag is on.'',
         ''Source route failed error.'', ''Destination network unknown error.'', ''Destination host unknown error.'',
         ''Source host isolated error.'', ''The destination network is administratively prohibited.'',
         ''The destination host is administratively prohibited.'', ''The network is unreachable for Type Of Service.'',
         ''The host is unreachable for Type Of Service.'', ''Communication administratively prohibited'',
         ''The requested precedence is not permitted for the combination of host or network and port'',
         ''Precedence of datagram is below the level set by the network administrators'']
      in if unat (GetCode f) < length Descriptions then Some (Descriptions ! unat (GetCode f)) else None)"

subsection \<open>Received packets\<close>

definition Main_ICMP :: "('a neticmp_scheme, unit) kmon \<Rightarrow> nat \<Rightarrow> frame \<Rightarrow> ('a neticmp_scheme, unit) kmon" where
  "Main_ICMP irq d f = kbind operator_new (\<lambda>p.
     if \<not> IsValid_ICMP f then kreturn ()
     else
       kthen
        (if GetType f = TEchoReply then
           kmodify (\<lambda>s. if IsTesting s \<and> GetIdentifier_Echo f = CurrentID s \<and> GetSequenceNumber_Echo f = CurrentSN s
             then s\<lparr>IsReceived := True\<rparr> else s)
         else if GetType f = TEchoRequest then
           kbind operator_new (\<lambda>q.
           kthen (ToDevice_ICMP irq d (SetDestinationAddress (GetSourceAddress f) (SetType TEchoReply f)))
                 (operator_delete q))
         else kreturn ())
        (operator_delete p))"

definition Main_IP :: "(nat \<Rightarrow> frame \<Rightarrow> ('a neticmp_scheme, unit) kmon) \<Rightarrow> (nat \<Rightarrow> frame \<Rightarrow> ('a neticmp_scheme, unit) kmon)
    \<Rightarrow> ('a neticmp_scheme, unit) kmon \<Rightarrow> nat \<Rightarrow> frame \<Rightarrow> ('a neticmp_scheme, unit) kmon" where
  "Main_IP tcp udp irq d f s =
     (let DeviceIP = IPFind d s; ProtocolNumber = unat (GetProtocol f) in
      if \<not> IsValid_IP f then Ret () s
      else if DeviceIP = length (AdapterIPAddressTable s)
        \<or> IPAddress (AdapterIPAddressTable s ! DeviceIP) \<noteq> GetDestinationAddress f then Ret () s
      else if ProtocolNumber \<ge> ProtocolTableSize then Fault ''Protocols''
      else if GetProtocol f = P_ICMP then Main_ICMP irq d f s
      else if GetProtocol f = P_TCP then tcp d f s
      else if GetProtocol f = P_UDP then udp d f s
      else Ret () s)"

text \<open>The two entries of \<open>ProtocolInvokers\<close> in order.\<close>

definition InvokeMain :: "(nat \<Rightarrow> frame \<Rightarrow> ('a neticmp_scheme, unit) kmon) \<Rightarrow> (nat \<Rightarrow> frame \<Rightarrow> ('a neticmp_scheme, unit) kmon)
    \<Rightarrow> ('a neticmp_scheme, unit) kmon \<Rightarrow> nat \<Rightarrow> frame \<Rightarrow> ('a neticmp_scheme, unit) kmon" where
  "InvokeMain tcp udp irq d f =
     kthen (if GetEtherType f = EtherType_IP then Main_IP tcp udp irq d f else kreturn ())
           (if GetEtherType f = EtherType_ARP then Main_ARP d f else kreturn ())"

fun FrameBufferHandler :: "(nat \<Rightarrow> frame \<Rightarrow> ('a neticmp_scheme, unit) kmon) \<Rightarrow> (nat \<Rightarrow> frame \<Rightarrow> ('a neticmp_scheme, unit) kmon)
    \<Rightarrow> ('a neticmp_scheme, unit) kmon \<Rightarrow> nat \<Rightarrow> frame list \<Rightarrow> ('a neticmp_scheme, unit) kmon" where
  "FrameBufferHandler tcp udp irq d [] = kreturn ()"
| "FrameBufferHandler tcp udp irq d (f # fs) =
     kthen (kbind (kget (\<lambda>s. MACAddress (nic_of d s))) (\<lambda>mac.
              if FrameFilter mac f then InvokeMain tcp udp irq d f else kreturn ()))
           (FrameBufferHandler tcp udp irq d fs)"

text \<open>An error code of \<open>Receive\<close> is negative as a size: the handler gets it and does nothing.\<close>

definition serve_adapter :: "(nat \<Rightarrow> frame \<Rightarrow> ('a neticmp_scheme, unit) kmon) \<Rightarrow> (nat \<Rightarrow> frame \<Rightarrow> ('a neticmp_scheme, unit) kmon)
    \<Rightarrow> ('a neticmp_scheme, unit) kmon \<Rightarrow> nat \<Rightarrow> ('a neticmp_scheme, unit) kmon" where
  "serve_adapter tcp udp irq d =
     kbind (kget (\<lambda>s. HasInterrupt (nic_of d s))) (\<lambda>(pending, n).
     kthen (kmodify (set_nic d n))
    (if pending then
       kbind (Receive d) (\<lambda>r.
       kthen (kmodify (\<lambda>s. set_nic d (ClearInterrupt (nic_of d s)) s))
      (case r of Frames fs \<Rightarrow> FrameBufferHandler tcp udp irq d fs | _ \<Rightarrow> kreturn ()))
     else kreturn ()))"

fun serve_all :: "(nat \<Rightarrow> frame \<Rightarrow> ('a neticmp_scheme, unit) kmon) \<Rightarrow> (nat \<Rightarrow> frame \<Rightarrow> ('a neticmp_scheme, unit) kmon)
    \<Rightarrow> ('a neticmp_scheme, unit) kmon \<Rightarrow> nat list \<Rightarrow> ('a neticmp_scheme, unit) kmon" where
  "serve_all tcp udp irq [] = kreturn ()"
| "serve_all tcp udp irq (d # ds) = kthen (serve_adapter tcp udp irq d) (serve_all tcp udp irq ds)"

definition Intel8254xInterrupt :: "(nat \<Rightarrow> frame \<Rightarrow> ('a neticmp_scheme, unit) kmon) \<Rightarrow> (nat \<Rightarrow> frame \<Rightarrow> ('a neticmp_scheme, unit) kmon)
    \<Rightarrow> ('a neticmp_scheme, unit) kmon \<Rightarrow> ('a neticmp_scheme, unit) kmon" where
  "Intel8254xInterrupt tcp udp irq = kbind (kget (\<lambda>s. length (adapters s))) (\<lambda>n. serve_all tcp udp irq [0..<n])"

subsection \<open>Echo requests\<close>

text \<open>The forty bytes that are sent: the text, its terminator and fifteen bytes of what follows it in the image.\<close>

definition DefaultDataUNIX :: "u8 list \<Rightarrow> u8 list" where
  "DefaultDataUNIX rodata = map of_char '' !\"#$%&'()*+,-./01234567'' @ [0] @ take 15 rodata"

fun ping_wait :: "('a neticmp_scheme, unit) kmon \<Rightarrow> nat \<Rightarrow> ('a neticmp_scheme, unit) kmon" where
  "ping_wait irq 0 = kreturn ()"
| "ping_wait irq (Suc k) = kbind (kget IsReceived) (\<lambda>r. if r then kreturn () else kthen irq (ping_wait irq k))"

fun ping_loop :: "('a neticmp_scheme, unit) kmon \<Rightarrow> nat \<Rightarrow> nat list \<Rightarrow> frame \<Rightarrow> nat \<Rightarrow> nat \<Rightarrow> ('a neticmp_scheme, nat \<times> nat) kmon" where
  "ping_loop irq d [] f PingSent PingReceived = kreturn (PingSent, PingReceived)"
| "ping_loop irq d (i # is) f PingSent PingReceived =
     kthen (kmodify (\<lambda>s. s\<lparr>CurrentSN := of_nat (i + 1)\<rparr>))
    (kbind (ToDevice_ICMP irq d (SetSequenceNumber_Echo (of_nat (i + 1)) f)) (\<lambda>(_, g).
     kthen (ping_wait irq MaxDelay_Ping)
    (kbind (kget IsReceived) (\<lambda>r.
     kthen (kmodify (\<lambda>s. if r then s\<lparr>IsReceived := False\<rparr> else s))
           (ping_loop irq d is g (PingSent + 1) (if r then PingReceived + 1 else PingReceived))))))"

definition Ping :: "('a neticmp_scheme, unit) kmon \<Rightarrow> u8 list \<Rightarrow> u32 \<Rightarrow> 'a neticmp_scheme \<Rightarrow> (nat \<times> nat, 'a neticmp_scheme) outcome option" where
  "Ping irq rodata ip s0 =
     (let s1 = s0\<lparr>IsTesting := True, IsReceived := False\<rparr>;
          found = (\<lambda>d. case d of None \<Rightarrow> False | Some d \<Rightarrow> IPFind d s1 \<noteq> length (AdapterIPAddressTable s1))
      in map_option (\<lambda>r.
           kbind new_frame (\<lambda>(p, j). kbind operator_new (\<lambda>q.
           kbind (case r of
               Inl e \<Rightarrow> kfault e
             | Inr i \<Rightarrow>
               if i = length (RouteTable s1) \<or> \<not> found (Iface (RouteTable s1 ! i)) then kreturn (0, 0)
               else
                 let d = the (Iface (RouteTable s1 ! i));
                     ident = ucast (fst (Gen (MT_Init (net_ticks s1 div 100)))) :: u16;
                     f = SetDestinationAddress ip (SetData_Echo (DefaultDataUNIX rodata) 0 (SetIdentifier_Echo ident
                           (SetType TEchoRequest (PingEcho_new j))))
                 in kthen (kmodify (\<lambda>s. s\<lparr>CurrentID := ident\<rparr>)) (ping_loop irq d [0..<5] f 0 0)) (\<lambda>result.
           kthen (operator_delete p) (kthen (operator_delete q)
          (kthen (kmodify (\<lambda>s. s\<lparr>IsTesting := False, IsReceived := False\<rparr>)) (kreturn result)))))) s1)
         (RouteTableMatch ip s1))"

subsection \<open>System calls\<close>

definition INet_ARPRequest :: "('a netarp_scheme, unit) kmon \<Rightarrow> u32 option \<Rightarrow> 'a netarp_scheme \<Rightarrow> (int, 'a netarp_scheme) outcome option" where
  "INet_ARPRequest irq a0 s =
     (case a0 of
        None \<Rightarrow> Some (Ret (- 1) s)
      | Some ip \<Rightarrow> map_option (\<lambda>out. kbind (\<lambda>_. out) (\<lambda>r. kreturn (if r = Passed then 1 else 0)) s) (ARPing irq ip s))"

definition INet_SetIPAddress :: "int option \<Rightarrow> u32 option \<Rightarrow> u32 option \<Rightarrow> ('a netip_scheme, u32) kmon" where
  "INet_SetIPAddress a0 a1 a2 s =
     (case (a0, a1, a2) of
        (Some ix, Some Addr, Some Mask) \<Rightarrow>
          if int (length (adapters s)) \<le> ix then Ret 0xBAADF00D s
          else if ix < 0 then Fault ''NetworkAdapterList''
          else if IPFind (nat ix) s \<noteq> length (AdapterIPAddressTable s) then Ret 0x0D06F00D s
          else kthen (IPAllocate (nat ix) Addr Mask) (kreturn 0) s
      | _ \<Rightarrow> Ret (- 1) s)"

definition INet_DelIPAddress :: "int option \<Rightarrow> ('a netip_scheme, u32) kmon" where
  "INet_DelIPAddress a0 s =
     (case a0 of
        None \<Rightarrow> Ret (- 1) s
      | Some ix \<Rightarrow>
        if ix < 0 \<or> int (length (adapters s)) \<le> ix then Fault ''NetworkAdapterList''
        else kthen (IPDelete (nat ix)) (kreturn 0) s)"

definition INet_RTAddStatic :: "u32 option \<Rightarrow> u32 option \<Rightarrow> u32 option \<Rightarrow> int option \<Rightarrow> ('a netip_scheme, u32) kmon" where
  "INet_RTAddStatic a0 a1 a2 a3 s =
     (case (a0, a1, a2, a3) of
        (None, _, _, _) \<Rightarrow> Ret (- 1) s
      | (_, None, _, _) \<Rightarrow> Ret (- 3) s
      | (_, _, None, _) \<Rightarrow> Ret (- 2) s
      | (_, _, _, None) \<Rightarrow> Ret (- 4) s
      | (Some Dst, Some Via, Some Mask, Some Device) \<Rightarrow>
        let Route = no_route\<lparr>rDestination := Dst, Gateway := Via, Genmask := Mask\<rparr>;
            bad = Device < 0 \<or> int (length (adapters s)) \<le> Device;
            it = RouteTableFind (\<lambda>v. rDestination v = 0 \<and> Gateway v = Via) s
        in if Dst = 0 \<and> Mask = 0 \<and> Via = 0 then Ret 1 s
           else if Via \<noteq> 0 then
             if Dst \<noteq> 0 then
               if it = length (RouteTable s) then Ret 0xDEADBEEF s
               else kthen (RouteTableAdd (Route\<lparr>Iface := Iface (RouteTable s ! it), rDestination := Dst AND Mask,
                      rFlags := RTF_GATEWAY OR RTF_UP\<rparr>)) (kreturn 0) s
             else if bad then Ret 0xBAADF00D s
             else kthen (RouteTableAdd (Route\<lparr>Iface := Some (nat Device), rDestination := Dst AND Mask,
                    rFlags := RTF_GATEWAY OR RTF_UP\<rparr>)) (kreturn 0) s
           else if bad then Ret 0xBAADF00D s
           else kthen (RouteTableAdd (Route\<lparr>Iface := Some (nat Device), Genmask := NOT 0,
                  rFlags := RTF_HOST OR RTF_UP\<rparr>)) (kreturn 0) s)"

definition INet_RTDelete :: "('s, u32) kmon" where
  "INet_RTDelete = kreturn 0"

definition INet_Ping :: "('a neticmp_scheme, unit) kmon \<Rightarrow> u8 list \<Rightarrow> u32 option \<Rightarrow> 'a neticmp_scheme \<Rightarrow> (int, 'a neticmp_scheme) outcome option" where
  "INet_Ping irq rodata a0 s =
     (case a0 of
        None \<Rightarrow> Some (Ret (- 1) s)
      | Some ip \<Rightarrow> map_option (\<lambda>out. kthen (\<lambda>_. out) (kreturn 0) s) (Ping irq rodata ip s))"

definition Register_IP :: "('a netarp_scheme, unit) kmon \<Rightarrow> ('a netarp_scheme, unit) kmon \<Rightarrow> ('a netarp_scheme, unit) kmon" where
  "Register_IP tcp_register udp_register = kthen tcp_register udp_register"

definition RegisterProtocols :: "('a netarp_scheme, unit) kmon \<Rightarrow> ('a netarp_scheme, unit) kmon \<Rightarrow> ('a netarp_scheme, unit) kmon" where
  "RegisterProtocols tcp_register udp_register = kthen (Register_IP tcp_register udp_register) Register_ARP"

section \<open>Payloads\<close>

text \<open>A frame with an IP header of at least twenty bytes, and the change of its header only.\<close>

definition ip_ok :: "frame \<Rightarrow> bool" where
  "ip_ok f \<longleftrightarrow> frame_ok f \<and> 64 \<le> FrameSize f \<and> 20 \<le> header_bytes f"

definition same_payload :: "frame \<Rightarrow> frame \<Rightarrow> bool" where
  "same_payload f g \<longleftrightarrow> ip_ok g \<and> header_bytes g = header_bytes f \<and> FrameSize g = FrameSize f \<and> GetTotalLength g = GetTotalLength f
     \<and> GetProtocol g = GetProtocol f \<and> (\<forall>o' n r. 20 \<le> o' \<longrightarrow> in_frame o' n \<longrightarrow> GetData o' n r g = GetData o' n r f)"

lemma same_payload_trans: "same_payload f g \<Longrightarrow> same_payload g h \<Longrightarrow> same_payload f h"
  by (simp add: same_payload_def)

lemma ip_okD: "ip_ok f \<Longrightarrow> frame_ok f" "ip_ok f \<Longrightarrow> 64 \<le> FrameSize f"
  by (simp_all add: ip_ok_def)

lemma same_payloadI:
  assumes "ip_ok f" and "4 \<le> start" and "start + length src \<le> 20" and "start + length src \<le> 9 \<or> 10 \<le> start"
  shows "same_payload f (SetData src start f)"
  using assms
  by (auto simp: same_payload_def ip_ok_def header_bytes_def GetInternetHeaderLength_def GetTotalLength_def GetProtocol_def
      net_field SetData_size)

lemma same_payload_header:
  assumes "ip_ok f"
  shows "same_payload f (SetSourceAddress a f)" "same_payload f (SetDestinationAddress a f)" "same_payload f (SetIdentification v f)"
    "same_payload f (SetTimeToLive b f)" "same_payload f (SetHeaderChecksum v f)"
  using assms by (auto simp: SetSourceAddress_def SetDestinationAddress_def SetIdentification_def SetTimeToLive_def SetHeaderChecksum_def
      SetDataFrom32_def SetDataFrom16_def SetDataFrom8_def intro!: same_payloadI)

lemma same_payload_mac:
  assumes "ip_ok f" and "length a = 6"
  shows "same_payload f (SetDestination a f)" "same_payload f (SetSource a f)"
  using assms by (auto simp: same_payload_def ip_ok_def header_bytes_def GetInternetHeaderLength_def GetTotalLength_def GetProtocol_def
      net_access data_header in_frame_def SetDestination_def [of a, THEN arg_cong, of FrameSize] SetSource_def [of a, THEN arg_cong, of FrameSize])

lemma header_bytes_le: "header_bytes f \<le> 60"
proof -
  have "GetInternetHeaderLength f \<le> IHLMask" unfolding GetInternetHeaderLength_def by (rule word_and_le1)
  then show ?thesis by (simp add: header_bytes_def word_le_nat_alt)
qed

text \<open>Storing into the payload.\<close>

lemma SetData_IP_payload:
  assumes "ip_ok f" and "in_frame (header_bytes f + start) (length src)"
  defines "g \<equiv> SetData_IP src start f"
  shows "ip_ok g" "header_bytes g = header_bytes f" "FrameSize g = max (FrameSize f) (14 + header_bytes f + start + length src)"
    "GetTotalLength g = of_nat (DataSize g)" "GetData_IP start (length src) r g = (if r then rev src else src)"
    "in_frame (header_bytes f + o') n \<Longrightarrow> o' + n \<le> start \<or> start + length src \<le> o' \<Longrightarrow> GetData_IP o' n r g = GetData_IP o' n r f"
    "4 \<le> o' \<or> o' + n \<le> 2 \<Longrightarrow> o' + n \<le> 20 \<Longrightarrow> GetData o' n r g = GetData o' n r f"
proof -
  let ?h = "SetData src (header_bytes f + start) f"
  have h: "frame_ok ?h" using assms(1,2) by (simp add: ip_ok_def SetData_frame_ok)
  have g: "g = SetTotalLength (of_nat (DataSize ?h)) ?h" by (simp add: g_def SetData_IP_def Let_def)
  have hb: "header_bytes ?h = header_bytes f"
    using assms(1,2) by (simp add: ip_ok_def header_bytes_def GetInternetHeaderLength_def net_field)
  then show hg: "header_bytes g = header_bytes f"
    using h by (simp add: g SetTotalLength_def header_bytes_def GetInternetHeaderLength_def net_field)
  show size: "FrameSize g = max (FrameSize f) (14 + header_bytes f + start + length src)"
    using assms(1) by (auto simp: g SetTotalLength_def SetDataFrom16_def SetData_size ip_ok_def max_def)
  have "frame_ok g" using h by (simp add: g ip_set_ok)
  then show "ip_ok g" using size hg assms(1) by (auto simp: ip_ok_def max_def)
  have "DataSize g = DataSize ?h" using size assms(1) by (auto simp: DataSize_def SetData_size ip_ok_def max_def)
  then show "GetTotalLength g = of_nat (DataSize g)" using h by (simp add: g GetTotalLength_def SetTotalLength_def net_field)
  show "GetData_IP start (length src) r g = (if r then rev src else src)"
    using assms(1,2) h hg by (simp add: GetData_IP_def ip_ok_def g SetTotalLength_def net_field)
  show "GetData_IP o' n r g = GetData_IP o' n r f" if "in_frame (header_bytes f + o') n" "o' + n \<le> start \<or> start + length src \<le> o'"
    using assms(1,2) h hg that by (auto simp: GetData_IP_def ip_ok_def g SetTotalLength_def net_field)
  show "GetData o' n r g = GetData o' n r f" if "4 \<le> o' \<or> o' + n \<le> 2" "o' + n \<le> 20"
    using assms(1,2) h that by (auto simp: ip_ok_def g SetTotalLength_def net_field)
qed

section \<open>The checksum of a message\<close>

text \<open>A packet whose length field agrees with its frame and that has room for the first four bytes of a message.\<close>

definition icmp_ok :: "frame \<Rightarrow> bool" where
  "icmp_ok f \<longleftrightarrow> ip_ok f \<and> unat (GetTotalLength f) = DataSize f \<and> header_bytes f + 4 \<le> DataSize f"

lemma icmp_words_ok:
  assumes "icmp_ok f"
  shows "icmp_words f = (DataSize f - header_bytes f + 1) div 2"
proof -
  let ?n = "DataSize f - header_bytes f"
  have "DataSize_IP f = int ?n" using assms by (auto simp: DataSize_IP_def icmp_ok_def)
  then have "icmp_words f = nat (if int ?n mod 2 = 1 then int ?n div 2 + 1 else int ?n div 2)" by (simp add: icmp_words_def)
  also have "\<dots> = (if ?n mod 2 = 1 then ?n div 2 + 1 else ?n div 2)" by (auto simp: zmod_int [symmetric] zdiv_int [symmetric] nat_add_distrib)
  also have "\<dots> = (?n + 1) div 2" by presburger
  finally show ?thesis .
qed

lemma icmp_word_in_frame:
  assumes "icmp_ok f" and "i < icmp_words f"
  shows "in_frame (header_bytes f + i * 2) 2"
proof -
  have size: "DataSize f = FrameSize f - 14" "FrameSize f \<le> 1518" "64 \<le> FrameSize f"
    using assms(1) by (auto simp: icmp_ok_def ip_ok_def frame_ok_def DataSize_def)
  obtain k where k: "header_bytes f = 4 * k" by (simp add: header_bytes_def mult.commute)
  have "2 * (i + 1) \<le> 2 * ((DataSize f - header_bytes f + 1) div 2)" using assms icmp_words_ok by simp
  then show ?thesis using size k by (simp add: in_frame_def) presburger
qed

lemma SetChecksum_keeps:
  assumes "icmp_ok f"
  shows "icmp_ok (SetChecksum c f)" "DataSize (SetChecksum c f) = DataSize f" "header_bytes (SetChecksum c f) = header_bytes f"
    "i < icmp_words f \<Longrightarrow> GetDataAs16_IP (i * 2) True (SetChecksum c f) = (if i = 1 then c else GetDataAs16_IP (i * 2) True f)"
    "GetTotalLength (SetChecksum c f) = GetTotalLength f"
    "4 \<le> o' \<or> o' + n \<le> 2 \<Longrightarrow> o' + n \<le> 20 \<Longrightarrow> GetData o' n r (SetChecksum c f) = GetData o' n r f"
    "in_frame (header_bytes f + o') n \<Longrightarrow> o' + n \<le> 2 \<or> 4 \<le> o' \<Longrightarrow> GetData_IP o' n r (SetChecksum c f) = GetData_IP o' n r f"
proof -
  have ok: "ip_ok f" "header_bytes f + 4 \<le> DataSize f" "unat (GetTotalLength f) = DataSize f"
    using assms by (simp_all add: icmp_ok_def)
  then have room: "in_frame (header_bytes f + 2) (length (rev (bytes16 c)))"
    by (auto simp: in_frame_def ip_ok_def frame_ok_def DataSize_def)
  note set = SetData_IP_payload [OF ok(1) room]
  have eq: "SetChecksum c f = SetData_IP (rev (bytes16 c)) 2 f" by (simp add: SetChecksum_def SetDataFrom16_IP_def)
  have "14 + header_bytes f + 2 + 2 \<le> FrameSize f" using ok(1,2) by (auto simp: DataSize_def ip_ok_def)
  then have "FrameSize (SetChecksum c f) = FrameSize f" using set(3) by (simp add: eq max_def)
  then show size: "DataSize (SetChecksum c f) = DataSize f" by (simp add: DataSize_def)
  show hb: "header_bytes (SetChecksum c f) = header_bytes f" using set(2) by (simp add: eq)
  show len: "GetTotalLength (SetChecksum c f) = GetTotalLength f"
    using set(4) size by (simp add: eq ok(3) [symmetric])
  show "icmp_ok (SetChecksum c f)" using set(1) size hb len ok by (simp add: icmp_ok_def eq)
  show "GetDataAs16_IP (i * 2) True (SetChecksum c f) = (if i = 1 then c else GetDataAs16_IP (i * 2) True f)" if "i < icmp_words f"
  proof (cases "i = 1")
    case True
    then show ?thesis using set(5) [of True] by (simp add: eq GetDataAs16_IP_def word16_bytes16)
  next
    case False
    then have "i * 2 + 2 \<le> 2 \<or> 4 \<le> i * 2" by auto
    then show ?thesis using False set(6) [OF icmp_word_in_frame [OF assms that], of True] by (simp add: eq GetDataAs16_IP_def)
  qed
  show "GetData o' n r (SetChecksum c f) = GetData o' n r f" if "4 \<le> o' \<or> o' + n \<le> 2" "o' + n \<le> 20" using set(7) that by (simp add: eq)
  show "GetData_IP o' n r (SetChecksum c f) = GetData_IP o' n r f" if "in_frame (header_bytes f + o') n" "o' + n \<le> 2 \<or> 4 \<le> o'"
    using set(6) that by (simp add: eq)
qed

interpretation icmp_sum: checksum_field "\<lambda>f i. GetDataAs16_IP (i * 2) True f" icmp_words 1 SetChecksum icmp_ok
proof unfold_locales
  fix f c assume f: "icmp_ok f"
  have "DataSize f \<le> 1504" "header_bytes f + 4 \<le> DataSize f" using f by (auto simp: icmp_ok_def ip_ok_def frame_ok_def DataSize_def)
  then show "icmp_words f \<le> 65536" "1 < icmp_words f" using icmp_words_ok [OF f] by auto
  show "icmp_words (SetChecksum c f) = icmp_words f"
    using icmp_words_ok SetChecksum_keeps(1-3) [OF f] f by simp
qed (use SetChecksum_keeps(4) in simp)

lemma VerifyChecksum_ICMP_sum:
  "VerifyChecksum_ICMP c f = checksum16 (word_sum c 1 (icmp_words f) (\<lambda>i. GetDataAs16_IP (i * 2) True f))"
  by (simp add: VerifyChecksum_ICMP_def)

lemma same_payload_icmp:
  assumes "icmp_ok f" and "same_payload f g"
  shows "icmp_ok g" "IsValid_ICMP g = IsValid_ICMP f"
    "in_frame (header_bytes f + o') n \<Longrightarrow> GetData_IP o' n r g = GetData_IP o' n r f"
proof -
  have g: "ip_ok g" "header_bytes g = header_bytes f" "FrameSize g = FrameSize f" "GetTotalLength g = GetTotalLength f"
    "\<And>o' n r. 20 \<le> o' \<Longrightarrow> in_frame o' n \<Longrightarrow> GetData o' n r g = GetData o' n r f"
    using assms(2) by (simp_all add: same_payload_def)
  have "20 \<le> header_bytes f" using assms(1) by (simp add: icmp_ok_def ip_ok_def)
  then show ip: "in_frame (header_bytes f + o') n \<Longrightarrow> GetData_IP o' n r g = GetData_IP o' n r f" for o' n r
    using g(5) [of "header_bytes f + o'" n r] g(2) by (simp add: GetData_IP_def)
  show ok: "icmp_ok g" using assms(1) g by (simp add: icmp_ok_def DataSize_def)
  have n: "icmp_words g = icmp_words f" using g by (simp add: icmp_words_def DataSize_IP_def)
  have "word_sum False 1 (icmp_words f) (\<lambda>i. GetDataAs16_IP (i * 2) True g) = word_sum False 1 (icmp_words f) (\<lambda>i. GetDataAs16_IP (i * 2) True f)"
    unfolding word_sum_def using ip [OF icmp_word_in_frame [OF assms(1)]] by (intro foldl_cong refl) (simp add: GetDataAs16_IP_def)
  then show "IsValid_ICMP g = IsValid_ICMP f" by (simp add: IsValid_ICMP_def VerifyChecksum_ICMP_sum n)
qed

section \<open>Sending\<close>

lemma operator_new_pool:
  assumes "pool s (p # ps)"
  shows "operator_new s = Ret p (s\<lparr>freelist := ld64 (kmem_mem s) p\<rparr>)"
    and "pool (s\<lparr>freelist := ld64 (kmem_mem s) p\<rparr>) ps" and "page_ok s p" and "p \<notin> set ps"
  using pool_Cons [OF assms] page_ok_nonzero [OF assms] assms
  by (auto simp: operator_new_def kmon_defs pool_def)

lemma kmem_same: "s\<lparr>kmem_mem := kmem_mem s, freelist := freelist s\<rparr> = s"
  by simp

lemma random16_pool:
  assumes "pool s (p # ps)"
  shows "\<exists>M v. random16 s = Ret v (s\<lparr>kmem_mem := M, freelist := p\<rparr>) \<and> pool (s\<lparr>kmem_mem := M, freelist := p\<rparr>) (p # ps)"
proof -
  let ?s1 = "s\<lparr>freelist := ld64 (kmem_mem s) p\<rparr>"
  note new = operator_new_pool [OF assms]
  have "page_ok ?s1 p" using new(3) by (simp add: page_ok_def)
  then obtain M where "operator_delete p ?s1 = Ret () (?s1\<lparr>kmem_mem := M, freelist := p\<rparr>)" "pool (?s1\<lparr>kmem_mem := M, freelist := p\<rparr>) (p # ps)"
    using delete_pool [OF new(2) _ new(4)] by blast
  then show ?thesis using new(1) by (intro exI [of _ M]) (simp add: random16_def kmon_defs)
qed

lemma NextIdentification_pool:
  assumes "pool s (p # ps)"
  shows "\<exists>M v. NextIdentification f s = Ret (SetIdentification v f) (s\<lparr>kmem_mem := M, freelist := p\<rparr>)
    \<and> pool (s\<lparr>kmem_mem := M, freelist := p\<rparr>) (p # ps)"
proof (cases "GetIdentification f = 0")
  case True
  then show ?thesis using random16_pool [OF assms] by (auto simp: NextIdentification_def kmon_defs)
next
  case False
  have "freelist s = p" using assms by (simp add: pool_def)
  then have "s\<lparr>kmem_mem := kmem_mem s, freelist := p\<rparr> = s" using kmem_same [of s] by simp
  then show ?thesis using False assms
    by (intro exI [of _ "kmem_mem s"] exI [of _ "GetIdentification f + 1"]) (simp add: NextIdentification_def kreturn_def)
qed

lemma VerifyChecksum_IP_mac: "frame_ok f \<Longrightarrow> length a = 6 \<Longrightarrow> VerifyChecksum_IP c (SetSource a f) = VerifyChecksum_IP c f"
  unfolding VerifyChecksum_IP_sum word_sum_def
  by (intro arg_cong [of _ _ checksum16] foldl_cong refl) (auto simp: GetDataAs16_def data_header in_frame_def)

lemma RequestFrom_known:
  "IPFind d s \<noteq> length (AdapterIPAddressTable s) \<Longrightarrow> arp_map (ARPTable s) ip = Some a \<Longrightarrow> RequestFrom irq d ip s = Ret (Some a) s"
  by (auto simp: RequestFrom_def Let_def arp_map_find ARPTableFind_def split: if_splits)

lemma ToDevice_IP_known:
  fixes s :: "'a netarp_scheme"
  assumes "pool s (p # ps)" and "can_send d s" and "IPFind d s \<noteq> length (AdapterIPAddressTable s)"
    and "arp_map (ARPTable s) (GetDestinationAddress f) = Some a" and "length a = 6" and "ip_ok f"
  shows "\<exists>M m F t. t = s\<lparr>kmem_mem := M, freelist := p, adapters := (adapters s)[d := m]\<rparr>
    \<and> ToDevice_IP irq d 0 f s = Ret (int (FrameSize f), F) t \<and> pool t (p # ps) \<and> can_send d t \<and> sent d (frame_bytes F) s m
    \<and> same_payload f F \<and> GetSourceAddress F = IPAddress (AdapterIPAddressTable s ! IPFind d s)
    \<and> GetDestinationAddress F = GetDestinationAddress f \<and> GetDestination F = a \<and> GetSource F = MACAddress (nic_of d s)
    \<and> VerifyChecksum_IP False F = 0 \<and> GetTimeToLive F = 128"
proof -
  let ?ip = "IPAddress (AdapterIPAddressTable s ! IPFind d s)" and ?mac = "MACAddress (nic_of d s)"
  have mac: "length ?mac = 6" and d: "d < length (adapters s)" using assms(2) by (simp_all add: can_send_def)
  define f1 where "f1 = SetDestination a (SetSourceAddress ?ip f)"
  have p0: "same_payload f (SetSourceAddress ?ip f)" using same_payload_header(1) [OF assms(6)] .
  then have i0: "ip_ok (SetSourceAddress ?ip f)" by (simp add: same_payload_def)
  have p1: "same_payload f f1" unfolding f1_def by (rule same_payload_trans [OF p0 same_payload_mac(1) [OF i0 assms(5)]])
  then have i1: "ip_ok f1" by (simp add: same_payload_def)
  obtain M v where v: "NextIdentification f1 s = Ret (SetIdentification v f1) (s\<lparr>kmem_mem := M, freelist := p\<rparr>)"
    "pool (s\<lparr>kmem_mem := M, freelist := p\<rparr>) (p # ps)"
    using NextIdentification_pool [OF assms(1)] by blast
  let ?s1 = "s\<lparr>kmem_mem := M, freelist := p\<rparr>"
  define f2 where "f2 = SetIdentification v f1"
  have p2: "same_payload f f2" unfolding f2_def by (rule same_payload_trans [OF p1 same_payload_header(3) [OF i1]])
  then have i2: "ip_ok f2" by (simp add: same_payload_def)
  define f3 where "f3 = SetTimeToLive 128 f2"
  have p3: "same_payload f f3" unfolding f3_def by (rule same_payload_trans [OF p2 same_payload_header(4) [OF i2]])
  then have i3: "ip_ok f3" by (simp add: same_payload_def)
  define f5 where "f5 = SetHeaderChecksum (VerifyChecksum_IP True f3) f3"
  have p5: "same_payload f f5" unfolding f5_def by (rule same_payload_trans [OF p3 same_payload_header(5) [OF i3]])
  then have i5: "ip_ok f5" and sz: "FrameSize f5 = FrameSize f" by (simp_all add: same_payload_def)
  have ok: "frame_ok f" "frame_ok f1" "frame_ok f2" "frame_ok f3" "frame_ok f5" "frame_ok (SetSourceAddress ?ip f)"
    using assms(6) i0 i1 i2 i3 i5 by (simp_all add: ip_ok_def)
  define F where "F = SetSource ?mac f5"
  have pF: "same_payload f F" unfolding F_def by (rule same_payload_trans [OF p5 same_payload_mac(2) [OF i5 mac]])
  have FF: "FrameSize F < 65536" "FrameSize F = FrameSize f" using pF by (auto simp: same_payload_def ip_ok_def frame_ok_def)
  have n1: "nic_of d ?s1 = nic_of d s" by (simp add: nic_of_def)
  obtain m where m: "Transmit d F ?s1 = Ret (of_nat (FrameSize F)) (set_nic d m ?s1)" "sent d (frame_bytes F) s m"
    using Transmit_sends [of d ?s1 F] assms(2) FF(1) n1 by (auto simp: sent_def frame_bytes_def can_send_def)
  let ?t = "s\<lparr>kmem_mem := M, freelist := p, adapters := (adapters s)[d := m]\<rparr>"
  have tt: "set_nic d m ?s1 = ?t" by (simp add: set_nic_def)
  have "ToDevice_IP irq d 0 f s = Ret (int (FrameSize f), F) ?t"
    using assms(3) RequestFrom_known [OF assms(3,4), of irq] v(1) m(1) n1 FF tt
    by (simp add: ToDevice_IP_def kmon_defs f1_def [symmetric] f2_def [symmetric] f3_def [symmetric] f5_def [symmetric] F_def [symmetric]
        ToDevice_def Let_def unsigned_of_nat take_bit_eq_mod)
  moreover have "pool ?t (p # ps)" using v(2) by (simp add: pool_def page_ok_def list_all_iff)
  moreover have "can_send d ?t" using m(2) assms(2) by (simp add: can_send_def sent_def nic_of_def)
  moreover have "VerifyChecksum_IP False F = 0"
    using VerifyChecksum_IP_mac [OF ok(5) mac] ip_sum.sealed [OF ok(4)] by (simp add: F_def f5_def VerifyChecksum_IP_sum)
  moreover have "GetDestination F = a" "GetSource F = ?mac"
    using ok mac assms(5) by (simp_all add: F_def header_fields)
      (simp add: f5_def f3_def f2_def f1_def SetHeaderChecksum_def SetTimeToLive_def SetIdentification_def net_field)
  moreover have "GetSourceAddress F = ?ip" "GetDestinationAddress F = GetDestinationAddress f" "GetTimeToLive F = 128"
    using ok mac assms(5) unfolding F_def f5_def f3_def f2_def f1_def SetHeaderChecksum_def SetTimeToLive_def SetIdentification_def
      GetSourceAddress_def GetDestinationAddress_def GetTimeToLive_def
    by (simp_all add: net_field SetSourceAddress_def)
  ultimately show ?thesis using m(2) pF by blast
qed

section \<open>Echo\<close>

text \<open>What the reply is made of: the packet with the type and the destination changed.\<close>

lemma echo_reply_frame:
  fixes a :: u32
  assumes "ip_ok f" and "header_bytes f + 4 \<le> DataSize f"
  defines "g \<equiv> SetDestinationAddress a (SetType TEchoReply f)"
  shows "icmp_ok g" "header_bytes g = header_bytes f" "FrameSize g = FrameSize f" "GetDestinationAddress g = a"
    "GetType g = TEchoReply" "1 \<le> o' \<Longrightarrow> in_frame (header_bytes f + o') n \<Longrightarrow> GetData_IP o' n r g = GetData_IP o' n r f"
proof -
  have room: "in_frame (header_bytes f + 0) (length [0 :: u8])" and fit: "14 + header_bytes f + 1 \<le> FrameSize f"
    and small: "DataSize f < 65536"
    using assms(1,2) by (auto simp: in_frame_def ip_ok_def frame_ok_def DataSize_def)
  note set = SetData_IP_payload [OF assms(1) room]
  have eq: "SetType TEchoReply f = SetData_IP [0] 0 f" by (simp add: SetType_def SetDataFrom8_IP_def)
  define h where "h = SetData_IP [0] 0 f"
  have h: "ip_ok h" "header_bytes h = header_bytes f" "FrameSize h = FrameSize f" "GetTotalLength h = of_nat (DataSize h)"
    using set(1-4) fit by (simp_all add: h_def max_def)
  have same: "same_payload h g" using same_payload_header(2) [OF h(1)] by (simp add: g_def eq h_def)
  have "DataSize h = DataSize f" using h(3) by (simp add: DataSize_def)
  moreover from this have "unat (GetTotalLength h) = DataSize h" using h(4) small by (simp add: unsigned_of_nat take_bit_eq_mod)
  ultimately have icmp: "icmp_ok h" using h assms(2) by (simp add: icmp_ok_def)
  show "icmp_ok g" using same_payload_icmp(1) [OF icmp same] .
  show "header_bytes g = header_bytes f" "FrameSize g = FrameSize f" using same h by (simp_all add: same_payload_def)
  show "GetDestinationAddress g = a"
    using h(1) by (simp add: g_def eq h_def [symmetric] GetDestinationAddress_def SetDestinationAddress_def ip_ok_def net_field)
  have "GetData_IP 0 1 True g = [0]" using same_payload_icmp(3) [OF icmp same, of 0 1 True] set(5) [of True] room h(2) by (simp add: h_def)
  then show "GetType g = TEchoReply" by (simp add: GetType_def GetDataAs8_IP_def)
  show "GetData_IP o' n r g = GetData_IP o' n r f" if "1 \<le> o'" "in_frame (header_bytes f + o') n"
    using same_payload_icmp(3) [OF icmp same, of o' n r] set(6) [of o' n r] that h(2) by (simp add: h_def)
qed

definition echo_answer :: "frame \<Rightarrow> u32 \<Rightarrow> mac \<Rightarrow> mac \<Rightarrow> frame \<Rightarrow> bool" where
  "echo_answer f ip mac a F \<longleftrightarrow> icmp_ok F \<and> FrameSize F = FrameSize f \<and> header_bytes F = header_bytes f
     \<and> VerifyChecksum_IP False F = 0 \<and> IsValid_ICMP F \<and> GetType F = TEchoReply
     \<and> GetSourceAddress F = ip \<and> GetDestinationAddress F = GetSourceAddress f \<and> GetSource F = mac \<and> GetDestination F = a
     \<and> GetTimeToLive F = 128 \<and> GetCode F = GetCode f
     \<and> (\<forall>o' n. 4 \<le> o' \<and> in_frame (header_bytes f + o') n \<longrightarrow> GetData_IP o' n False F = GetData_IP o' n False f)"

lemma ToDevice_ICMP_reply:
  fixes s :: "'a netarp_scheme"
  assumes "pool s (p # ps)" and "can_send d s" and "IPFind d s \<noteq> length (AdapterIPAddressTable s)"
    and "arp_map (ARPTable s) (GetSourceAddress f) = Some a" and "length a = 6" and "ip_ok f" and "header_bytes f + 4 \<le> DataSize f"
  shows "\<exists>M m F t. t = s\<lparr>kmem_mem := M, freelist := p, adapters := (adapters s)[d := m]\<rparr>
    \<and> ToDevice_ICMP irq d (SetDestinationAddress (GetSourceAddress f) (SetType TEchoReply f)) s = Ret (int (FrameSize f), F) t
    \<and> pool t (p # ps) \<and> can_send d t \<and> sent d (frame_bytes F) s m
    \<and> echo_answer f (IPAddress (AdapterIPAddressTable s ! IPFind d s)) (MACAddress (nic_of d s)) a F"
proof -
  define g where "g = SetDestinationAddress (GetSourceAddress f) (SetType TEchoReply f)"
  note g = echo_reply_frame [OF assms(6,7), where a = "GetSourceAddress f", folded g_def]
  define k where "k = SetChecksum (VerifyChecksum_ICMP True g) g"
  note k = SetChecksum_keeps [OF g(1), where c = "VerifyChecksum_ICMP True g", folded k_def]
  have valid: "IsValid_ICMP k"
    using icmp_sum.sealed [OF g(1), of k] by (simp add: IsValid_ICMP_def VerifyChecksum_ICMP_sum k_def)
  have dst: "GetDestinationAddress k = GetSourceAddress f"
    using k(6) [of 16 4 False] g(4) by (simp add: GetDestinationAddress_def GetDataAs32_def)
  have ipk: "ip_ok k" "icmp_ok k" using k(1) by (simp_all add: icmp_ok_def)
  have fs: "FrameSize k = FrameSize f" using k(2) g(3) ipk(1) assms(6) by (auto simp: DataSize_def ip_ok_def)
  obtain M m F t where t: "t = s\<lparr>kmem_mem := M, freelist := p, adapters := (adapters s)[d := m]\<rparr>"
    "ToDevice_IP irq d 0 k s = Ret (int (FrameSize k), F) t" "pool t (p # ps)" "can_send d t" "sent d (frame_bytes F) s m"
    "same_payload k F" "GetSourceAddress F = IPAddress (AdapterIPAddressTable s ! IPFind d s)" "GetDestinationAddress F = GetDestinationAddress k"
    "GetDestination F = a" "GetSource F = MACAddress (nic_of d s)" "VerifyChecksum_IP False F = 0" "GetTimeToLive F = 128"
    using ToDevice_IP_known [OF assms(1-3) _ assms(5) ipk(1), of irq] assms(4) dst by metis
  note F = same_payload_icmp [OF ipk(2) t(6)]
  have hb: "header_bytes k = header_bytes f" using k(3) g(2) by simp
  have data: "GetData_IP o' n r F = GetData_IP o' n r f" if "1 \<le> o'" "o' + n \<le> 2 \<or> 4 \<le> o'" "in_frame (header_bytes f + o') n" for o' n r
    using F(3) [of o' n r] k(7) [of o' n r] g(6) [of o' n r] that hb g(2) by simp
  have "in_frame (header_bytes f + 0) 1" "in_frame (header_bytes f + 1) 1"
    using assms(6,7) by (auto simp: in_frame_def ip_ok_def frame_ok_def DataSize_def)
  then have "GetType F = TEchoReply" "GetCode F = GetCode f"
    using F(3) [of 0 1 True] k(7) [of 0 1 True] g(5) hb g(2) data [of 1 1 True]
    by (simp_all add: GetType_def GetCode_def GetDataAs8_IP_def)
  moreover have "header_bytes F = header_bytes f" "FrameSize F = FrameSize f" using t(6) hb fs by (simp_all add: same_payload_def)
  ultimately have "echo_answer f (IPAddress (AdapterIPAddressTable s ! IPFind d s)) (MACAddress (nic_of d s)) a F"
    using t F valid dst data by (simp add: echo_answer_def)
  then show ?thesis
    using t fs by (intro exI [of _ M] exI [of _ m] exI [of _ F] exI [of _ t]) (simp add: ToDevice_ICMP_def g_def [symmetric] k_def [symmetric])
qed

lemma pool_update:
  "pool (s\<lparr>kmem_mem := M, freelist := p, adapters := A\<rparr>) ps = pool (s\<lparr>kmem_mem := M, freelist := p\<rparr>) ps" for s :: "'a netdev_scheme"
  by (simp add: pool_def page_ok_def list_all_iff)

lemma Main_ICMP_echo:
  fixes s :: "'a neticmp_scheme"
  assumes "pool s (p # q # r # ps)" and "can_send d s" and "IPFind d s \<noteq> length (AdapterIPAddressTable s)"
    and "arp_map (ARPTable s) (GetSourceAddress f) = Some a" and "length a = 6" and "ip_ok f" and "header_bytes f + 4 \<le> DataSize f"
    and "IsValid_ICMP f" and "GetType f = TEchoRequest"
  shows "\<exists>M m F t. t = s\<lparr>kmem_mem := M, freelist := p, adapters := (adapters s)[d := m]\<rparr> \<and> Main_ICMP irq d f s = Ret () t
    \<and> pool t (p # q # r # ps) \<and> can_send d t \<and> sent d (frame_bytes F) s m
    \<and> echo_answer f (IPAddress (AdapterIPAddressTable s ! IPFind d s)) (MACAddress (nic_of d s)) a F"
proof -
  let ?s1 = "s\<lparr>freelist := ld64 (kmem_mem s) p\<rparr>"
  note n1 = operator_new_pool [OF assms(1)]
  let ?s2 = "s\<lparr>freelist := ld64 (kmem_mem s) q\<rparr>"
  note n2 = operator_new_pool [OF n1(2)]
  have s2: "operator_new ?s1 = Ret q ?s2" "pool ?s2 (r # ps)" using n2(1,2) by simp_all
  have "can_send d ?s2" "IPFind d ?s2 \<noteq> length (AdapterIPAddressTable ?s2)" "arp_map (ARPTable ?s2) (GetSourceAddress f) = Some a"
    using assms(2-4) by (simp_all add: can_send_def nic_of_def IPFind_def)
  from ToDevice_ICMP_reply [OF s2(2) this assms(5-7), of irq] obtain M m F where
    F: "ToDevice_ICMP irq d (SetDestinationAddress (GetSourceAddress f) (SetType TEchoReply f)) ?s2
        = Ret (int (FrameSize f), F) (s\<lparr>kmem_mem := M, freelist := r, adapters := (adapters s)[d := m]\<rparr>)"
    "pool (s\<lparr>kmem_mem := M, freelist := r, adapters := (adapters s)[d := m]\<rparr>) (r # ps)"
    "can_send d (s\<lparr>kmem_mem := M, freelist := r, adapters := (adapters s)[d := m]\<rparr>)" "sent d (frame_bytes F) s m"
    "echo_answer f (IPAddress (AdapterIPAddressTable s ! IPFind d s)) (MACAddress (nic_of d s)) a F"
    by (auto simp: sent_def nic_of_def IPFind_def)
  let ?s3 = "s\<lparr>kmem_mem := M, freelist := r, adapters := (adapters s)[d := m]\<rparr>"
  have q: "page_ok ?s3 q" "q \<notin> set (r # ps)" using n2(3,4) by (simp_all add: page_ok_def)
  obtain M4 where s4: "operator_delete q ?s3 = Ret () (?s3\<lparr>kmem_mem := M4, freelist := q\<rparr>)" "pool (?s3\<lparr>kmem_mem := M4, freelist := q\<rparr>) (q # r # ps)"
    using delete_pool [OF F(2) q] by blast
  let ?s4 = "?s3\<lparr>kmem_mem := M4, freelist := q\<rparr>"
  have p: "page_ok ?s4 p" "p \<notin> set (q # r # ps)" using n1(3,4) by (simp_all add: page_ok_def)
  obtain M5 where s5: "operator_delete p ?s4 = Ret () (?s4\<lparr>kmem_mem := M5, freelist := p\<rparr>)" "pool (?s4\<lparr>kmem_mem := M5, freelist := p\<rparr>) (p # q # r # ps)"
    using delete_pool [OF s4(2) p] by blast
  have t: "?s4\<lparr>kmem_mem := M5, freelist := p\<rparr> = s\<lparr>kmem_mem := M5, freelist := p, adapters := (adapters s)[d := m]\<rparr>" by simp
  have "Main_ICMP irq d f s = Ret () (s\<lparr>kmem_mem := M5, freelist := p, adapters := (adapters s)[d := m]\<rparr>)"
    using n1(1) s2(1) F(1) s4(1) s5(1) assms(8,9) by (simp add: Main_ICMP_def kbind_def)
  moreover have "can_send d (s\<lparr>kmem_mem := M5, freelist := p, adapters := (adapters s)[d := m]\<rparr>)"
    using F(3) by (auto simp: can_send_def nic_of_def)
  ultimately show ?thesis using s5(2) F(4,5) unfolding t by blast
qed

lemma Main_ICMP_invalid:
  assumes "pool s (p # ps)" and "\<not> IsValid_ICMP f"
  shows "Main_ICMP irq d f s = Ret () (s\<lparr>freelist := ld64 (kmem_mem s) p\<rparr>) \<and> pool (s\<lparr>freelist := ld64 (kmem_mem s) p\<rparr>) ps"
  using operator_new_pool [OF assms(1)] assms(2) by (simp add: Main_ICMP_def kmon_defs)

section \<open>Properties\<close>


definition request_demo :: frame where
  "request_demo =
     (let k0 = SetTimeToLive 64 (SetDestinationAddress 0x0100000A (SetSourceAddress 0x0200000A (SetProtocol P_ICMP (IPv4_new (replicate 1518 0)))));
          k1 = SetType TEchoRequest k0;
          k2 = SetChecksum (VerifyChecksum_ICMP True k1) k1
      in SetHeaderChecksum (VerifyChecksum_IP True k2) k2)"

lemma request_demo_facts:
  "ip_ok request_demo" "IsValid_IP request_demo" "GetProtocol request_demo = P_ICMP" "header_bytes request_demo + 4 \<le> DataSize request_demo"
  "IsValid_ICMP request_demo" "GetType request_demo = TEchoRequest" "GetSourceAddress request_demo = 0x0200000A"
  "GetDestinationAddress request_demo = 0x0100000A"
proof -
  define n where "n = IPv4_new (replicate 1518 0)"
  have n: "frame_ok n" "GetDataAs8 0 n = 0x45" unfolding n_def by (simp_all add: IPv4_new_ok IPv4_new_header)
  define k0 where "k0 = SetTimeToLive 64 (SetDestinationAddress 0x0100000A (SetSourceAddress 0x0200000A (SetProtocol P_ICMP n)))"
  have ok0: "frame_ok k0" using n(1) by (simp add: k0_def ip_set_ok)
  have b0: "GetDataAs8 0 k0 = 0x45" "GetDataAs8 9 k0 = P_ICMP" "GetDataAs8 8 k0 = 64" "GetDataAs32 12 False k0 = 0x0200000A"
      "GetDataAs32 16 False k0 = 0x0100000A"
    using n by (simp_all add: k0_def SetTimeToLive_def SetDestinationAddress_def SetSourceAddress_def SetProtocol_def net_field)
  have size: "64 \<le> FrameSize k0" by (simp add: k0_def SetTimeToLive_def SetDataFrom8_def SetData_size)
  have hb: "header_bytes k0 = 20" using b0(1) by (simp add: header_bytes_def GetInternetHeaderLength_def)
  have ip0: "ip_ok k0" using ok0 size hb by (simp add: ip_ok_def)
  define k1 where "k1 = SetType TEchoRequest k0"
  have k1eq: "k1 = SetData_IP [8] 0 k0" by (simp add: k1_def SetType_def SetDataFrom8_IP_def)
  have room: "in_frame (header_bytes k0 + 0) (length [8 :: u8])" using hb by (simp add: in_frame_def)
  note k1 = SetData_IP_payload [OF ip0 room, folded k1eq]
  have "DataSize k1 \<le> 1504" "header_bytes k1 + 4 \<le> DataSize k1"
    using k1(1-3) hb size by (auto simp: DataSize_def ip_ok_def frame_ok_def)
  then have icmp1: "icmp_ok k1" using k1(1,4) by (simp add: icmp_ok_def unsigned_of_nat take_bit_eq_mod)
  define k2 where "k2 = SetChecksum (VerifyChecksum_ICMP True k1) k1"
  note k2 = SetChecksum_keeps [OF icmp1, where c = "VerifyChecksum_ICMP True k1", folded k2_def]
  have valid2: "IsValid_ICMP k2"
    using icmp_sum.sealed [OF icmp1, of k2] by (simp add: IsValid_ICMP_def VerifyChecksum_ICMP_sum k2_def)
  have d2: "GetDataAs8 0 k2 = 0x45" "GetDataAs8 9 k2 = P_ICMP" "GetDataAs8 8 k2 = 64" "GetDataAs32 12 False k2 = 0x0200000A"
      "GetDataAs32 16 False k2 = 0x0100000A"
    using b0 k1(7) k2(6) by (simp_all add: net_access)
  have ip2: "ip_ok k2" using k2(1) by (simp add: icmp_ok_def)
  define f where "f = SetHeaderChecksum (VerifyChecksum_IP True k2) k2"
  have req: "request_demo = f" by (simp add: request_demo_def Let_def f_def k2_def k1_def k0_def n_def)
  have same: "same_payload k2 f" unfolding f_def by (rule same_payload_header(5) [OF ip2])
  note fi = same_payload_icmp [OF k2(1) same]
  have d: "GetDataAs8 0 f = 0x45" "GetDataAs8 9 f = P_ICMP" "GetDataAs8 8 f = 64" "GetDataAs32 12 False f = 0x0200000A"
      "GetDataAs32 16 False f = 0x0100000A"
    using d2 ip2 by (simp_all add: f_def SetHeaderChecksum_def ip_ok_def net_field)
  have sum: "VerifyChecksum_IP False f = 0" using ip_sum.sealed [of k2 f] ip2 by (simp add: VerifyChecksum_IP_sum f_def ip_ok_def)
  show ip: "ip_ok request_demo" using same by (simp add: req same_payload_def)
  show len: "header_bytes request_demo + 4 \<le> DataSize request_demo" using fi(1) by (simp add: req icmp_ok_def)
  show "GetProtocol request_demo = P_ICMP" "GetSourceAddress request_demo = 0x0200000A" "GetDestinationAddress request_demo = 0x0100000A"
    using d by (simp_all add: req GetProtocol_def GetSourceAddress_def GetDestinationAddress_def)
  show "IsValid_ICMP request_demo" using fi(2) valid2 by (simp add: req)
  have "unat (GetTotalLength f) = DataSize f" using fi(1) by (simp add: icmp_ok_def)
  moreover have "64 \<le> FrameSize f" using ip by (simp add: req ip_ok_def)
  ultimately show "IsValid_IP request_demo"
    using d sum len by (simp add: req IsValid_IP_def GetVersion_def GetTimeToLive_def) (simp add: DataSize_def)
  have "GetData_IP 0 1 True f = GetData_IP 0 1 True k1"
    using fi(3) [of 0 1 True] k2(3) k2(7) [of 0 1 True] k1(2) hb by (simp add: in_frame_def)
  then show "GetType request_demo = TEchoRequest" using k1(5) [of True] by (simp add: req GetType_def GetDataAs8_IP_def)
qed

text \<open>A host that knows one neighbour.\<close>

definition icmp_host :: neticmp where
  "icmp_host = netarp.extend ((host_demo [2, 0, 0, 0, 0, 1] 0x0100000A)
     \<lparr>ARPTable := [\<lparr>Address = 0x0200000A, HWType = 1, arpFlags = 2, arpMAC = [2, 0, 0, 0, 0, 2], arpAdapter = 0\<rparr>]\<rparr>)
     (neticmp.fields False False 0 0)"

lemma icmp_host_fields:
  "kmem_mem icmp_host = kmem_mem kmem_two" "kend icmp_host = kend kmem_two" "freelist icmp_host = freelist kmem_two"
  "adapters icmp_host = adapters (host_demo [2, 0, 0, 0, 0, 1] 0x0100000A)"
  "AdapterIPAddressTable icmp_host = AdapterIPAddressTable (host_demo [2, 0, 0, 0, 0, 1] 0x0100000A)"
  "ARPTable icmp_host = [\<lparr>Address = 0x0200000A, HWType = 1, arpFlags = 2, arpMAC = [2, 0, 0, 0, 0, 2], arpAdapter = 0\<rparr>]"
  by (simp_all add: icmp_host_def host_demo_def netarp.defs neticmp.defs)

text \<open>A third page is freed first.\<close>

lemma icmp_host_pool:
  "\<exists>M. pool (icmp_host\<lparr>kmem_mem := M, freelist := 0xFFFFFFFF83202000\<rparr>) [0xFFFFFFFF83202000, 0xFFFFFFFF83201000, 0xFFFFFFFF83200000]"
proof -
  have "pool icmp_host [0xFFFFFFFF83201000, 0xFFFFFFFF83200000]"
    using pool_two by (simp add: pool_def page_ok_def icmp_host_fields)
  moreover have "page_ok icmp_host 0xFFFFFFFF83202000"
    by (simp add: page_ok_def icmp_host_fields kmem_two_def v2p_def)
  ultimately show ?thesis using delete_pool by fastforce
qed


text \<open>An ICMP packet with a wrong checksum costs a page. The handler returns without the \<open>delete\<close>, so as many such packets as there are
  free pages leave the allocator empty, and the next packet is written through a null pointer.\<close>

theorem icmp_leaks:
  assumes "pool s ps" and "\<forall>f\<in>set fs. \<not> IsValid_ICMP f" and "length fs = length ps" and "\<not> IsValid_ICMP f"
  shows "\<exists>t. foldl (\<lambda>m g. kthen m (Main_ICMP irq d g)) (kreturn ()) fs s = Ret () t \<and> pool t [] \<and> Main_ICMP irq d f t = Fault ''operator new''"
proof -
  have all: "\<exists>t. foldl (\<lambda>m g. kthen m (Main_ICMP irq d g)) (kreturn ()) gs s = Ret () t \<and> pool t (drop (length gs) ps)"
    if "length gs \<le> length ps" "\<forall>f\<in>set gs. \<not> IsValid_ICMP f" for gs
    using that
  proof (induction gs rule: rev_induct)
    case Nil
    then show ?case using assms(1) by (simp add: kreturn_def)
  next
    case (snoc g gs)
    then obtain t where t: "foldl (\<lambda>m g. kthen m (Main_ICMP irq d g)) (kreturn ()) gs s = Ret () t" "pool t (drop (length gs) ps)" by auto
    have "drop (length gs) ps = ps ! length gs # drop (Suc (length gs)) ps" using snoc.prems(1) by (simp add: Cons_nth_drop_Suc)
    then show ?case using Main_ICMP_invalid [of t "ps ! length gs" "drop (Suc (length gs)) ps" g irq d] t snoc.prems(2) by (auto simp: kbind_def)
  qed
  obtain t where t: "foldl (\<lambda>m g. kthen m (Main_ICMP irq d g)) (kreturn ()) fs s = Ret () t" "pool t []"
    using all [of fs] assms(2,3) by auto
  then have "Main_ICMP irq d f t = Fault ''operator new''" by (simp add: Main_ICMP_def operator_new_def pool_Nil kmon_defs)
  then show ?thesis using t by blast
qed

lemma no_data_invalid: "DataSize_IP f \<le> 0 \<Longrightarrow> \<not> IsValid_ICMP f"
  by (auto simp: IsValid_ICMP_def VerifyChecksum_ICMP_def icmp_words_def word_sum_def checksum16_zero Let_def)

theorem icmp_leaks_witness:
  "\<exists>t :: neticmp. \<exists>f. pool icmp_host [0xFFFFFFFF83201000, 0xFFFFFFFF83200000]
     \<and> kthen (kthen (kreturn ()) (Main_ICMP (kreturn ()) 0 f)) (Main_ICMP (kreturn ()) 0 f) icmp_host = Ret () t
     \<and> Main_ICMP (kreturn ()) 0 f t = Fault ''operator new''"
proof -
  let ?f = "SetTotalLength 0 request_demo"
  have "frame_ok request_demo" using request_demo_facts(1) by (simp add: ip_ok_def)
  then have "GetTotalLength ?f = 0" by (simp add: GetTotalLength_def SetTotalLength_def net_field)
  then have bad: "\<not> IsValid_ICMP ?f" by (intro no_data_invalid) (simp add: DataSize_IP_def)
  have pool: "pool icmp_host [0xFFFFFFFF83201000, 0xFFFFFFFF83200000]"
    using pool_two by (simp add: pool_def page_ok_def icmp_host_fields)
  from icmp_leaks [OF pool _ _ bad, of "[?f, ?f]" "kreturn ()" 0] bad pool
  show ?thesis by (intro exI [of _ ?f] ex_comm [THEN iffD1]) (auto intro: exI [of _ ?f])
qed

text \<open>Every field of every kind of message reads back as what was stored, behind a header of any length from twenty bytes on.\<close>

theorem icmp_fields:
  assumes "ip_ok f"
  shows "GetType (SetType b f) = b \<and> GetCode (SetCode b f) = b \<and> GetChecksum (SetChecksum w f) = w
    \<and> GetIdentifier_Echo (SetIdentifier_Echo w f) = w \<and> GetSequenceNumber_Echo (SetSequenceNumber_Echo w f) = w
    \<and> GetIPAddress_Redirect (SetIPAddress_Redirect v f) = v \<and> GetIdentifier_Stamp (SetIdentifier_Stamp w f) = w
    \<and> GetSequenceNumber_Stamp (SetSequenceNumber_Stamp w f) = w \<and> GetOriginateTime (SetOriginateTime v f) = v
    \<and> GetReceiveTime (SetReceiveTime v f) = v \<and> GetTransmitTime (SetTransmitTime v f) = v
    \<and> GetIdentifier_Mask (SetIdentifier_Mask w f) = w \<and> GetSequenceNumber_Mask (SetSequenceNumber_Mask w f) = w
    \<and> GetSubnetMask (SetSubnetMask v f) = v \<and> GetLength (SetLength b f) = b \<and> GetNextHopMTU (SetNextHopMTU w f) = w"
proof -
  have room: "in_frame (header_bytes f + start) n" if "start + n \<le> 20" for start n
    using header_bytes_le [of f] that by (simp add: in_frame_def)
  note get = SetData_IP_payload(5) [OF assms room, where r = True]
  have b: "GetData_IP start 1 True (SetData_IP [b] start f) = [b]" if "start + 1 \<le> 20" for start
    using get [of start "[b]"] that by simp
  have w: "GetData_IP start 2 True (SetData_IP (rev (bytes16 w)) start f) = bytes16 w" if "start + 2 \<le> 20" for start
    using get [of start "rev (bytes16 w)"] that by simp
  have v: "GetData_IP start 4 True (SetData_IP (rev (bytes32 v)) start f) = bytes32 v" if "start + 4 \<le> 20" for start
    using get [of start "rev (bytes32 v)"] that by simp
  show ?thesis
    using b w v
    by (simp add: GetType_def SetType_def GetCode_def SetCode_def GetChecksum_def SetChecksum_def GetDataAs8_IP_def GetDataAs16_IP_def
        SetDataFrom8_IP_def SetDataFrom16_IP_def GetDataAs8_ICMP_def GetDataAs16_ICMP_def GetDataAs32_ICMP_def GetData_ICMP_def
        SetDataFrom8_ICMP_def SetDataFrom16_ICMP_def SetDataFrom32_ICMP_def SetData_ICMP_def
        GetIdentifier_Echo_def SetIdentifier_Echo_def GetSequenceNumber_Echo_def SetSequenceNumber_Echo_def
        GetIPAddress_Redirect_def SetIPAddress_Redirect_def GetIdentifier_Stamp_def SetIdentifier_Stamp_def
        GetSequenceNumber_Stamp_def SetSequenceNumber_Stamp_def GetOriginateTime_def SetOriginateTime_def GetReceiveTime_def
        SetReceiveTime_def GetTransmitTime_def SetTransmitTime_def GetIdentifier_Mask_def SetIdentifier_Mask_def
        GetSequenceNumber_Mask_def SetSequenceNumber_Mask_def GetSubnetMask_def SetSubnetMask_def GetLength_def SetLength_def
        GetNextHopMTU_def SetNextHopMTU_def word16_bytes16 word32_bytes32)
qed

theorem icmp_fields_witness:
  "GetTransmitTime (SetTransmitTime 7 request_demo) = 7 \<and> GetType (SetType 13 request_demo) = 13"
  using icmp_fields [OF request_demo_facts(1), of 13 0 7] by simp

end
