(* ===== verification/Spec2Isabelle.thy ===== *)
theory Spec2Isabelle
  imports Xv_Prelude Kstring Spinlock Kalloc Proc Bio Log Pipe Vm Fs_Block Fs_Inode Fs_Path File Sysfile Net_Frame Net_List Net_Adapter Net_Checksum Net_Ip Net_Arp Net_Icmp
begin

text \<open>
  A verification development for the XV64 kernel, a 64-bit descendant of xv6 written in C, and for its network stack,
  written in C++. Paths are relative to \<open>src/\<close>.

  \<^bold>\<open>The program.\<close> The kernel hands out pages of memory (\<open>kernel/kalloc.c\<close>), builds page tables in them (\<open>kernel/vm.c\<close>,
  \<open>kernel/vm64.c\<close>), keeps a table of processes that it schedules and puts to sleep (\<open>kernel/proc.c\<close>) under spin locks
  (\<open>kernel/spinlock.c\<close>), and stores files on a disk. A system call on a file (\<open>kernel/sysfile.c\<close>) goes through the table
  of open files (\<open>kernel/file.c\<close>) to a pipe (\<open>kernel/pipe.c\<close>) or, through path names and inodes (\<open>kernel/vfs.c\<close>), to a file
  system (\<open>kernel/fs/fs1.c\<close>, \<open>kernel/fs/ext2.c\<close>), which reads and writes blocks in the buffer cache (\<open>kernel/bio.c\<close>)
  inside transactions of a write-ahead log (\<open>kernel/log.c\<close>); the cache calls the disk driver (\<open>kernel/ide.c\<close>). The network
  stack receives frames from a driver (\<open>kernel/UNetworkAdapter.cc\<close>), dispatches them by type (\<open>kernel/UEtherFrame.cc\<close>) to ARP
  and IPv4 and by protocol to ICMP (\<open>kernel/UProtocols.cc\<close>).

  \<^bold>\<open>The model.\<close> Code is a shallow embedding in a state monad with outcomes (theory \<open>Xv_Prelude\<close>): \<open>Ret\<close>, \<open>Panic\<close> with the
  message of the source, \<open>Sleep\<close> where a process gives up the CPU, \<open>Fault\<close> for an access through a null pointer or beyond an
  array. Integers have the width of the source where it matters and are words then. The state is one record that grows with
  the layers: \<open>kmem\<close>, \<open>ptab\<close>, \<open>bio\<close>, \<open>logst\<close>, \<open>pipest\<close>, \<open>fsst\<close>, \<open>filest\<close> for the kernel, \<open>kmem\<close>, \<open>netdev\<close>, \<open>netip\<close>,
  \<open>netarp\<close>, \<open>neticmp\<close> for the network; an operation is polymorphic in what later layers add, so that the same definition
  serves all of them. Sections under a lock are atomic, except in \<open>Spinlock\<close>, where every access to shared memory is a
  step and the CPUs interleave.

  \<^bold>\<open>The theories.\<close>

  \<^item> \<open>Xv_Prelude\<close>: the monad, words and bytes, slices of byte lists, little-endian fields.
  \<^item> \<open>Kstring\<close>: \<open>kernel/sysstring.c\<close> and the string instructions of \<open>include/x86.h\<close> on byte-addressed memory, with overlap and
    wrap-around of addresses. \<open>memmove\<close> copies for every overlap; \<open>memset\<close>, \<open>strncmp\<close>, \<open>strncpy\<close>, \<open>safestrcpy\<close> are what
    their specifications say.
  \<^item> \<open>Spinlock\<close>: \<open>kernel/spinlock.c\<close> as a step relation on CPUs that interleave. Two CPUs never hold a lock at once, correct
    use never panics, and a timed-out \<open>sacquire\<close> leaves interrupts off.
  \<^item> \<open>Kalloc\<close>: \<open>kernel/kalloc.c\<close> with the free list in the free pages. The locale \<open>page_pool\<close> is the contract of the allocator; no
    sequence of requests gets a page twice. \<open>kmalloc\<close> fails beyond 255 pages.
  \<^item> \<open>Vm\<close>: \<open>kernel/vm.c\<close> and \<open>kernel/vm64.c\<close> with the page tables in the same memory. \<open>uvm_ok\<close> is the invariant of an address space;
    the copy for a child has the parent's contents on pages of its own; releasing an address space loses two pages; growing
    one reports success although the mapping failed.
  \<^item> \<open>Proc\<close>: the process table of \<open>kernel/proc.c\<close>. Identifiers of live processes are distinct in all reachable states, the
    scheduler chooses by effective priority and can starve a process, a wakeup reaches exactly the sleepers on its channel.
  \<^item> \<open>Bio\<close>: \<open>kernel/bio.c\<close> and the request queue of \<open>kernel/ide.c\<close>. The locale \<open>buffer_cache\<close> is the contract: a reader sees the
    last written contents. The cache implements it and replaces the least recently used buffer.
  \<^item> \<open>Log\<close>: \<open>kernel/log.c\<close>, with the disk writes in order. After a crash at any point recovery leaves all writes of a transaction
    or none; the header write is the point of commitment; the space that \<open>begin_op\<close> reserves can be exceeded.
  \<^item> \<open>Pipe\<close>: \<open>kernel/pipe.c\<close>. The locale \<open>byte_channel\<close> is the contract of a channel: what is read is what was written, in order.
  \<^item> \<open>Fs_Block\<close>, \<open>Fs_Inode\<close>, \<open>Fs_Path\<close>: the file system of \<open>kernel/fs/fs1.c\<close>, the functions of \<open>kernel/fs/ext2.c\<close> it can be replaced by, and
    \<open>kernel/vfs.c\<close>: superblock and bitmap; inodes, the block map, reading and writing; inode caches, directories and paths. A
    block is allocated once; a write puts its bytes into the file and changes no other file; a read returns them; a path
    is split at its slashes; there is one in-memory inode for each inode of one cache, but two for a root that both caches hold.
  \<^item> \<open>File\<close>, \<open>Sysfile\<close>: \<open>kernel/file.c\<close> and \<open>kernel/sysfile.c\<close>. A write of any length through an open file runs in transactions that
    fit the log, and is on the disk when the call returns.
  \<^item> \<open>Net_Frame\<close>, \<open>Net_List\<close>, \<open>Net_Adapter\<close>, \<open>Net_Checksum\<close>, \<open>Net_Ip\<close>, \<open>Net_Arp\<close>, \<open>Net_Icmp\<close>: frames, \<open>include/UArrayList.tcc\<close> and
    \<open>include/URandom.tcc\<close>, the Intel 8254x driver with its rings, the Internet checksum (locale \<open>checksum_field\<close>, used for IPv4 and
    ICMP), IPv4 packets and routing, ARP, and ICMP with the dispatch and the system calls of the network.

  \<^bold>\<open>Properties.\<close> The theorems that a text marks with \<open>C1\<close> to \<open>C40\<close> are the properties of the development; those with hypotheses are
  followed by a witness that applies them to a concrete state. The other lemmas are the laws they rest on: for each operation
  one law that says what it returns, what it changes and what it keeps (\<open>_law\<close>), over the abstractions \<open>bview\<close> and \<open>fview\<close>
  (the disk as a reader sees it), \<open>file_bytes\<close> (a file as a list of bytes), \<open>pte_of\<close> (an address space as a function), \<open>pool\<close>
  (the free pages as a list).

  \<^bold>\<open>Loops and bounds.\<close> There is no fuel. A loop whose turns depend only on its arguments runs over a list of them (\<open>chunks\<close>, \<open>pieces\<close>,
  \<open>path_elems\<close>, \<open>map_steps\<close>); one whose turns depend on the state is a \<open>function\<close> with a measure (\<open>iget\<close>, \<open>allocproc\<close>,
  \<open>freerange_loop\<close>, \<open>dealloc_loop\<close>, \<open>copyout_loop\<close>); the three that need not end for every input (\<open>strlen_loop\<close>, \<open>kmalloc_loop\<close>,
  \<open>qsort\<close>) are partial functions whose value is \<open>None\<close> then. Waiting loops deliver the interrupts they wait for. The counter of
  \<open>dealloc_loop\<close> is a number: all callers pass sizes of at most 32 bits, where the 64-bit counter does not wrap.

  \<^bold>\<open>Parameters.\<close> What the code does not define itself is an argument: addresses from the linker, the table of device functions, the
  SATA transfer, the answer of a lock that can time out, the handlers of TCP and UDP and the socket functions.

  \<^bold>\<open>Not modelled.\<close> Of \<open>kernel/proc.c\<close>: \<open>fork\<close>, \<open>exit\<close>, \<open>wait\<close>, \<open>userinit\<close>, \<open>growproc\<close>, blessing, the loop device and \<open>procdump\<close>. Of
  \<open>kernel/vm.c\<close> and \<open>kernel/vm64.c\<close>: \<open>loaduvm\<close> and the descriptor tables of \<open>seginit\<close>. Of \<open>kernel/ide.c\<close>: the probing at start-up. TCP, UDP
  and sockets (\<open>include/UProtocols4.tcc\<close>, \<open>kernel/USocket.cc\<close>); program loading (\<open>kernel/exec.c\<close>); traps and the fetching of system
  call arguments (\<open>kernel/trap.c\<close>, \<open>kernel/syscall.c\<close>, \<open>kernel/sysproc.c\<close>); console, keyboard, screen and serial line; PCI and SATA
  registers; start-up, ACPI and interrupt controllers; assembly; the tool \<open>tools/mkfs.c\<close>, which runs on the host; the user
  library and the user programs, which run on the system calls. Functions that only print are left out throughout.
\<close>

end
